(* ===== verification/IQueue.thy ===== *)
theory IQueue
  imports Main
begin

text \<open>
  The intrusive doubly linked queues of \<open>ikcp.h\<close> (\<open>IQUEUE_INIT\<close> to \<open>iqueue_splice_init\<close>). The heap
  maps the address of a \<open>struct IQUEUEHEAD\<close> to its two pointers; the macros are sequences
  of pointer assignments on it. \<open>is_queue h q xs\<close> says that the circular list at the head \<open>q\<close> holds
  the nodes \<open>xs\<close>, in this order. The locale \<open>linked_queue\<close> is the interface \<open>ikcp.c\<close> relies on; it
  is interpreted on the macros, which justifies the lists of segments in \<open>Kcp_Types\<close>.
\<close>

type_synonym ptr = nat

record qheap =
  nxt :: "ptr \<Rightarrow> ptr"
  prv :: "ptr \<Rightarrow> ptr"

definition set_nxt :: "ptr \<Rightarrow> ptr \<Rightarrow> qheap \<Rightarrow> qheap" where
  "set_nxt p v h = h\<lparr>nxt := (nxt h)(p := v)\<rparr>"

definition set_prv :: "ptr \<Rightarrow> ptr \<Rightarrow> qheap \<Rightarrow> qheap" where
  "set_prv p v h = h\<lparr>prv := (prv h)(p := v)\<rparr>"

definition iqueue_init :: "ptr \<Rightarrow> qheap \<Rightarrow> qheap" where
  "iqueue_init p h = set_prv p p (set_nxt p p h)"

definition iqueue_add :: "ptr \<Rightarrow> ptr \<Rightarrow> qheap \<Rightarrow> qheap" where
  "iqueue_add node head h =
     (let h = set_prv node head h;
          h = set_nxt node (nxt h head) h;
          h = set_prv (nxt h head) node h;
          h = set_nxt head node h
      in h)"

definition iqueue_add_tail :: "ptr \<Rightarrow> ptr \<Rightarrow> qheap \<Rightarrow> qheap" where
  "iqueue_add_tail node head h =
     (let h = set_prv node (prv h head) h;
          h = set_nxt node head h;
          h = set_nxt (prv h head) node h;
          h = set_prv head node h
      in h)"

definition iqueue_del :: "ptr \<Rightarrow> qheap \<Rightarrow> qheap" where
  "iqueue_del entry h =
     (let h = set_prv (nxt h entry) (prv h entry) h;
          h = set_nxt (prv h entry) (nxt h entry) h;
          h = set_nxt entry 0 h;
          h = set_prv entry 0 h
      in h)"

definition iqueue_del_init :: "ptr \<Rightarrow> qheap \<Rightarrow> qheap" where
  "iqueue_del_init entry h = iqueue_init entry (iqueue_del entry h)"

definition iqueue_is_empty :: "ptr \<Rightarrow> qheap \<Rightarrow> bool" where
  "iqueue_is_empty entry h = (entry = nxt h entry)"

definition iqueue_splice :: "ptr \<Rightarrow> ptr \<Rightarrow> qheap \<Rightarrow> qheap" where
  "iqueue_splice list head h =
     (if iqueue_is_empty list h then h
      else let first = nxt h list; last = prv h list; at = nxt h head;
               h = set_prv first head h;
               h = set_nxt head first h;
               h = set_nxt last at h;
               h = set_prv at last h
           in h)"

definition iqueue_splice_init :: "ptr \<Rightarrow> ptr \<Rightarrow> qheap \<Rightarrow> qheap" where
  "iqueue_splice_init list head h = iqueue_init list (iqueue_splice list head h)"

lemmas iqueue_defs =
  iqueue_init_def iqueue_add_def iqueue_add_tail_def iqueue_del_def iqueue_del_init_def
  iqueue_is_empty_def iqueue_splice_def iqueue_splice_init_def set_nxt_def set_prv_def Let_def

section \<open>What a heap with a queue looks like\<close>

fun linked :: "qheap \<Rightarrow> ptr list \<Rightarrow> bool" where
  "linked h (a # b # r) = (nxt h a = b \<and> prv h b = a \<and> linked h (b # r))"
| "linked h r = True"

definition is_queue :: "qheap \<Rightarrow> ptr \<Rightarrow> ptr list \<Rightarrow> bool" where
  "is_queue h q xs = (distinct (q # xs) \<and> linked h (q # xs @ [q]))"

lemma linked_append: "linked h (xs @ a # ys) \<longleftrightarrow> linked h (xs @ [a]) \<and> linked h (a # ys)"
proof (induction xs)
  case Nil
  then show ?case by simp
next
  case (Cons x xs)
  then show ?case by (cases xs) auto
qed

lemma linked_snoc: "linked h (xs @ [a, b]) \<longleftrightarrow> linked h (xs @ [a]) \<and> nxt h a = b \<and> prv h b = a"
  by (subst linked_append) simp

text \<open>A chain depends on the \<open>next\<close> of all nodes but the last and the \<open>prev\<close> of all but the first.\<close>

lemma linked_cong:
  "(\<And>p. p \<in> set (butlast xs) \<Longrightarrow> nxt h' p = nxt h p) \<Longrightarrow>
   (\<And>p. p \<in> set (tl xs) \<Longrightarrow> prv h' p = prv h p) \<Longrightarrow> linked h' xs = linked h xs"
  by (induction h xs rule: linked.induct) auto

lemma linked_set_nxt: "p \<notin> set (butlast xs) \<Longrightarrow> linked (set_nxt p v h) xs = linked h xs"
  by (rule linked_cong) (auto simp: set_nxt_def)

lemma linked_set_prv: "p \<notin> set (tl xs) \<Longrightarrow> linked (set_prv p v h) xs = linked h xs"
  by (rule linked_cong) (auto simp: set_prv_def)

text \<open>The neighbours of a position: the cycle through the head as a chain that is cut there.\<close>

lemma is_queue_split:
  "is_queue h q (us @ e # vs) \<longleftrightarrow>
     distinct (q # us @ e # vs) \<and> linked h (q # us @ [e]) \<and> linked h (e # vs @ [q])"
  using linked_append [of h "q # us" e "vs @ [q]"] by (auto simp: is_queue_def)

lemma is_queue_next: "is_queue h q xs \<Longrightarrow> nxt h q = hd (xs @ [q])"
  by (cases xs) (auto simp: is_queue_def)

lemma linked_last: "linked h (a # xs @ [b]) \<Longrightarrow> prv h b = last (a # xs)"
  by (cases xs rule: rev_cases) (auto simp: linked_snoc [of h "a # _", simplified])

lemma is_queue_prev: "is_queue h q xs \<Longrightarrow> prv h q = last (q # xs)"
  unfolding is_queue_def by (blast intro: linked_last)

section \<open>The operations as list operations\<close>

text \<open>
  Every operation rewires pointers at one place of the cycle. \<open>cycle h cs\<close> is the whole cycle
  with the head first, so that insertion after the head and after a node are one lemma.
\<close>

lemma linked_split_cycle:
  "q # xs = us @ p # vs \<Longrightarrow> linked h (q # xs @ [q]) \<longleftrightarrow> linked h (us @ [p]) \<and> linked h (p # vs @ [q])"
  using linked_append [of h us p "vs @ [q]"] by (metis append_Cons append_assoc)

lemma add_after:
  assumes q: "is_queue h q xs" and sp: "q # xs = us @ p # vs" and n: "n \<notin> set (q # xs)"
  shows "linked (iqueue_add n p h) (us @ p # n # vs @ [q])"
proof -
  let ?h = "iqueue_add n p h" and ?s = "hd (vs @ [q])"
  have "distinct (q # xs)" using q by (simp add: is_queue_def)
  then have d: "distinct (us @ p # vs)" "q \<in> set (us @ p # vs)" "n \<notin> set (us @ p # vs)"
    using sp n by (metis, metis list.set_intros(1), metis)
  have l: "linked h (us @ [p])" "linked h (p # vs @ [q])"
    using q linked_split_cycle [OF sp] by (simp_all add: is_queue_def)
  have s: "nxt h p = ?s" using l(2) by (cases vs) auto
  have q_us: "q = hd (us @ [p])" using sp by (cases us) auto
  have "?s \<noteq> n" "p \<noteq> n" using d by (cases vs; auto)+
  then have f: "nxt ?h x = (if x = p then n else if x = n then ?s else nxt h x)"
    "prv ?h x = (if x = ?s then n else if x = n then p else prv h x)" for x
    using s by (auto simp: iqueue_defs)
  have s_in: "?s \<notin> set (tl (us @ [p]))"
    using d q_us by (cases vs; cases us) auto
  have n_in: "n \<notin> set (tl (us @ [p]))" using d by (cases us) auto
  have 1: "linked ?h (us @ [p])"
    using l(1) by (rule linked_cong [THEN iffD2, rotated 2])
      (use d s_in n_in in \<open>auto simp: f dest: in_set_butlastD list.set_sel(2)\<close>)
  have 2: "linked ?h (vs @ [q])"
  proof (rule linked_cong [THEN iffD2])
    show "linked h (vs @ [q])" using l(2) by (cases vs) auto
    show "nxt ?h x = nxt h x" if "x \<in> set (butlast (vs @ [q]))" for x
      using that d by (auto simp: f)
    show "prv ?h x = prv h x" if "x \<in> set (tl (vs @ [q]))" for x
    proof -
      have "x \<noteq> ?s" using that d sp by (cases vs; cases us) auto
      moreover have "x \<noteq> n" using that d by (cases vs) auto
      ultimately show ?thesis by (simp add: f)
    qed
  qed
  have 3: "linked ?h (p # n # vs @ [q])"
    using 2 d by (cases vs) (auto simp: f)
  show ?thesis using 1 3 by (subst linked_append) simp
qed

lemma is_queue_add_head:
  assumes "is_queue h q xs" "n \<notin> set (q # xs)"
  shows "is_queue (iqueue_add n q h) q (n # xs)"
  using add_after [OF assms(1), of "[]" q xs n] assms by (auto simp: is_queue_def)

lemma is_queue_add_after:
  assumes "is_queue h q (us @ p # vs)" "n \<notin> set (q # us @ p # vs)"
  shows "is_queue (iqueue_add n p h) q (us @ p # n # vs)"
  using add_after [OF assms(1), of "q # us" p vs n] assms by (auto simp: is_queue_def)

text \<open>\<open>iqueue_add_tail\<close> at a head is \<open>iqueue_add\<close> after the last node of its cycle.\<close>

lemma add_tail_eq_add:
  assumes "is_queue h q xs" "n \<notin> set (q # xs)"
  shows "iqueue_add_tail n q h = iqueue_add n (last (q # xs)) h"
proof -
  let ?l = "last (q # xs)"
  have p: "prv h q = ?l" using assms(1) by (rule is_queue_prev)
  have "nxt h ?l = q"
  proof (cases xs rule: rev_cases)
    case Nil
    then show ?thesis using assms(1) by (simp add: is_queue_def)
  next
    case (snoc ys y)
    then show ?thesis using assms(1) linked_snoc [of h "q # ys" y q] by (auto simp: is_queue_def)
  qed
  moreover have "?l \<noteq> n" "q \<noteq> n" using assms(2) by (auto split: if_splits)
  ultimately show ?thesis using p by (auto simp: iqueue_defs fun_eq_iff)
qed

lemma is_queue_add_tail:
  assumes "is_queue h q xs" "n \<notin> set (q # xs)"
  shows "is_queue (iqueue_add_tail n q h) q (xs @ [n])"
proof (cases xs rule: rev_cases)
  case Nil
  then show ?thesis using assms by (simp add: add_tail_eq_add is_queue_add_head)
next
  case (snoc ys y)
  then show ?thesis
    using assms is_queue_add_after [of h q ys y "[]" n] by (simp add: add_tail_eq_add)
qed

lemma is_queue_del:
  assumes "is_queue h q (us @ e # vs)"
  shows "is_queue (iqueue_del e h) q (us @ vs)"
proof -
  let ?h = "iqueue_del e h" and ?p = "last (q # us)" and ?s = "hd (vs @ [q])"
  have d: "distinct (q # us @ e # vs)" and l: "linked h (q # us @ [e])" "linked h (e # vs @ [q])"
    using assms by (auto simp: is_queue_split)
  have ps: "prv h e = ?p" "nxt h e = ?s"
    using linked_last [OF l(1)] l(2) by (cases vs, auto)+
  have ne: "?p \<noteq> e" "?s \<noteq> e" using d by (cases us rule: rev_cases; cases vs; auto)+
  have f: "nxt ?h x = (if x = e then 0 else if x = ?p then ?s else nxt h x)"
    "prv ?h x = (if x = e then 0 else if x = ?s then ?p else prv h x)" for x
    using ps ne by (auto simp: iqueue_defs)
  obtain ws where ws: "q # us = ws @ [?p]" by (metis append_butlast_last_id list.distinct(1))
  then have cyc: "q # us @ e # vs = ws @ ?p # e # vs" by (metis append.assoc append_Cons append_Nil)
  then have dw: "distinct (ws @ ?p # e # vs)" using d by metis
  have "linked ?h (ws @ [?p])"
  proof (rule linked_cong [THEN iffD2])
    show "linked h (ws @ [?p])" using l(1) linked_append [of h ws ?p "[e]"] ws
      by (metis append.assoc append_Cons append_Nil)
    show "nxt ?h x = nxt h x" if "x \<in> set (butlast (ws @ [?p]))" for x
      using that dw by (auto simp: f simp del: last.simps)
    show "prv ?h x = prv h x" if "x \<in> set (tl (ws @ [?p]))" for x
    proof -
      have "x \<in> set us" using that ws by (metis list.sel(3))
      then show ?thesis using d by (cases vs) (auto simp: f)
    qed
  qed
  moreover have "linked ?h (?p # vs @ [q])"
  proof -
    have "linked h (vs @ [q])" using l(2) by (cases vs) auto
    then have "linked ?h (vs @ [q])"
      by (rule linked_cong [THEN iffD2, rotated 2]) (use d in \<open>cases vs; cases us rule: rev_cases; auto simp: f\<close>)+
    moreover have "nxt ?h ?p = ?s" "prv ?h ?s = ?p" using ne by (auto simp: f)
    ultimately show ?thesis by (cases vs) auto
  qed
  ultimately have "linked ?h (ws @ ?p # vs @ [q])" by (subst linked_append) simp
  moreover have "ws @ ?p # vs @ [q] = q # (us @ vs) @ [q]" using ws by (metis append.assoc append_Cons append_Nil)
  ultimately have "linked ?h (q # (us @ vs) @ [q])" by metis
  then show ?thesis using d unfolding is_queue_def by simp
qed

lemma is_queue_frame:
  "(\<And>x. x \<in> set (q # xs) \<Longrightarrow> nxt h' x = nxt h x \<and> prv h' x = prv h x) \<Longrightarrow>
   is_queue h' q xs = is_queue h q xs"
  unfolding is_queue_def
  by (subst linked_cong [of "q # xs @ [q]" h' h]) (auto dest: in_set_butlastD)

lemma add_after_frame:
  assumes "is_queue h q xs" "p \<in> set (q # xs)" "is_queue h q' ys" "n \<notin> set (q' # ys)"
    "set (q # xs) \<inter> set (q' # ys) = {}"
  shows "is_queue (iqueue_add n p h) q' ys"
proof -
  obtain us vs where sp: "q # xs = us @ p # vs" using assms(2) by (meson split_list)
  have "linked h (p # vs @ [q])"
    using assms(1) linked_split_cycle [OF sp] by (simp add: is_queue_def)
  then have "nxt h p = hd (vs @ [q])" by (cases vs) auto
  moreover have "set (us @ p # vs) = set (q # xs)" using sp by simp
  ultimately have "nxt h p \<in> set (q # xs)" by (cases vs) auto
  then have "is_queue (iqueue_add n p h) q' ys = is_queue h q' ys"
    by (rule_tac is_queue_frame) (use assms in \<open>auto simp: iqueue_defs\<close>)
  then show ?thesis using assms by simp
qed

lemma add_tail_frame:
  assumes "is_queue h q xs" "n \<notin> set (q # xs)" "is_queue h q' ys" "n \<notin> set (q' # ys)"
    "set (q # xs) \<inter> set (q' # ys) = {}"
  shows "is_queue (iqueue_add_tail n q h) q' ys"
  unfolding add_tail_eq_add [OF assms(1,2)]
  by (rule add_after_frame [OF assms(1) _ assms(3-5)]) simp

lemma del_frame:
  assumes "is_queue h q (us @ e # vs)" "is_queue h q' ys"
    "set (q # us @ e # vs) \<inter> set (q' # ys) = {}"
  shows "is_queue (iqueue_del e h) q' ys"
proof -
  have "linked h (q # us @ [e])" "linked h (e # vs @ [q])"
    using assms(1) by (auto simp: is_queue_split)
  then have "prv h e = last (q # us)" "nxt h e = hd (vs @ [q])"
    using linked_last [of h q us e] by (simp, cases vs, simp_all)
  moreover have "last (q # us) \<in> set (q # us)" "hd (vs @ [q]) \<in> set (q # vs)"
    by (rule last_in_set, simp, cases vs, simp_all)
  ultimately have in_q: "prv h e \<in> set (q # us @ e # vs)" "nxt h e \<in> set (q # us @ e # vs)"
    by auto
  have "is_queue (iqueue_del e h) q' ys = is_queue h q' ys"
  proof (rule is_queue_frame)
    fix x assume "x \<in> set (q' # ys)"
    then have "x \<noteq> e" "x \<noteq> prv h e" "x \<noteq> nxt h e" using in_q assms(3) by auto
    then show "nxt (iqueue_del e h) x = nxt h x \<and> prv (iqueue_del e h) x = prv h x"
      using in_q by (auto simp: iqueue_defs)
  qed
  then show ?thesis using assms by simp
qed

lemma is_queue_init: "is_queue (iqueue_init q h) q []"
  by (simp add: is_queue_def iqueue_defs)

lemma is_queue_empty: "is_queue h q xs \<Longrightarrow> iqueue_is_empty q h \<longleftrightarrow> xs = []"
  using is_queue_next [of h q xs] by (cases xs) (auto simp: iqueue_is_empty_def is_queue_def)

section \<open>The interface, its clients, and the implementation\<close>

locale linked_queue =
  fixes rep :: "'h \<Rightarrow> 'p \<Rightarrow> 'p list \<Rightarrow> bool"
    and add_at :: "'p \<Rightarrow> 'p \<Rightarrow> 'h \<Rightarrow> 'h"
    and add_tail :: "'p \<Rightarrow> 'p \<Rightarrow> 'h \<Rightarrow> 'h"
    and del :: "'p \<Rightarrow> 'h \<Rightarrow> 'h"
    and is_empty :: "'p \<Rightarrow> 'h \<Rightarrow> bool"
    and first :: "'h \<Rightarrow> 'p \<Rightarrow> 'p"
  assumes rep_distinct: "rep h q xs \<Longrightarrow> distinct (q # xs)"
    and rep_first: "rep h q (x # xs) \<Longrightarrow> first h q = x"
    and rep_empty: "rep h q xs \<Longrightarrow> is_empty q h \<longleftrightarrow> xs = []"
    and rep_add_head: "rep h q xs \<Longrightarrow> n \<notin> set (q # xs) \<Longrightarrow> rep (add_at n q h) q (n # xs)"
    and rep_add_at: "rep h q (us @ p # vs) \<Longrightarrow> n \<notin> set (q # us @ p # vs) \<Longrightarrow>
      rep (add_at n p h) q (us @ p # n # vs)"
    and rep_add_tail: "rep h q xs \<Longrightarrow> n \<notin> set (q # xs) \<Longrightarrow> rep (add_tail n q h) q (xs @ [n])"
    and rep_del: "rep h q (us @ e # vs) \<Longrightarrow> rep (del e h) q (us @ vs)"
    and frame_add_tail: "rep h q xs \<Longrightarrow> n \<notin> set (q # xs) \<Longrightarrow> rep h q' ys \<Longrightarrow>
      n \<notin> set (q' # ys) \<Longrightarrow> set (q # xs) \<inter> set (q' # ys) = {} \<Longrightarrow> rep (add_tail n q h) q' ys"
    and frame_del: "rep h q (us @ e # vs) \<Longrightarrow> rep h q' ys \<Longrightarrow>
      set (q # us @ e # vs) \<inter> set (q' # ys) = {} \<Longrightarrow> rep (del e h) q' ys"
begin

text \<open>The move of \<open>ikcp_recv\<close>, \<open>ikcp_parse_data\<close> and \<open>ikcp_flush\<close>: first of one queue to the end of another.\<close>

lemma move_first:
  assumes a: "rep h a (x # xs)" and b: "rep h b ys" and d: "set (a # x # xs) \<inter> set (b # ys) = {}"
  shows "rep (add_tail (first h a) b (del (first h a) h)) a xs \<and>
         rep (add_tail (first h a) b (del (first h a) h)) b (ys @ [x])"
proof -
  have x: "first h a = x" using a by (rule rep_first)
  have 1: "rep (del x h) a xs" using rep_del [of h a "[]" x xs] a by simp
  have 2: "rep (del x h) b ys" using frame_del [of h a "[]" x xs b ys] a b d by simp
  have 3: "x \<notin> set (b # ys)" "x \<notin> set (a # xs)" using d rep_distinct [OF a] by auto
  have 4: "rep (add_tail x b (del x h)) a xs"
    by (rule frame_add_tail [OF 2 3(1) 1 3(2)]) (use d in auto)
  show ?thesis using 4 rep_add_tail [OF 2 3(1)] x by simp
qed

text \<open>The replacement of the last node by \<open>ikcp_send\<close> in stream mode: append the new, unlink the old.\<close>

lemma replace_last:
  assumes "rep h q (xs @ [old])" "n \<notin> set (q # xs @ [old])"
  shows "rep (del old (add_tail n q h)) q (xs @ [n])"
  using rep_del [of "add_tail n q h" q xs old "[n]"] rep_add_tail [OF assms] by simp

end

interpretation iq: linked_queue is_queue iqueue_add iqueue_add_tail iqueue_del iqueue_is_empty nxt
proof unfold_locales
  show "distinct (q # xs)" if "is_queue h q xs" for h q xs
    using that by (simp add: is_queue_def)
  show "nxt h q = x" if "is_queue h q (x # xs)" for h q x xs
    using is_queue_next [OF that] by simp
qed (fact is_queue_empty is_queue_add_head is_queue_add_after is_queue_add_tail is_queue_del
      add_tail_frame del_frame)+

text \<open>
  C25. The pointer code implements lists. On a heap where the circular list at \<open>a\<close> holds the nodes
  \<open>x # xs\<close> and the one at \<open>b\<close> holds \<open>ys\<close>, unlinking the first node of \<open>a\<close> and linking it at the
  tail of \<open>b\<close>, as the code does to move a segment between two of its queues, leaves the lists \<open>xs\<close>
  and \<open>ys @ [x]\<close>; linking a new node after the node \<open>p\<close> of a queue inserts it right behind \<open>p\<close>.
\<close>

theorem iqueue_move_refines_lists:
  assumes "is_queue h a (x # xs)" "is_queue h b ys" "set (a # x # xs) \<inter> set (b # ys) = {}"
  shows "is_queue (iqueue_add_tail (nxt h a) b (iqueue_del (nxt h a) h)) a xs \<and>
         is_queue (iqueue_add_tail (nxt h a) b (iqueue_del (nxt h a) h)) b (ys @ [x])"
  by (rule iq.move_first [OF assms])

definition two_queues :: qheap where
  "two_queues = \<lparr>nxt = (\<lambda>p. if p = 1 then 2 else if p = 2 then 1 else p),
     prv = (\<lambda>p. if p = 1 then 2 else if p = 2 then 1 else p)\<rparr>"

theorem iqueue_move_refines_lists_witness:
  "is_queue (iqueue_add_tail 2 3 (iqueue_del 2 two_queues)) 3 [2]"
proof -
  have "is_queue two_queues 1 [2]" "is_queue two_queues 3 []" "nxt two_queues 1 = 2"
    by (simp_all add: is_queue_def two_queues_def)
  then show ?thesis using iqueue_move_refines_lists [of two_queues 1 2 "[]" 3 "[]"] by simp
qed

end
