(* ===== verification/Op_Queue.thy ===== *)
theory Op_Queue
  imports Main
begin

text \<open>
  The intrusive queues of pending operations of asio (\<open>detail/op_queue.hpp\<close>): singly linked through
  the \<open>next_\<close> field of the operations, with a pointer to the first and to the last. The store maps
  the address of an operation to its \<open>next_\<close>; the null pointer is \<open>None\<close>. \<open>holds q s xs\<close> says that
  the queue \<open>q\<close> holds the operations \<open>xs\<close>, in this order. The locale \<open>fifo\<close> is the interface
  the timer queue and the sockets use; it is interpreted on the code's operations.
\<close>

type_synonym op = nat
type_synonym next_store = "op \<Rightarrow> op option"

section \<open>The operations\<close>

record op_queue =
  q_front :: "op option"
  q_back :: "op option"

definition opq_init :: op_queue where
  "opq_init = \<lparr>q_front = None, q_back = None\<rparr>"

definition opq_pop :: "op_queue \<times> next_store \<Rightarrow> op_queue \<times> next_store" where
  "opq_pop qs =
     (let (q, s) = qs in
      case q_front q of
        None \<Rightarrow> (q, s)
      | Some tmp \<Rightarrow>
          let q = q\<lparr>q_front := s tmp\<rparr>;
              q = (if q_front q = None then q\<lparr>q_back := None\<rparr> else q)
          in (q, s(tmp := None)))"

definition opq_push :: "op \<Rightarrow> op_queue \<times> next_store \<Rightarrow> op_queue \<times> next_store" where
  "opq_push h qs =
     (let (q, s) = qs; s = s(h := None) in
      case q_back q of
        Some b \<Rightarrow> (q\<lparr>q_back := Some h\<rparr>, s(b := Some h))
      | None \<Rightarrow> (q\<lparr>q_front := Some h, q_back := Some h\<rparr>, s))"

definition opq_push_queue :: "op_queue \<Rightarrow> op_queue \<times> next_store \<Rightarrow> op_queue \<times> op_queue \<times> next_store" where
  \<comment> \<open>\<open>q.push(other)\<close>: the emptied \<open>other\<close>, then \<open>q\<close> and the store\<close>
  "opq_push_queue other qs =
     (let (q, s) = qs in
      case q_front other of
        None \<Rightarrow> (other, q, s)
      | Some other_front \<Rightarrow>
          let (q, s) = (case q_back q of
                          Some b \<Rightarrow> (q, s(b := Some other_front))
                        | None \<Rightarrow> (q\<lparr>q_front := Some other_front\<rparr>, s));
              q = q\<lparr>q_back := q_back other\<rparr>
          in (other\<lparr>q_front := None, q_back := None\<rparr>, q, s))"

definition opq_empty :: "op_queue \<Rightarrow> bool" where
  "opq_empty q = (q_front q = None)"

definition opq_is_enqueued :: "op \<Rightarrow> op_queue \<times> next_store \<Rightarrow> bool" where
  "opq_is_enqueued o' qs = (snd qs o' \<noteq> None \<or> q_back (fst qs) = Some o')"

partial_function (option) opq_destroy :: "op list \<Rightarrow> op_queue \<times> next_store \<Rightarrow> (op list \<times> op_queue \<times> next_store) option" where
  \<comment> \<open>the destructor: the operations destroyed so far are collected; \<open>None\<close> would be a loop without end\<close>
  [code]: "opq_destroy acc qs =
     (case q_front (fst qs) of
        None \<Rightarrow> Some (acc, qs)
      | Some op \<Rightarrow> opq_destroy (acc @ [op]) (opq_pop qs))"

partial_function (option) opq_move :: "op_queue \<times> op_queue \<times> next_store \<Rightarrow> (op_queue \<times> op_queue \<times> next_store) option" where
  \<comment> \<open>the loop of the timer queue: \<open>while (op = source.front()) { source.pop(); target.push(op); }\<close>\<close>
  [code]: "opq_move st =
     (case st of (source, target, s) \<Rightarrow>
        (case q_front source of
           None \<Rightarrow> Some (source, target, s)
         | Some op \<Rightarrow>
             (case opq_pop (source, s) of (source, s) \<Rightarrow>
                (case opq_push op (target, s) of (target, s) \<Rightarrow> opq_move (source, target, s)))))"

section \<open>The interface\<close>

locale fifo =
  fixes rep :: "'q \<Rightarrow> ('p \<Rightarrow> 'p option) \<Rightarrow> 'p list \<Rightarrow> bool"
    and first :: "'q \<Rightarrow> 'p option"
    and remove :: "'q \<times> ('p \<Rightarrow> 'p option) \<Rightarrow> 'q \<times> ('p \<Rightarrow> 'p option)"
    and append :: "'p \<Rightarrow> 'q \<times> ('p \<Rightarrow> 'p option) \<Rightarrow> 'q \<times> ('p \<Rightarrow> 'p option)"
  assumes first_law: "rep q s xs \<Longrightarrow> first q = (if xs = [] then None else Some (hd xs))"
    and distinct_law: "rep q s xs \<Longrightarrow> distinct xs"
    and remove_law: "rep q s xs \<Longrightarrow> rep (fst (remove (q, s))) (snd (remove (q, s))) (tl xs)"
    and append_law: "rep q s xs \<Longrightarrow> x \<notin> set xs \<Longrightarrow>
      rep (fst (append x (q, s))) (snd (append x (q, s))) (xs @ [x])"
    and remove_frame: "rep q s xs \<Longrightarrow> rep q' s ys \<Longrightarrow> set xs \<inter> set ys = {} \<Longrightarrow>
      rep q' (snd (remove (q, s))) ys"
    and append_frame: "rep q s xs \<Longrightarrow> rep q' s ys \<Longrightarrow> (set xs \<union> {x}) \<inter> set ys = {} \<Longrightarrow>
      rep q' (snd (append x (q, s))) ys"
begin

lemma first_None: "rep q s xs \<Longrightarrow> first q = None \<longleftrightarrow> xs = []"
  by (simp add: first_law)

lemma first_Some: "rep q s (x # xs) \<Longrightarrow> first q = Some x"
  by (simp add: first_law)

lemma remove_first:
  assumes "rep q s (x # xs)" "remove (q, s) = (q', s')"
  shows "rep q' s' xs"
  using remove_law [OF assms(1)] assms(2) by simp

lemma move_one:
  \<comment> \<open>the first operation of one queue goes to the end of another\<close>
  assumes "rep q s (x # xs)" "rep t s ys" "set (x # xs) \<inter> set ys = {}"
    and "remove (q, s) = (q', s')" "append x (t, s') = (t', s'')"
  shows "rep q' s'' xs \<and> rep t' s'' (ys @ [x])"
proof -
  have q': "rep q' s' xs" using remove_first [OF assms(1,4)] .
  have t: "rep t s' ys" using remove_frame [OF assms(1,2,3)] assms(4) by simp
  have d: "x \<notin> set ys" "(set ys \<union> {x}) \<inter> set xs = {}"
    using assms(3) distinct_law [OF assms(1)] by auto
  show ?thesis
    using append_frame [OF t q' d(2)] append_law [OF t d(1)] assms(5) by simp
qed

end

section \<open>The queues implement it\<close>

primrec chain :: "next_store \<Rightarrow> op option \<Rightarrow> op list \<Rightarrow> bool" where
  "chain s p [] = (p = None)"
| "chain s p (x # xs) = (p = Some x \<and> chain s (s x) xs)"

definition holds :: "op_queue \<Rightarrow> next_store \<Rightarrow> op list \<Rightarrow> bool" where
  "holds q s xs =
     (chain s (q_front q) xs \<and> q_back q = (if xs = [] then None else Some (last xs)) \<and> distinct xs)"

lemma chain_upd [simp]: "x \<notin> set xs \<Longrightarrow> chain (s(x := v)) p xs = chain s p xs"
  by (induction xs arbitrary: p) auto

lemma chain_append:
  "xs \<noteq> [] \<Longrightarrow> chain s p xs \<Longrightarrow> chain s (Some y) ys' \<Longrightarrow> distinct xs \<Longrightarrow> last xs \<notin> set ys' \<Longrightarrow>
   chain (s(last xs := Some y)) p (xs @ ys')"
proof (induction xs arbitrary: p)
  case (Cons x xs)
  then show ?case
    by (cases "xs = []") (simp_all del: fun_upd_apply add: fun_upd_other fun_upd_same, metis fun_upd_other last_in_set)
qed simp

lemma chain_unique: "chain s p xs \<Longrightarrow> chain s p ys \<Longrightarrow> xs = ys"
proof (induction xs arbitrary: p ys)
  case Nil
  then show ?case by (cases ys) auto
next
  case (Cons x xs)
  then show ?case by (cases ys) auto
qed

lemma holds_init: "holds opq_init s []"
  by (simp add: holds_def opq_init_def)

lemma holds_unique: "holds q s xs \<Longrightarrow> holds q s ys \<Longrightarrow> xs = ys"
  unfolding holds_def using chain_unique by blast

lemma holds_front: "holds q s xs \<Longrightarrow> q_front q = (if xs = [] then None else Some (hd xs))"
  by (cases xs) (auto simp: holds_def)

lemma chain_None: "chain s None xs \<longleftrightarrow> xs = []"
  by (cases xs) auto

lemma holds_pop: "holds q s xs \<Longrightarrow> holds (fst (opq_pop (q, s))) (snd (opq_pop (q, s))) (tl xs)"
proof (cases xs)
  case (Cons x ys)
  moreover assume "holds q s xs"
  ultimately show ?thesis
    by (cases "s x"; cases ys) (auto simp: holds_def opq_pop_def Let_def chain_None)
qed (simp add: holds_def opq_pop_def)

lemma holds_push:
  assumes "holds q s xs" "x \<notin> set xs"
  shows "holds (fst (opq_push x (q, s))) (snd (opq_push x (q, s))) (xs @ [x])"
proof (cases "xs = []")
  case False
  have "chain ((s(x := None))(last xs := Some x)) (q_front q) (xs @ [x])"
    by (rule chain_append) (use assms False in \<open>auto simp: holds_def\<close>)
  then show ?thesis using assms False by (simp add: holds_def opq_push_def Let_def)
qed (use assms in \<open>simp add: holds_def opq_push_def Let_def\<close>)

lemma holds_cong: "holds q s xs \<Longrightarrow> (\<And>x. x \<in> set xs \<Longrightarrow> s' x = s x) \<Longrightarrow> holds q s' xs"
proof -
  have "chain s p xs \<Longrightarrow> (\<And>x. x \<in> set xs \<Longrightarrow> s' x = s x) \<Longrightarrow> chain s' p xs" for p
    by (induction xs arbitrary: p) auto
  then show "holds q s xs \<Longrightarrow> (\<And>x. x \<in> set xs \<Longrightarrow> s' x = s x) \<Longrightarrow> holds q s' xs"
    by (simp add: holds_def)
qed

lemma pop_frame:
  assumes "holds q s xs" "holds q' s ys" "set xs \<inter> set ys = {}"
  shows "holds q' (snd (opq_pop (q, s))) ys"
  by (rule holds_cong [OF assms(2)])
    (use assms in \<open>cases xs; auto simp: opq_pop_def holds_def Let_def\<close>)

lemma push_frame:
  assumes "holds q s xs" "holds q' s ys" "(set xs \<union> {x}) \<inter> set ys = {}"
  shows "holds q' (snd (opq_push x (q, s))) ys"
proof (rule holds_cong [OF assms(2)])
  fix y assume "y \<in> set ys"
  then have "y \<noteq> x" "xs \<noteq> [] \<Longrightarrow> y \<noteq> last xs" using assms(3) by (auto simp: disjoint_iff)
  then show "snd (opq_push x (q, s)) y = s y"
    using assms(1) by (cases "xs = []") (auto simp: opq_push_def holds_def Let_def)
qed

interpretation opq: fifo holds q_front opq_pop opq_push
  by unfold_locales (simp_all add: holds_front holds_pop holds_push pop_frame push_frame, simp add: holds_def)

section \<open>The loops\<close>

lemma destroy_all:
  "holds q s xs \<Longrightarrow> \<exists>q' s'. opq_destroy acc (q, s) = Some (acc @ xs, q', s') \<and> holds q' s' []"
proof (induction xs arbitrary: acc q s)
  case Nil
  then show ?case using opq.first_None [OF Nil] by (subst opq_destroy.simps) simp
next
  case (Cons x xs)
  obtain q1 s1 where p: "opq_pop (q, s) = (q1, s1)" by force
  obtain q' s' where "opq_destroy (acc @ [x]) (q1, s1) = Some ((acc @ [x]) @ xs, q', s') \<and> holds q' s' []"
    using Cons.IH [OF opq.remove_first [OF Cons.prems p]] by blast
  then show ?case using opq.first_Some [OF Cons.prems] p by (subst opq_destroy.simps) simp
qed

lemma move_all:
  "holds q s xs \<Longrightarrow> holds t s ys \<Longrightarrow> set xs \<inter> set ys = {} \<Longrightarrow>
   \<exists>q' t' s'. opq_move (q, t, s) = Some (q', t', s') \<and> holds q' s' [] \<and> holds t' s' (ys @ xs)"
proof (induction xs arbitrary: q t s ys)
  case Nil
  then show ?case using opq.first_None [OF Nil(1)] by (subst opq_move.simps) simp
next
  case (Cons x xs)
  obtain q1 s1 where p: "opq_pop (q, s) = (q1, s1)" by force
  obtain t2 s2 where a: "opq_push x (t, s1) = (t2, s2)" by force
  have m: "holds q1 s2 xs" "holds t2 s2 (ys @ [x])" using opq.move_one [OF Cons.prems p a] by auto
  have "set xs \<inter> set (ys @ [x]) = {}" using Cons.prems(3) opq.distinct_law [OF Cons.prems(1)] by auto
  from Cons.IH [OF m this] show ?case
    using opq.first_Some [OF Cons.prems(1)] p a by (subst opq_move.simps) simp
qed

lemma push_queue_all:
  assumes "holds q s xs" "holds t s ys" "set xs \<inter> set ys = {}"
  shows "case opq_push_queue q (t, s) of (q', t', s') \<Rightarrow> holds q' s' [] \<and> holds t' s' (ys @ xs)"
proof (cases xs)
  case Nil
  then show ?thesis using assms by (simp add: holds_def opq_push_queue_def)
next
  case (Cons x xs')
  show ?thesis
  proof (cases "ys = []")
    case True
    then show ?thesis using assms Cons by (auto simp: holds_def opq_push_queue_def Let_def chain_None)
  next
    case False
    have f: "q_front q = Some x" "q_front q = Some (hd xs)" using Cons assms(1) by (simp_all add: holds_def)
    have "chain (s(last ys := Some x)) (q_front t) (ys @ xs)"
      by (rule chain_append) (use assms False f in \<open>auto simp: holds_def\<close>)
    then show ?thesis using assms Cons False f by (auto simp: holds_def opq_push_queue_def Let_def)
  qed
qed

text \<open>
  C32. The queues of operations are queues. Pushing, popping and looking at the front act on the list of
  operations a queue holds as on a first-in first-out list; moving the operations one by one to another
  queue and pushing the whole queue onto it give the same contents, in the order of arrival; and
  the destructor destroys every operation exactly once, in that order.
\<close>

theorem op_queue_is_fifo:
  assumes "holds q s xs" "holds t s ys" "set xs \<inter> set ys = {}" "x \<notin> set xs \<union> set ys"
  shows "q_front q = (if xs = [] then None else Some (hd xs)) \<and>
    (case opq_pop (q, s) of (q', s') \<Rightarrow> holds q' s' (tl xs) \<and> holds t s' ys) \<and>
    (case opq_push x (q, s) of (q', s') \<Rightarrow> holds q' s' (xs @ [x]) \<and> holds t s' ys) \<and>
    (\<exists>q' t' s'. opq_move (q, t, s) = Some (q', t', s') \<and> holds q' s' [] \<and> holds t' s' (ys @ xs)) \<and>
    (case opq_push_queue q (t, s) of (q', t', s') \<Rightarrow> holds q' s' [] \<and> holds t' s' (ys @ xs)) \<and>
    (\<exists>q' s'. opq_destroy [] (q, s) = Some (xs, q', s') \<and> holds q' s' [])"
  using opq.first_law [OF assms(1)] opq.remove_law [OF assms(1)] opq.remove_frame [OF assms(1,2,3)]
    opq.append_law [OF assms(1), of x] opq.append_frame [OF assms(1,2), of x]
    move_all [OF assms(1-3)] push_queue_all [OF assms(1-3)] destroy_all [OF assms(1), of "[]"] assms(3,4)
  by (auto simp: split_beta)

theorem op_queue_is_fifo_witness:
  "let (q, s) = opq_push 2 (opq_push 1 (opq_init, \<lambda>_. None)) in
   \<exists>q' s'. opq_destroy [] (q, s) = Some ([1, 2], q', s') \<and> holds q' s' []"
proof -
  have h: "holds (fst (opq_push 2 (opq_push 1 (opq_init, \<lambda>_. None)))) (snd (opq_push 2 (opq_push 1 (opq_init, \<lambda>_. None)))) [1, 2]"
    by (simp add: opq_push_def opq_init_def holds_def)
  show ?thesis using op_queue_is_fifo [OF h holds_init, of 3] by (auto simp: split_beta)
qed

end
