(* ===== verification/Kcp_Prelude.thy ===== *)
theory Kcp_Prelude
  imports Main "HOL-Library.Word"
begin

text \<open>
  Shared vocabulary of the development: the machine integers of \<open>ikcp.h\<close>, conversions between
  C's signed and unsigned views of 32 bits, faults as values, the arithmetic of 32-bit
  serial numbers (\<open>_itimediff\<close>), and a few list facts the components share.

  The model is that of an LP64 target: \<open>int\<close> and \<open>IINT32\<close> have 32 bits, \<open>long\<close> has 64.
  A C value of signed type is an \<open>int\<close> here; \<open>i32\<close> is the conversion of a mathematical integer
  to a 32-bit signed value (two's complement, as gcc, clang and MSVC define it).
  An unsigned C value is a \<open>word\<close>, whose arithmetic wraps as C's does.
\<close>

section \<open>Machine integers\<close>

type_synonym u8 = "8 word"
type_synonym u16 = "16 word"
type_synonym u32 = "32 word"
type_synonym bytes = "8 word list"

named_theorems seq_simps \<open>serial-number arithmetic: differences as offsets from a base\<close>
named_theorems kcp_defs \<open>definitions of the small operations, for evaluation and inversion\<close>

definition i32 :: "int \<Rightarrow> int" where
  "i32 x = (x + 2147483648) mod 4294967296 - 2147483648"

definition cdiv :: "int \<Rightarrow> int \<Rightarrow> int" where
  \<comment> \<open>C's integer division truncates towards zero\<close>
  "cdiv a b = sgn a * sgn b * (\<bar>a\<bar> div \<bar>b\<bar>)"

lemma i32_range: "-2147483648 \<le> i32 x \<and> i32 x < 2147483648"
proof -
  have "0 \<le> (x + 2147483648) mod 4294967296" "(x + 2147483648) mod 4294967296 < 4294967296"
    by simp_all
  then show ?thesis unfolding i32_def by linarith
qed

lemma i32_id: "-2147483648 \<le> x \<Longrightarrow> x < 2147483648 \<Longrightarrow> i32 x = x"
  by (simp add: i32_def)

lemma cdiv_nonneg: "0 \<le> a \<Longrightarrow> 0 < b \<Longrightarrow> cdiv a b = a div b"
  by (cases "a = 0") (simp_all add: cdiv_def sgn_if)

lemma sint_u32: "sint (w :: u32) = i32 (uint w)"
proof -
  have "sint (word_of_int (uint w) :: u32) = (uint w + 2 ^ 31) mod 2 ^ 32 - 2 ^ 31"
    by (subst int_word_sint) simp
  then show ?thesis by (simp add: i32_def)
qed

lemma uint_u32_lt: "uint (w :: u32) < 4294967296"
  using uint_lt2p [of w] by simp

lemma unat_u32_lt: "unat (w :: u32) < 4294967296"
  using unsigned_less [of w, where ?'a = nat] by simp

lemma i32_mod: "i32 (x mod 4294967296) = i32 x"
  by (simp add: i32_def mod_add_left_eq)

lemma i32_high: "2147483648 \<le> x \<Longrightarrow> x < 4294967296 \<Longrightarrow> i32 x = x - 4294967296"
  using i32_mod [of "x - 4294967296"] i32_mod [of x] i32_id [of "x - 4294967296"]
  by (simp add: mod_pos_pos_trivial)

lemma sint_u32_cases:
  "sint (w :: u32) = (if unat w < 2147483648 then int (unat w) else int (unat w) - 4294967296)"
proof (cases "unat w < 2147483648")
  case True
  then have "uint w < 2147483648" by (simp flip: nat_uint_eq)
  moreover have "-2147483648 \<le> uint w" by (rule order_trans [OF _ uint_ge_0]) simp
  ultimately show ?thesis using True unfolding sint_u32 by (subst i32_id) auto
next
  case False
  then have "2147483648 \<le> uint w" by (simp flip: nat_uint_eq)
  then show ?thesis using False uint_u32_lt [of w] unfolding sint_u32
    by (subst i32_high) auto
qed

lemma sint_u32_small: "unat (w :: u32) < 2147483648 \<Longrightarrow> sint w = int (unat w)"
  by (simp only: sint_u32_cases if_True)

lemma sint_u32_nonneg: "0 \<le> sint (w :: u32) \<longleftrightarrow> unat w < 2147483648"
  using uint_u32_lt [of w] unfolding sint_u32_cases by auto

lemma sint_u32_neg: "sint (w :: u32) < 0 \<longleftrightarrow> 2147483648 \<le> uint w"
proof -
  have "int (unat w) = uint w" by simp
  then show ?thesis using sint_u32_nonneg [of w] by linarith
qed

lemma sint_int_unat:
  assumes "sint (w :: u32) = int m"
  shows "unat w = m" "m < 2147483648"
proof -
  have "unat w < 2147483648" using assms sint_u32_nonneg [of w] by simp
  moreover from this have "int (unat w) = int m" using assms sint_u32_small by metis
  ultimately show "unat w = m" "m < 2147483648" unfolding of_nat_eq_iff by simp_all
qed

section \<open>Helpers of ikcp.c: minimum, maximum, bound, serial-number difference\<close>

definition imin :: "u32 \<Rightarrow> u32 \<Rightarrow> u32" where
  "imin a b = (if a \<le> b then a else b)"

definition imax :: "u32 \<Rightarrow> u32 \<Rightarrow> u32" where
  "imax a b = (if b \<le> a then a else b)"

definition ibound :: "u32 \<Rightarrow> u32 \<Rightarrow> u32 \<Rightarrow> u32" where
  "ibound lower middle upper = imin (imax lower middle) upper"

definition itimediff :: "u32 \<Rightarrow> u32 \<Rightarrow> int" where
  "itimediff later earlier = sint (later - earlier)"

lemma ibound_upper: "ibound l m u \<le> u"
  by (simp add: ibound_def imin_def)

lemma ibound_lower: "l \<le> u \<Longrightarrow> l \<le> ibound l m u"
  by (auto simp: ibound_def imin_def imax_def)

lemma ibound_middle: "l \<le> m \<Longrightarrow> m \<le> u \<Longrightarrow> ibound l m u = m"
  by (auto simp: ibound_def imin_def imax_def)

text \<open>
  Serial numbers wrap. Every argument about them is made with the offset of a number from a
  base \<open>b\<close>: \<open>seqoff b x\<close> is how far \<open>x\<close> is ahead of \<open>b\<close>, modulo \<open>2^32\<close>. Where two numbers
  are less than \<open>2^31\<close> ahead of the same base, \<open>_itimediff\<close> is the difference of the offsets.
\<close>

definition seqoff :: "u32 \<Rightarrow> u32 \<Rightarrow> nat" where
  "seqoff b x = unat (x - b)"

lemma seqoff_self [simp]: "seqoff b b = 0"
  by (simp add: seqoff_def)

lemma seqoff_lt: "seqoff b x < 4294967296"
  unfolding seqoff_def by (rule unat_u32_lt)

lemma seqoff_inj: "seqoff b x = seqoff b y \<longleftrightarrow> x = y"
proof
  assume "seqoff b x = seqoff b y"
  then have "x - b = y - b" unfolding seqoff_def by (rule unsigned_word_eqI)
  then show "x = y" by simp
qed simp

lemma seqoff_eq_0: "seqoff b x = 0 \<longleftrightarrow> x = b"
  using seqoff_inj [of b x b] by simp

lemma itimediff_self [simp]: "itimediff x x = 0"
  by (simp add: itimediff_def)

lemma itimediff_range: "-2147483648 \<le> itimediff a b \<and> itimediff a b < 2147483648"
  unfolding itimediff_def sint_u32 by (rule i32_range)

lemma itimediff_base: "seqoff b x < 2147483648 \<Longrightarrow> itimediff x b = int (seqoff b x)"
  by (simp add: itimediff_def seqoff_def sint_u32_small)

lemma itimediff_nonneg: "0 \<le> itimediff x b \<longleftrightarrow> seqoff b x < 2147483648"
  by (simp add: itimediff_def seqoff_def sint_u32_nonneg)

lemma itimediff_seqoff [seq_simps]:
  assumes "seqoff b x < 2147483648" "seqoff b y < 2147483648"
  shows "itimediff x y = int (seqoff b x) - int (seqoff b y)"
proof -
  have "x - y = (x - b) - (y - b)" by simp
  then have "itimediff x y = i32 (uint ((x - b) - (y - b)))"
    unfolding itimediff_def sint_u32 by metis
  also have "\<dots> = i32 (uint (x - b) - uint (y - b))"
    by (subst uint_word_ariths) (simp add: i32_mod)
  also have "\<dots> = int (seqoff b x) - int (seqoff b y)"
  proof -
    have "int (seqoff b x) = uint (x - b)" "int (seqoff b y) = uint (y - b)"
      by (simp_all add: seqoff_def)
    then show ?thesis using assms by (subst i32_id) linarith+
  qed
  finally show ?thesis .
qed

lemma i32_uminus:
  assumes "- 2147483648 < i32 x"
  shows "i32 (- x) = - i32 x"
proof -
  define q where "q = (x + 2147483648) div 4294967296"
  have x: "x = i32 x + 4294967296 * q"
    unfolding i32_def q_def by (simp add: minus_div_mult_eq_mod [symmetric] algebra_simps)
  have "i32 (- x) = (- i32 x + 2147483648 + (- q) * 4294967296) mod 4294967296 - 2147483648"
    by (subst x) (simp add: i32_def algebra_simps)
  also have "\<dots> = i32 (- i32 x)" unfolding mod_mult_self1 by (simp only: i32_def)
  also have "\<dots> = - i32 x" by (rule i32_id) (use assms i32_range [of x] in linarith)+
  finally show ?thesis .
qed

lemma itimediff_swap: "- 2147483648 < itimediff a b \<Longrightarrow> itimediff b a = - itimediff a b"
proof -
  have d: "itimediff c d = i32 (uint c - uint d)" for c d
    unfolding itimediff_def sint_u32 by (subst uint_word_ariths) (simp add: i32_mod)
  assume "- 2147483648 < itimediff a b"
  then show ?thesis unfolding d using i32_uminus [of "uint a - uint b"] by simp
qed

lemma seqoff_plus: "seqoff b (b + w) = unat w"
  by (simp add: seqoff_def)

lemma seqoff_Suc: "seqoff b x < 4294967295 \<Longrightarrow> seqoff b (x + 1) = Suc (seqoff b x)"
proof -
  assume a: "seqoff b x < 4294967295"
  have "seqoff b (x + 1) = unat ((x - b) + 1)" by (simp add: seqoff_def algebra_simps)
  also have "\<dots> = Suc (unat (x - b))"
    using a by (subst unat_word_ariths) (simp add: seqoff_def)
  finally show ?thesis by (simp add: seqoff_def)
qed

lemma seqoff_add: "seqoff b x + m < 4294967296 \<Longrightarrow> seqoff b (x + of_nat m) = seqoff b x + m"
proof (induction m)
  case (Suc m)
  have e: "x + of_nat (Suc m) = x + of_nat m + 1" by (simp add: algebra_simps)
  show ?case unfolding e using Suc seqoff_Suc [of b "x + of_nat m"] by simp
qed simp

lemma seqoff_shift: "x \<noteq> b \<Longrightarrow> seqoff (b + 1) x = seqoff b x - 1"
proof -
  assume "x \<noteq> b"
  then have "x - b \<noteq> 0" by simp
  then have "unat (x - b - 1) = unat (x - b) - 1" by (rule unat_minus_one)
  then show ?thesis by (simp add: seqoff_def algebra_simps)
qed

lemma seqoff_rebase:
  assumes "seqoff b c \<le> seqoff b x"
  shows "seqoff c x = seqoff b x - seqoff b c"
proof -
  have "c - b \<le> x - b" using assms by (simp add: seqoff_def word_le_nat_alt)
  then have "unat ((x - b) - (c - b)) = unat (x - b) - unat (c - b)" by (rule unat_sub)
  then show ?thesis by (simp add: seqoff_def)
qed

section \<open>Faults\<close>

text \<open>
  What C leaves undefined, and what ends the process, is a value of type \<open>fault\<close>: a read or a
  write outside the object, a loop that never ends, a failed \<open>assert\<close>, a division by zero. An operation that can
  meet one returns \<open>Inl\<close> of the fault. The theorems show that the reachable states meet none.
\<close>

datatype fault = OobRead | OobWrite | Diverges | AssertFail | DivByZero | UninitRead | NullDeref | Uncaught

definition andThen :: "fault + 'a \<Rightarrow> ('a \<Rightarrow> fault + 'b) \<Rightarrow> fault + 'b" where
  "andThen r f = (case r of Inl e \<Rightarrow> Inl e | Inr x \<Rightarrow> f x)"

lemma andThen_simps [simp]:
  "andThen (Inl e) f = Inl e" "andThen (Inr x) f = f x"
  by (simp_all add: andThen_def)

lemma andThen_Inr: "andThen r f = Inr y \<longleftrightarrow> (\<exists>x. r = Inr x \<and> f x = Inr y)"
  by (cases r) auto

lemma andThen_assoc: "andThen (andThen r f) g = andThen r (\<lambda>x. andThen (f x) g)"
  by (cases r) auto

lemma andThen_cong [fundef_cong]:
  "r = r' \<Longrightarrow> (\<And>x. r' = Inr x \<Longrightarrow> f x = g x) \<Longrightarrow> andThen r f = andThen r' g"
  by (cases r') auto

text \<open>\<open>memcpy\<close> of \<open>n\<close> bytes out of an object that has the bytes \<open>p\<close> from the source pointer on.\<close>

definition mem_read :: "bytes \<Rightarrow> nat \<Rightarrow> fault + bytes" where
  "mem_read p n = (if n \<le> length p then Inr (take n p) else Inl OobRead)"

lemma mem_read_ok: "n \<le> length p \<Longrightarrow> mem_read p n = Inr (take n p)"
  by (simp add: mem_read_def)

lemma mem_read_Inr: "mem_read p n = Inr d \<longleftrightarrow> n \<le> length p \<and> d = take n p"
  by (auto simp: mem_read_def)

section \<open>Lists and counters\<close>

lemma of_nat_length_Cons [simp]:
  "(of_nat (length (x # xs)) :: u32) = of_nat (length xs) + 1"
  by simp

lemma of_nat_append_u32:
  "(of_nat (length (xs @ ys)) :: u32) = of_nat (length xs) + of_nat (length ys)"
  by simp

lemma unat_of_nat_u32: "n < 4294967296 \<Longrightarrow> unat (of_nat n :: u32) = n"
  by (simp add: unat_of_nat)

lemma unat_le_u32: "(a :: u32) \<le> b \<longleftrightarrow> unat a \<le> unat b"
  by (rule word_le_nat_alt)

lemma unat_less_u32: "(a :: u32) < b \<longleftrightarrow> unat a < unat b"
  by (rule word_less_nat_alt)

lemma length_filter_distinct:
  assumes "distinct (map f q)" "x \<in> f ` set q"
  shows "length q = Suc (length (filter (\<lambda>s. f s \<noteq> x) q))"
  using assms
proof (induction q)
  case (Cons t q)
  show ?case
  proof (cases "f t = x")
    case True
    then have "x \<notin> f ` set q" using Cons.prems(1) by auto
    then have "\<forall>u \<in> set q. f u \<noteq> x" by auto
    then have "filter (\<lambda>u. f u \<noteq> x) q = q" by (simp add: filter_id_conv)
    then show ?thesis using True by simp
  next
    case False
    then show ?thesis using Cons by auto
  qed
qed simp

end
