(* ===== verification/Flex_Utils.thy ===== *)
theory Flex_Utils
  imports Kcp_Prelude
begin

text \<open>
  The helpers of \<open>MiscUtils.h\<close> and \<open>Asio.h\<close>: the byte mask that obfuscates a datagram, the one-byte
  xor checksum, the layout of a datagram on the UDP socket (\<open>ENABLE_CHECK_SUM\<close> is the parameter
  \<open>chk\<close>; the default build leaves it off), whole-file reads, and error codes as the coroutines see
  them. A completed asynchronous operation is a sum: \<open>Inl\<close> its error, \<open>Inr\<close> its result.
\<close>

unbundle bit_operations_syntax

section \<open>MiscUtils.h\<close>

definition encrypt :: "bytes \<Rightarrow> nat \<Rightarrow> bytes" where
  \<comment> \<open>the buffer after \<open>Encrypt(buf, len)\<close>, which works in place\<close>
  "encrypt buf len = map (\<lambda>b. b XOR 0xA5) (take len buf) @ drop len buf"

definition XorCheck :: "bytes \<Rightarrow> nat \<Rightarrow> u8" where
  "XorCheck buf len = foldl (\<lambda>r b. r XOR b) 0 (take len buf)"

definition LoadFileContent ::
  "(string \<Rightarrow> bytes option) \<Rightarrow> (bytes \<Rightarrow> nat) \<Rightarrow> bytes \<Rightarrow> string \<Rightarrow> bool \<times> bytes" where
  \<comment> \<open>\<open>files\<close> opens a path, \<open>count\<close> is how many bytes \<open>read\<close> delivers; the content is sized by the file
      before it is filled, with zeros where the read stopped short\<close>
  "LoadFileContent files count outContent path =
     (case files path of None \<Rightarrow> (False, outContent)
      | Some c \<Rightarrow> (count c = length c, take (count c) c @ replicate (length c - count c) 0))"

definition StoreFileContent :: "(string \<Rightarrow> bool) \<Rightarrow> (bytes \<Rightarrow> nat) \<Rightarrow> bytes \<Rightarrow> string \<Rightarrow> bool" where
  \<comment> \<open>\<open>opens\<close> tells whether the file can be opened, \<open>tellp\<close> where the stream stands after the write\<close>
  "StoreFileContent opens tellp data path = (if \<not> opens path then False else tellp data = length data)"

section \<open>Asio.h\<close>

datatype errc = resource_unavailable_try_again | operation_would_block | operation_canceled
  | invalid_argument | address_family_not_supported | bad_descriptor | connection_aborted | interrupted
  | eof | in_progress | no_buffer_space | protocol_failure | not_socket | inappropriate_ioctl | already_open
  | operation_not_supported | operation_not_permitted
  | other_error nat

definition IsTryAgain :: "errc \<Rightarrow> bool" where
  "IsTryAgain e = (e = resource_unavailable_try_again \<or> e = operation_would_block)"

definition AsyncWait :: "errc + unit \<Rightarrow> errc option" where
  \<comment> \<open>the wrappers turn the exception of a failed operation into the error code they return\<close>
  "AsyncWait r = (case r of Inl e \<Rightarrow> Some e | Inr _ \<Rightarrow> None)"

definition AsyncWrite :: "errc + nat \<Rightarrow> errc option" where
  "AsyncWrite r = (case r of Inl e \<Rightarrow> Some e | Inr _ \<Rightarrow> None)"

definition AsyncConnect :: "errc + unit \<Rightarrow> errc option" where
  "AsyncConnect r = (case r of Inl e \<Rightarrow> Some e | Inr _ \<Rightarrow> None)"

section \<open>Datagrams on the UDP socket\<close>

definition frame_out :: "bool \<Rightarrow> bytes \<Rightarrow> bytes" where
  \<comment> \<open>what the output callback passes to \<open>udpSocket_.send\<close>\<close>
  "frame_out chk buf =
     (let e = encrypt buf (length buf)
      in if chk then XorCheck e (length e) # e else e)"

definition frame_in :: "bool \<Rightarrow> bytes \<Rightarrow> bytes option" where
  \<comment> \<open>what the feed coroutine passes to \<open>ikcp_input\<close>, if anything\<close>
  "frame_in chk buf =
     (if chk then
        if length buf > 1 then
          if XorCheck (drop 1 buf) (length buf - 1) = hd buf
          then Some (encrypt (drop 1 buf) (length buf - 1))
          else None
        else None
      else Some (encrypt buf (length buf)))"

lemma length_encrypt [simp]: "length (encrypt buf n) = length buf"
  by (simp add: encrypt_def)

lemma encrypt_all: "encrypt buf (length buf) = map (\<lambda>b. b XOR 0xA5) buf"
  by (simp add: encrypt_def)

lemma xor_mask_twice [simp]: "((b :: u8) XOR 0xA5) XOR 0xA5 = b"
  by (simp add: xor.assoc)

lemma encrypt_twice: "encrypt (encrypt buf n) n = buf"
proof -
  have "take n (encrypt buf n) = map (\<lambda>b. b XOR 0xA5) (take n buf)"
    by (cases "n \<le> length buf") (simp_all add: encrypt_def min_def)
  moreover have "drop n (encrypt buf n) = drop n buf"
    by (cases "n \<le> length buf") (simp_all add: encrypt_def min_def)
  ultimately show ?thesis by (simp add: encrypt_def [of "encrypt buf n"] comp_def)
qed

lemma XorCheck_xor: "foldl (\<lambda>r b. r XOR b) (a XOR c) xs = a XOR foldl (\<lambda>r b. r XOR b) (c :: u8) xs"
  by (induction xs arbitrary: c) (simp_all add: xor.assoc)

lemma XorCheck_append: "XorCheck (xs @ ys) (length xs + length ys) =
    XorCheck xs (length xs) XOR XorCheck ys (length ys)"
  using XorCheck_xor [of "foldl (\<lambda>r b. r XOR b) 0 xs" 0 ys] by (simp add: XorCheck_def)

lemma XorCheck_flip:
  assumes "i < length xs"
  shows "XorCheck (xs[i := b]) (length xs) = XorCheck xs (length xs) XOR (xs ! i XOR b)"
proof -
  have s: "xs[i := b] = take i xs @ [b] @ drop (Suc i) xs" "xs = take i xs @ [xs ! i] @ drop (Suc i) xs"
    using assms by (simp_all add: upd_conv_take_nth_drop id_take_nth_drop)
  have e: "XorCheck (u @ [c] @ v) (length u + (1 + length v)) =
      XorCheck u (length u) XOR (c XOR XorCheck v (length v))" for u v and c :: u8
    using XorCheck_append [of u "[c] @ v"] XorCheck_append [of "[c]" v] by (simp add: XorCheck_def)
  have l: "length xs = length (take i xs) + (1 + length (drop (Suc i) xs))" using assms by simp
  have "XorCheck (xs[i := b]) (length xs) = XorCheck (take i xs) (length (take i xs)) XOR
      (b XOR XorCheck (drop (Suc i) xs) (length (drop (Suc i) xs)))"
    unfolding s(1) l by (rule e)
  moreover have "XorCheck xs (length xs) = XorCheck (take i xs) (length (take i xs)) XOR
      (xs ! i XOR XorCheck (drop (Suc i) xs) (length (drop (Suc i) xs)))"
    by (subst s(2), subst l) (rule e)
  ultimately show ?thesis by (simp add: ac_simps xor_self_eq)
qed

lemma frame_roundtrip:
  assumes "p \<noteq> []"
  shows "frame_in chk (frame_out chk p) = Some p"
proof -
  have "encrypt (encrypt p (length p)) (length p) = p" by (rule encrypt_twice)
  then show ?thesis using assms by (simp add: frame_in_def frame_out_def Let_def)
qed

lemma xor_cancel: "(x :: u8) XOR (x XOR y) = y"
  by (simp flip: xor.assoc)

lemma xor_eq_self: "(x :: u8) XOR y = x \<Longrightarrow> y = 0"
  using xor_cancel [of x y] by simp

lemma frame_damage:
  assumes "p \<noteq> []" "i < length (frame_out True p)" "b \<noteq> frame_out True p ! i"
  shows "frame_in True ((frame_out True p)[i := b]) = None"
proof -
  let ?e = "encrypt p (length p)"
  have f: "frame_out True p = XorCheck ?e (length ?e) # ?e" by (simp add: frame_out_def Let_def)
  show ?thesis
  proof (cases i)
    case 0
    then show ?thesis using assms f by (simp add: frame_in_def)
  next
    case (Suc j)
    then have j: "j < length ?e" "b \<noteq> ?e ! j" using assms f by simp_all
    have "XorCheck (?e[j := b]) (length ?e) = XorCheck ?e (length ?e) XOR (?e ! j XOR b)"
      by (rule XorCheck_flip [OF j(1)])
    moreover have "?e ! j XOR b \<noteq> 0" using j(2) xor_cancel [of "?e ! j" b] by (metis xor.right_neutral)
    ultimately have "XorCheck (?e[j := b]) (length ?e) \<noteq> XorCheck ?e (length ?e)"
      using xor_eq_self by metis
    then show ?thesis using f Suc by (simp add: frame_in_def)
  qed
qed

text \<open>
  C29. The framing of a datagram. What the output callback of one side puts on the UDP socket, the
  feed coroutine of the other side turns back into the bytes \<open>ikcp_flush\<close> produced; with the
  checksum compiled in, a frame of which any single byte was changed in transit is dropped.
\<close>

theorem frame_transport:
  assumes "p \<noteq> []"
  shows "frame_in chk (frame_out chk p) = Some p \<and>
    (\<forall>i < length (frame_out True p). \<forall>b. b \<noteq> frame_out True p ! i \<longrightarrow>
       frame_in True ((frame_out True p)[i := b]) = None)"
  using frame_roundtrip frame_damage assms by blast

theorem frame_transport_witness:
  "frame_in True (frame_out True [1, 2, 3]) = Some [1, 2, 3] \<and>
   frame_in True ((frame_out True [1, 2, 3])[2 := 9]) = None"
proof -
  have "frame_out True [1, 2, 3] = [165, 164, 167, 166]" by code_simp
  then have "2 < length (frame_out True [1, 2, 3])" "9 \<noteq> frame_out True [1, 2, 3] ! 2" by simp_all
  then show ?thesis using frame_transport [of "[1, 2, 3]" True] by blast
qed

end
