(* ===== verification/Flex_Log.thy ===== *)
theory Flex_Log
  imports Flex_Utils
begin

text \<open>
  The logger (\<open>Log.cpp\<close>) and the clock readings (\<open>Time.h\<close>). The logger of the library is its threshold; where
  its messages go is left out. \<open>gLogger\<close> is null before \<open>LoggerInit\<close>, and a message written then
  dereferences it.
\<close>

section \<open>The logger\<close>

datatype spd_level = spd_debug | spd_info | spd_warn | spd_err

record log_state =
  gLogger :: "spd_level option"
  gLogLevel :: int

definition kError :: int where "kError = 0"
definition kWarn :: int where "kWarn = 1"
definition kInfo :: int where "kInfo = 2"
definition kDebug :: int where "kDebug = 3"
definition kCount :: int where "kCount = 4"

lemmas log_levels = kError_def kWarn_def kInfo_def kDebug_def kCount_def

definition log_init :: log_state where
  "log_init = \<lparr>gLogger = None, gLogLevel = kInfo\<rparr>"

definition GetLogger :: "log_state \<Rightarrow> spd_level option" where
  "GetLogger st = gLogger st"

definition SetLogLevel :: "int \<Rightarrow> log_state \<Rightarrow> log_state option" where
  \<comment> \<open>\<open>None\<close> is the \<open>abort\<close> of the default branch\<close>
  "SetLogLevel logLevel st =
     (if gLogger st \<noteq> None then
        let logLevel = (if logLevel < kError \<or> logLevel \<ge> kCount then kInfo else logLevel);
            level = (if logLevel = kDebug then Some spd_debug
                     else if logLevel = kInfo then Some spd_info
                     else if logLevel = kWarn then Some spd_warn
                     else if logLevel = kError then Some spd_err
                     else None)
        in case level of None \<Rightarrow> None
           | Some level \<Rightarrow> Some (st\<lparr>gLogLevel := logLevel, gLogger := Some level\<rparr>)
      else Some st)"

definition LoggerInit :: "spd_level option \<Rightarrow> spd_level option \<Rightarrow> string option \<Rightarrow> int \<Rightarrow> log_state \<Rightarrow> (bool \<times> log_state) option" where
  \<comment> \<open>what the library's constructors of the file and the console logger give, the path (\<open>nullptr\<close> is \<open>None\<close>)\<close>
  "LoggerInit file_logger con_logger logFilePath logLevel st =
     (let st = (if logFilePath \<noteq> None then st\<lparr>gLogger := file_logger\<rparr> else st\<lparr>gLogger := con_logger\<rparr>)
      in if gLogger st = None then Some (False, st)
         else map_option (\<lambda>st. (True, st)) (SetLogLevel logLevel st))"

definition LoggerClean :: "log_state \<Rightarrow> log_state" where
  "LoggerClean st = st\<lparr>gLogger := None\<rparr>"

definition L_INFO_EVERY_N :: "int \<Rightarrow> int \<Rightarrow> int \<times> bool" where
  \<comment> \<open>the static \<open>count\<close> of the call site, and whether the message is written\<close>
  "L_INFO_EVERY_N N count = (let count = count + 1 in if count \<ge> N then (0, True) else (count, False))"

section \<open>Clocks\<close>

text \<open>The clock is the number of its nanoseconds since its epoch; \<open>duration_cast\<close> truncates towards zero.\<close>

definition CurrentTimeNanos :: "int \<Rightarrow> int" where
  "CurrentTimeNanos system_clock = system_clock"

definition CurrentTimeMillis :: "int \<Rightarrow> int" where
  "CurrentTimeMillis system_clock = cdiv system_clock 1000000"

definition SteadyTimeNanos :: "int \<Rightarrow> int" where
  "SteadyTimeNanos steady_clock = steady_clock"

definition SteadyTimeMillis :: "int \<Rightarrow> int" where
  "SteadyTimeMillis steady_clock = cdiv steady_clock 1000000"

section \<open>What the logger guarantees\<close>

definition level_of :: "int \<Rightarrow> spd_level" where
  \<comment> \<open>the threshold a level stands for; an unknown level stands for \<open>kInfo\<close>\<close>
  "level_of l = (if l = kDebug then spd_debug else if l = kWarn then spd_warn
     else if l = kError then spd_err else spd_info)"

lemma SetLogLevel_total:
  "SetLogLevel l st = Some (if gLogger st = None then st
     else st\<lparr>gLogLevel := (if kError \<le> l \<and> l < kCount then l else kInfo), gLogger := Some (level_of l)\<rparr>)"
  by (cases "l = 0 \<or> l = 1 \<or> l = 2 \<or> l = 3") (auto simp: SetLogLevel_def Let_def log_levels level_of_def)

lemma LoggerInit_total:
  "\<exists>ok st'. LoggerInit file con path l st = Some (ok, st') \<and> (ok \<longleftrightarrow> GetLogger st' \<noteq> None)
     \<and> (ok \<longrightarrow> GetLogger st' = Some (level_of l))"
  by (auto simp: LoggerInit_def SetLogLevel_total Let_def GetLogger_def)

lemma steady_millis_mono: "0 \<le> s \<Longrightarrow> s \<le> t \<Longrightarrow> SteadyTimeMillis s \<le> SteadyTimeMillis t"
  by (simp add: SteadyTimeMillis_def cdiv_nonneg zdiv_mono1)

end
