(* ===== verification/Kcp_Types.thy ===== *)
theory Kcp_Types
  imports Kcp_Prelude
begin

text \<open>
  The data of \<open>ikcp.h\<close> and \<open>ikcp.c\<close>: the protocol constants, a segment (\<open>struct IKCPSEG\<close>), the
  control block (\<open>struct IKCPCB\<close>), and the operations that create, release and configure one.

  The four intrusive queues are lists of segments, head first (the theory \<open>IQueue\<close> shows that the
  pointer operations of \<open>ikcp.h\<close> implement list operations). A segment carries the bytes of its
  \<open>data\<close> array. \<open>buffer\<close> is the capacity in bytes of the scratch buffer, \<open>acklist\<close> the cells
  of the acknowledgement array written so far (\<open>None\<close> for the NULL pointer). \<open>output_set\<close> and
  \<open>writelog_set\<close> say whether the callback is set; the opaque \<open>user\<close> pointer is left out.
  An argument \<open>alloc\<close> says which allocations of a call succeed.
\<close>

unbundle bit_operations_syntax

section \<open>Constants\<close>

definition IKCP_RTO_NDL :: u32 where "IKCP_RTO_NDL = 30"
definition IKCP_RTO_MIN :: u32 where "IKCP_RTO_MIN = 100"
definition IKCP_RTO_DEF :: u32 where "IKCP_RTO_DEF = 200"
definition IKCP_RTO_MAX :: u32 where "IKCP_RTO_MAX = 60000"
definition IKCP_CMD_PUSH :: u32 where "IKCP_CMD_PUSH = 81"
definition IKCP_CMD_ACK :: u32 where "IKCP_CMD_ACK = 82"
definition IKCP_CMD_WASK :: u32 where "IKCP_CMD_WASK = 83"
definition IKCP_CMD_WINS :: u32 where "IKCP_CMD_WINS = 84"
definition IKCP_ASK_SEND :: u32 where "IKCP_ASK_SEND = 1"
definition IKCP_ASK_TELL :: u32 where "IKCP_ASK_TELL = 2"
definition IKCP_WND_SND :: u32 where "IKCP_WND_SND = 32"
definition IKCP_WND_RCV :: u32 where "IKCP_WND_RCV = 128"
definition IKCP_MTU_DEF :: u32 where "IKCP_MTU_DEF = 1400"
definition IKCP_INTERVAL :: u32 where "IKCP_INTERVAL = 100"
definition IKCP_OVERHEAD :: u32 where "IKCP_OVERHEAD = 24"
definition IKCP_DEADLINK :: u32 where "IKCP_DEADLINK = 20"
definition IKCP_THRESH_INIT :: u32 where "IKCP_THRESH_INIT = 2"
definition IKCP_THRESH_MIN :: u32 where "IKCP_THRESH_MIN = 2"
definition IKCP_PROBE_INIT :: u32 where "IKCP_PROBE_INIT = 7000"
definition IKCP_PROBE_LIMIT :: u32 where "IKCP_PROBE_LIMIT = 120000"
definition IKCP_FASTACK_LIMIT :: u32 where "IKCP_FASTACK_LIMIT = 5"

lemmas ikcp_consts [kcp_defs, simp] =
  IKCP_RTO_NDL_def IKCP_RTO_MIN_def IKCP_RTO_DEF_def IKCP_RTO_MAX_def
  IKCP_CMD_PUSH_def IKCP_CMD_ACK_def IKCP_CMD_WASK_def IKCP_CMD_WINS_def
  IKCP_ASK_SEND_def IKCP_ASK_TELL_def IKCP_WND_SND_def IKCP_WND_RCV_def
  IKCP_MTU_DEF_def IKCP_INTERVAL_def IKCP_OVERHEAD_def IKCP_DEADLINK_def
  IKCP_THRESH_INIT_def IKCP_THRESH_MIN_def IKCP_PROBE_INIT_def IKCP_PROBE_LIMIT_def
  IKCP_FASTACK_LIMIT_def

section \<open>Segments and the control block\<close>

record seg =
  s_conv :: u32
  s_cmd :: u32
  s_frg :: u32
  s_wnd :: u32
  s_ts :: u32
  s_sn :: u32
  s_una :: u32
  s_len :: u32
  s_resendts :: u32
  s_rto :: u32
  s_fastack :: u32
  s_xmit :: u32
  s_data :: bytes

record kcpcb =
  conv :: u32
  mtu :: u32
  mss :: u32
  state :: u32
  snd_una :: u32
  snd_nxt :: u32
  rcv_nxt :: u32
  ts_recent :: u32
  ts_lastack :: u32
  ssthresh :: u32
  rx_rttval :: int
  rx_srtt :: int
  rx_rto :: int
  rx_minrto :: int
  snd_wnd :: u32
  rcv_wnd :: u32
  rmt_wnd :: u32
  cwnd :: u32
  probe :: u32
  current :: u32
  interval :: u32
  ts_flush :: u32
  xmit :: u32
  nrcv_buf :: u32
  nsnd_buf :: u32
  nrcv_que :: u32
  nsnd_que :: u32
  nodelay :: u32
  updated :: u32
  ts_probe :: u32
  probe_wait :: u32
  dead_link :: u32
  incr :: u32
  snd_queue :: "seg list"
  rcv_queue :: "seg list"
  snd_buf :: "seg list"
  rcv_buf :: "seg list"
  acklist :: "(u32 \<times> u32) list option"
  ackcount :: u32
  ackblock :: u32
  buffer :: nat
  fastresend :: int
  fastlimit :: int
  nocwnd :: int
  stream :: int
  logmask :: int
  output_set :: bool
  writelog_set :: bool

text \<open>
  \<open>ikcp_segment_new\<close> allocates a segment whose fields and data are not initialised. The model
  gives the fields 0; the lemma \<open>stamp_ignores_uninit\<close> of \<open>Kcp_Flush\<close> shows that no field left
  unset by \<open>ikcp_send\<close> is read before it is assigned.
\<close>

definition ikcp_segment_new :: "bytes \<Rightarrow> seg" where
  "ikcp_segment_new d = \<lparr>s_conv = 0, s_cmd = 0, s_frg = 0, s_wnd = 0, s_ts = 0, s_sn = 0,
     s_una = 0, s_len = 0, s_resendts = 0, s_rto = 0, s_fastack = 0, s_xmit = 0, s_data = d\<rparr>"

section \<open>Creation and release\<close>

definition kcp_fresh :: "u32 \<Rightarrow> kcpcb" where
  "kcp_fresh cv = \<lparr>conv = cv, mtu = IKCP_MTU_DEF, mss = IKCP_MTU_DEF - IKCP_OVERHEAD, state = 0,
     snd_una = 0, snd_nxt = 0, rcv_nxt = 0, ts_recent = 0, ts_lastack = 0,
     ssthresh = IKCP_THRESH_INIT, rx_rttval = 0, rx_srtt = 0, rx_rto = sint IKCP_RTO_DEF,
     rx_minrto = sint IKCP_RTO_MIN, snd_wnd = IKCP_WND_SND, rcv_wnd = IKCP_WND_RCV,
     rmt_wnd = IKCP_WND_RCV, cwnd = 0, probe = 0, current = 0, interval = IKCP_INTERVAL,
     ts_flush = IKCP_INTERVAL, xmit = 0, nrcv_buf = 0, nsnd_buf = 0, nrcv_que = 0, nsnd_que = 0,
     nodelay = 0, updated = 0, ts_probe = 0, probe_wait = 0, dead_link = IKCP_DEADLINK, incr = 0,
     snd_queue = [], rcv_queue = [], snd_buf = [], rcv_buf = [], acklist = None, ackcount = 0,
     ackblock = 0, buffer = unat ((IKCP_MTU_DEF + IKCP_OVERHEAD) * 3), fastresend = 0,
     fastlimit = sint IKCP_FASTACK_LIMIT, nocwnd = 0, stream = 0, logmask = 0, output_set = False,
     writelog_set = False\<rparr>"

definition ikcp_create :: "u32 \<Rightarrow> (nat \<Rightarrow> bool) \<Rightarrow> kcpcb option" where
  "ikcp_create cv alloc =
     (if \<not> alloc 0 then None
      else if \<not> alloc 1 then None
      else Some (kcp_fresh cv))"

datatype freed = FreeSeg seg | FreeBuffer | FreeAcklist | FreeKcp

fun release_queue :: "seg list \<Rightarrow> freed list" where
  "release_queue [] = []"
| "release_queue (s # q) = FreeSeg s # release_queue q"

definition ikcp_release :: "kcpcb \<Rightarrow> freed list" where
  "ikcp_release k =
     release_queue (snd_buf k) @ release_queue (rcv_buf k) @
     release_queue (snd_queue k) @ release_queue (rcv_queue k) @
     [FreeBuffer] @ (if acklist k \<noteq> None then [FreeAcklist] else []) @ [FreeKcp]"

definition ikcp_setoutput :: "kcpcb \<Rightarrow> bool \<Rightarrow> kcpcb" where
  "ikcp_setoutput k out = k\<lparr>output_set := out\<rparr>"

definition ikcp_canlog :: "kcpcb \<Rightarrow> int \<Rightarrow> bool" where
  "ikcp_canlog k m = (if m AND logmask k = 0 \<or> \<not> writelog_set k then False else True)"

section \<open>Configuration\<close>

definition ikcp_setmtu :: "kcpcb \<Rightarrow> int \<Rightarrow> bool \<Rightarrow> int \<times> kcpcb" where
  "ikcp_setmtu k m alloc =
     (if m < 50 \<or> m < sint IKCP_OVERHEAD then (-1, k)
      else if \<not> alloc then (-2, k)
      else (0, k\<lparr>mtu := of_int m, mss := of_int m - IKCP_OVERHEAD,
                 buffer := unat ((of_int m + IKCP_OVERHEAD) * 3 :: u32)\<rparr>))"

definition clamp_interval :: "int \<Rightarrow> int" where
  "clamp_interval i = (if i > 5000 then 5000 else if i < 10 then 10 else i)"

definition ikcp_interval :: "kcpcb \<Rightarrow> int \<Rightarrow> int \<times> kcpcb" where
  "ikcp_interval k i = (0, k\<lparr>interval := of_int (clamp_interval i)\<rparr>)"

definition ikcp_nodelay :: "kcpcb \<Rightarrow> int \<Rightarrow> int \<Rightarrow> int \<Rightarrow> int \<Rightarrow> int \<times> kcpcb" where
  "ikcp_nodelay k nd i resend nc =
     (let k = (if nd \<ge> 0
               then k\<lparr>nodelay := of_int nd,
                      rx_minrto := (if nd \<noteq> 0 then sint IKCP_RTO_NDL else sint IKCP_RTO_MIN)\<rparr>
               else k);
          k = (if i \<ge> 0 then k\<lparr>interval := of_int (clamp_interval i)\<rparr> else k);
          k = (if resend \<ge> 0 then k\<lparr>fastresend := resend\<rparr> else k);
          k = (if nc \<ge> 0 then k\<lparr>nocwnd := nc\<rparr> else k)
      in (0, k))"

definition ikcp_wndsize :: "kcpcb \<Rightarrow> int \<Rightarrow> int \<Rightarrow> int \<times> kcpcb" where
  "ikcp_wndsize k sndwnd rcvwnd =
     (let k = (if sndwnd > 0 then k\<lparr>snd_wnd := of_int sndwnd\<rparr> else k);
          k = (if rcvwnd > 0 then k\<lparr>rcv_wnd := imax (of_int rcvwnd) IKCP_WND_RCV\<rparr> else k)
      in (0, k))"

definition ikcp_waitsnd :: "kcpcb \<Rightarrow> int" where
  "ikcp_waitsnd k = sint (nsnd_buf k + nsnd_que k)"

lemmas kcp_config_defs [kcp_defs] =
  ikcp_create_def ikcp_setoutput_def ikcp_setmtu_def ikcp_interval_def ikcp_nodelay_def
  ikcp_wndsize_def ikcp_waitsnd_def clamp_interval_def

lemma kcp_fresh_simps [simp]:
  "conv (kcp_fresh cv) = cv" "mtu (kcp_fresh cv) = 1400" "mss (kcp_fresh cv) = 1376"
  "snd_una (kcp_fresh cv) = 0" "snd_nxt (kcp_fresh cv) = 0" "rcv_nxt (kcp_fresh cv) = 0"
  "snd_wnd (kcp_fresh cv) = 32" "rcv_wnd (kcp_fresh cv) = 128" "rmt_wnd (kcp_fresh cv) = 128"
  "cwnd (kcp_fresh cv) = 0" "probe (kcp_fresh cv) = 0" "current (kcp_fresh cv) = 0"
  "interval (kcp_fresh cv) = 100" "updated (kcp_fresh cv) = 0" "probe_wait (kcp_fresh cv) = 0"
  "nrcv_buf (kcp_fresh cv) = 0" "nsnd_buf (kcp_fresh cv) = 0" "nrcv_que (kcp_fresh cv) = 0"
  "nsnd_que (kcp_fresh cv) = 0" "snd_queue (kcp_fresh cv) = []" "rcv_queue (kcp_fresh cv) = []"
  "snd_buf (kcp_fresh cv) = []" "rcv_buf (kcp_fresh cv) = []" "acklist (kcp_fresh cv) = None"
  "ackcount (kcp_fresh cv) = 0" "ackblock (kcp_fresh cv) = 0" "buffer (kcp_fresh cv) = 4272"
  "stream (kcp_fresh cv) = 0" "output_set (kcp_fresh cv) = False" "rx_srtt (kcp_fresh cv) = 0"
  "rx_rttval (kcp_fresh cv) = 0" "rx_rto (kcp_fresh cv) = 200" "rx_minrto (kcp_fresh cv) = 100"
  "fastresend (kcp_fresh cv) = 0" "fastlimit (kcp_fresh cv) = 5" "nocwnd (kcp_fresh cv) = 0"
  "nodelay (kcp_fresh cv) = 0" "dead_link (kcp_fresh cv) = 20" "ssthresh (kcp_fresh cv) = 2"
  "state (kcp_fresh cv) = 0" "ts_flush (kcp_fresh cv) = 100" "xmit (kcp_fresh cv) = 0"
  "incr (kcp_fresh cv) = 0" "ts_probe (kcp_fresh cv) = 0"
  by (simp_all add: kcp_fresh_def)

lemma kcp_fresh_logging [simp]:
  "logmask (kcp_fresh cv) = 0" "writelog_set (kcp_fresh cv) = False"
  by (simp_all add: kcp_fresh_def)

end
