(* ===== verification/Kcp_Wire.thy ===== *)
theory Kcp_Wire
  imports Kcp_Prelude
begin

text \<open>
  The wire format: \<open>ikcp_encode8u\<close> to \<open>ikcp_decode32u\<close>, \<open>ikcp_encode_seg\<close> and the header that
  \<open>ikcp_input\<close> decodes. An encoder returns the bytes it stores at its pointer; a decoder takes
  the bytes from its pointer to the end of the object and returns the value and the bytes
  after it, or the fault \<open>OobRead\<close>. The definitions follow the explicit branch of the
  \<open>#if IWORDS_BIG_ENDIAN || IWORDS_MUST_ALIGN\<close>; on a little-endian host the \<open>memcpy\<close> branch
  moves the same bytes.

  The locale \<open>wire_codec\<close> is the interface of a fixed-width codec; the header and the framing
  lemmas are proved from it, and it is interpreted on each of the code's codecs.
\<close>

unbundle bit_operations_syntax

section \<open>Integers\<close>

definition ikcp_encode8u :: "u8 \<Rightarrow> bytes" where
  "ikcp_encode8u c = [c]"

fun ikcp_decode8u :: "bytes \<Rightarrow> fault + (u8 \<times> bytes)" where
  "ikcp_decode8u (b # p) = Inr (b, p)"
| "ikcp_decode8u [] = Inl OobRead"

definition ikcp_encode16u :: "u16 \<Rightarrow> bytes" where
  "ikcp_encode16u w = [ucast (w AND 255), ucast (drop_bit 8 w)]"

fun ikcp_decode16u :: "bytes \<Rightarrow> fault + (u16 \<times> bytes)" where
  "ikcp_decode16u (b0 # b1 # p) = Inr (ucast b0 + push_bit 8 (ucast b1), p)"
| "ikcp_decode16u p = Inl OobRead"

definition ikcp_encode32u :: "u32 \<Rightarrow> bytes" where
  "ikcp_encode32u l = [ucast (drop_bit 0 l AND 0xff), ucast (drop_bit 8 l AND 0xff),
                       ucast (drop_bit 16 l AND 0xff), ucast (drop_bit 24 l AND 0xff)]"

fun ikcp_decode32u :: "bytes \<Rightarrow> fault + (u32 \<times> bytes)" where
  "ikcp_decode32u (b0 # b1 # b2 # b3 # p) =
     (let l = ucast b3;
          l = ucast b2 + push_bit 8 l;
          l = ucast b1 + push_bit 8 l;
          l = ucast b0 + push_bit 8 l
      in Inr (l, p))"
| "ikcp_decode32u p = Inl OobRead"

definition ikcp_getconv :: "bytes \<Rightarrow> fault + u32" where
  "ikcp_getconv p = andThen (ikcp_decode32u p) (\<lambda>(cv, _). Inr cv)"

lemma uint_u8_lt: "uint (b :: u8) < 256"
  using uint_lt2p [of b] by simp

lemma uint_ucast_u8_u32: "uint (ucast (b :: u8) :: u32) = uint b"
  by (simp add: unsigned_ucast_eq take_bit_int_eq_self uint_lt2p [THEN less_trans])

lemma uint_ucast_byte32: "uint (ucast (w AND 0xff :: u32) :: u8) = uint w mod 256"
proof -
  have "w AND 0xff = take_bit 8 w" by (simp add: take_bit_eq_mask mask_eq_exp_minus_1)
  then show ?thesis by (simp only: unsigned_ucast_eq unsigned_take_bit_eq) (simp add: take_bit_eq_mod)
qed

lemma uint_drop_byte32: "uint (drop_bit n (w :: u32)) = uint w div 2 ^ n"
  by (simp only: unsigned_drop_bit_eq) (simp add: drop_bit_eq_div take_bit_int_eq_self uint_u32_lt)

lemma uint_shift_in32:
  assumes "uint (l :: u32) < 16777216"
  shows "uint (ucast (b :: u8) + push_bit 8 l) = uint b + 256 * uint l"
proof -
  have b: "uint b < 256" by (rule uint_u8_lt)
  have l: "uint (push_bit 8 l) = 256 * uint l"
    using assms by (simp add: push_bit_eq_mult uint_word_ariths mult.commute)
  have "uint b + 256 * uint l < 4294967296" using assms b by linarith
  then show ?thesis using l
    by (simp add: uint_word_ariths uint_ucast_u8_u32)
qed

lemma decode32_value:
  fixes b0 b1 b2 b3 :: u8
  shows "uint (ucast b0 + push_bit 8 (ucast b1 + push_bit 8 (ucast b2 + push_bit 8 (ucast b3))) :: u32)
     = uint b0 + 256 * (uint b1 + 256 * (uint b2 + 256 * uint b3))"
proof -
  have b: "uint b1 < 256" "uint b2 < 256" "uint b3 < 256"
    by (simp_all add: uint_u8_lt)
  have 3: "uint (ucast b3 :: u32) = uint b3" by (rule uint_ucast_u8_u32)
  have 2: "uint (ucast b2 + push_bit 8 (ucast b3 :: u32)) = uint b2 + 256 * uint b3"
    using b 3 by (subst uint_shift_in32) simp_all
  have 1: "uint (ucast b1 + push_bit 8 (ucast b2 + push_bit 8 (ucast b3 :: u32))) =
           uint b1 + 256 * (uint b2 + 256 * uint b3)"
    using b 2 by (subst uint_shift_in32) simp_all
  show ?thesis using b 1 by (subst uint_shift_in32) simp_all
qed

lemma base256_digits:
  "(n :: int) mod 256 + 256 * (n div 256 mod 256 + 256 * (n div 65536 mod 256 + 256 * (n div 16777216)))
     = n"
proof -
  have "n div 16777216 = n div 65536 div 256" "n div 65536 = n div 256 div 256"
    by (simp_all flip: zdiv_zmult2_eq)
  then show ?thesis by (metis mod_mult_div_eq)
qed

lemma encode32_bytes:
  "\<exists>b0 b1 b2 b3. ikcp_encode32u l = [b0, b1, b2, b3] \<and> uint b0 = uint l mod 256 \<and>
     uint b1 = uint l div 256 mod 256 \<and> uint b2 = uint l div 65536 mod 256 \<and>
     uint b3 = uint l div 16777216"
proof -
  have top: "uint l div 16777216 mod 256 = uint l div 16777216"
    using uint_u32_lt [of l] by (intro mod_pos_pos_trivial)
      (simp_all add: div_less_iff_less_mult pos_imp_zdiv_nonneg_iff)
  have d: "uint (ucast (drop_bit n l AND 0xff) :: u8) = uint l div 2 ^ n mod 256" for n
    unfolding uint_ucast_byte32 uint_drop_byte32 ..
  have p: "(2 :: int) ^ 0 = 1" "(2 :: int) ^ 8 = 256" "(2 :: int) ^ 16 = 65536"
    "(2 :: int) ^ 24 = 16777216" by simp_all
  show ?thesis unfolding ikcp_encode32u_def
    by (intro exI conjI, rule refl) (simp_all only: d p top div_by_1)
qed

lemma decode_encode32: "ikcp_decode32u (ikcp_encode32u l @ p) = Inr (l, p)"
proof -
  obtain b0 b1 b2 b3 where e: "ikcp_encode32u l = [b0, b1, b2, b3]"
    and u: "uint b0 = uint l mod 256" "uint b1 = uint l div 256 mod 256"
      "uint b2 = uint l div 65536 mod 256" "uint b3 = uint l div 16777216"
    using encode32_bytes by blast
  have "uint (ucast b0 + push_bit 8 (ucast b1 + push_bit 8 (ucast b2 + push_bit 8 (ucast b3))) :: u32)
      = uint l"
    unfolding decode32_value u by (rule base256_digits)
  then have "ucast b0 + push_bit 8 (ucast b1 + push_bit 8 (ucast b2 + push_bit 8 (ucast b3))) = l"
    by (rule word_uint_eqI)
  then show ?thesis by (simp only: e ikcp_decode32u.simps append.simps Let_def)
qed

lemma decode_encode16: "ikcp_decode16u (ikcp_encode16u w @ p) = Inr (w, p)"
proof -
  have w: "uint w < 65536" using uint_lt2p [of w] by simp
  have lo: "uint (ucast (w AND 255) :: u8) = uint w mod 256"
  proof -
    have "w AND 255 = take_bit 8 w" by (simp add: take_bit_eq_mask mask_eq_exp_minus_1)
    then show ?thesis by (simp only: unsigned_ucast_eq unsigned_take_bit_eq) (simp add: take_bit_eq_mod)
  qed
  have hi: "uint (ucast (drop_bit 8 w) :: u8) = uint w div 256"
    using w by (simp only: unsigned_ucast_eq unsigned_drop_bit_eq)
      (simp add: drop_bit_eq_div take_bit_eq_mod div_less_iff_less_mult pos_imp_zdiv_nonneg_iff)
  have up: "uint (ucast (b :: u8) :: u16) = uint b" for b
    by (simp add: unsigned_ucast_eq take_bit_int_eq_self uint_lt2p [THEN less_trans])
  have "uint (ucast (ucast (w AND 255) :: u8) + push_bit 8 (ucast (ucast (drop_bit 8 w) :: u8)) :: u16)
      = (uint w mod 256 + (uint w div 256 * 256) mod 65536) mod 65536"
    by (simp add: uint_word_ariths push_bit_eq_mult up lo hi)
  also have "\<dots> = uint w"
    using w by (simp add: div_mult_mod_eq mod_pos_pos_trivial mod_simps)
  finally show ?thesis
    by (simp add: ikcp_encode16u_def word_uint_eq_iff)
qed

lemma decode_encode8: "ikcp_decode8u (ikcp_encode8u c @ p) = Inr (c, p)"
  by (simp add: ikcp_encode8u_def)

lemma length_encode [simp]:
  "length (ikcp_encode8u c) = 1" "length (ikcp_encode16u w) = 2" "length (ikcp_encode32u l) = 4"
  by (simp_all add: ikcp_encode8u_def ikcp_encode16u_def ikcp_encode32u_def)

section \<open>The interface of a fixed-width codec\<close>

text \<open>
  What the rest of the code relies on: a decoder undoes the encoder and leaves the bytes after
  the field; it faults exactly when the object ends inside the field.
\<close>

locale wire_codec =
  fixes enc :: "'a \<Rightarrow> bytes"
    and dec :: "bytes \<Rightarrow> fault + ('a \<times> bytes)"
    and width :: nat
  assumes dec_enc: "dec (enc x @ p) = Inr (x, p)"
    and length_enc: "length (enc x) = width"
    and dec_long: "width \<le> length p \<Longrightarrow> \<exists>x. dec p = Inr (x, drop width p)"
    and dec_short: "length p < width \<Longrightarrow> dec p = Inl OobRead"
begin

lemma enc_inj: "enc x = enc y \<Longrightarrow> x = y"
  using dec_enc [of x "[]"] dec_enc [of y "[]"] by simp

lemma dec_fault_iff: "dec p = Inl OobRead \<longleftrightarrow> length p < width"
  using dec_long [of p] dec_short [of p] by (cases "length p < width") auto

lemma dec_rest: "dec p = Inr (x, q) \<Longrightarrow> width \<le> length p \<and> q = drop width p"
  using dec_long [of p] dec_short [of p] by (cases "length p < width") auto

lemma dec_no_other_fault: "dec p = Inl e \<Longrightarrow> e = OobRead"
  using dec_long [of p] dec_short [of p] by (cases "length p < width") auto

lemma dec_drop:
  assumes "n + width \<le> length p" "m = n + width"
  shows "\<exists>x. dec (drop n p) = Inr (x, drop m p)"
proof -
  have "width \<le> length (drop n p)" using assms(1) by simp
  from dec_long [OF this] show ?thesis using assms(2) by (simp add: add.commute)
qed

lemma dec_append: "dec p = Inr (x, q) \<Longrightarrow> width \<le> length (p @ r)"
  using dec_rest by fastforce

end

interpretation c8: wire_codec ikcp_encode8u ikcp_decode8u 1
proof unfold_locales
  show "\<exists>x. ikcp_decode8u p = Inr (x, drop 1 p)" if "1 \<le> length p" for p
    using that by (cases p) auto
qed (simp_all add: decode_encode8)

interpretation c16: wire_codec ikcp_encode16u ikcp_decode16u 2
proof unfold_locales
  show "\<exists>x. ikcp_decode16u p = Inr (x, drop 2 p)" if "2 \<le> length p" for p
    using that by (cases p rule: ikcp_decode16u.cases) auto
  show "ikcp_decode16u p = Inl OobRead" if "length p < 2" for p
    using that by (cases p rule: ikcp_decode16u.cases) auto
qed (simp_all add: decode_encode16)

interpretation c32: wire_codec ikcp_encode32u ikcp_decode32u 4
proof unfold_locales
  show "\<exists>x. ikcp_decode32u p = Inr (x, drop 4 p)" if "4 \<le> length p" for p
    using that by (cases p rule: ikcp_decode32u.cases) (auto simp: Let_def)
  show "ikcp_decode32u p = Inl OobRead" if "length p < 4" for p
    using that by (cases p rule: ikcp_decode32u.cases) auto
qed (simp_all add: decode_encode32)

lemma getconv_encode: "ikcp_getconv (ikcp_encode32u cv @ p) = Inr cv"
  by (simp add: ikcp_getconv_def decode_encode32)

end
