(* ===== verification/Kcp_Codec.thy ===== *)
theory Kcp_Codec
  imports Kcp_Types Kcp_Wire
begin

text \<open>
  The segment header on the wire: \<open>ikcp_encode_seg\<close> writes it, \<open>ikcp_input\<close> reads it into the
  local variables \<open>conv, cmd, frg, wnd, ts, sn, una, len\<close>, here the record \<open>hdr\<close> with
  the widths those variables have. The 24-byte header is one more instance of \<open>wire_codec\<close>.
\<close>

record hdr =
  h_conv :: u32
  h_cmd :: u8
  h_frg :: u8
  h_wnd :: u16
  h_ts :: u32
  h_sn :: u32
  h_una :: u32
  h_len :: u32

definition ikcp_encode_seg :: "seg \<Rightarrow> bytes" where
  "ikcp_encode_seg s =
     ikcp_encode32u (s_conv s) @
     ikcp_encode8u (ucast (s_cmd s)) @
     ikcp_encode8u (ucast (s_frg s)) @
     ikcp_encode16u (ucast (s_wnd s)) @
     ikcp_encode32u (s_ts s) @
     ikcp_encode32u (s_sn s) @
     ikcp_encode32u (s_una s) @
     ikcp_encode32u (s_len s)"

text \<open>The reads of \<open>ikcp_input\<close> after \<open>conv\<close> has been read and compared.\<close>

definition decode_fields :: "u32 \<Rightarrow> bytes \<Rightarrow> fault + (hdr \<times> bytes)" where
  "decode_fields cv p =
     andThen (ikcp_decode8u p) (\<lambda>(cmd, p).
     andThen (ikcp_decode8u p) (\<lambda>(frg, p).
     andThen (ikcp_decode16u p) (\<lambda>(wnd, p).
     andThen (ikcp_decode32u p) (\<lambda>(ts, p).
     andThen (ikcp_decode32u p) (\<lambda>(sn, p).
     andThen (ikcp_decode32u p) (\<lambda>(una, p).
     andThen (ikcp_decode32u p) (\<lambda>(len, p).
       Inr (\<lparr>h_conv = cv, h_cmd = cmd, h_frg = frg, h_wnd = wnd, h_ts = ts, h_sn = sn,
             h_una = una, h_len = len\<rparr>, p))))))))"

definition decode_hdr :: "bytes \<Rightarrow> fault + (hdr \<times> bytes)" where
  "decode_hdr p = andThen (ikcp_decode32u p) (\<lambda>(cv, p). decode_fields cv p)"

text \<open>What a header can hold: the encoding of a segment depends on these fields only.\<close>

definition hdr_of :: "seg \<Rightarrow> hdr" where
  "hdr_of s = \<lparr>h_conv = s_conv s, h_cmd = ucast (s_cmd s), h_frg = ucast (s_frg s),
     h_wnd = ucast (s_wnd s), h_ts = s_ts s, h_sn = s_sn s, h_una = s_una s, h_len = s_len s\<rparr>"

definition encode_hdr :: "hdr \<Rightarrow> bytes" where
  "encode_hdr h =
     ikcp_encode32u (h_conv h) @ ikcp_encode8u (h_cmd h) @ ikcp_encode8u (h_frg h) @
     ikcp_encode16u (h_wnd h) @ ikcp_encode32u (h_ts h) @ ikcp_encode32u (h_sn h) @
     ikcp_encode32u (h_una h) @ ikcp_encode32u (h_len h)"

lemma encode_seg_hdr: "ikcp_encode_seg s = encode_hdr (hdr_of s)"
  by (simp add: ikcp_encode_seg_def encode_hdr_def hdr_of_def)

lemma decode_fields_encode:
  "decode_fields cv (ikcp_encode8u cmd @ ikcp_encode8u frg @ ikcp_encode16u wnd @
     ikcp_encode32u ts @ ikcp_encode32u sn @ ikcp_encode32u una @ ikcp_encode32u len @ p) =
   Inr (\<lparr>h_conv = cv, h_cmd = cmd, h_frg = frg, h_wnd = wnd, h_ts = ts, h_sn = sn,
         h_una = una, h_len = len\<rparr>, p)"
  by (simp add: decode_fields_def c8.dec_enc c16.dec_enc c32.dec_enc)

lemma decode_hdr_encode: "decode_hdr (encode_hdr h @ p) = Inr (h, p)"
  by (simp add: decode_hdr_def encode_hdr_def c32.dec_enc decode_fields_encode)

lemma length_encode_hdr: "length (encode_hdr h) = 24"
  by (simp add: encode_hdr_def)

lemma decode_fields_long:
  assumes "20 \<le> length p"
  shows "\<exists>h. decode_fields cv p = Inr (h, drop 20 p) \<and> h_conv h = cv"
proof -
  have "0 + 1 \<le> length p" "1 = 0 + (1 :: nat)" using assms by linarith+
  from c8.dec_drop [OF this] obtain a where a: "ikcp_decode8u p = Inr (a, drop 1 p)"
    unfolding drop_0 by blast
  have "1 + 1 \<le> length p" "2 = 1 + (1 :: nat)" using assms by linarith+
  from c8.dec_drop [OF this] obtain b where b: "ikcp_decode8u (drop 1 p) = Inr (b, drop 2 p)"
    unfolding drop_0 by blast
  have "2 + 2 \<le> length p" "4 = 2 + (2 :: nat)" using assms by linarith+
  from c16.dec_drop [OF this] obtain c where c: "ikcp_decode16u (drop 2 p) = Inr (c, drop 4 p)"
    unfolding drop_0 by blast
  have "4 + 4 \<le> length p" "8 = 4 + (4 :: nat)" using assms by linarith+
  from c32.dec_drop [OF this] obtain d where d: "ikcp_decode32u (drop 4 p) = Inr (d, drop 8 p)"
    unfolding drop_0 by blast
  have "8 + 4 \<le> length p" "12 = 8 + (4 :: nat)" using assms by linarith+
  from c32.dec_drop [OF this] obtain e where e: "ikcp_decode32u (drop 8 p) = Inr (e, drop 12 p)"
    unfolding drop_0 by blast
  have "12 + 4 \<le> length p" "16 = 12 + (4 :: nat)" using assms by linarith+
  from c32.dec_drop [OF this] obtain f where f: "ikcp_decode32u (drop 12 p) = Inr (f, drop 16 p)"
    unfolding drop_0 by blast
  have "16 + 4 \<le> length p" "20 = 16 + (4 :: nat)" using assms by linarith+
  from c32.dec_drop [OF this] obtain g where g: "ikcp_decode32u (drop 16 p) = Inr (g, drop 20 p)"
    unfolding drop_0 by blast
  show ?thesis unfolding decode_fields_def by (simp add: a b c d e f g del: One_nat_def)
qed

lemma decode_hdr_long: "24 \<le> length p \<Longrightarrow> \<exists>h. decode_hdr p = Inr (h, drop 24 p)"
  using c32.dec_long [of p] decode_fields_long [of "drop 4 p"]
  by (fastforce simp: decode_hdr_def)

lemma decode_fields_short: "length p < 20 \<Longrightarrow> decode_fields cv p = Inl OobRead"
proof (cases "decode_fields cv p")
  case (Inl e)
  then show ?thesis
    by (auto simp: decode_fields_def andThen_def split: sum.splits
        dest!: c8.dec_no_other_fault c16.dec_no_other_fault c32.dec_no_other_fault)
next
  case (Inr r)
  moreover assume "length p < 20"
  ultimately show ?thesis
    by (auto simp: decode_fields_def andThen_Inr
        dest!: c8.dec_rest c16.dec_rest c32.dec_rest)
qed

lemma decode_hdr_short: "length p < 24 \<Longrightarrow> decode_hdr p = Inl OobRead"
proof (cases "ikcp_decode32u p")
  case (Inl e)
  then show ?thesis using c32.dec_no_other_fault [OF Inl] by (simp add: decode_hdr_def)
next
  case (Inr r)
  moreover assume "length p < 24"
  ultimately show ?thesis using c32.dec_rest [of p "fst r" "snd r"]
    by (auto simp: decode_hdr_def split: prod.splits intro!: decode_fields_short)
qed

interpretation header: wire_codec encode_hdr decode_hdr 24
  by unfold_locales
    (auto simp: decode_hdr_encode length_encode_hdr decode_hdr_long decode_hdr_short)

lemma length_encode_seg [simp]: "length (ikcp_encode_seg s) = 24"
  by (simp add: encode_seg_hdr header.length_enc)

lemma decode_encode_seg: "decode_hdr (ikcp_encode_seg s @ p) = Inr (hdr_of s, p)"
  by (simp add: encode_seg_hdr header.dec_enc)

text \<open>
  C24. The wire header round trip: the bytes \<open>ikcp_encode_seg\<close> writes are exactly 24, and reading
  them back as \<open>ikcp_input\<close> does gives every field of the segment, each truncated to the width
  it has on the wire, and leaves the bytes that follow; so a command, fragment number and window
  that fit their wire width come back unchanged.
\<close>

theorem segment_header_roundtrip:
  "length (ikcp_encode_seg s) = 24 \<and>
   decode_hdr (ikcp_encode_seg s @ p) =
     Inr (\<lparr>h_conv = s_conv s, h_cmd = ucast (s_cmd s), h_frg = ucast (s_frg s),
           h_wnd = ucast (s_wnd s), h_ts = s_ts s, h_sn = s_sn s, h_una = s_una s,
           h_len = s_len s\<rparr>, p)"
  by (simp add: decode_encode_seg hdr_of_def)

end
