(* ===== verification/Kcp_Inv.thy ===== *)
theory Kcp_Inv
  imports Kcp_Types
begin

text \<open>
  The invariant of a control block, in the parts the components keep: configuration and buffer
  size (\<open>cfg_inv\<close>), the sending queues and window (\<open>snd_inv\<close>), the receiving queues and window
  (\<open>rcv_inv\<close>), the acknowledgement array (\<open>ack_inv\<close>). Each component theory shows that its
  operations preserve the parts; \<open>Kcp_Reach\<close> puts them together.
\<close>

definition seg_ok :: "seg \<Rightarrow> bool" where
  "seg_ok s = (unat (s_len s) = length (s_data s))"

lemma seg_ok_uint: "seg_ok s \<Longrightarrow> uint (s_len s) = int (length (s_data s))"
proof -
  assume "seg_ok s"
  then have "int (unat (s_len s)) = int (length (s_data s))" unfolding seg_ok_def by (rule arg_cong)
  then show ?thesis by simp
qed

definition snd_seg_ok :: "kcpcb \<Rightarrow> seg \<Rightarrow> bool" where
  "snd_seg_ok k s = (seg_ok s \<and> length (s_data s) \<le> unat (mss k))"

text \<open>A received segment: its fragment number came over the wire in one byte.\<close>

definition rcv_seg_ok :: "seg \<Rightarrow> bool" where
  "rcv_seg_ok s = (seg_ok s \<and> unat (s_frg s) < 256)"

text \<open>\<open>in_order b n q\<close>: sequence numbers strictly increase along \<open>q\<close>, all less than \<open>n\<close> ahead of \<open>b\<close>.\<close>

definition in_order :: "u32 \<Rightarrow> nat \<Rightarrow> seg list \<Rightarrow> bool" where
  "in_order b n q =
     (sorted_wrt (<) (map (\<lambda>s. seqoff b (s_sn s)) q) \<and> (\<forall>s \<in> set q. seqoff b (s_sn s) < n))"

definition cfg_inv :: "kcpcb \<Rightarrow> bool" where
  "cfg_inv k =
     (50 \<le> unat (mtu k) \<and> unat (mtu k) < 1073741824 \<and> mss k = mtu k - 24 \<and>
      buffer k = 3 * (unat (mtu k) + 24) \<and> 128 \<le> unat (rcv_wnd k) \<and> unat (rcv_wnd k) < 2147483648 \<and>
      unat (rmt_wnd k) \<le> 65535 \<and> (rx_minrto k = 30 \<or> rx_minrto k = 100) \<and>
      30 \<le> rx_rto k \<and> rx_rto k \<le> 60000)"

definition snd_base :: "kcpcb \<Rightarrow> bool" where
  "snd_base k =
     (nsnd_que k = of_nat (length (snd_queue k)) \<and> nsnd_buf k = of_nat (length (snd_buf k)) \<and>
      (\<forall>s \<in> set (snd_queue k). snd_seg_ok k s) \<and> (\<forall>s \<in> set (snd_buf k). snd_seg_ok k s) \<and>
      seqoff (snd_una k) (snd_nxt k) \<le> 65535 \<and>
      in_order (snd_una k) (seqoff (snd_una k) (snd_nxt k)) (snd_buf k))"

text \<open>\<open>snd_una\<close> is the number of the oldest segment in flight, or the next one to be sent.\<close>

fun first_sn :: "seg list \<Rightarrow> u32 \<Rightarrow> u32" where
  "first_sn [] n = n"
| "first_sn (s # q) n = s_sn s"

definition una_tight :: "kcpcb \<Rightarrow> bool" where
  "una_tight k = (snd_una k = first_sn (snd_buf k) (snd_nxt k))"

definition snd_inv :: "kcpcb \<Rightarrow> bool" where
  "snd_inv k = (snd_base k \<and> una_tight k)"

definition rcv_inv :: "kcpcb \<Rightarrow> bool" where
  "rcv_inv k =
     (nrcv_que k = of_nat (length (rcv_queue k)) \<and> nrcv_buf k = of_nat (length (rcv_buf k)) \<and>
      (\<forall>s \<in> set (rcv_queue k). rcv_seg_ok s) \<and> (\<forall>s \<in> set (rcv_buf k). rcv_seg_ok s) \<and>
      length (rcv_queue k) \<le> 2147483648 \<and>
      in_order (rcv_nxt k) 2147483648 (rcv_buf k))"

fun acks_ok :: "(u32 \<times> u32) list option \<Rightarrow> u32 \<Rightarrow> u32 \<Rightarrow> bool" where
  "acks_ok None count block = (count = 0 \<and> block = 0)"
| "acks_ok (Some l) count block = (unat count \<le> length l \<and> length l \<le> unat block)"

definition ack_inv :: "kcpcb \<Rightarrow> bool" where
  "ack_inv k = acks_ok (acklist k) (ackcount k) (ackblock k)"

definition kcp_inv :: "kcpcb \<Rightarrow> bool" where
  "kcp_inv k = (cfg_inv k \<and> snd_inv k \<and> rcv_inv k \<and> ack_inv k)"

lemmas inv_parts = cfg_inv_def snd_base_def una_tight_def snd_inv_def rcv_inv_def ack_inv_def

text \<open>Which fields the parts depend on: an operation that leaves these alone keeps the part.\<close>

lemma cfg_frame:
  "cfg_inv k \<Longrightarrow> mtu k' = mtu k \<Longrightarrow> mss k' = mss k \<Longrightarrow> buffer k' = buffer k \<Longrightarrow>
   rcv_wnd k' = rcv_wnd k \<Longrightarrow> rmt_wnd k' = rmt_wnd k \<Longrightarrow> rx_minrto k' = rx_minrto k \<Longrightarrow>
   rx_rto k' = rx_rto k \<Longrightarrow> cfg_inv k'"
  by (simp add: cfg_inv_def)

lemma snd_base_frame:
  "snd_base k \<Longrightarrow> nsnd_que k' = nsnd_que k \<Longrightarrow> nsnd_buf k' = nsnd_buf k \<Longrightarrow>
   snd_queue k' = snd_queue k \<Longrightarrow> snd_buf k' = snd_buf k \<Longrightarrow> snd_una k' = snd_una k \<Longrightarrow>
   snd_nxt k' = snd_nxt k \<Longrightarrow> mss k' = mss k \<Longrightarrow> snd_base k'"
  by (simp add: snd_base_def snd_seg_ok_def)

lemma una_tight_frame:
  "una_tight k \<Longrightarrow> snd_buf k' = snd_buf k \<Longrightarrow> snd_una k' = snd_una k \<Longrightarrow>
   snd_nxt k' = snd_nxt k \<Longrightarrow> una_tight k'"
  by (simp add: una_tight_def)

lemma rcv_frame:
  "rcv_inv k \<Longrightarrow> nrcv_que k' = nrcv_que k \<Longrightarrow> nrcv_buf k' = nrcv_buf k \<Longrightarrow>
   rcv_queue k' = rcv_queue k \<Longrightarrow> rcv_buf k' = rcv_buf k \<Longrightarrow> rcv_nxt k' = rcv_nxt k \<Longrightarrow> rcv_inv k'"
  by (simp add: rcv_inv_def)

lemma ack_frame:
  "ack_inv k \<Longrightarrow> acklist k' = acklist k \<Longrightarrow> ackcount k' = ackcount k \<Longrightarrow>
   ackblock k' = ackblock k \<Longrightarrow> ack_inv k'"
  by (simp add: ack_inv_def)

lemma snd_frame:
  "snd_inv k \<Longrightarrow> nsnd_que k' = nsnd_que k \<Longrightarrow> nsnd_buf k' = nsnd_buf k \<Longrightarrow>
   snd_queue k' = snd_queue k \<Longrightarrow> snd_buf k' = snd_buf k \<Longrightarrow> snd_una k' = snd_una k \<Longrightarrow>
   snd_nxt k' = snd_nxt k \<Longrightarrow> mss k' = mss k \<Longrightarrow> snd_inv k'"
  by (auto simp: snd_inv_def elim: snd_base_frame una_tight_frame)

lemmas inv_frames = cfg_frame snd_base_frame una_tight_frame rcv_frame ack_frame snd_frame

lemma kcp_inv_parts:
  assumes "kcp_inv k"
  shows "cfg_inv k" "snd_inv k" "rcv_inv k" "ack_inv k"
  using assms by (auto simp: kcp_inv_def)

lemma kcp_invI: "cfg_inv k \<Longrightarrow> snd_inv k \<Longrightarrow> rcv_inv k \<Longrightarrow> ack_inv k \<Longrightarrow> kcp_inv k"
  by (simp add: kcp_inv_def)

lemma probe_inv: "kcp_inv k \<Longrightarrow> kcp_inv (k\<lparr>probe := p\<rparr>)"
proof (rule kcp_invI)
  assume i: "kcp_inv k"
  show "cfg_inv (k\<lparr>probe := p\<rparr>)" by (rule cfg_frame [OF kcp_inv_parts(1) [OF i]]) simp_all
  show "snd_inv (k\<lparr>probe := p\<rparr>)" by (rule snd_frame [OF kcp_inv_parts(2) [OF i]]) simp_all
  show "rcv_inv (k\<lparr>probe := p\<rparr>)" by (rule rcv_frame [OF kcp_inv_parts(3) [OF i]]) simp_all
  show "ack_inv (k\<lparr>probe := p\<rparr>)" by (rule ack_frame [OF kcp_inv_parts(4) [OF i]]) simp_all
qed

section \<open>Ordered segment lists\<close>

lemma in_order_Nil [simp]: "in_order b n []"
  by (simp add: in_order_def)

lemma in_order_Cons:
  "in_order b n (s # q) \<longleftrightarrow>
     seqoff b (s_sn s) < n \<and> (\<forall>t \<in> set q. seqoff b (s_sn s) < seqoff b (s_sn t)) \<and> in_order b n q"
  by (auto simp: in_order_def)

lemma in_order_append:
  "in_order b n (p @ q) \<longleftrightarrow>
     in_order b n p \<and> in_order b n q \<and>
     (\<forall>s \<in> set p. \<forall>t \<in> set q. seqoff b (s_sn s) < seqoff b (s_sn t))"
  by (auto simp: in_order_def sorted_wrt_append)

lemma in_order_bound: "in_order b n q \<Longrightarrow> s \<in> set q \<Longrightarrow> seqoff b (s_sn s) < n"
  by (auto simp: in_order_def)

lemma in_order_mono: "in_order b n q \<Longrightarrow> n \<le> m \<Longrightarrow> in_order b m q"
  by (fastforce simp: in_order_def)

lemma in_order_map_sn: "map s_sn q' = map s_sn q \<Longrightarrow> in_order b n q' \<longleftrightarrow> in_order b n q"
proof -
  assume "map s_sn q' = map s_sn q"
  moreover have "in_order b n r \<longleftrightarrow>
      sorted_wrt (<) (map (seqoff b) (map s_sn r)) \<and> (\<forall>x \<in> set (map s_sn r). seqoff b x < n)" for r
    by (simp add: in_order_def comp_def)
  ultimately show ?thesis by metis
qed

lemma in_order_rebase:
  assumes "in_order b n q" "\<And>s. s \<in> set q \<Longrightarrow> seqoff b c \<le> seqoff b (s_sn s)"
  shows "in_order c (n - seqoff b c) q"
  using assms
proof (induction q)
  case (Cons s q)
  have "seqoff c (s_sn t) = seqoff b (s_sn t) - seqoff b c" if "t \<in> set (s # q)" for t
    by (rule seqoff_rebase) (rule Cons.prems(2) [OF that])
  moreover have "seqoff b c \<le> seqoff b (s_sn t)" if "t \<in> set (s # q)" for t
    by (rule Cons.prems(2) [OF that])
  ultimately show ?case using Cons by (fastforce simp: in_order_Cons intro: diff_less_mono)
qed simp

lemma in_order_distinct: "in_order b n q \<Longrightarrow> distinct (map s_sn q)"
  by (induction q) (auto simp: in_order_Cons)

lemma in_order_length: "in_order b n q \<Longrightarrow> length q \<le> n"
proof -
  assume o: "in_order b n q"
  have "length q = card ((\<lambda>s. seqoff b (s_sn s)) ` set q)"
  proof -
    have "distinct (map (\<lambda>s. seqoff b (s_sn s)) q)"
      using o strict_sorted_iff unfolding in_order_def by blast
    from distinct_card [OF this] show ?thesis by simp
  qed
  also have "\<dots> \<le> card {..<n}" using o by (intro card_mono) (auto simp: in_order_def)
  finally show ?thesis by simp
qed

section \<open>A new control block\<close>

lemma fresh_inv: "kcp_inv (kcp_fresh cv)"
  by (simp add: kcp_inv_def inv_parts)

lemma mss_bounds:
  assumes "cfg_inv k"
  shows "unat (mss k) = unat (mtu k) - 24" "26 \<le> unat (mss k)" "unat (mss k) < 1073741824"
proof -
  have "24 \<le> mtu k" using assms by (simp add: cfg_inv_def unat_le_u32)
  then have "unat (mtu k - 24) = unat (mtu k) - 24" by (simp add: unat_sub)
  then show "unat (mss k) = unat (mtu k) - 24" "26 \<le> unat (mss k)" "unat (mss k) < 1073741824"
    using assms by (auto simp: cfg_inv_def)
qed

section \<open>The configuration operations\<close>

text \<open>
  \<open>ikcp_setmtu\<close> keeps the invariant where no queued segment is longer than the new \<open>mss\<close>, and
  where \<open>mtu\<close> is small enough for the size of the buffer, computed in 32 bits, not to wrap.
\<close>

lemma setmtu_inv:
  assumes "kcp_inv k" "m < 1073741824"
    and "\<And>s. s \<in> set (snd_queue k @ snd_buf k) \<Longrightarrow> int (length (s_data s)) \<le> m - 24"
  shows "kcp_inv (snd (ikcp_setmtu k m alloc))"
proof (cases "m < 50 \<or> \<not> alloc")
  case True
  then show ?thesis using assms(1) by (auto simp: ikcp_setmtu_def)
next
  case False
  then have m: "50 \<le> m" "alloc" by auto
  define n where "n = nat m"
  have n: "m = int n" "50 \<le> n" "n < 1073741824" using m assms(2) by (auto simp: n_def)
  have u: "unat (of_nat n :: u32) = n" using n by (simp add: unat_of_nat_u32)
  have b: "unat ((of_nat n + 24) * 3 :: u32) = 3 * (n + 24)"
  proof -
    have e: "(of_nat n + 24) * 3 = (of_nat (3 * (n + 24)) :: u32)" by simp
    show ?thesis unfolding e by (rule unat_of_nat_u32) (use n(3) in simp)
  qed
  have s: "unat (of_nat n - 24 :: u32) = n - 24"
    using n u by (subst unat_sub) (simp_all add: unat_le_u32)
  have k': "snd (ikcp_setmtu k m alloc) =
      k\<lparr>mtu := of_nat n, mss := of_nat n - 24, buffer := 3 * (n + 24)\<rparr>" (is "_ = ?k")
    using m n b by (simp add: ikcp_setmtu_def)
  have i: "cfg_inv k" "snd_inv k" "rcv_inv k" "ack_inv k" using assms(1) by (auto simp: kcp_inv_def)
  have "cfg_inv ?k" using i(1) n u by (simp add: cfg_inv_def)
  moreover have seg: "snd_seg_ok ?k s" if "s \<in> set (snd_queue k) \<union> set (snd_buf k)" "seg_ok s" for s
    using assms(3) [of s] that n s by (auto simp: snd_seg_ok_def)
  have "snd_base ?k" using i(2) seg
    by (auto simp: snd_inv_def snd_base_def) (simp_all add: snd_seg_ok_def)
  then have "snd_inv ?k" using i(2) by (auto simp: snd_inv_def elim: una_tight_frame)
  moreover have "rcv_inv ?k" using i(3) by (rule rcv_frame) simp_all
  moreover have "ack_inv ?k" using i(4) by (rule ack_frame) simp_all
  ultimately show ?thesis unfolding k' by (simp add: kcp_inv_def)
qed

lemma interval_inv: "kcp_inv k \<Longrightarrow> kcp_inv (snd (ikcp_interval k i))"
  by (auto simp: ikcp_interval_def kcp_inv_def elim!: cfg_frame snd_frame rcv_frame ack_frame)

lemma nodelay_inv:
  assumes "kcp_inv k"
  shows "kcp_inv (snd (ikcp_nodelay k nd i resend nc))"
proof -
  let ?k = "snd (ikcp_nodelay k nd i resend nc)"
  have i: "cfg_inv k" "snd_inv k" "rcv_inv k" "ack_inv k" using assms by (auto simp: kcp_inv_def)
  have "cfg_inv ?k" using i(1) by (simp add: ikcp_nodelay_def Let_def cfg_inv_def)
  moreover have "snd_inv ?k" using i(2) by (rule snd_frame) (simp_all add: ikcp_nodelay_def Let_def)
  moreover have "rcv_inv ?k" using i(3) by (rule rcv_frame) (simp_all add: ikcp_nodelay_def Let_def)
  moreover have "ack_inv ?k" using i(4) by (rule ack_frame) (simp_all add: ikcp_nodelay_def Let_def)
  ultimately show ?thesis by (simp add: kcp_inv_def)
qed

text \<open>Window sizes come from C's \<open>int\<close>, so the new receive window is less than \<open>2^31\<close>.\<close>

lemma wndsize_inv:
  assumes "kcp_inv k" "r < 2147483648"
  shows "kcp_inv (snd (ikcp_wndsize k sw r))"
proof -
  let ?k = "snd (ikcp_wndsize k sw r)"
  have i: "cfg_inv k" "snd_inv k" "rcv_inv k" "ack_inv k" using assms by (auto simp: kcp_inv_def)
  have "128 \<le> unat (imax (of_int r) 128) \<and> unat (imax (of_int r) 128) < 2147483648" if "0 < r"
  proof -
    have "unat (of_int r :: u32) = nat r"
      using that assms(2) unat_of_nat_u32 [of "nat r"] by simp
    then show ?thesis using that assms(2) by (auto simp: imax_def unat_le_u32)
  qed
  then have "cfg_inv ?k" using i(1) by (simp add: ikcp_wndsize_def Let_def cfg_inv_def)
  moreover have "snd_inv ?k" using i(2) by (rule snd_frame) (simp_all add: ikcp_wndsize_def Let_def)
  moreover have "rcv_inv ?k" using i(3) by (rule rcv_frame) (simp_all add: ikcp_wndsize_def Let_def)
  moreover have "ack_inv ?k" using i(4) by (rule ack_frame) (simp_all add: ikcp_wndsize_def Let_def)
  ultimately show ?thesis by (simp add: kcp_inv_def)
qed

end
