(* ===== verification/Kcp_Recv.thy ===== *)
theory Kcp_Recv
  imports Kcp_Inv
begin

text \<open>
  The receiving side: \<open>ikcp_peeksize\<close>, \<open>ikcp_recv\<close> and \<open>ikcp_parse_data\<close>. Segments arrive in
  \<open>rcv_buf\<close>, sorted by sequence number; the run that starts at \<open>rcv_nxt\<close> moves to \<open>rcv_queue\<close>, from
  which the user takes whole messages.
\<close>

section \<open>The code\<close>

text \<open>The loop that moves available data from \<open>rcv_buf\<close> to \<open>rcv_queue\<close>; its list argument is \<open>rcv_buf\<close>.\<close>

fun move_ready :: "seg list \<Rightarrow> kcpcb \<Rightarrow> kcpcb" where
  "move_ready [] k = k"
| "move_ready (s # b) k =
     (if s_sn s = rcv_nxt k \<and> nrcv_que k < rcv_wnd k
      then move_ready b (k\<lparr>rcv_buf := b, nrcv_buf := nrcv_buf k - 1,
                           rcv_queue := rcv_queue k @ [s], nrcv_que := nrcv_que k + 1,
                           rcv_nxt := rcv_nxt k + 1\<rparr>)
      else k)"

fun peek_sum :: "int \<Rightarrow> seg list \<Rightarrow> int" where
  "peek_sum n [] = n"
| "peek_sum n (s # q) =
     (let n = i32 (n + uint (s_len s)) in if s_frg s = 0 then n else peek_sum n q)"

definition ikcp_peeksize :: "kcpcb \<Rightarrow> int" where
  "ikcp_peeksize k =
     (case rcv_queue k of
        [] \<Rightarrow> -1
      | s # _ \<Rightarrow>
          if s_frg s = 0 then sint (s_len s)
          else if nrcv_que k < s_frg s + 1 then -1
          else peek_sum 0 (rcv_queue k))"

text \<open>
  The loop that merges the fragments of a message. \<open>cap\<close> is the room at the argument \<open>buffer\<close>
  (\<open>None\<close> where it is NULL), \<open>out\<close> the bytes written there so far. When not peeking, each segment is
  unlinked and freed; it is the first of \<open>rcv_queue\<close>.
\<close>

fun recv_merge ::
  "bool \<Rightarrow> nat option \<Rightarrow> seg list \<Rightarrow> kcpcb \<Rightarrow> int \<Rightarrow> bytes \<Rightarrow> fault + (kcpcb \<times> int \<times> bytes)" where
  "recv_merge ispeek cap [] k len out = Inr (k, len, out)"
| "recv_merge ispeek cap (s # p) k len out =
     andThen
       (case cap of
          None \<Rightarrow> Inr out
        | Some c \<Rightarrow>
            andThen (mem_read (s_data s) (unat (s_len s))) (\<lambda>d.
              if length out + length d \<le> c then Inr (out @ d) else Inl OobWrite))
       (\<lambda>out.
         let len = i32 (len + uint (s_len s));
             k = (if \<not> ispeek
                  then k\<lparr>rcv_queue := tl (rcv_queue k), nrcv_que := nrcv_que k - 1\<rparr> else k)
         in if s_frg s = 0 then Inr (k, len, out) else recv_merge ispeek cap p k len out)"

definition ikcp_recv ::
  "kcpcb \<Rightarrow> nat option \<Rightarrow> int \<Rightarrow> fault + (int \<times> bytes \<times> kcpcb)" where
  "ikcp_recv k cap len =
     (let ispeek = len < 0
      in if rcv_queue k = [] then Inr (-1, [], k)
         else
           let len = (if len < 0 then i32 (- len) else len);
               peeksize = ikcp_peeksize k
           in if peeksize < 0 then Inr (-2, [], k)
              else if peeksize > len then Inr (-3, [], k)
              else
                let recover = nrcv_que k \<ge> rcv_wnd k
                in andThen (recv_merge ispeek cap (rcv_queue k) k 0 []) (\<lambda>(k, len, out).
                     if len \<noteq> peeksize then Inl AssertFail
                     else
                       let k = move_ready (rcv_buf k) k;
                           k = (if nrcv_que k < rcv_wnd k \<and> recover
                                then k\<lparr>probe := probe k OR IKCP_ASK_TELL\<rparr> else k)
                       in Inr (len, out, k)))"

text \<open>
  \<open>ikcp_parse_data\<close>. The search goes from the tail of \<open>rcv_buf\<close> to its head, so the list argument
  is the reversed buffer; \<open>None\<close> says that the segment is already there.
\<close>

fun insert_from_tail :: "seg \<Rightarrow> seg list \<Rightarrow> seg list option" where
  "insert_from_tail new [] = Some [new]"
| "insert_from_tail new (s # p) =
     (if s_sn s = s_sn new then None
      else if itimediff (s_sn new) (s_sn s) > 0 then Some (new # s # p)
      else map_option ((#) s) (insert_from_tail new p))"

definition ikcp_parse_data :: "kcpcb \<Rightarrow> seg \<Rightarrow> kcpcb" where
  "ikcp_parse_data k new =
     (let sn = s_sn new
      in if itimediff sn (rcv_nxt k + rcv_wnd k) \<ge> 0 \<or> itimediff sn (rcv_nxt k) < 0 then k
         else
           let k = (case insert_from_tail new (rev (rcv_buf k)) of
                      None \<Rightarrow> k
                    | Some b \<Rightarrow> k\<lparr>rcv_buf := rev b, nrcv_buf := nrcv_buf k + 1\<rparr>)
           in move_ready (rcv_buf k) k)"

section \<open>What the receiver should do\<close>

text \<open>
  The abstract receiver: the number of the next segment to deliver, the segments that arrived
  ahead of it as a map from numbers to segments, and the delivered segments the user has not taken.
\<close>

record receiver =
  sp_nxt :: u32
  sp_store :: "u32 \<Rightarrow> seg option"
  sp_out :: "seg list"

fun deliver :: "nat \<Rightarrow> receiver \<Rightarrow> receiver" where
  "deliver 0 a = a"
| "deliver (Suc room) a =
     (case sp_store a (sp_nxt a) of
        None \<Rightarrow> a
      | Some s \<Rightarrow> deliver room (a\<lparr>sp_nxt := sp_nxt a + 1, sp_store := (sp_store a)(sp_nxt a := None),
                                  sp_out := sp_out a @ [s]\<rparr>))"

lemma deliver_None: "sp_store a (sp_nxt a) = None \<Longrightarrow> deliver room a = a"
  by (cases room) simp_all

definition accept :: "nat \<Rightarrow> seg \<Rightarrow> receiver \<Rightarrow> receiver" where
  "accept wnd s a =
     (if seqoff (sp_nxt a) (s_sn s) < wnd
      then deliver (wnd - length (sp_out a))
             (if sp_store a (s_sn s) = None then a\<lparr>sp_store := (sp_store a)(s_sn s \<mapsto> s)\<rparr> else a)
      else a)"

definition store_of :: "seg list \<Rightarrow> u32 \<Rightarrow> seg option" where
  "store_of b = map_of (map (\<lambda>s. (s_sn s, s)) b)"

definition receiver_of :: "kcpcb \<Rightarrow> receiver" where
  "receiver_of k = \<lparr>sp_nxt = rcv_nxt k, sp_store = store_of (rcv_buf k), sp_out = rcv_queue k\<rparr>"

lemma store_of_Nil [simp]: "store_of [] = Map.empty"
  by (simp add: store_of_def)

lemma store_of_Cons [simp]: "store_of (s # b) = (store_of b)(s_sn s \<mapsto> s)"
  by (simp add: store_of_def)

lemma store_of_None: "store_of b n = None \<longleftrightarrow> n \<notin> s_sn ` set b"
  by (induction b) auto

lemma store_of_append: "store_of (p @ q) = store_of q ++ store_of p"
  by (simp add: store_of_def)

text \<open>The segments of the first message of a queue: up to the first with fragment number 0.\<close>

fun first_msg :: "seg list \<Rightarrow> seg list" where
  "first_msg [] = []"
| "first_msg (s # q) = (if s_frg s = 0 then [s] else s # first_msg q)"

definition first_size :: "seg list \<Rightarrow> int" where
  "first_size q = int (length (concat (map s_data (first_msg q))))"

lemma first_msg_prefix: "first_msg q = take (length (first_msg q)) q"
  by (induction q) auto

lemma first_msg_subset: "set (first_msg q) \<subseteq> set q"
  by (metis first_msg_prefix set_take_subset)

lemma length_first_msg: "length (first_msg q) \<le> length q"
  by (induction q) auto

section \<open>Moving data out of \<open>rcv_buf\<close>\<close>

lemma move_ready_frame [simp]:
  "mtu (move_ready b k) = mtu k" "mss (move_ready b k) = mss k" "buffer (move_ready b k) = buffer k"
  "rcv_wnd (move_ready b k) = rcv_wnd k" "rmt_wnd (move_ready b k) = rmt_wnd k"
  "rx_minrto (move_ready b k) = rx_minrto k" "rx_rto (move_ready b k) = rx_rto k"
  "snd_queue (move_ready b k) = snd_queue k" "snd_buf (move_ready b k) = snd_buf k"
  "nsnd_que (move_ready b k) = nsnd_que k" "nsnd_buf (move_ready b k) = nsnd_buf k"
  "snd_una (move_ready b k) = snd_una k" "snd_nxt (move_ready b k) = snd_nxt k"
  "acklist (move_ready b k) = acklist k" "ackcount (move_ready b k) = ackcount k"
  "ackblock (move_ready b k) = ackblock k" "conv (move_ready b k) = conv k"
  "probe (move_ready b k) = probe k"
  "cwnd (move_ready b k) = cwnd k"
  "ssthresh (move_ready b k) = ssthresh k"
  "incr (move_ready b k) = incr k"
  "current (move_ready b k) = current k"
  "updated (move_ready b k) = updated k"
  "output_set (move_ready b k) = output_set k"
  "stream (move_ready b k) = stream k"
  "ts_flush (move_ready b k) = ts_flush k"
  "interval (move_ready b k) = interval k"
  "dead_link (move_ready b k) = dead_link k"
  "state (move_ready b k) = state k"
  by (induction b k rule: move_ready.induct) auto

definition moved_one :: "kcpcb \<Rightarrow> seg \<Rightarrow> seg list \<Rightarrow> kcpcb" where
  "moved_one k s b =
     k\<lparr>rcv_buf := b, nrcv_buf := nrcv_buf k - 1, rcv_queue := rcv_queue k @ [s],
       nrcv_que := nrcv_que k + 1, rcv_nxt := rcv_nxt k + 1\<rparr>"

lemma moved_one_simps [simp]:
  "rcv_buf (moved_one k s b) = b" "rcv_queue (moved_one k s b) = rcv_queue k @ [s]"
  "rcv_nxt (moved_one k s b) = rcv_nxt k + 1" "rcv_wnd (moved_one k s b) = rcv_wnd k"
  by (simp_all add: moved_one_def)

lemma move_ready_Cons:
  "move_ready (s # b) k =
     (if s_sn s = rcv_nxt k \<and> nrcv_que k < rcv_wnd k then move_ready b (moved_one k s b) else k)"
  by (simp add: moved_one_def)

declare move_ready.simps(2) [simp del]

lemma rcv_queue_count: "rcv_inv k \<Longrightarrow> unat (nrcv_que k) = length (rcv_queue k)"
  by (auto simp: rcv_inv_def intro: unat_of_nat_u32)

lemma moved_one_inv:
  assumes "rcv_inv k" "rcv_buf k = s # b" "s_sn s = rcv_nxt k" "nrcv_que k < rcv_wnd k"
    and "unat (rcv_wnd k) < 2147483648"
  shows "rcv_inv (moved_one k s b)"
proof -
  have o: "in_order (rcv_nxt k) 2147483648 (s # b)" using assms(1,2) by (simp add: rcv_inv_def)
  have "in_order (rcv_nxt k + 1) (2147483648 - seqoff (rcv_nxt k) (rcv_nxt k + 1)) b"
  proof (rule in_order_rebase)
    show "in_order (rcv_nxt k) 2147483648 b" using o by (simp add: in_order_Cons)
    fix t assume "t \<in> set b"
    then have "0 < seqoff (rcv_nxt k) (s_sn t)" using o assms(3) by (auto simp: in_order_Cons)
    then show "seqoff (rcv_nxt k) (rcv_nxt k + 1) \<le> seqoff (rcv_nxt k) (s_sn t)"
      by (simp add: seqoff_plus)
  qed
  then have "in_order (rcv_nxt k + 1) 2147483648 b" by (rule in_order_mono) simp
  moreover have "length (rcv_queue k) < 2147483648"
    using assms(4,5) rcv_queue_count [OF assms(1)] by (simp add: unat_less_u32)
  ultimately show ?thesis using assms(1,2) by (simp add: rcv_inv_def moved_one_def)
qed

text \<open>The loop delivers as the abstract receiver does, and keeps the invariant.\<close>

lemma move_ready_spec:
  assumes "rcv_inv k" "b = rcv_buf k" "unat (rcv_wnd k) < 2147483648"
  shows "rcv_inv (move_ready b k) \<and>
    receiver_of (move_ready b k) =
      deliver (unat (rcv_wnd k) - length (rcv_queue k)) (receiver_of k)"
  using assms
proof (induction b arbitrary: k)
  case Nil
  then show ?case
    by (cases "unat (rcv_wnd k) - length (rcv_queue k)") (simp_all add: receiver_of_def)
next
  case (Cons s b)
  have r: "rcv_inv k" "rcv_buf k = s # b" using Cons.prems by auto
  note n = rcv_queue_count [OF r(1)]
  have o: "in_order (rcv_nxt k) 2147483648 (s # b)" using r by (simp add: rcv_inv_def)
  show ?case
  proof (cases "s_sn s = rcv_nxt k \<and> nrcv_que k < rcv_wnd k")
    case True
    let ?k = "moved_one k s b"
    have step: "rcv_inv ?k" using moved_one_inv [OF r] True Cons.prems(3) by simp
    obtain room where room: "unat (rcv_wnd k) - length (rcv_queue k) = Suc room"
      using True n by (metis Suc_diff_Suc unat_less_u32)
    have "s_sn s \<notin> s_sn ` set b" using in_order_distinct [OF o] by simp
    then have "store_of b (s_sn s) = None" by (simp only: store_of_None not_False_eq_True)
    then have "(store_of (s # b))(s_sn s := None) = store_of b" by (simp add: fun_upd_idem)
    then have "deliver (Suc room) (receiver_of k) = deliver room (receiver_of ?k)"
      using True r by (simp add: receiver_of_def)
    moreover have "unat (rcv_wnd ?k) - length (rcv_queue ?k) = room" using room by simp
    ultimately show ?thesis
      using Cons.IH [OF step] Cons.prems(3) True room by (simp add: move_ready_Cons del: deliver.simps)
  next
    case False
    have "deliver (unat (rcv_wnd k) - length (rcv_queue k)) (receiver_of k) = receiver_of k"
    proof (cases "nrcv_que k < rcv_wnd k")
      case True
      then have "s_sn s \<noteq> rcv_nxt k" using False by simp
      then have "rcv_nxt k \<notin> s_sn ` set (s # b)" using o
        by (auto simp: in_order_Cons)
      then have "store_of (s # b) (rcv_nxt k) = None" by (simp only: store_of_None not_False_eq_True)
      then show ?thesis using r(2)
        by (cases "unat (rcv_wnd k) - length (rcv_queue k)") (simp_all add: receiver_of_def)
    next
      case False
      then show ?thesis using n by (simp add: unat_less_u32)
    qed
    then show ?thesis using r(1) unfolding move_ready_Cons if_not_P [OF False] by simp
  qed
qed

section \<open>\<open>ikcp_parse_data\<close> implements the abstract receiver\<close>

text \<open>
  The search from the tail finds the place that keeps the buffer sorted, or the duplicate. The
  list \<open>p\<close> is the buffer read from the tail.
\<close>

lemma insert_from_tail_spec:
  assumes "in_order b 2147483648 (rev p)" "seqoff b (s_sn new) < 2147483648"
  shows "insert_from_tail new p =
    (if s_sn new \<in> s_sn ` set p then None
     else Some (filter (\<lambda>s. seqoff b (s_sn new) < seqoff b (s_sn s)) p @ new #
                filter (\<lambda>s. seqoff b (s_sn s) < seqoff b (s_sn new)) p))"
  using assms(1)
proof (induction p)
  case (Cons s p)
  have o: "in_order b 2147483648 (rev p)" "seqoff b (s_sn s) < 2147483648"
    "\<forall>t \<in> set p. seqoff b (s_sn t) < seqoff b (s_sn s)"
    using Cons.prems by (auto simp: in_order_append in_order_Cons)
  have d: "itimediff (s_sn new) (s_sn s) = int (seqoff b (s_sn new)) - int (seqoff b (s_sn s))"
    by (rule itimediff_seqoff) (use o assms(2) in simp_all)
  consider "s_sn s = s_sn new" | "seqoff b (s_sn s) < seqoff b (s_sn new)"
    | "seqoff b (s_sn new) < seqoff b (s_sn s)"
    by (metis linorder_neqE_nat seqoff_inj)
  then show ?case
  proof cases
    case 2
    then have "s_sn new \<notin> s_sn ` set (s # p)" using o(3) by auto
    moreover have "filter (\<lambda>t. seqoff b (s_sn new) < seqoff b (s_sn t)) (s # p) = []"
      using 2 o(3) by (auto simp: filter_empty_conv)
    moreover have "filter (\<lambda>t. seqoff b (s_sn t) < seqoff b (s_sn new)) (s # p) = s # p"
      using 2 o(3) by (auto simp: filter_id_conv)
    moreover have "insert_from_tail new (s # p) = Some (new # s # p)" using 2 d by auto
    ultimately show ?thesis by simp
  next
    case 3
    then show ?thesis using Cons.IH o(1) d by auto
  qed simp
qed simp

lemma inserted_in_order:
  assumes "in_order b n q" "seqoff b (s_sn new) < n"
  shows "in_order b n (filter (\<lambda>s. seqoff b (s_sn s) < seqoff b (s_sn new)) q @ new #
                filter (\<lambda>s. seqoff b (s_sn new) < seqoff b (s_sn s)) q)"
  using assms by (induction q) (auto simp: in_order_append in_order_Cons)

lemma inserted_set:
  assumes "s_sn new \<notin> s_sn ` set q"
  shows "set (filter (\<lambda>s. seqoff b (s_sn s) < seqoff b (s_sn new)) q @ new #
                filter (\<lambda>s. seqoff b (s_sn new) < seqoff b (s_sn s)) q) = insert new (set q)"
  using assms by (auto simp: image_iff) (metis linorder_neqE_nat seqoff_inj)

text \<open>A list sorted by sequence number has its elements as its map.\<close>

lemma store_of_in_order:
  assumes "in_order b n q"
  shows "store_of q i = Some s \<longleftrightarrow> s \<in> set q \<and> s_sn s = i"
proof -
  have "distinct (map fst (map (\<lambda>s. (s_sn s, s)) q))"
    using in_order_distinct [OF assms] by (simp add: comp_def)
  from map_of_eq_Some_iff [OF this] show ?thesis by (auto simp: store_of_def)
qed

lemma store_of_cong:
  assumes "in_order b n q" "in_order b n q'" "set q' = insert s (set q)" "s_sn s \<notin> s_sn ` set q"
  shows "store_of q' = (store_of q)(s_sn s \<mapsto> s)"
proof
  fix i
  have ne: "s_sn t \<noteq> s_sn s" if "t \<in> set q" for t using assms(4) that by (metis imageI)
  have "store_of q' i = Some t \<longleftrightarrow> ((store_of q)(s_sn s \<mapsto> s)) i = Some t" for t
    using assms(3) ne
    by (auto simp: store_of_in_order [OF assms(1)] store_of_in_order [OF assms(2)])
  then show "store_of q' i = ((store_of q)(s_sn s \<mapsto> s)) i"
    by (metis option.exhaust)
qed

definition inserted :: "kcpcb \<Rightarrow> seg \<Rightarrow> kcpcb" where
  "inserted k new =
     (case insert_from_tail new (rev (rcv_buf k)) of
        None \<Rightarrow> k
      | Some b \<Rightarrow> k\<lparr>rcv_buf := rev b, nrcv_buf := nrcv_buf k + 1\<rparr>)"

lemma inserted_frame [simp]:
  "rcv_wnd (inserted k new) = rcv_wnd k" "rcv_queue (inserted k new) = rcv_queue k"
  "rcv_nxt (inserted k new) = rcv_nxt k" "mtu (inserted k new) = mtu k"
  "mss (inserted k new) = mss k" "buffer (inserted k new) = buffer k"
  "rmt_wnd (inserted k new) = rmt_wnd k" "rx_minrto (inserted k new) = rx_minrto k"
  "rx_rto (inserted k new) = rx_rto k" "snd_queue (inserted k new) = snd_queue k"
  "snd_buf (inserted k new) = snd_buf k" "nsnd_que (inserted k new) = nsnd_que k"
  "nsnd_buf (inserted k new) = nsnd_buf k" "snd_una (inserted k new) = snd_una k"
  "snd_nxt (inserted k new) = snd_nxt k" "acklist (inserted k new) = acklist k"
  "ackcount (inserted k new) = ackcount k" "ackblock (inserted k new) = ackblock k"
  "conv (inserted k new) = conv k"
  "cwnd (inserted k new) = cwnd k"
  "ssthresh (inserted k new) = ssthresh k"
  "incr (inserted k new) = incr k"
  "current (inserted k new) = current k"
  "updated (inserted k new) = updated k"
  "output_set (inserted k new) = output_set k"
  "stream (inserted k new) = stream k"
  "ts_flush (inserted k new) = ts_flush k"
  "interval (inserted k new) = interval k"
  "dead_link (inserted k new) = dead_link k"
  "state (inserted k new) = state k"
  by (simp_all add: inserted_def split: option.split)

lemma inserted_spec:
  assumes "rcv_inv k" "rcv_seg_ok new" "seqoff (rcv_nxt k) (s_sn new) < 2147483648"
  shows "rcv_inv (inserted k new) \<and>
    receiver_of (inserted k new) =
      (if sp_store (receiver_of k) (s_sn new) = None
       then (receiver_of k)\<lparr>sp_store := (sp_store (receiver_of k))(s_sn new \<mapsto> new)\<rparr>
       else receiver_of k)"
proof -
  have o: "in_order (rcv_nxt k) 2147483648 (rev (rev (rcv_buf k)))" "in_order (rcv_nxt k) 2147483648 (rcv_buf k)"
    using assms(1) by (simp_all add: rcv_inv_def)
  note I = insert_from_tail_spec [OF o(1) assms(3)]
  let ?b = "filter (\<lambda>s. seqoff (rcv_nxt k) (s_sn s) < seqoff (rcv_nxt k) (s_sn new)) (rcv_buf k) @ new #
                filter (\<lambda>s. seqoff (rcv_nxt k) (s_sn new) < seqoff (rcv_nxt k) (s_sn s)) (rcv_buf k)"
  show ?thesis
  proof (cases "s_sn new \<in> s_sn ` set (rcv_buf k)")
    case True
    then have "inserted k new = k" using I by (simp add: inserted_def)
    moreover have "store_of (rcv_buf k) (s_sn new) \<noteq> None" using True by (simp add: store_of_None)
    ultimately show ?thesis using assms(1) by (auto simp: receiver_of_def)
  next
    case False
    then have e: "inserted k new = k\<lparr>rcv_buf := ?b, nrcv_buf := nrcv_buf k + 1\<rparr>"
      using I by (simp add: inserted_def rev_filter)
    note ord = inserted_in_order [OF o(2) assms(3)] and st = inserted_set [OF False, of "rcv_nxt k"]
    have len: "length ?b = Suc (length (rcv_buf k))"
    proof -
      have "distinct ?b" "distinct (rcv_buf k)"
        using in_order_distinct [OF ord] in_order_distinct [OF o(2)] by (simp_all only: distinct_map)
      then have "length ?b = card (insert new (set (rcv_buf k)))" "length (rcv_buf k) = card (set (rcv_buf k))"
        using st by (metis distinct_card)+
      moreover have "new \<notin> set (rcv_buf k)" using False by auto
      ultimately show ?thesis by simp
    qed
    have "\<forall>s \<in> set ?b. rcv_seg_ok s" unfolding st using assms(1,2) by (simp add: rcv_inv_def)
    then have "rcv_inv (inserted k new)"
      using assms(1) ord len unfolding e by (simp add: rcv_inv_def)
    moreover have "store_of ?b = (store_of (rcv_buf k))(s_sn new \<mapsto> new)"
      by (rule store_of_cong [OF o(2) ord st False])
    moreover have "store_of (rcv_buf k) (s_sn new) = None" using False by (simp add: store_of_None)
    ultimately show ?thesis unfolding e by (simp add: receiver_of_def)
  qed
qed

lemma parse_data_alt:
  "ikcp_parse_data k new =
     (if itimediff (s_sn new) (rcv_nxt k + rcv_wnd k) \<ge> 0 \<or> itimediff (s_sn new) (rcv_nxt k) < 0 then k
      else move_ready (rcv_buf (inserted k new)) (inserted k new))"
  by (simp add: ikcp_parse_data_def inserted_def Let_def)

lemma in_window:
  assumes "unat w < 2147483648"
  shows "itimediff sn (nxt + w) \<ge> 0 \<or> itimediff sn nxt < 0 \<longleftrightarrow> \<not> seqoff nxt sn < unat w"
proof (cases "seqoff nxt sn < 2147483648")
  case True
  have "itimediff sn (nxt + w) = int (seqoff nxt sn) - int (unat w)"
    using itimediff_seqoff [of nxt sn "nxt + w"] True assms by (simp add: seqoff_plus)
  then show ?thesis using True itimediff_nonneg [of sn nxt] by linarith
next
  case False
  then show ?thesis using assms itimediff_nonneg [of sn nxt] by linarith
qed

lemma parse_data_spec:
  assumes "rcv_inv k" "rcv_seg_ok new" "unat (rcv_wnd k) < 2147483648"
  shows "rcv_inv (ikcp_parse_data k new) \<and>
    receiver_of (ikcp_parse_data k new) = accept (unat (rcv_wnd k)) new (receiver_of k)"
proof (cases "seqoff (rcv_nxt k) (s_sn new) < unat (rcv_wnd k)")
  case False
  then have "ikcp_parse_data k new = k"
    unfolding parse_data_alt using in_window [OF assms(3)] by auto
  then show ?thesis using False assms(1) by (simp add: accept_def receiver_of_def)
next
  case True
  then have e: "ikcp_parse_data k new = move_ready (rcv_buf (inserted k new)) (inserted k new)"
    unfolding parse_data_alt using in_window [OF assms(3), of "s_sn new" "rcv_nxt k"] by auto
  have I: "rcv_inv (inserted k new)" "receiver_of (inserted k new) =
      (if sp_store (receiver_of k) (s_sn new) = None
       then (receiver_of k)\<lparr>sp_store := (sp_store (receiver_of k))(s_sn new \<mapsto> new)\<rparr>
       else receiver_of k)"
    using inserted_spec [OF assms(1,2)] True assms(3) by auto
  note M = move_ready_spec [OF I(1) refl]
  have "sp_nxt (receiver_of k) = rcv_nxt k" "sp_out (receiver_of k) = rcv_queue k"
    by (simp_all add: receiver_of_def)
  then show ?thesis using M assms(3) True unfolding e I(2) by (simp add: accept_def)
qed

text \<open>
  C7. \<open>ikcp_parse_data\<close> implements the abstract receiver: a segment outside the receive window is
  ignored, a second copy of a number already waiting is ignored (the first copy is kept), any
  other segment is stored under its number; then the consecutive run that starts at \<open>rcv_nxt\<close> moves
  to the user's queue, in order, as far as the window leaves room there, and \<open>rcv_nxt\<close> is
  advanced by as much. The invariant of the receiving side is kept.
\<close>

theorem parse_data_refines:
  assumes "kcp_inv k" "rcv_seg_ok new"
  shows "rcv_inv (ikcp_parse_data k new) \<and>
    receiver_of (ikcp_parse_data k new) = accept (unat (rcv_wnd k)) new (receiver_of k)"
  by (rule parse_data_spec) (use assms in \<open>auto simp: kcp_inv_def cfg_inv_def\<close>)

theorem parse_data_refines_witness:
  "receiver_of (ikcp_parse_data (kcp_fresh 7) ((ikcp_segment_new [])\<lparr>s_sn := 5\<rparr>)) =
     \<lparr>sp_nxt = 0, sp_store = [5 \<mapsto> (ikcp_segment_new [])\<lparr>s_sn := 5\<rparr>], sp_out = []\<rparr>"
  using parse_data_refines [OF fresh_inv, of "(ikcp_segment_new [])\<lparr>s_sn := 5\<rparr>" 7]
  by (simp add: rcv_seg_ok_def seg_ok_def ikcp_segment_new_def accept_def receiver_of_def seqoff_def deliver_None)

lemma parse_data_frame [simp]:
  "mtu (ikcp_parse_data k s) = mtu k" "mss (ikcp_parse_data k s) = mss k"
  "buffer (ikcp_parse_data k s) = buffer k" "rcv_wnd (ikcp_parse_data k s) = rcv_wnd k"
  "rmt_wnd (ikcp_parse_data k s) = rmt_wnd k" "rx_minrto (ikcp_parse_data k s) = rx_minrto k"
  "rx_rto (ikcp_parse_data k s) = rx_rto k" "snd_queue (ikcp_parse_data k s) = snd_queue k"
  "snd_buf (ikcp_parse_data k s) = snd_buf k" "nsnd_que (ikcp_parse_data k s) = nsnd_que k"
  "nsnd_buf (ikcp_parse_data k s) = nsnd_buf k" "snd_una (ikcp_parse_data k s) = snd_una k"
  "snd_nxt (ikcp_parse_data k s) = snd_nxt k" "acklist (ikcp_parse_data k s) = acklist k"
  "ackcount (ikcp_parse_data k s) = ackcount k" "ackblock (ikcp_parse_data k s) = ackblock k"
  "conv (ikcp_parse_data k s) = conv k"
  "cwnd (ikcp_parse_data k s) = cwnd k"
  "ssthresh (ikcp_parse_data k s) = ssthresh k"
  "incr (ikcp_parse_data k s) = incr k"
  "current (ikcp_parse_data k s) = current k"
  "updated (ikcp_parse_data k s) = updated k"
  "output_set (ikcp_parse_data k s) = output_set k"
  "stream (ikcp_parse_data k s) = stream k"
  "ts_flush (ikcp_parse_data k s) = ts_flush k"
  "interval (ikcp_parse_data k s) = interval k"
  "dead_link (ikcp_parse_data k s) = dead_link k"
  "state (ikcp_parse_data k s) = state k"
  by (simp_all add: parse_data_alt)

lemma parse_data_inv:
  assumes "kcp_inv k" "rcv_seg_ok s"
  shows "kcp_inv (ikcp_parse_data k s)"
proof -
  have i: "cfg_inv k" "snd_inv k" "rcv_inv k" "ack_inv k" using assms by (auto simp: kcp_inv_def)
  have "rcv_inv (ikcp_parse_data k s)" using parse_data_spec i assms(2) by (auto simp: cfg_inv_def)
  moreover have "cfg_inv (ikcp_parse_data k s)" using i(1) by (rule cfg_frame) simp_all
  moreover have "snd_inv (ikcp_parse_data k s)" using i(2) by (rule snd_frame) simp_all
  moreover have "ack_inv (ikcp_parse_data k s)" using i(4) by (rule ack_frame) simp_all
  ultimately show ?thesis by (simp add: kcp_inv_def)
qed

section \<open>\<open>ikcp_recv\<close> takes one message\<close>

definition recv_left :: "bool \<Rightarrow> kcpcb \<Rightarrow> nat \<Rightarrow> kcpcb" where
  \<comment> \<open>the control block after the loop has gone over \<open>n\<close> segments\<close>
  "recv_left ispeek k n =
     (if ispeek then k
      else k\<lparr>rcv_queue := drop n (rcv_queue k), nrcv_que := nrcv_que k - of_nat n\<rparr>)"

lemma recv_left_Suc:
  "recv_left ispeek (if \<not> ispeek
      then k\<lparr>rcv_queue := tl (rcv_queue k), nrcv_que := nrcv_que k - 1\<rparr> else k) n =
   recv_left ispeek k (Suc n)"
  by (simp add: recv_left_def drop_Suc)

text \<open>Whatever the lengths are, the loop's sum is the one \<open>ikcp_peeksize\<close> computed.\<close>

lemma recv_merge_sum:
  "recv_merge ispeek cap p k n out = Inr (k', len, out') \<Longrightarrow> p \<noteq> [] \<Longrightarrow> len = peek_sum n p"
  by (induction p arbitrary: k n out)
     (auto simp: andThen_Inr Let_def split: if_splits option.splits, (metis list.discI peek_sum.simps(1) recv_merge.simps(1) prod.inject sum.inject(2))+)

lemma recv_merge_spec:
  assumes "\<forall>s \<in> set p. seg_ok s"
    and "\<forall>c. cap = Some c \<longrightarrow> length out + length (concat (map s_data (first_msg p))) \<le> c"
  shows "recv_merge ispeek cap p k n out =
    Inr (recv_left ispeek k (length (first_msg p)), peek_sum n p,
         case cap of None \<Rightarrow> out | Some _ \<Rightarrow> out @ concat (map s_data (first_msg p)))"
  using assms
proof (induction p arbitrary: k n out)
  case Nil
  then show ?case by (simp add: recv_left_def split: option.split)
next
  case (Cons s p)
  have s: "unat (s_len s) = length (s_data s)" using Cons.prems by (simp add: seg_ok_def)
  let ?out = "case cap of None \<Rightarrow> out | Some _ \<Rightarrow> out @ s_data s"
  let ?k = "if \<not> ispeek then k\<lparr>rcv_queue := tl (rcv_queue k), nrcv_que := nrcv_que k - 1\<rparr> else k"
  have c: "(case cap of
          None \<Rightarrow> Inr out
        | Some c \<Rightarrow>
            andThen (mem_read (s_data s) (unat (s_len s))) (\<lambda>d.
              if length out + length d \<le> c then Inr (out @ d) else Inl OobWrite)) = Inr ?out"
    unfolding s using Cons.prems(2) by (auto simp: mem_read_ok split: option.split if_splits)
  show ?case
  proof (cases "s_frg s = 0")
    case True
    then show ?thesis
      by (simp add: c Let_def recv_left_def drop_Suc split: option.split)
  next
    case False
    have "recv_merge ispeek cap p ?k (i32 (n + uint (s_len s))) ?out =
      Inr (recv_left ispeek ?k (length (first_msg p)), peek_sum (i32 (n + uint (s_len s))) p,
           case cap of None \<Rightarrow> ?out | Some _ \<Rightarrow> ?out @ concat (map s_data (first_msg p)))"
      by (rule Cons.IH) (use Cons.prems False in \<open>auto split: option.split\<close>)
    then show ?thesis using False
      by (simp add: c Let_def recv_left_Suc del: if_not_P split: option.split)
  qed
qed

lemma peek_sum_size:
  assumes "\<forall>s \<in> set q. seg_ok s" "0 \<le> n" "n + first_size q < 2147483648" "q \<noteq> []"
  shows "peek_sum n q = n + first_size q"
  using assms
proof (induction q arbitrary: n)
  case (Cons s q)
  have s: "uint (s_len s) = int (length (s_data s))"
    using Cons.prems(1) by (intro seg_ok_uint) simp
  have i: "i32 (n + int (length (s_data s))) = n + int (length (s_data s))"
    by (rule i32_id) (use Cons.prems in \<open>auto simp: first_size_def split: if_splits\<close>)
  show ?case
  proof (cases "s_frg s = 0 \<or> q = []")
    case True
    then show ?thesis by (auto simp: s i first_size_def Let_def)
  next
    case False
    have "peek_sum (n + int (length (s_data s))) q = n + int (length (s_data s)) + first_size q"
      by (rule Cons.IH) (use Cons.prems False in \<open>auto simp: first_size_def\<close>)
    then show ?thesis using False by (simp add: s i first_size_def Let_def)
  qed
qed simp

text \<open>A message is complete when the queue holds as many segments as its first one announces.\<close>

definition msg_complete :: "seg list \<Rightarrow> bool" where
  "msg_complete q = (q \<noteq> [] \<and> (s_frg (hd q) = 0 \<or> unat (s_frg (hd q)) < length q))"

lemma rcv_queue_segs:
  assumes "rcv_inv k"
  shows "\<forall>s \<in> set (rcv_queue k). seg_ok s" "\<forall>s \<in> set (rcv_queue k). unat (s_frg s) < 256"
  using assms by (auto simp: rcv_inv_def rcv_seg_ok_def)

lemma peeksize_spec:
  assumes "rcv_inv k" "first_size (rcv_queue k) < 2147483648"
  shows "ikcp_peeksize k =
    (if msg_complete (rcv_queue k) then first_size (rcv_queue k) else -1)"
proof (cases "rcv_queue k")
  case Nil
  then show ?thesis by (simp add: ikcp_peeksize_def msg_complete_def)
next
  case (Cons s q)
  note ok = rcv_queue_segs(1) [OF assms(1)]
  note p = peek_sum_size [OF ok, of 0]
  have frg: "unat (s_frg s) < 256" using rcv_queue_segs(2) [OF assms(1)] Cons by simp
  have "unat (s_frg s + 1) = unat (s_frg s) + 1"
    using frg by (subst unat_word_ariths) simp
  then have n: "nrcv_que k < s_frg s + 1 \<longleftrightarrow> \<not> unat (s_frg s) < length (rcv_queue k)"
    by (simp add: unat_less_u32 rcv_queue_count [OF assms(1)] less_Suc_eq_le not_less)
  show ?thesis
  proof (cases "s_frg s = 0")
    case True
    have l: "unat (s_len s) = length (s_data s)" using ok Cons by (simp add: seg_ok_def)
    then have "unat (s_len s) < 2147483648" using assms(2) Cons True by (simp add: first_size_def)
    then have "sint (s_len s) = int (length (s_data s))" unfolding l [symmetric] by (rule sint_u32_small)
    then show ?thesis using Cons True by (simp add: ikcp_peeksize_def msg_complete_def first_size_def)
  next
    case False
    then show ?thesis using Cons n p assms(2)
      by (auto simp: ikcp_peeksize_def msg_complete_def)
  qed
qed

text \<open>The last part of \<open>ikcp_recv\<close>: refill the queue, and tell the peer if the window has reopened.\<close>

definition recv_refill :: "kcpcb \<Rightarrow> bool \<Rightarrow> kcpcb" where
  "recv_refill k recover =
     (let k = move_ready (rcv_buf k) k
      in if nrcv_que k < rcv_wnd k \<and> recover then k\<lparr>probe := probe k OR IKCP_ASK_TELL\<rparr> else k)"

lemma recv_alt:
  "ikcp_recv k cap len =
     (if rcv_queue k = [] then Inr (-1, [], k)
      else if ikcp_peeksize k < 0 then Inr (-2, [], k)
      else if ikcp_peeksize k > (if len < 0 then i32 (- len) else len) then Inr (-3, [], k)
      else andThen (recv_merge (len < 0) cap (rcv_queue k) k 0 []) (\<lambda>(k', n, out).
             if n \<noteq> ikcp_peeksize k then Inl AssertFail
             else Inr (n, out, recv_refill k' (nrcv_que k \<ge> rcv_wnd k))))"
  unfolding ikcp_recv_def recv_refill_def Let_def by (rule refl)

lemma recv_left_inv:
  assumes "kcp_inv k" "n \<le> length (rcv_queue k)"
  shows "kcp_inv (recv_left ispeek k n)"
proof (cases ispeek)
  case False
  let ?k = "recv_left ispeek k n"
  have i: "cfg_inv k" "snd_inv k" "rcv_inv k" "ack_inv k" using assms by (auto simp: kcp_inv_def)
  have "(of_nat (length (rcv_queue k) - n) :: u32) = of_nat (length (rcv_queue k)) - of_nat n"
    using assms(2) by (rule of_nat_diff)
  then have "rcv_inv ?k" using i(3) False
    by (auto simp: recv_left_def rcv_inv_def dest: in_set_dropD)
  moreover have "cfg_inv ?k" using i(1) by (rule cfg_frame) (simp_all add: recv_left_def)
  moreover have "snd_inv ?k" using i(2) by (rule snd_frame) (simp_all add: recv_left_def)
  moreover have "ack_inv ?k" using i(4) by (rule ack_frame) (simp_all add: recv_left_def)
  ultimately show ?thesis by (simp add: kcp_inv_def)
qed (simp add: recv_left_def assms)

lemma recv_refill_spec:
  assumes "kcp_inv k"
  shows "kcp_inv (recv_refill k recover) \<and>
    receiver_of (recv_refill k recover) =
      deliver (unat (rcv_wnd k) - length (rcv_queue k)) (receiver_of k)"
proof -
  let ?k = "move_ready (rcv_buf k) k"
  have i: "cfg_inv k" "snd_inv k" "rcv_inv k" "ack_inv k" using assms by (auto simp: kcp_inv_def)
  have w: "unat (rcv_wnd k) < 2147483648" using i(1) by (simp add: cfg_inv_def)
  note M = move_ready_spec [OF i(3) refl w]
  have "kcp_inv ?k"
  proof -
    have "cfg_inv ?k" using i(1) by (rule cfg_frame) simp_all
    moreover have "snd_inv ?k" using i(2) by (rule snd_frame) simp_all
    moreover have "ack_inv ?k" using i(4) by (rule ack_frame) simp_all
    ultimately show ?thesis using M by (simp add: kcp_inv_def)
  qed
  moreover have "receiver_of (k'\<lparr>probe := p\<rparr>) = receiver_of k'" for k' p
    by (simp add: receiver_of_def)
  ultimately show ?thesis using M probe_inv by (simp add: recv_refill_def Let_def)
qed

lemma ikcp_recv_cases:
  assumes "kcp_inv k" "first_size (rcv_queue k) < 2147483648"
    and "-2147483648 < len" "len < 2147483648" "\<forall>c. cap = Some c \<longrightarrow> \<bar>len\<bar> \<le> int c"
  shows "\<exists>k'. kcp_inv k' \<and> ikcp_recv k cap len = Inr
      (if rcv_queue k = [] then (-1, [], k)
       else if \<not> msg_complete (rcv_queue k) then (-2, [], k)
       else if \<bar>len\<bar> < first_size (rcv_queue k) then (-3, [], k)
       else (first_size (rcv_queue k),
             if cap = None then [] else concat (map s_data (first_msg (rcv_queue k))), k')) \<and>
    (let rest = (if len < 0 then rcv_queue k else drop (length (first_msg (rcv_queue k))) (rcv_queue k))
     in msg_complete (rcv_queue k) \<and> first_size (rcv_queue k) \<le> \<bar>len\<bar> \<longrightarrow>
        receiver_of k' = deliver (unat (rcv_wnd k) - length rest) ((receiver_of k)\<lparr>sp_out := rest\<rparr>))"
proof -
  let ?q = "rcv_queue k" and ?n = "length (first_msg (rcv_queue k))"
  have r: "rcv_inv k" using assms(1) by (simp add: kcp_inv_def)
  note p = peeksize_spec [OF r assms(2)]
  have abs: "(if len < 0 then i32 (- len) else len) = \<bar>len\<bar>" using assms(3,4) by (simp add: i32_id)
  let ?k = "recv_left (len < 0) k ?n"
  let ?k' = "recv_refill ?k (nrcv_que k \<ge> rcv_wnd k)"
  have L: "kcp_inv ?k" by (rule recv_left_inv [OF assms(1) length_first_msg])
  note R = recv_refill_spec [OF L, of "nrcv_que k \<ge> rcv_wnd k"]
  show ?thesis
  proof (cases "msg_complete ?q \<and> first_size ?q \<le> \<bar>len\<bar>")
    case False
    have "0 \<le> first_size ?q" by (simp add: first_size_def)
    then have "ikcp_recv k cap len = Inr
      (if ?q = [] then (-1, [], k) else if \<not> msg_complete ?q then (-2, [], k) else (-3, [], k))"
      using False by (auto simp: recv_alt p abs)
    then show ?thesis using False assms(1) by (intro exI [of _ k]) auto
  next
    case True
    have out: "\<forall>c. cap = Some c \<longrightarrow> length ([] :: bytes) + length (concat (map s_data (first_msg ?q))) \<le> c"
      using True assms(5) by (fastforce simp: first_size_def)
    have q: "?q \<noteq> []" using True by (simp add: msg_complete_def)
    have m: "recv_merge (len < 0) cap ?q k 0 [] = Inr (?k, first_size ?q,
        if cap = None then [] else concat (map s_data (first_msg ?q)))"
      using recv_merge_spec [OF rcv_queue_segs(1) [OF r] out, of "len < 0" k 0]
        peek_sum_size [OF rcv_queue_segs(1) [OF r] order_refl _ q] assms(2)
      by (auto split: option.split)
    have "ikcp_recv k cap len = Inr (first_size ?q,
        if cap = None then [] else concat (map s_data (first_msg ?q)), ?k')"
      using True q by (simp add: recv_alt p abs m first_size_def)
    moreover have "receiver_of ?k' =
        (let rest = (if len < 0 then ?q else drop ?n ?q)
         in deliver (unat (rcv_wnd k) - length rest) ((receiver_of k)\<lparr>sp_out := rest\<rparr>))"
      using R by (cases "len < 0") (simp_all add: recv_left_def receiver_of_def Let_def)
    ultimately show ?thesis using R True q by (intro exI [of _ ?k']) (simp add: Let_def)
  qed
qed

text \<open>
  C14. \<open>ikcp_recv\<close> on every branch, for a buffer with room for \<open>|len|\<close> bytes (or NULL). An empty
  queue gives \<open>-1\<close>, an incomplete message \<open>-2\<close>, a message longer than \<open>|len|\<close> gives \<open>-3\<close>, and
  none of the three changes anything. Otherwise exactly the first message is copied, in order, its
  size is returned, the segments leave the queue unless \<open>len\<close> is negative (peek), and the data
  that waits in \<open>rcv_buf\<close> is delivered into the room. No write leaves the buffer, the assertion
  \<open>len == peeksize\<close> holds, and the invariant is kept.
\<close>

theorem ikcp_recv_spec:
  assumes "kcp_inv k" "first_size (rcv_queue k) < 2147483648"
    and "-2147483648 < len" "len < 2147483648" "\<forall>c. cap = Some c \<longrightarrow> \<bar>len\<bar> \<le> int c"
  shows "\<exists>k'. kcp_inv k' \<and> ikcp_recv k cap len = Inr
      (if rcv_queue k = [] then (-1, [], k)
       else if \<not> msg_complete (rcv_queue k) then (-2, [], k)
       else if \<bar>len\<bar> < first_size (rcv_queue k) then (-3, [], k)
       else (first_size (rcv_queue k),
             if cap = None then [] else concat (map s_data (first_msg (rcv_queue k))), k')) \<and>
    (let rest = (if len < 0 then rcv_queue k else drop (length (first_msg (rcv_queue k))) (rcv_queue k))
     in msg_complete (rcv_queue k) \<and> first_size (rcv_queue k) \<le> \<bar>len\<bar> \<longrightarrow>
        receiver_of k' = deliver (unat (rcv_wnd k) - length rest) ((receiver_of k)\<lparr>sp_out := rest\<rparr>))"
  by (rule ikcp_recv_cases [OF assms])

text \<open>
  What a call that returns a size has done, and that one that returns an error has done nothing,
  without any bound on the sizes: the loop itself copies what \<open>first_msg\<close> names.
\<close>

lemma recv_merge_Inr:
  "recv_merge ispeek (Some c) p k n out = Inr (k', n', out') \<Longrightarrow> \<forall>s \<in> set p. seg_ok s \<Longrightarrow>
   k' = recv_left ispeek k (length (first_msg p)) \<and> out' = out @ concat (map s_data (first_msg p))"
proof (induction p arbitrary: k n out)
  case Nil
  then show ?case by (simp add: recv_left_def)
next
  case (Cons s p)
  have s: "unat (s_len s) = length (s_data s)" using Cons.prems(2) by (simp add: seg_ok_def)
  let ?k = "if \<not> ispeek then k\<lparr>rcv_queue := tl (rcv_queue k), nrcv_que := nrcv_que k - 1\<rparr> else k"
  have r: "(if s_frg s = 0 then Inr (?k, i32 (n + uint (s_len s)), out @ s_data s)
      else recv_merge ispeek (Some c) p ?k (i32 (n + uint (s_len s))) (out @ s_data s)) = Inr (k', n', out')"
    using Cons.prems(1) unfolding recv_merge.simps option.case Let_def
    by (auto simp: andThen_Inr mem_read_def s split: if_splits)
  show ?case
  proof (cases "s_frg s = 0")
    case True
    then show ?thesis using r by (auto simp: recv_left_def drop_Suc)
  next
    case False
    then have "recv_merge ispeek (Some c) p ?k (i32 (n + uint (s_len s))) (out @ s_data s) = Inr (k', n', out')"
      using r by simp
    from Cons.IH [OF this] Cons.prems(2)
    have "k' = recv_left ispeek ?k (length (first_msg p))"
      "out' = (out @ s_data s) @ concat (map s_data (first_msg p))" by auto
    then show ?thesis using False recv_left_Suc [of ispeek k "length (first_msg p)"] by simp
  qed
qed

lemma recv_effect:
  assumes "rcv_inv k" "ikcp_recv k (Some c) len = Inr (n, out, k')" "0 \<le> len"
  shows "n < 0 \<and> out = [] \<and> k' = k \<or>
    0 \<le> n \<and> msg_complete (rcv_queue k) \<and> out = concat (map s_data (first_msg (rcv_queue k))) \<and>
    (\<exists>recover. k' = recv_refill (recv_left False k (length (first_msg (rcv_queue k)))) recover)"
proof (cases "rcv_queue k = [] \<or> ikcp_peeksize k < 0 \<or> ikcp_peeksize k > len")
  case True
  then consider "rcv_queue k = []" | "rcv_queue k \<noteq> []" "ikcp_peeksize k < 0"
    | "rcv_queue k \<noteq> []" "\<not> ikcp_peeksize k < 0" "ikcp_peeksize k > len" by blast
  then have "ikcp_recv k (Some c) len = Inr (-1, [], k) \<or> ikcp_recv k (Some c) len = Inr (-2, [], k) \<or>
      ikcp_recv k (Some c) len = Inr (-3, [], k)"
    using assms(3) by cases (simp_all add: recv_alt)
  then show ?thesis using assms(2) by auto
next
  case False
  let ?rest = "\<lambda>(k', n, out). if n \<noteq> ikcp_peeksize k then Inl AssertFail
             else Inr (n, out, recv_refill k' (nrcv_que k \<ge> rcv_wnd k))"
  have r: "andThen (recv_merge False (Some c) (rcv_queue k) k 0 []) ?rest = Inr (n, out, k')"
    using assms(2,3) False by (simp add: recv_alt)
  obtain t where t: "recv_merge False (Some c) (rcv_queue k) k 0 [] = Inr t"
    using r by (cases "recv_merge False (Some c) (rcv_queue k) k 0 []") simp_all
  obtain k1 n1 out1 where t': "t = (k1, n1, out1)" by (cases t)
  have "(if n1 \<noteq> ikcp_peeksize k then Inl AssertFail
         else Inr (n1, out1, recv_refill k1 (nrcv_que k \<ge> rcv_wnd k))) = Inr (n, out, k')"
    using r unfolding t t' andThen_simps prod.case .
  then have m: "recv_merge False (Some c) (rcv_queue k) k 0 [] = Inr (k1, n, out)"
    and n: "n = ikcp_peeksize k" and k': "k' = recv_refill k1 (nrcv_que k \<ge> rcv_wnd k)"
    using t t' by (simp_all split: if_splits)
  have "msg_complete (rcv_queue k)"
  proof (cases "rcv_queue k")
    case (Cons s q)
    have "unat (s_frg s) < 256" using rcv_queue_segs(2) [OF assms(1)] Cons by simp
    then have "unat (s_frg s + 1) = unat (s_frg s) + 1" by (subst unat_word_ariths) simp
    then have "s_frg s = 0 \<or> unat (s_frg s) < length (rcv_queue k)"
      using False Cons rcv_queue_count [OF assms(1)]
      by (auto simp: ikcp_peeksize_def unat_less_u32 split: if_splits)
    then show ?thesis using Cons by (simp add: msg_complete_def)
  qed (use False in simp)
  then show ?thesis
    using recv_merge_Inr [OF m rcv_queue_segs(1) [OF assms(1)]] n k' False by auto
qed

definition receiving :: kcpcb where
  "receiving = ikcp_parse_data
     (ikcp_parse_data (kcp_fresh 7) ((ikcp_segment_new [8, 9])\<lparr>s_sn := 1, s_len := 2\<rparr>))
     ((ikcp_segment_new [7])\<lparr>s_sn := 0, s_len := 1, s_frg := 1\<rparr>)"

lemma receiving_inv: "kcp_inv receiving"
  unfolding receiving_def
  by (intro parse_data_inv fresh_inv) (simp_all add: rcv_seg_ok_def seg_ok_def ikcp_segment_new_def)

lemma receiving_queue:
  "map s_data (rcv_queue receiving) = [[7], [8, 9]]" "map s_frg (rcv_queue receiving) = [1, 0]"
  by (simp_all add: receiving_def ikcp_parse_data_def move_ready_Cons itimediff_def Let_def
      ikcp_segment_new_def moved_one_def)

theorem ikcp_recv_spec_witness:
  "\<exists>k'. ikcp_recv receiving (Some 10) 10 = Inr (3, [7, 8, 9], k')"
proof -
  obtain a b where q: "rcv_queue receiving = [a, b]" "s_data a = [7]" "s_data b = [8, 9]"
    "s_frg a = 1" "s_frg b = 0"
    using receiving_queue by (auto simp: map_eq_Cons_conv)
  then show ?thesis
    using ikcp_recv_spec [OF receiving_inv, of 10 "Some 10"]
    by (simp add: first_size_def msg_complete_def) blast
qed

end
