(* ===== verification/Kcp_Ack.thy ===== *)
theory Kcp_Ack
  imports Kcp_Inv
begin

text \<open>
  The acknowledgement side: the round-trip estimator \<open>ikcp_update_ack\<close>, the operations that take
  acknowledged segments out of \<open>snd_buf\<close>, and the list of acknowledgements still to be sent.
\<close>

section \<open>The code\<close>

text \<open>
  \<open>ikcp_update_ack\<close>: \<open>rx_srtt\<close> and \<open>rx_rttval\<close> have type \<open>IINT32\<close>. The products \<open>3 * rx_rttval\<close>,
  \<open>7 * rx_srtt\<close> and \<open>4 * rx_rttval\<close> are computed in \<open>int\<close>; where they leave the 32-bit range C
  gives no meaning to them, and the model wraps (\<open>update_ack_in_range\<close> states the range in which
  no wrap happens). The timeout is computed in unsigned arithmetic.
\<close>

definition ikcp_update_ack :: "kcpcb \<Rightarrow> int \<Rightarrow> kcpcb" where
  "ikcp_update_ack k rtt =
     (let k = (if rx_srtt k = 0
               then k\<lparr>rx_srtt := rtt, rx_rttval := cdiv rtt 2\<rparr>
               else
                 let delta = i32 (rtt - rx_srtt k);
                     delta = (if delta < 0 then - delta else delta);
                     k = k\<lparr>rx_rttval := i32 (cdiv (i32 (3 * rx_rttval k) + delta) 4)\<rparr>;
                     k = k\<lparr>rx_srtt := i32 (cdiv (i32 (i32 (7 * rx_srtt k) + rtt)) 8)\<rparr>
                 in if rx_srtt k < 1 then k\<lparr>rx_srtt := 1\<rparr> else k);
          rto = i32 (uint (of_int (rx_srtt k)
                     + imax (interval k) (of_int (i32 (4 * rx_rttval k))) :: u32))
      in k\<lparr>rx_rto := sint (ibound (of_int (rx_minrto k)) (of_int rto) IKCP_RTO_MAX)\<rparr>)"

definition ikcp_shrink_buf :: "kcpcb \<Rightarrow> kcpcb" where
  "ikcp_shrink_buf k =
     (case snd_buf k of
        s # _ \<Rightarrow> k\<lparr>snd_una := s_sn s\<rparr>
      | [] \<Rightarrow> k\<lparr>snd_una := snd_nxt k\<rparr>)"

text \<open>The search of \<open>ikcp_parse_ack\<close> in \<open>snd_buf\<close>: \<open>None\<close> where no segment is taken out.\<close>

fun ack_scan :: "u32 \<Rightarrow> seg list \<Rightarrow> seg list option" where
  "ack_scan sn [] = None"
| "ack_scan sn (s # q) =
     (if sn = s_sn s then Some q
      else if itimediff sn (s_sn s) < 0 then None
      else map_option ((#) s) (ack_scan sn q))"

definition ikcp_parse_ack :: "kcpcb \<Rightarrow> u32 \<Rightarrow> kcpcb" where
  "ikcp_parse_ack k sn =
     (if itimediff sn (snd_una k) < 0 \<or> itimediff sn (snd_nxt k) \<ge> 0 then k
      else case ack_scan sn (snd_buf k) of
             None \<Rightarrow> k
           | Some q \<Rightarrow> k\<lparr>snd_buf := q, nsnd_buf := nsnd_buf k - 1\<rparr>)"

fun una_loop :: "u32 \<Rightarrow> seg list \<Rightarrow> kcpcb \<Rightarrow> kcpcb" where
  "una_loop una [] k = k"
| "una_loop una (s # q) k =
     (if itimediff una (s_sn s) > 0
      then una_loop una q (k\<lparr>snd_buf := q, nsnd_buf := nsnd_buf k - 1\<rparr>)
      else k)"

definition ikcp_parse_una :: "kcpcb \<Rightarrow> u32 \<Rightarrow> kcpcb" where
  "ikcp_parse_una k una = una_loop una (snd_buf k) k"

text \<open>\<open>IKCP_FASTACK_CONSERVE\<close> is not defined in this build, so the time stamp is not compared.\<close>

fun fastack_scan :: "u32 \<Rightarrow> seg list \<Rightarrow> seg list" where
  "fastack_scan sn [] = []"
| "fastack_scan sn (s # q) =
     (if itimediff sn (s_sn s) < 0 then s # q
      else (if sn \<noteq> s_sn s then s\<lparr>s_fastack := s_fastack s + 1\<rparr> else s) # fastack_scan sn q)"

definition ikcp_parse_fastack :: "kcpcb \<Rightarrow> u32 \<Rightarrow> u32 \<Rightarrow> kcpcb" where
  "ikcp_parse_fastack k sn ts =
     (if itimediff sn (snd_una k) < 0 \<or> itimediff sn (snd_nxt k) \<ge> 0 then k
      else k\<lparr>snd_buf := fastack_scan sn (snd_buf k)\<rparr>)"

text \<open>
  \<open>ikcp_ack_push\<close>. The loop \<open>for (newblock = 8; newblock < newsize; newblock <<= 1)\<close> works on 32-bit
  numbers and may run forever, so it is a partial function.
\<close>

partial_function (option) ack_newblock :: "u32 \<Rightarrow> u32 \<Rightarrow> u32 option" where
  "ack_newblock newblock newsize =
     (if newblock < newsize then ack_newblock (push_bit 1 newblock) newsize else Some newblock)"

declare ack_newblock.simps [code]

definition ack_grow :: "kcpcb \<Rightarrow> u32 \<Rightarrow> bool \<Rightarrow> fault + kcpcb" where
  \<comment> \<open>\<open>alloc\<close>: does the allocation succeed; where it does not the code asserts, and aborts where assertions are off\<close>
  "ack_grow k newsize alloc =
     (case ack_newblock 8 newsize of
        None \<Rightarrow> Inl Diverges
      | Some newblock \<Rightarrow>
          if \<not> alloc then Inl AssertFail
          else andThen (case acklist k of
                     None \<Rightarrow> Inr []
                   | Some l \<Rightarrow> if unat (ackcount k) \<le> length l then Inr (take (unat (ackcount k)) l)
                               else Inl OobRead)
            (\<lambda>l. Inr (k\<lparr>acklist := Some l, ackblock := newblock\<rparr>)))"

definition ikcp_ack_push :: "kcpcb \<Rightarrow> u32 \<Rightarrow> u32 \<Rightarrow> bool \<Rightarrow> fault + kcpcb" where
  "ikcp_ack_push k sn ts alloc =
     (let newsize = ackcount k + 1
      in andThen (if newsize > ackblock k then ack_grow k newsize alloc else Inr k) (\<lambda>k.
           case acklist k of
             None \<Rightarrow> Inl OobWrite
           | Some l \<Rightarrow>
               let n = unat (ackcount k)
               in if n < unat (ackblock k) \<and> n \<le> length l
                  then Inr (k\<lparr>acklist := Some (take n l @ [(sn, ts)] @ drop (Suc n) l),
                              ackcount := ackcount k + 1\<rparr>)
                  else Inl OobWrite))"

definition ikcp_ack_get :: "kcpcb \<Rightarrow> nat \<Rightarrow> fault + (u32 \<times> u32)" where
  "ikcp_ack_get k p =
     (case acklist k of
        None \<Rightarrow> Inl OobRead
      | Some l \<Rightarrow> if p < length l then Inr (l ! p) else Inl OobRead)"

section \<open>Taking acknowledged segments out of \<open>snd_buf\<close>\<close>

text \<open>What is left of \<open>snd_buf\<close>, and the count with it.\<close>

definition kept :: "kcpcb \<Rightarrow> seg list \<Rightarrow> kcpcb" where
  "kept k q = k\<lparr>snd_buf := q, nsnd_buf := of_nat (length q)\<rparr>"

lemma kept_base:
  assumes "snd_base k" "set q \<subseteq> set (snd_buf k)" "in_order (snd_una k) (seqoff (snd_una k) (snd_nxt k)) q"
  shows "snd_base (kept k q)"
  using assms by (auto simp: snd_base_def kept_def snd_seg_ok_def)

lemma kept_self: "snd_base k \<Longrightarrow> kept k (snd_buf k) = k"
  by (simp add: kept_def snd_base_def)

lemma in_order_filter: "in_order b n q \<Longrightarrow> in_order b n (filter P q)"
  by (induction q) (auto simp: in_order_Cons)

lemma una_loop_kept:
  "nsnd_buf k = of_nat (length q) \<Longrightarrow> snd_buf k = q \<Longrightarrow>
   una_loop una q k = kept k (dropWhile (\<lambda>s. itimediff una (s_sn s) > 0) q)"
  by (induction q arbitrary: k) (auto simp: kept_def)

lemma parse_una_kept:
  "snd_base k \<Longrightarrow>
   ikcp_parse_una k una = kept k (dropWhile (\<lambda>s. itimediff una (s_sn s) > 0) (snd_buf k))"
  by (simp add: ikcp_parse_una_def una_loop_kept snd_base_def)

lemma in_order_dropWhile: "in_order b n q \<Longrightarrow> in_order b n (dropWhile P q)"
  by (induction q) (auto simp: in_order_Cons)

lemma parse_una_base: "snd_base k \<Longrightarrow> snd_base (ikcp_parse_una k una)"
  unfolding parse_una_kept
  by (rule kept_base)
     (auto simp: parse_una_kept snd_base_def intro: in_order_dropWhile dest: set_dropWhileD)

lemma snd_buf_offsets:
  assumes "snd_base k" "s \<in> set (snd_buf k)"
  shows "seqoff (snd_una k) (s_sn s) < seqoff (snd_una k) (snd_nxt k)" "seqoff (snd_una k) (s_sn s) < 65535"
proof -
  have "in_order (snd_una k) (seqoff (snd_una k) (snd_nxt k)) (snd_buf k)" "seqoff (snd_una k) (snd_nxt k) \<le> 65535"
    using assms(1) by (simp_all add: snd_base_def)
  then show "seqoff (snd_una k) (s_sn s) < seqoff (snd_una k) (snd_nxt k)" "seqoff (snd_una k) (s_sn s) < 65535"
    using in_order_bound assms(2) by fastforce+
qed

text \<open>Acknowledgement numbers near \<open>2^31\<close> ahead compare wrongly with the segments in flight.\<close>

definition una_comparable :: "kcpcb \<Rightarrow> u32 \<Rightarrow> bool" where
  "una_comparable k una =
     (seqoff (snd_una k) una < 2147483648 \<or> 2147483648 + 65535 \<le> seqoff (snd_una k) una)"

lemma itimediff_far:
  assumes "2147483648 + 65535 \<le> seqoff b u" "seqoff b x < 65535"
  shows "itimediff u x < 0"
proof (rule ccontr)
  assume "\<not> itimediff u x < 0"
  then have "seqoff x u < 2147483648" using itimediff_nonneg [of u x] by simp
  moreover have "seqoff x u = seqoff b u - seqoff b x" by (rule seqoff_rebase) (use assms in simp)
  ultimately show False using assms by simp
qed

lemma una_acks:
  assumes "snd_base k" "una_comparable k una" "s \<in> set (snd_buf k)"
  shows "itimediff una (s_sn s) > 0 \<longleftrightarrow>
    seqoff (snd_una k) una < 2147483648 \<and> seqoff (snd_una k) (s_sn s) < seqoff (snd_una k) una"
proof (cases "seqoff (snd_una k) una < 2147483648")
  case True
  then show ?thesis
    using snd_buf_offsets [OF assms(1,3)] itimediff_seqoff [of "snd_una k" una "s_sn s"] by simp
next
  case False
  then show ?thesis
    using itimediff_far [of "snd_una k" una "s_sn s"] snd_buf_offsets [OF assms(1,3)] assms(2)
    by (auto simp: una_comparable_def)
qed

lemma dropWhile_below:
  fixes f :: "'a \<Rightarrow> nat"
  shows "sorted_wrt (<) (map f q) \<Longrightarrow> dropWhile (\<lambda>s. f s < m) q = filter (\<lambda>s. m \<le> f s) q"
proof (induction q)
  case (Cons s q)
  show ?case
  proof (cases "f s < m")
    case False
    then have "\<forall>t \<in> set (s # q). m \<le> f t" using Cons.prems by auto
    then have "filter (\<lambda>t. m \<le> f t) (s # q) = s # q" by (simp only: filter_id_conv)
    then show ?thesis using False by simp
  qed (use Cons in simp)
qed simp

lemma parse_una_filter:
  assumes "snd_base k" "una_comparable k una"
  shows "ikcp_parse_una k una = kept k (filter (\<lambda>s. \<not> itimediff una (s_sn s) > 0) (snd_buf k))"
proof (cases "seqoff (snd_una k) una < 2147483648")
  case True
  let ?f = "\<lambda>s. seqoff (snd_una k) (s_sn s)"
  have a: "itimediff una (s_sn s) > 0 \<longleftrightarrow> ?f s < seqoff (snd_una k) una" if "s \<in> set (snd_buf k)" for s
    using una_acks [OF assms that] True by simp
  have "dropWhile (\<lambda>s. itimediff una (s_sn s) > 0) (snd_buf k) =
        dropWhile (\<lambda>s. ?f s < seqoff (snd_una k) una) (snd_buf k)"
    by (rule dropWhile_cong) (use a in auto)
  also have "\<dots> = filter (\<lambda>s. seqoff (snd_una k) una \<le> ?f s) (snd_buf k)"
    by (rule dropWhile_below) (use assms(1) in \<open>simp add: snd_base_def in_order_def\<close>)
  also have "\<dots> = filter (\<lambda>s. \<not> itimediff una (s_sn s) > 0) (snd_buf k)"
    by (rule filter_cong) (use a in auto)
  finally show ?thesis using parse_una_kept [OF assms(1)] by simp
next
  case False
  then have n: "\<not> itimediff una (s_sn s) > 0" if "s \<in> set (snd_buf k)" for s
    using una_acks [OF assms that] by simp
  then have "dropWhile (\<lambda>s. itimediff una (s_sn s) > 0) (snd_buf k) = snd_buf k"
    by (cases "snd_buf k") auto
  moreover have "filter (\<lambda>s. \<not> itimediff una (s_sn s) > 0) (snd_buf k) = snd_buf k"
    using n by (simp add: filter_id_conv)
  ultimately show ?thesis using parse_una_kept [OF assms(1)] by simp
qed

lemma ack_scan_spec:
  assumes "in_order b 2147483648 q" "seqoff b sn < 2147483648"
  shows "ack_scan sn q =
    (if sn \<in> s_sn ` set q then Some (filter (\<lambda>s. s_sn s \<noteq> sn) q) else None)"
  using assms(1)
proof (induction q)
  case (Cons s q)
  have o: "in_order b 2147483648 q" "seqoff b (s_sn s) < 2147483648"
    "\<forall>t \<in> set q. seqoff b (s_sn s) < seqoff b (s_sn t)" using Cons.prems by (auto simp: in_order_Cons)
  have d: "itimediff sn (s_sn s) < 0 \<longleftrightarrow> seqoff b sn < seqoff b (s_sn s)"
    using itimediff_seqoff [OF assms(2) o(2)] by simp
  consider "sn = s_sn s" | "sn \<noteq> s_sn s" "itimediff sn (s_sn s) < 0"
    | "sn \<noteq> s_sn s" "\<not> itimediff sn (s_sn s) < 0" by blast
  then show ?case
  proof cases
    case 1
    then have "\<forall>t \<in> set q. s_sn t \<noteq> sn" using o(3) by auto
    then have "filter (\<lambda>t. s_sn t \<noteq> sn) q = q" by (simp add: filter_id_conv)
    then show ?thesis using 1 by simp
  next
    case 2
    then have "sn \<notin> s_sn ` set (s # q)" using o(3) d by auto
    then show ?thesis using 2 by simp
  next
    case 3
    then show ?thesis using Cons.IH [OF o(1)] by auto
  qed
qed simp

lemma in_flight:
  assumes "snd_base k"
  shows "itimediff sn (snd_una k) < 0 \<or> itimediff sn (snd_nxt k) \<ge> 0 \<longleftrightarrow>
    \<not> seqoff (snd_una k) sn < seqoff (snd_una k) (snd_nxt k)"
proof (cases "seqoff (snd_una k) sn < 2147483648")
  case True
  have "seqoff (snd_una k) (snd_nxt k) < 2147483648" using assms by (simp add: snd_base_def)
  then show ?thesis using itimediff_seqoff [OF True, of "snd_nxt k"] itimediff_base [OF True] by auto
next
  case False
  then show ?thesis using assms itimediff_nonneg [of sn "snd_una k"] by (auto simp: snd_base_def)
qed

lemma parse_ack_filter:
  assumes "snd_base k"
  shows "ikcp_parse_ack k sn = kept k (filter (\<lambda>s. s_sn s \<noteq> sn) (snd_buf k))"
proof (cases "seqoff (snd_una k) sn < seqoff (snd_una k) (snd_nxt k) \<and> sn \<in> s_sn ` set (snd_buf k)")
  case True
  have o: "in_order (snd_una k) 2147483648 (snd_buf k)" "seqoff (snd_una k) sn < 2147483648"
    using assms True by (auto simp: snd_base_def intro: in_order_mono)
  have "length (snd_buf k) = Suc (length (filter (\<lambda>s. s_sn s \<noteq> sn) (snd_buf k)))"
    by (rule length_filter_distinct) (use True in_order_distinct [OF o(1)] in simp_all)
  moreover have "nsnd_buf k = of_nat (length (snd_buf k))" using assms by (simp add: snd_base_def)
  ultimately have "nsnd_buf k - 1 = of_nat (length (filter (\<lambda>s. s_sn s \<noteq> sn) (snd_buf k)))" by simp
  then show ?thesis using True in_flight [OF assms] ack_scan_spec [OF o]
    by (simp add: ikcp_parse_ack_def kept_def)
next
  case False
  have "sn \<notin> s_sn ` set (snd_buf k)"
    using False snd_buf_offsets(1) [OF assms] by auto
  then have f: "filter (\<lambda>s. s_sn s \<noteq> sn) (snd_buf k) = snd_buf k" by (auto simp: filter_id_conv)
  have "ikcp_parse_ack k sn = k"
  proof (cases "seqoff (snd_una k) sn < seqoff (snd_una k) (snd_nxt k)")
    case True
    then have o: "in_order (snd_una k) 2147483648 (snd_buf k)" "seqoff (snd_una k) sn < 2147483648"
      using assms by (auto simp: snd_base_def intro: in_order_mono)
    show ?thesis using ack_scan_spec [OF o] \<open>sn \<notin> _\<close> by (simp add: ikcp_parse_ack_def)
  qed (use in_flight [OF assms] in \<open>auto simp: ikcp_parse_ack_def\<close>)
  then show ?thesis using f kept_self [OF assms] by simp
qed

lemma parse_ack_base: "snd_base k \<Longrightarrow> snd_base (ikcp_parse_ack k sn)"
  unfolding parse_ack_filter
  by (rule kept_base) (auto simp: parse_ack_filter snd_base_def intro: in_order_filter)

section \<open>\<open>ikcp_shrink_buf\<close> restores the invariant\<close>

lemma first_sn_bound:
  assumes "snd_base k"
  shows "seqoff (snd_una k) (first_sn (snd_buf k) (snd_nxt k)) \<le> seqoff (snd_una k) (snd_nxt k)"
proof (cases "snd_buf k")
  case (Cons s q)
  then show ?thesis using snd_buf_offsets(1) [OF assms, of s] by simp
qed simp

lemma shrink_buf_alt: "ikcp_shrink_buf k = k\<lparr>snd_una := first_sn (snd_buf k) (snd_nxt k)\<rparr>"
  by (cases "snd_buf k") (simp_all add: ikcp_shrink_buf_def)

lemma shrink_buf_inv:
  assumes "snd_base k"
  shows "snd_inv (ikcp_shrink_buf k)"
proof -
  let ?b = "snd_una k" and ?c = "first_sn (snd_buf k) (snd_nxt k)" and ?n = "snd_nxt k"
  have le: "seqoff ?b ?c \<le> seqoff ?b ?n" by (rule first_sn_bound [OF assms])
  then have n: "seqoff ?c ?n = seqoff ?b ?n - seqoff ?b ?c" by (rule seqoff_rebase)
  have o: "in_order ?b (seqoff ?b ?n) (snd_buf k)" "seqoff ?b ?n \<le> 65535"
    using assms by (simp_all add: snd_base_def)
  have "in_order ?c (seqoff ?b ?n - seqoff ?b ?c) (snd_buf k)"
  proof (rule in_order_rebase [OF o(1)])
    fix s assume "s \<in> set (snd_buf k)"
    then show "seqoff ?b ?c \<le> seqoff ?b (s_sn s)"
      using o(1) by (cases "snd_buf k") (auto simp: in_order_Cons)
  qed
  then have "snd_base (ikcp_shrink_buf k)"
    using assms n o(2) by (simp add: shrink_buf_alt snd_base_def snd_seg_ok_def)
  then show ?thesis by (simp add: snd_inv_def una_tight_def shrink_buf_alt)
qed

text \<open>
  C18. Acknowledgements remove exactly what they name. In every state of the invariant:
  \<open>ikcp_parse_ack\<close> takes out of \<open>snd_buf\<close> the segment with that number, if one is in flight, and no
  other; \<open>ikcp_parse_una\<close> followed by \<open>ikcp_shrink_buf\<close> takes out the segments before \<open>una\<close>, keeps
  the others in order, adjusts the count, and sets \<open>snd_una\<close> to the oldest number left. The
  acknowledgement number must not lie in the band of 65535 numbers just past \<open>2^31\<close> ahead, where the
  signed difference changes sign inside the window.
\<close>

theorem acks_remove_exactly:
  assumes "snd_inv k" "una_comparable k una"
  shows "snd_buf (ikcp_parse_ack k sn) = filter (\<lambda>s. s_sn s \<noteq> sn) (snd_buf k) \<and>
    snd_inv (ikcp_shrink_buf (ikcp_parse_ack k sn)) \<and>
    snd_buf (ikcp_shrink_buf (ikcp_parse_una k una)) =
      filter (\<lambda>s. itimediff una (s_sn s) \<le> 0) (snd_buf k) \<and>
    snd_inv (ikcp_shrink_buf (ikcp_parse_una k una))"
proof (intro conjI)
  have b: "snd_base k" using assms(1) by (simp add: snd_inv_def)
  show "snd_buf (ikcp_parse_ack k sn) = filter (\<lambda>s. s_sn s \<noteq> sn) (snd_buf k)"
    by (simp add: parse_ack_filter [OF b] kept_def)
  show "snd_buf (ikcp_shrink_buf (ikcp_parse_una k una)) =
           filter (\<lambda>s. itimediff una (s_sn s) \<le> 0) (snd_buf k)"
    by (simp add: parse_una_filter [OF b assms(2)] kept_def shrink_buf_alt not_less)
  show "snd_inv (ikcp_shrink_buf (ikcp_parse_una k una))"
    by (rule shrink_buf_inv [OF parse_una_base [OF b]])
  show "snd_inv (ikcp_shrink_buf (ikcp_parse_ack k sn))"
    by (rule shrink_buf_inv [OF parse_ack_base [OF b]])
qed

definition in_flight2 :: kcpcb where
  "in_flight2 = (kcp_fresh 7)\<lparr>snd_nxt := 2, nsnd_buf := 2,
     snd_buf := [(ikcp_segment_new [])\<lparr>s_sn := 0\<rparr>, (ikcp_segment_new [])\<lparr>s_sn := 1\<rparr>]\<rparr>"

lemma in_flight2_inv: "snd_inv in_flight2"
  by (simp add: in_flight2_def snd_inv_def snd_base_def una_tight_def snd_seg_ok_def seg_ok_def
      ikcp_segment_new_def in_order_Cons seqoff_def)

theorem acks_remove_exactly_witness:
  "map s_sn (snd_buf (ikcp_parse_ack in_flight2 1)) = [0] \<and>
   map s_sn (snd_buf (ikcp_shrink_buf (ikcp_parse_una in_flight2 1))) = [1]"
proof -
  have "una_comparable in_flight2 1" by (simp add: una_comparable_def in_flight2_def seqoff_def)
  note R = acks_remove_exactly [OF in_flight2_inv this, of 1]
  show ?thesis using R by (simp add: in_flight2_def ikcp_segment_new_def itimediff_def)
qed

section \<open>Fast acknowledgement counters\<close>

lemma fastack_scan_spec:
  assumes "in_order b 2147483648 q" "seqoff b sn < 2147483648"
  shows "fastack_scan sn q =
    map (\<lambda>s. if seqoff b (s_sn s) < seqoff b sn then s\<lparr>s_fastack := s_fastack s + 1\<rparr> else s) q"
  using assms(1)
proof (induction q)
  case (Cons s q)
  have o: "in_order b 2147483648 q" "seqoff b (s_sn s) < 2147483648"
    "\<forall>t \<in> set q. seqoff b (s_sn s) < seqoff b (s_sn t)" using Cons.prems by (auto simp: in_order_Cons)
  have d: "itimediff sn (s_sn s) < 0 \<longleftrightarrow> seqoff b sn < seqoff b (s_sn s)"
    using itimediff_seqoff [OF assms(2) o(2)] by simp
  show ?case
  proof (cases "itimediff sn (s_sn s) < 0")
    case True
    then have "\<forall>t \<in> set (s # q). \<not> seqoff b (s_sn t) < seqoff b sn" using d o(3) by auto
    then have "map (\<lambda>s. if seqoff b (s_sn s) < seqoff b sn then s\<lparr>s_fastack := s_fastack s + 1\<rparr> else s) (s # q) = s # q"
      by (intro map_idI) auto
    then show ?thesis using True by simp
  next
    case False
    then have "sn \<noteq> s_sn s \<longleftrightarrow> seqoff b (s_sn s) < seqoff b sn"
      using d by (metis linorder_neqE_nat less_irrefl seqoff_inj)
    then show ?thesis using False Cons.IH [OF o(1)] by simp
  qed
qed simp

lemma parse_fastack_spec:
  assumes "snd_base k"
  shows "ikcp_parse_fastack k sn ts =
    k\<lparr>snd_buf := map (\<lambda>s.
        if seqoff (snd_una k) sn < seqoff (snd_una k) (snd_nxt k) \<and>
           seqoff (snd_una k) (s_sn s) < seqoff (snd_una k) sn
        then s\<lparr>s_fastack := s_fastack s + 1\<rparr> else s) (snd_buf k)\<rparr>"
proof (cases "seqoff (snd_una k) sn < seqoff (snd_una k) (snd_nxt k)")
  case True
  then have "in_order (snd_una k) 2147483648 (snd_buf k)" "seqoff (snd_una k) sn < 2147483648"
    using assms by (auto simp: snd_base_def intro: in_order_mono)
  note F = fastack_scan_spec [OF this]
  show ?thesis unfolding ikcp_parse_fastack_def in_flight [OF assms] F using True by simp
next
  case False
  then show ?thesis unfolding ikcp_parse_fastack_def in_flight [OF assms] by simp
qed

text \<open>The invariant does not depend on the retransmission fields of the segments in flight.\<close>

lemma snd_inv_buf_map:
  assumes "snd_inv k" "map s_sn q = map s_sn (snd_buf k)"
    and "map s_len q = map s_len (snd_buf k)" "map s_data q = map s_data (snd_buf k)"
  shows "snd_inv (k\<lparr>snd_buf := q\<rparr>)"
proof -
  have len: "length q = length (snd_buf k)" using assms(2) by (rule map_eq_imp_length_eq)
  have ok: "snd_seg_ok k s" if "s \<in> set q" for s
  proof -
    obtain i where i: "i < length q" "s = q ! i" using \<open>s \<in> set q\<close> by (auto simp: in_set_conv_nth)
    then have "s_len s = s_len (snd_buf k ! i)" "s_data s = s_data (snd_buf k ! i)"
      using assms(3,4) len by (metis nth_map)+
    moreover have "snd_seg_ok k (snd_buf k ! i)"
      using i(1) len assms(1) by (simp add: snd_inv_def snd_base_def)
    ultimately show ?thesis by (simp add: snd_seg_ok_def seg_ok_def)
  qed
  have "first_sn q n = first_sn (snd_buf k) n" for n
    using assms(2) by (cases q; cases "snd_buf k") simp_all
  moreover have "in_order b n q = in_order b n (snd_buf k)" for b n
    by (rule in_order_map_sn [OF assms(2)])
  ultimately show ?thesis
    using assms(1) ok len by (auto simp: snd_inv_def snd_base_def una_tight_def snd_seg_ok_def)
qed

lemma parse_fastack_inv:
  assumes "snd_inv k"
  shows "snd_inv (ikcp_parse_fastack k sn ts)"
proof -
  have b: "snd_base k" using assms by (simp add: snd_inv_def)
  show ?thesis unfolding parse_fastack_spec [OF b]
    by (rule snd_inv_buf_map [OF assms]) (auto simp: comp_def)
qed

section \<open>The round-trip estimator\<close>

lemma update_ack_frame [simp]:
  "snd_buf (ikcp_update_ack k r) = snd_buf k" "snd_queue (ikcp_update_ack k r) = snd_queue k"
  "nsnd_buf (ikcp_update_ack k r) = nsnd_buf k" "nsnd_que (ikcp_update_ack k r) = nsnd_que k"
  "snd_una (ikcp_update_ack k r) = snd_una k" "snd_nxt (ikcp_update_ack k r) = snd_nxt k"
  "mtu (ikcp_update_ack k r) = mtu k" "mss (ikcp_update_ack k r) = mss k"
  "buffer (ikcp_update_ack k r) = buffer k" "rcv_wnd (ikcp_update_ack k r) = rcv_wnd k"
  "rmt_wnd (ikcp_update_ack k r) = rmt_wnd k" "rx_minrto (ikcp_update_ack k r) = rx_minrto k"
  "rcv_buf (ikcp_update_ack k r) = rcv_buf k" "rcv_queue (ikcp_update_ack k r) = rcv_queue k"
  "nrcv_buf (ikcp_update_ack k r) = nrcv_buf k" "nrcv_que (ikcp_update_ack k r) = nrcv_que k"
  "rcv_nxt (ikcp_update_ack k r) = rcv_nxt k" "acklist (ikcp_update_ack k r) = acklist k"
  "ackcount (ikcp_update_ack k r) = ackcount k" "ackblock (ikcp_update_ack k r) = ackblock k"
  "conv (ikcp_update_ack k r) = conv k" "cwnd (ikcp_update_ack k r) = cwnd k"
  "interval (ikcp_update_ack k r) = interval k" "incr (ikcp_update_ack k r) = incr k"
  "ssthresh (ikcp_update_ack k r) = ssthresh k" "current (ikcp_update_ack k r) = current k"
  by (simp_all add: ikcp_update_ack_def Let_def)

lemma unat_ibound: "unat (ibound l m u) = min (max (unat l) (unat m)) (unat (u :: u32))"
  by (simp add: ibound_def imin_def imax_def min_def max_def unat_le_u32)

lemma sint_ibound:
  assumes "unat u < 2147483648"
  shows "sint (ibound l m u) = int (min (max (unat l) (unat m)) (unat (u :: u32)))"
  unfolding unat_ibound [symmetric]
  by (rule sint_u32_small) (use assms unat_ibound [of l m u] in linarith)

lemma update_ack_same:
  "stream (ikcp_update_ack k r) = stream k" "output_set (ikcp_update_ack k r) = output_set k"
  by (simp_all add: ikcp_update_ack_def Let_def)

text \<open>Whatever time stamps the peer echoes, the timeout stays between the two bounds.\<close>

lemma update_ack_rto:
  assumes "rx_minrto k = 30 \<or> rx_minrto k = 100"
  shows "rx_minrto k \<le> rx_rto (ikcp_update_ack k rtt) \<and> rx_rto (ikcp_update_ack k rtt) \<le> 60000"
proof -
  have "\<exists>w. rx_rto (ikcp_update_ack k rtt) = sint (ibound (of_int (rx_minrto k)) w (60000 :: u32))"
    by (auto simp: ikcp_update_ack_def Let_def)
  then obtain w where w: "rx_rto (ikcp_update_ack k rtt) = sint (ibound (of_int (rx_minrto k)) w (60000 :: u32))" ..
  have "rx_rto (ikcp_update_ack k rtt) = int (min (max (unat (of_int (rx_minrto k) :: u32)) (unat w)) 60000)"
    unfolding w by (subst sint_ibound) simp_all
  moreover have "unat (of_int (rx_minrto k) :: u32) = nat (rx_minrto k)" using assms by auto
  ultimately show ?thesis using assms by auto
qed

lemma update_ack_inv: "kcp_inv k \<Longrightarrow> kcp_inv (ikcp_update_ack k rtt)"
proof (rule kcp_invI)
  assume i: "kcp_inv k"
  have "rx_minrto k = 30 \<or> rx_minrto k = 100" using i by (simp add: kcp_inv_def cfg_inv_def)
  from update_ack_rto [OF this, of rtt] kcp_inv_parts(1) [OF i]
  show "cfg_inv (ikcp_update_ack k rtt)" by (auto simp: cfg_inv_def)
  show "snd_inv (ikcp_update_ack k rtt)" by (rule snd_frame [OF kcp_inv_parts(2) [OF i]]) simp_all
  show "rcv_inv (ikcp_update_ack k rtt)" by (rule rcv_frame [OF kcp_inv_parts(3) [OF i]]) simp_all
  show "ack_inv (ikcp_update_ack k rtt)" by (rule ack_frame [OF kcp_inv_parts(4) [OF i]]) simp_all
qed

text \<open>The estimator over the integers, without any width.\<close>

definition est_srtt :: "int \<Rightarrow> int \<Rightarrow> int" where
  "est_srtt srtt rtt = (if srtt = 0 then rtt else max 1 ((7 * srtt + rtt) div 8))"

definition est_rttval :: "int \<Rightarrow> int \<Rightarrow> int \<Rightarrow> int" where
  "est_rttval srtt rttval rtt = (if srtt = 0 then rtt div 2 else (3 * rttval + \<bar>rtt - srtt\<bar>) div 4)"

lemma est_bounds:
  assumes "0 \<le> srtt" "srtt \<le> R" "0 \<le> rttval" "rttval \<le> R" "0 \<le> rtt" "rtt \<le> R" "1 \<le> R"
  shows "0 \<le> est_srtt srtt rtt" "est_srtt srtt rtt \<le> R"
    "0 \<le> est_rttval srtt rttval rtt" "est_rttval srtt rttval rtt \<le> R"
proof -
  have "(7 * srtt + rtt) div 8 \<le> R" "0 \<le> (7 * srtt + rtt) div 8" using assms by linarith+
  then show "0 \<le> est_srtt srtt rtt" "est_srtt srtt rtt \<le> R"
    using assms by (auto simp: est_srtt_def)
  have "(3 * rttval + \<bar>rtt - srtt\<bar>) div 4 \<le> R" "0 \<le> (3 * rttval + \<bar>rtt - srtt\<bar>) div 4"
    "rtt div 2 \<le> R" "0 \<le> rtt div 2"
    using assms by linarith+
  then show "0 \<le> est_rttval srtt rttval rtt" "est_rttval srtt rttval rtt \<le> R"
    by (auto simp: est_rttval_def)
qed

lemma update_ack_estimates:
  assumes "0 \<le> rx_srtt k" "rx_srtt k \<le> 268435455" "0 \<le> rx_rttval k" "rx_rttval k \<le> 268435455"
    and "0 \<le> rtt" "rtt \<le> 268435455"
  shows "rx_srtt (ikcp_update_ack k rtt) = est_srtt (rx_srtt k) rtt"
    and "rx_rttval (ikcp_update_ack k rtt) = est_rttval (rx_srtt k) (rx_rttval k) rtt"
proof -
  have d: "i32 (rtt - rx_srtt k) = rtt - rx_srtt k" by (rule i32_id) (use assms in linarith)+
  have a: "(if rtt - rx_srtt k < 0 then - (rtt - rx_srtt k) else rtt - rx_srtt k) = \<bar>rtt - rx_srtt k\<bar>"
    by simp
  have v3: "i32 (3 * rx_rttval k) = 3 * rx_rttval k" by (rule i32_id) (use assms in linarith)+
  have s7: "i32 (7 * rx_srtt k) = 7 * rx_srtt k" by (rule i32_id) (use assms in linarith)+
  have s8: "i32 (7 * rx_srtt k + rtt) = 7 * rx_srtt k + rtt" by (rule i32_id) (use assms in linarith)+
  have c4: "cdiv (3 * rx_rttval k + \<bar>rtt - rx_srtt k\<bar>) 4 = (3 * rx_rttval k + \<bar>rtt - rx_srtt k\<bar>) div 4"
    by (rule cdiv_nonneg) (use assms in linarith)+
  have c8: "cdiv (7 * rx_srtt k + rtt) 8 = (7 * rx_srtt k + rtt) div 8"
    by (rule cdiv_nonneg) (use assms in linarith)+
  have c2: "cdiv rtt 2 = rtt div 2" by (rule cdiv_nonneg) (use assms in linarith)+
  have i4: "i32 ((3 * rx_rttval k + \<bar>rtt - rx_srtt k\<bar>) div 4) = (3 * rx_rttval k + \<bar>rtt - rx_srtt k\<bar>) div 4"
    by (rule i32_id) (use assms in linarith)+
  have i8: "i32 ((7 * rx_srtt k + rtt) div 8) = (7 * rx_srtt k + rtt) div 8"
    by (rule i32_id) (use assms in linarith)+
  show "rx_srtt (ikcp_update_ack k rtt) = est_srtt (rx_srtt k) rtt"
    unfolding ikcp_update_ack_def Let_def by (simp add: s7 s8 c8 i8 est_srtt_def max_def)
  show "rx_rttval (ikcp_update_ack k rtt) = est_rttval (rx_srtt k) (rx_rttval k) rtt"
    unfolding ikcp_update_ack_def Let_def d a v3 c4 i4 by (simp add: c2 est_rttval_def)
qed

lemma of_int_i32: "of_int (i32 (uint w)) = (w :: u32)"
  unfolding sint_u32 [symmetric] by simp

lemma rto_formula:
  fixes i :: u32
  assumes "s \<le> 268435455" "v \<le> 268435455" "unat i \<le> 5000" "m \<le> 60000"
  shows "sint (ibound (of_nat m) (of_int (i32 (uint (of_nat s + imax i (of_int (i32 (4 * int v))) :: u32)))) 60000)
    = int (max m (min (s + max (unat i) (4 * v)) 60000))"
proof -
  have "i32 (4 * int v) = int (4 * v)" by (subst i32_id) (use assms(2) in linarith)+
  then have "(of_int (i32 (4 * int v)) :: u32) = of_nat (4 * v)" by (simp only: of_int_of_nat_eq)
  then have x: "unat (imax i (of_int (i32 (4 * int v)))) = max (unat i) (4 * v)"
    using assms(2) unat_of_nat_u32 [of "4 * v"] by (auto simp: imax_def unat_le_u32 max_def)
  let ?w = "of_nat s + imax i (of_int (i32 (4 * int v))) :: u32"
  have "unat (of_nat s :: u32) = s" using assms(1) by (intro unat_of_nat_u32) simp
  moreover have "s + max (unat i) (4 * v) < 4294967296" using assms(1-3) by simp
  ultimately have w: "unat ?w = s + max (unat i) (4 * v)"
    by (subst unat_word_ariths) (simp add: x)
  have m: "unat (of_nat m :: u32) = m" using assms(4) by (intro unat_of_nat_u32) simp
  have "sint (ibound (of_nat m) ?w 60000) = int (min (max m (s + max (unat i) (4 * v))) 60000)"
    by (subst sint_ibound) (simp_all only: m w, simp_all)
  also have "min (max m (s + max (unat i) (4 * v))) 60000 = max m (min (s + max (unat i) (4 * v)) 60000)"
    using assms(4) by simp
  finally show ?thesis unfolding of_int_i32 .
qed

text \<open>
  C23. The round-trip estimator. While smoothed time, variation and sample are in
  0..268435455 ms (about three days), \<open>ikcp_update_ack\<close> computes, without any wrap, the integer
  estimates \<open>est_srtt\<close> and \<open>est_rttval\<close>, which stay in that range, and the
  timeout is the smoothed time plus the larger of the interval and four times the variation,
  clamped to the range from \<open>rx_minrto\<close> to 60 s.
\<close>

theorem update_ack_exact:
  assumes "0 \<le> rx_srtt k" "rx_srtt k \<le> 268435455" "0 \<le> rx_rttval k" "rx_rttval k \<le> 268435455"
    and "0 \<le> rtt" "rtt \<le> 268435455" "unat (interval k) \<le> 5000"
    and "0 \<le> rx_minrto k" "rx_minrto k \<le> 60000"
  shows "let k' = ikcp_update_ack k rtt; s = est_srtt (rx_srtt k) rtt;
      v = est_rttval (rx_srtt k) (rx_rttval k) rtt
    in rx_srtt k' = s \<and> rx_rttval k' = v \<and> 0 \<le> s \<and> s \<le> 268435455 \<and> 0 \<le> v \<and> v \<le> 268435455 \<and>
       rx_rto k' = max (rx_minrto k) (min (s + max (uint (interval k)) (4 * v)) 60000)"
proof -
  define s where "s = est_srtt (rx_srtt k) rtt"
  define v where "v = est_rttval (rx_srtt k) (rx_rttval k) rtt"
  have b: "0 \<le> s" "s \<le> 268435455" "0 \<le> v" "v \<le> 268435455"
    using est_bounds [OF assms(1-6)] by (simp_all add: s_def v_def)
  note E = update_ack_estimates [OF assms(1-6), folded s_def v_def]
  have n: "int (nat s) = s" "int (nat v) = v" "int (nat (rx_minrto k)) = rx_minrto k" using b assms(8) by simp_all
  have "rx_rto (ikcp_update_ack k rtt) =
      sint (ibound (of_int (rx_minrto k)) (of_int (i32 (uint (of_int s +
        imax (interval k) (of_int (i32 (4 * v))) :: u32)))) 60000)"
    using E unfolding ikcp_update_ack_def Let_def by simp
  also have "\<dots> = sint (ibound (of_nat (nat (rx_minrto k))) (of_int (i32 (uint (of_nat (nat s) +
        imax (interval k) (of_int (i32 (4 * int (nat v)))) :: u32)))) 60000)"
    using b(1,3) assms(8) by simp
  also have "\<dots> = int (max (nat (rx_minrto k)) (min (nat s + max (unat (interval k)) (4 * nat v)) 60000))"
    by (rule rto_formula) (use b assms(7,9) in simp_all)
  also have "\<dots> = max (rx_minrto k) (min (s + max (uint (interval k)) (4 * v)) 60000)"
    using n by (simp add: of_nat_max of_nat_min)
  finally show ?thesis using E b unfolding s_def [symmetric] v_def [symmetric] Let_def by simp
qed

theorem update_ack_exact_witness:
  "rx_rto (ikcp_update_ack (kcp_fresh 7) 400) = 1200"
  using update_ack_exact [of "kcp_fresh 7" 400] by (simp add: est_srtt_def est_rttval_def Let_def)

lemma update_ack_srtt:
  "rx_srtt (ikcp_update_ack k rtt) =
     (if rx_srtt k = 0 then rtt
      else max 1 (i32 (cdiv (i32 (i32 (7 * rx_srtt k) + rtt)) 8)))"
  unfolding ikcp_update_ack_def Let_def by simp

text \<open>Outside that range the products wrap: after two equal samples the average is not the sample.\<close>

lemma update_ack_wraps:
  "rx_srtt (ikcp_update_ack (ikcp_update_ack (kcp_fresh 7) 400000000) 400000000) = 1"
  unfolding update_ack_srtt by (simp add: i32_def cdiv_def)

section \<open>The list of acknowledgements to send\<close>

fun acks_of :: "(u32 \<times> u32) list option \<Rightarrow> u32 \<Rightarrow> (u32 \<times> u32) list" where
  "acks_of None c = []"
| "acks_of (Some l) c = take (unat c) l"

definition pending_acks :: "kcpcb \<Rightarrow> (u32 \<times> u32) list" where
  "pending_acks k = acks_of (acklist k) (ackcount k)"

lemma pending_fresh [simp]: "pending_acks (kcp_fresh cv) = []"
  by (simp add: pending_acks_def)

lemma pending_length: "ack_inv k \<Longrightarrow> length (pending_acks k) = unat (ackcount k)"
  by (cases "acklist k") (simp_all add: pending_acks_def ack_inv_def)

text \<open>Doubling 8 reaches any size up to \<open>2^31\<close>.\<close>

lemma ack_newblock_total:
  assumes "unat newsize \<le> 2147483648" "unat b = 2 ^ j" "j \<le> 31"
  shows "\<exists>r. ack_newblock b newsize = Some r \<and> newsize \<le> r"
  using assms(2,3)
proof (induction "31 - j" arbitrary: j b)
  case 0
  then have "unat b = 2147483648" by simp
  then have "\<not> b < newsize" using assms(1) by (simp add: unat_less_u32)
  then show ?case by (simp add: ack_newblock.simps [of b])
next
  case (Suc n)
  show ?case
  proof (cases "b < newsize")
    case True
    have "j < 31" using Suc by simp
    then have l: "(2 :: nat) ^ Suc j \<le> 2 ^ 31" by (intro power_increasing) simp_all
    have p: "push_bit 1 b = 2 * b" by (simp add: push_bit_eq_mult)
    have "unat (2 * b) = 2 * unat b"
      using l Suc.prems(1) by (subst unat_word_ariths) (simp add: unat_of_nat)
    then have "unat (push_bit 1 b) = 2 ^ Suc j" unfolding p using Suc.prems(1) by simp
    then have "\<exists>r. ack_newblock (push_bit 1 b) newsize = Some r \<and> newsize \<le> r"
      using Suc.hyps(2) \<open>j < 31\<close> by (intro Suc.hyps(1) [of "Suc j"]) simp_all
    then show ?thesis using True by (simp add: ack_newblock.simps [of b])
  next
    case False
    then show ?thesis by (simp add: ack_newblock.simps [of b])
  qed
qed

lemma ack_newblock_8:
  assumes "unat newsize \<le> 2147483648"
  shows "\<exists>r. ack_newblock 8 newsize = Some r \<and> newsize \<le> r"
  by (rule ack_newblock_total [OF assms, of _ 3]) simp_all

lemma append_ack:
  assumes "ack_inv k" "unat (ackcount k) < 2147483647"
  shows "\<exists>l b. ikcp_ack_push k sn ts True = Inr (k\<lparr>acklist := l, ackblock := b, ackcount := ackcount k + 1\<rparr>) \<and>
    ack_inv (k\<lparr>acklist := l, ackblock := b, ackcount := ackcount k + 1\<rparr>) \<and>
    pending_acks (k\<lparr>acklist := l, ackblock := b, ackcount := ackcount k + 1\<rparr>) =
      pending_acks k @ [(sn, ts)]"
proof -
  let ?n = "unat (ackcount k)"
  have n1: "unat (ackcount k + 1) = Suc ?n" using assms(2) by (subst unat_word_ariths) simp
  obtain b where b: "ack_newblock 8 (ackcount k + 1) = Some b" "ackcount k + 1 \<le> b"
    using ack_newblock_8 [of "ackcount k + 1"] n1 assms(2) by auto
  show ?thesis
  proof (cases "ackcount k + 1 > ackblock k")
    case True
    have "ack_grow k (ackcount k + 1) True = Inr (k\<lparr>acklist := Some (pending_acks k), ackblock := b\<rparr>)"
      using assms(1) b(1) by (cases "acklist k") (simp_all add: ack_grow_def pending_acks_def ack_inv_def)
    then have "ikcp_ack_push k sn ts True = Inr (k\<lparr>acklist := Some (pending_acks k @ [(sn, ts)]),
        ackblock := b, ackcount := ackcount k + 1\<rparr>)"
      using True b(2) n1 pending_length [OF assms(1)]
      by (simp add: ikcp_ack_push_def Let_def unat_le_u32)
    then show ?thesis using b(2) n1 pending_length [OF assms(1)]
      by (intro exI [of _ "Some (pending_acks k @ [(sn, ts)])"] exI [of _ b])
         (simp add: ack_inv_def pending_acks_def unat_le_u32)
  next
    case False
    then have lt: "?n < unat (ackblock k)" using n1 by (simp add: unat_less_u32)
    then obtain l where l: "acklist k = Some l" "?n \<le> length l" "length l \<le> unat (ackblock k)"
      using assms(1) by (cases "acklist k") (auto simp: ack_inv_def)
    let ?l = "take ?n l @ [(sn, ts)] @ drop (Suc ?n) l"
    have "ikcp_ack_push k sn ts True = Inr (k\<lparr>acklist := Some ?l, ackblock := ackblock k, ackcount := ackcount k + 1\<rparr>)"
      using False l lt by (simp add: ikcp_ack_push_def Let_def)
    then show ?thesis using l lt n1
      by (intro exI [of _ "Some ?l"] exI [of _ "ackblock k"])
         (auto simp: ack_inv_def pending_acks_def)
  qed
qed

lemma ack_push_mem:
  "ikcp_ack_push k sn ts alloc = ikcp_ack_push k sn ts True \<or>
   \<not> alloc \<and> ikcp_ack_push k sn ts alloc = Inl AssertFail"
  by (cases alloc) (auto simp: ikcp_ack_push_def ack_grow_def Let_def split: option.splits)

text \<open>
  \<open>ikcp_ack_push\<close> appends. Where its allocation, if it makes one, succeeds and with fewer than \<open>2^31 - 1\<close> acknowledgements waiting, the loop that
  sizes the new block ends, no cell outside the array is read or written, the acknowledgements
  waiting are the old ones followed by the new one, and nothing but the three fields of the array
  changes.
\<close>

theorem ack_push_appends:
  assumes "ack_inv k" "unat (ackcount k) < 2147483647"
  shows "\<exists>l b. ikcp_ack_push k sn ts True = Inr (k\<lparr>acklist := l, ackblock := b, ackcount := ackcount k + 1\<rparr>) \<and>
    ack_inv (k\<lparr>acklist := l, ackblock := b, ackcount := ackcount k + 1\<rparr>) \<and>
    pending_acks (k\<lparr>acklist := l, ackblock := b, ackcount := ackcount k + 1\<rparr>) =
      pending_acks k @ [(sn, ts)]"
  by (rule append_ack [OF assms])

theorem ack_push_appends_witness:
  "\<exists>k. ikcp_ack_push (kcp_fresh 7) 5 6 True = Inr k \<and> pending_acks k = [(5, 6)]"
proof -
  have "ack_inv (kcp_fresh 7)" using fresh_inv [of 7] by (simp add: kcp_inv_def)
  from ack_push_appends [OF this, of 5 6] show ?thesis by (simp only: pending_fresh) auto
qed

end
