(* ===== verification/Kcp_Input.thy ===== *)
theory Kcp_Input
  imports Kcp_Codec Kcp_Recv Kcp_Ack
begin

text \<open>
  \<open>ikcp_input\<close>: a datagram is a sequence of segments. One iteration of the loop is \<open>input_step\<close>:
  it decodes a header, checks it, and lets \<open>input_cmd\<close> act on the command. After the loop,
  \<open>input_finish\<close> counts fast acknowledgements and opens the congestion window. The locals
  \<open>flag, maxack, latest_ts\<close> are the record \<open>ackinfo\<close>. \<open>data\<close> is NULL (\<open>None\<close>) or the bytes of
  the datagram's buffer, \<open>size\<close> the length the caller passes. The last argument says which allocations
  succeed: an iteration that starts with \<open>n\<close> bytes left (each has its own \<open>n\<close>) may enlarge the
  list of acknowledgements, \<open>fst (alloc n)\<close>, and then make a segment, \<open>snd (alloc n)\<close>.
\<close>

section \<open>The code\<close>

type_synonym memory = "int \<Rightarrow> bool \<times> bool"

record ackinfo =
  a_flag :: bool
  a_maxack :: u32
  a_latest_ts :: u32

definition note_ack :: "ackinfo \<Rightarrow> u32 \<Rightarrow> u32 \<Rightarrow> ackinfo" where
  "note_ack a sn ts =
     (if \<not> a_flag a then \<lparr>a_flag = True, a_maxack = sn, a_latest_ts = ts\<rparr>
      else if itimediff sn (a_maxack a) > 0 then a\<lparr>a_maxack := sn, a_latest_ts := ts\<rparr>
      else a)"

definition push_seg :: "hdr \<Rightarrow> bytes \<Rightarrow> seg" where
  "push_seg h d =
     (ikcp_segment_new d)\<lparr>s_conv := h_conv h, s_cmd := ucast (h_cmd h), s_frg := ucast (h_frg h),
        s_wnd := ucast (h_wnd h), s_ts := h_ts h, s_sn := h_sn h, s_una := h_una h,
        s_len := h_len h\<rparr>"

definition input_push :: "kcpcb \<Rightarrow> hdr \<Rightarrow> bytes \<Rightarrow> bool \<times> bool \<Rightarrow> fault + kcpcb" where
  \<comment> \<open>the result of \<open>ikcp_segment_new\<close> is written to without a check\<close>
  "input_push k h data mem =
     (if itimediff (h_sn h) (rcv_nxt k + rcv_wnd k) < 0 then
        andThen (ikcp_ack_push k (h_sn h) (h_ts h) (fst mem)) (\<lambda>k.
          if itimediff (h_sn h) (rcv_nxt k) \<ge> 0 then
            if \<not> snd mem then Inl NullDeref
            else andThen (if h_len h > 0 then mem_read data (unat (h_len h)) else Inr []) (\<lambda>d.
              Inr (ikcp_parse_data k (push_seg h d)))
          else Inr k)
      else Inr k)"

definition input_ack :: "kcpcb \<Rightarrow> hdr \<Rightarrow> kcpcb" where
  "input_ack k h =
     (let k = (if itimediff (current k) (h_ts h) \<ge> 0
               then ikcp_update_ack k (itimediff (current k) (h_ts h)) else k);
          k = ikcp_parse_ack k (h_sn h)
      in ikcp_shrink_buf k)"

definition input_cmd ::
  "kcpcb \<Rightarrow> ackinfo \<Rightarrow> hdr \<Rightarrow> bytes \<Rightarrow> bool \<times> bool \<Rightarrow> fault + (kcpcb \<times> ackinfo) option" where
  "input_cmd k a h data mem =
     (let cmd = (ucast (h_cmd h) :: u32);
          k = k\<lparr>rmt_wnd := ucast (h_wnd h)\<rparr>;
          k = ikcp_parse_una k (h_una h);
          k = ikcp_shrink_buf k
      in if cmd = IKCP_CMD_ACK then
           Inr (Some (input_ack k h, note_ack a (h_sn h) (h_ts h)))
         else if cmd = IKCP_CMD_PUSH then
           andThen (input_push k h data mem) (\<lambda>k. Inr (Some (k, a)))
         else if cmd = IKCP_CMD_WASK then
           Inr (Some (k\<lparr>probe := probe k OR IKCP_ASK_TELL\<rparr>, a))
         else if cmd = IKCP_CMD_WINS then Inr (Some (k, a))
         else Inr None)"

datatype in_step = InBreak | InReturn int | InNext kcpcb ackinfo bytes int

definition input_step :: "kcpcb \<Rightarrow> ackinfo \<Rightarrow> bytes \<Rightarrow> int \<Rightarrow> memory \<Rightarrow> fault + in_step" where
  "input_step k a data sz alloc =
     (if sz < sint IKCP_OVERHEAD then Inr InBreak
      else andThen (ikcp_decode32u data) (\<lambda>(cv, data).
        if cv \<noteq> conv k then Inr (InReturn (-1))
        else andThen (decode_fields cv data) (\<lambda>(h, data).
          let mem = alloc sz;
              sz = sz - uint IKCP_OVERHEAD;
              cmd = (ucast (h_cmd h) :: u32)
          in if sz < uint (h_len h) \<or> sint (h_len h) < 0 then Inr (InReturn (-2))
             else if cmd \<noteq> IKCP_CMD_PUSH \<and> cmd \<noteq> IKCP_CMD_ACK \<and>
                     cmd \<noteq> IKCP_CMD_WASK \<and> cmd \<noteq> IKCP_CMD_WINS then Inr (InReturn (-3))
             else andThen (input_cmd k a h data mem) (\<lambda>r. case r of
                 None \<Rightarrow> Inr (InReturn (-3))
               | Some (k, a) \<Rightarrow>
                   Inr (InNext k a (drop (unat (h_len h)) data) (sz - uint (h_len h)))))))"

lemma input_step_decreases:
  assumes "input_step k a data sz alloc = Inr (InNext k' a' data' sz')"
  shows "0 \<le> sz' \<and> sz' \<le> sz - 24"
proof -
  have 24: "sint IKCP_OVERHEAD = 24" "uint IKCP_OVERHEAD = 24" by simp_all
  show ?thesis using assms unfolding input_step_def 24
    by (auto simp: andThen_Inr Let_def split: if_splits option.splits prod.splits)
qed

function input_loop ::
  "kcpcb \<Rightarrow> ackinfo \<Rightarrow> bytes \<Rightarrow> int \<Rightarrow> memory \<Rightarrow> fault + (int option \<times> kcpcb \<times> ackinfo)" where
  \<comment> \<open>the result \<open>Some r\<close> is an early \<open>return r\<close>\<close>
  "input_loop k a data sz alloc =
     (case input_step k a data sz alloc of
        Inl e \<Rightarrow> Inl e
      | Inr InBreak \<Rightarrow> Inr (None, k, a)
      | Inr (InReturn r) \<Rightarrow> Inr (Some r, k, a)
      | Inr (InNext k' a' data' sz') \<Rightarrow> input_loop k' a' data' sz' alloc)"
  by pat_completeness auto
termination
  by (relation "measure (\<lambda>(k, a, data, sz, alloc). nat (24 + sz))")
    (auto dest!: input_step_decreases)

declare input_loop.simps [simp del]

definition open_cwnd :: "kcpcb \<Rightarrow> fault + kcpcb" where
  "open_cwnd k =
     (let m = mss k
      in andThen
           (if cwnd k < ssthresh k then Inr (k\<lparr>cwnd := cwnd k + 1, incr := incr k + m\<rparr>)
            else
              let k = (if incr k < m then k\<lparr>incr := m\<rparr> else k)
              in if incr k = 0 then Inl DivByZero
                 else
                   let k = k\<lparr>incr := incr k + ((m * m) div incr k + m div 16)\<rparr>
                   in if (cwnd k + 1) * m \<le> incr k
                      then Inr (k\<lparr>cwnd := (incr k + m - 1) div (if m > 0 then m else 1)\<rparr>)
                      else Inr k)
           (\<lambda>k. Inr (if cwnd k > rmt_wnd k
                      then k\<lparr>cwnd := rmt_wnd k, incr := rmt_wnd k * m\<rparr> else k)))"

definition input_finish :: "kcpcb \<Rightarrow> ackinfo \<Rightarrow> u32 \<Rightarrow> fault + kcpcb" where
  "input_finish k a prev_una =
     (let k = (if a_flag a then ikcp_parse_fastack k (a_maxack a) (a_latest_ts a) else k)
      in if itimediff (snd_una k) prev_una > 0 \<and> cwnd k < rmt_wnd k then open_cwnd k else Inr k)"

definition ikcp_input :: "kcpcb \<Rightarrow> bytes option \<Rightarrow> int \<Rightarrow> memory \<Rightarrow> fault + (int \<times> kcpcb)" where
  "ikcp_input k data sz alloc =
     (case data of
        None \<Rightarrow> Inr (-1, k)
      | Some d \<Rightarrow>
          if i32 sz < sint IKCP_OVERHEAD then Inr (-1, k)
          else andThen (input_loop k \<lparr>a_flag = False, a_maxack = 0, a_latest_ts = 0\<rparr> d sz alloc)
                 (\<lambda>(r, k', a). case r of
                     Some e \<Rightarrow> Inr (e, k')
                   | None \<Rightarrow> andThen (input_finish k' a (snd_una k)) (\<lambda>k'. Inr (0, k'))))"

section \<open>What a shortage of memory does\<close>

definition plenty :: memory where
  \<comment> \<open>every allocation succeeds\<close>
  "plenty = (\<lambda>_. (True, True))"

definition short_of :: "memory \<Rightarrow> fault \<Rightarrow> bool" where
  \<comment> \<open>the two ways in which a failed allocation ends the program\<close>
  "short_of alloc x =
     (x = AssertFail \<and> (\<exists>n. \<not> fst (alloc n)) \<or> x = NullDeref \<and> (\<exists>n. \<not> snd (alloc n)))"

lemma plenty_apply: "plenty n = (True, True)"
  by (simp add: plenty_def)

lemma short_of_plenty [simp]: "\<not> short_of plenty x"
  by (simp add: short_of_def plenty_apply)

lemma input_push_mem:
  "input_push k h data (alloc n) = input_push k h data (True, True) \<or>
   (\<exists>x. input_push k h data (alloc n) = Inl x \<and> short_of alloc x)"
proof -
  consider "ikcp_ack_push k (h_sn h) (h_ts h) (fst (alloc n)) = ikcp_ack_push k (h_sn h) (h_ts h) True"
    | "\<not> fst (alloc n)" "ikcp_ack_push k (h_sn h) (h_ts h) (fst (alloc n)) = Inl AssertFail"
    using ack_push_mem by blast
  then show ?thesis
  proof cases
    case 1
    show ?thesis
    proof (cases "snd (alloc n)")
      case True
      then show ?thesis by (simp add: input_push_def 1 cong: if_cong)
    next
      case False
      then have "short_of alloc NullDeref" by (auto simp: short_of_def)
      then show ?thesis using False
        by (cases "ikcp_ack_push k (h_sn h) (h_ts h) True") (auto simp: input_push_def 1)
    qed
  next
    case 2
    then have "short_of alloc AssertFail" by (auto simp: short_of_def)
    then show ?thesis using 2(2) by (auto simp: input_push_def)
  qed
qed

lemma input_cmd_mem:
  "input_cmd k a h data (alloc n) = input_cmd k a h data (True, True) \<or>
   (\<exists>x. input_cmd k a h data (alloc n) = Inl x \<and> short_of alloc x)"
  using input_push_mem [of "ikcp_shrink_buf (ikcp_parse_una (k\<lparr>rmt_wnd := ucast (h_wnd h)\<rparr>) (h_una h))" h data alloc n]
  by (auto simp: input_cmd_def Let_def)

lemma input_step_mem:
  "input_step k a data sz alloc = input_step k a data sz plenty \<or>
   (\<exists>x. input_step k a data sz alloc = Inl x \<and> short_of alloc x)"
proof (cases "ikcp_decode32u data")
  case (Inr d)
  obtain cv rest where d: "d = (cv, rest)" by (cases d)
  show ?thesis
  proof (cases "decode_fields cv rest")
    case (Inr f)
    obtain h rest' where f: "f = (h, rest')" by (cases f)
    show ?thesis
      using input_cmd_mem [of k a h rest' alloc sz] \<open>ikcp_decode32u data = Inr d\<close> Inr d f
      by (auto simp: input_step_def Let_def plenty_apply)
  qed (use \<open>ikcp_decode32u data = Inr d\<close> d in \<open>auto simp: input_step_def\<close>)
qed (simp add: input_step_def)

lemma input_loop_mem:
  "input_loop k a data sz alloc = input_loop k a data sz plenty \<or>
   (\<exists>x. input_loop k a data sz alloc = Inl x \<and> short_of alloc x)"
proof (induction k a data sz alloc rule: input_loop.induct)
  case (1 k a data sz alloc)
  consider "input_step k a data sz alloc = input_step k a data sz plenty"
    | x where "input_step k a data sz alloc = Inl x" "short_of alloc x"
    using input_step_mem by blast
  then show ?case
  proof cases
    case same: 1
    show ?thesis
    proof (cases "\<exists>k' a' data' sz'. input_step k a data sz alloc = Inr (InNext k' a' data' sz')")
      case True
      then obtain k' a' data' sz' where n: "input_step k a data sz alloc = Inr (InNext k' a' data' sz')" by blast
      show ?thesis using "1" [OF n refl] n same
        by (simp add: input_loop.simps [of k a data sz])
    next
      case False
      then show ?thesis using same
        by (auto simp: input_loop.simps [of k a data sz] split: sum.splits in_step.splits)
    qed
  qed (auto simp: input_loop.simps [of k a data sz])
qed

lemma input_mem:
  "ikcp_input k data sz alloc = ikcp_input k data sz plenty \<or>
   (\<exists>x. ikcp_input k data sz alloc = Inl x \<and> short_of alloc x)"
proof (cases data)
  case (Some d)
  then show ?thesis
    using input_loop_mem [of k "\<lparr>a_flag = False, a_maxack = 0, a_latest_ts = 0\<rparr>" d sz alloc]
    by (auto simp: ikcp_input_def)
qed (simp add: ikcp_input_def)

lemma input_mem_Inr: "ikcp_input k data sz alloc = Inr x \<Longrightarrow> ikcp_input k data sz plenty = Inr x"
  using input_mem [of k data sz alloc] by auto

section \<open>One segment: the invariant, and no fault\<close>

definition una_step :: "kcpcb \<Rightarrow> hdr \<Rightarrow> kcpcb" where
  \<comment> \<open>what every command does first\<close>
  "una_step k h =
     ikcp_shrink_buf (ikcp_parse_una (k\<lparr>rmt_wnd := ucast (h_wnd h)\<rparr>) (h_una h))"

lemma unat_u16: "unat (w :: u16) \<le> 65535"
  using unsigned_less [of w, where ?'a = nat] by simp

lemma unat_u8: "unat (w :: u8) < 256"
  using unsigned_less [of w, where ?'a = nat] by simp

lemma unat_ucast_16: "unat (ucast (w :: u16) :: u32) = unat w"
  unfolding unsigned_ucast_eq
  by (rule take_bit_nat_eq_self) (rule le_less_trans [OF unat_u16], simp)

lemma unat_ucast_8: "unat (ucast (w :: u8) :: u32) = unat w"
  unfolding unsigned_ucast_eq
  by (rule take_bit_nat_eq_self) (rule less_trans [OF unat_u8], simp)

lemma rmt_wnd_inv: "kcp_inv k \<Longrightarrow> kcp_inv (k\<lparr>rmt_wnd := ucast (w :: u16)\<rparr>)"
proof (rule kcp_invI)
  assume i: "kcp_inv k"
  show "cfg_inv (k\<lparr>rmt_wnd := ucast w\<rparr>)"
    using kcp_inv_parts(1) [OF i] unat_u16 [of w] by (simp add: cfg_inv_def unat_ucast_16)
  show "snd_inv (k\<lparr>rmt_wnd := ucast w\<rparr>)" by (rule snd_frame [OF kcp_inv_parts(2) [OF i]]) simp_all
  show "rcv_inv (k\<lparr>rmt_wnd := ucast w\<rparr>)" by (rule rcv_frame [OF kcp_inv_parts(3) [OF i]]) simp_all
  show "ack_inv (k\<lparr>rmt_wnd := ucast w\<rparr>)" by (rule ack_frame [OF kcp_inv_parts(4) [OF i]]) simp_all
qed

lemma shrink_kept_inv:
  assumes "kcp_inv k" "set q \<subseteq> set (snd_buf k)"
    and "in_order (snd_una k) (seqoff (snd_una k) (snd_nxt k)) q"
  shows "kcp_inv (ikcp_shrink_buf (kept k q))"
proof (rule kcp_invI)
  have b: "snd_base k" using assms(1) by (simp add: kcp_inv_def snd_inv_def)
  show "snd_inv (ikcp_shrink_buf (kept k q))" by (rule shrink_buf_inv [OF kept_base [OF b assms(2,3)]])
  show "cfg_inv (ikcp_shrink_buf (kept k q))"
    by (rule cfg_frame [OF kcp_inv_parts(1) [OF assms(1)]]) (simp_all add: shrink_buf_alt kept_def)
  show "rcv_inv (ikcp_shrink_buf (kept k q))"
    by (rule rcv_frame [OF kcp_inv_parts(3) [OF assms(1)]]) (simp_all add: shrink_buf_alt kept_def)
  show "ack_inv (ikcp_shrink_buf (kept k q))"
    by (rule ack_frame [OF kcp_inv_parts(4) [OF assms(1)]]) (simp_all add: shrink_buf_alt kept_def)
qed

lemma una_step_alt:
  assumes "kcp_inv k"
  shows "una_step k h = ikcp_shrink_buf (kept (k\<lparr>rmt_wnd := ucast (h_wnd h)\<rparr>)
    (dropWhile (\<lambda>s. itimediff (h_una h) (s_sn s) > 0) (snd_buf k)))"
proof -
  have "snd_base (k\<lparr>rmt_wnd := ucast (h_wnd h)\<rparr>)"
    using rmt_wnd_inv [OF assms] by (simp add: kcp_inv_def snd_inv_def)
  from parse_una_kept [OF this, of "h_una h"] show ?thesis by (simp add: una_step_def)
qed

lemma una_step_inv:
  assumes "kcp_inv k"
  shows "kcp_inv (una_step k h)"
  unfolding una_step_alt [OF assms]
proof (rule shrink_kept_inv [OF rmt_wnd_inv [OF assms]])
  have "in_order (snd_una k) (seqoff (snd_una k) (snd_nxt k)) (snd_buf k)"
    using assms by (simp add: kcp_inv_def snd_inv_def snd_base_def)
  then show "in_order (snd_una (k\<lparr>rmt_wnd := ucast (h_wnd h)\<rparr>))
      (seqoff (snd_una (k\<lparr>rmt_wnd := ucast (h_wnd h)\<rparr>)) (snd_nxt (k\<lparr>rmt_wnd := ucast (h_wnd h)\<rparr>)))
      (dropWhile (\<lambda>s. itimediff (h_una h) (s_sn s) > 0) (snd_buf k))"
    by (simp add: in_order_dropWhile)
qed (auto dest: set_dropWhileD)

lemma una_step_frame:
  assumes "kcp_inv k"
  shows "ackcount (una_step k h) = ackcount k" "conv (una_step k h) = conv k"
    "cwnd (una_step k h) = cwnd k" "snd_nxt (una_step k h) = snd_nxt k"
    "rmt_wnd (una_step k h) = ucast (h_wnd h)" "snd_queue (una_step k h) = snd_queue k"
    "receiver_of (una_step k h) = receiver_of k" "rcv_nxt (una_step k h) = rcv_nxt k"
    "rcv_wnd (una_step k h) = rcv_wnd k" "pending_acks (una_step k h) = pending_acks k"
  by (simp_all add: una_step_alt [OF assms] shrink_buf_alt kept_def receiver_of_def pending_acks_def)

definition rtt_step :: "kcpcb \<Rightarrow> hdr \<Rightarrow> kcpcb" where
  "rtt_step k h =
     (if itimediff (current k) (h_ts h) \<ge> 0
      then ikcp_update_ack k (itimediff (current k) (h_ts h)) else k)"

lemma input_ack_alt:
  assumes "kcp_inv k"
  shows "input_ack k h =
    ikcp_shrink_buf (kept (rtt_step k h) (filter (\<lambda>s. s_sn s \<noteq> h_sn h) (snd_buf k)))"
proof -
  have "kcp_inv (rtt_step k h)" using assms by (simp add: rtt_step_def update_ack_inv)
  then have "snd_base (rtt_step k h)" by (simp add: kcp_inv_def snd_inv_def)
  moreover have "snd_buf (rtt_step k h) = snd_buf k" by (simp add: rtt_step_def)
  ultimately show ?thesis by (simp add: input_ack_def rtt_step_def [symmetric] parse_ack_filter)
qed

lemma input_ack_inv:
  assumes "kcp_inv k"
  shows "kcp_inv (input_ack k h)"
proof -
  have r: "kcp_inv (rtt_step k h)" using assms by (simp add: rtt_step_def update_ack_inv)
  have "in_order (snd_una k) (seqoff (snd_una k) (snd_nxt k)) (snd_buf k)"
    using assms by (simp add: kcp_inv_def snd_inv_def snd_base_def)
  then show ?thesis unfolding input_ack_alt [OF assms]
    by (intro shrink_kept_inv [OF r]) (auto simp: rtt_step_def in_order_filter)
qed

lemma input_ack_frame:
  assumes "kcp_inv k"
  shows "ackcount (input_ack k h) = ackcount k" "conv (input_ack k h) = conv k"
    "cwnd (input_ack k h) = cwnd k" "snd_nxt (input_ack k h) = snd_nxt k"
    "rmt_wnd (input_ack k h) = rmt_wnd k" "snd_queue (input_ack k h) = snd_queue k"
    "receiver_of (input_ack k h) = receiver_of k" "rcv_nxt (input_ack k h) = rcv_nxt k"
    "rcv_wnd (input_ack k h) = rcv_wnd k" "pending_acks (input_ack k h) = pending_acks k"
  by (simp_all add: input_ack_alt [OF assms] shrink_buf_alt kept_def rtt_step_def receiver_of_def
      pending_acks_def)

lemma push_seg_ok:
  assumes "unat (h_len h) = length d"
  shows "rcv_seg_ok (push_seg h d)"
  using assms unat_u8 [of "h_frg h"]
  by (simp add: rcv_seg_ok_def seg_ok_def push_seg_def ikcp_segment_new_def unat_ucast_8)

lemma acked_inv:
  assumes "kcp_inv k" "ack_inv (k\<lparr>acklist := l, ackblock := b, ackcount := c\<rparr>)"
  shows "kcp_inv (k\<lparr>acklist := l, ackblock := b, ackcount := c\<rparr>)"
proof (rule kcp_invI)
  show "cfg_inv (k\<lparr>acklist := l, ackblock := b, ackcount := c\<rparr>)"
    by (rule cfg_frame [OF kcp_inv_parts(1) [OF assms(1)]]) simp_all
  show "snd_inv (k\<lparr>acklist := l, ackblock := b, ackcount := c\<rparr>)"
    by (rule snd_frame [OF kcp_inv_parts(2) [OF assms(1)]]) simp_all
  show "rcv_inv (k\<lparr>acklist := l, ackblock := b, ackcount := c\<rparr>)"
    by (rule rcv_frame [OF kcp_inv_parts(3) [OF assms(1)]]) simp_all
qed (rule assms(2))

text \<open>
  A PUSH segment: acknowledged if its number is before the end of the receive window (also when
  it is a duplicate of something delivered long ago), and handed to the abstract receiver.
\<close>

definition push_acked :: "kcpcb \<Rightarrow> hdr \<Rightarrow> (u32 \<times> u32) list" where
  "push_acked k h =
     (if itimediff (h_sn h) (rcv_nxt k + rcv_wnd k) < 0 then [(h_sn h, h_ts h)] else [])"

lemma accept_outside:
  "\<not> seqoff (sp_nxt a) (s_sn s) < wnd \<Longrightarrow> accept wnd s a = a"
  by (simp add: accept_def)

lemma input_push_spec:
  assumes "kcp_inv k" "unat (ackcount k) < 2147483647" "unat (h_len h) \<le> length data"
  shows "\<exists>k'. input_push k h data (True, True) = Inr k' \<and> kcp_inv k' \<and> conv k' = conv k \<and> cwnd k' = cwnd k \<and>
    snd_nxt k' = snd_nxt k \<and> snd_una k' = snd_una k \<and> snd_buf k' = snd_buf k \<and>
    snd_queue k' = snd_queue k \<and> rmt_wnd k' = rmt_wnd k \<and> rcv_wnd k' = rcv_wnd k \<and>
    pending_acks k' = pending_acks k @ push_acked k h \<and>
    unat (ackcount k') \<le> Suc (unat (ackcount k)) \<and>
    receiver_of k' =
      accept (unat (rcv_wnd k)) (push_seg h (take (unat (h_len h)) data)) (receiver_of k)"
proof -
  let ?d = "take (unat (h_len h)) data"
  have w: "unat (rcv_wnd k) < 2147483648" using assms(1) by (simp add: kcp_inv_def cfg_inv_def)
  have rd: "(if h_len h > 0 then mem_read data (unat (h_len h)) else Inr []) = Inr ?d"
    using assms(3) by (auto simp: mem_read_ok word_gt_0)
  have sn: "s_sn (push_seg h d) = h_sn h" for d by (simp add: push_seg_def)
  note win = in_window [OF w, of "h_sn h" "rcv_nxt k"]
  have nxt: "sp_nxt (receiver_of k) = rcv_nxt k" by (simp add: receiver_of_def)
  show ?thesis
  proof (cases "itimediff (h_sn h) (rcv_nxt k + rcv_wnd k) < 0")
    case False
    then have "accept (unat (rcv_wnd k)) (push_seg h ?d) (receiver_of k) = receiver_of k"
      using win by (intro accept_outside) (simp add: sn nxt)
    then show ?thesis using False assms(1) by (auto simp: input_push_def push_acked_def)
  next
    case True
    note A = append_ack [OF kcp_inv_parts(4) [OF assms(1)] assms(2), of "h_sn h" "h_ts h"]
    then obtain l b where k1: "ikcp_ack_push k (h_sn h) (h_ts h) True =
        Inr (k\<lparr>acklist := l, ackblock := b, ackcount := ackcount k + 1\<rparr>)" and
      a: "ack_inv (k\<lparr>acklist := l, ackblock := b, ackcount := ackcount k + 1\<rparr>)" and
      p: "pending_acks (k\<lparr>acklist := l, ackblock := b, ackcount := ackcount k + 1\<rparr>) =
        pending_acks k @ [(h_sn h, h_ts h)]"
      by blast
    let ?k = "k\<lparr>acklist := l, ackblock := b, ackcount := ackcount k + 1\<rparr>"
    have i: "kcp_inv ?k" by (rule acked_inv [OF assms(1) a])
    have c: "unat (ackcount ?k) \<le> Suc (unat (ackcount k))"
      using assms(2) by simp (subst unat_word_ariths, simp)
    have r: "receiver_of ?k = receiver_of k" by (simp add: receiver_of_def)
    have sok: "rcv_seg_ok (push_seg h ?d)" using assms(3) by (intro push_seg_ok) simp
    have P: "receiver_of (ikcp_parse_data ?k (push_seg h ?d)) =
        accept (unat (rcv_wnd k)) (push_seg h ?d) (receiver_of k)"
      using parse_data_spec [OF kcp_inv_parts(3) [OF i] sok] w r by simp
    have pp: "pending_acks (ikcp_parse_data ?k (push_seg h ?d)) = pending_acks ?k"
      by (simp add: pending_acks_def)
    show ?thesis
    proof (cases "itimediff (h_sn h) (rcv_nxt k) \<ge> 0")
      case in_win: True
      then have "input_push k h data (True, True) = Inr (ikcp_parse_data ?k (push_seg h ?d))"
        using True by (simp add: input_push_def k1 rd)
      then show ?thesis using parse_data_inv [OF i sok] P p pp c True
        by (simp add: push_acked_def)
    next
      case False
      then have "accept (unat (rcv_wnd k)) (push_seg h ?d) (receiver_of k) = receiver_of k"
        using win by (intro accept_outside) (simp add: sn nxt)
      moreover have "input_push k h data (True, True) = Inr ?k"
        using False True by (simp add: input_push_def k1)
      ultimately show ?thesis using i p c r True by (simp add: push_acked_def)
    qed
  qed
qed

section \<open>A whole datagram\<close>

definition known_cmd :: "u8 \<Rightarrow> bool" where
  "known_cmd c = (c = 81 \<or> c = 82 \<or> c = 83 \<or> c = 84)"

lemma known_cmd_u32:
  "(ucast (c :: u8) :: u32) = 81 \<longleftrightarrow> c = 81" "(ucast (c :: u8) :: u32) = 82 \<longleftrightarrow> c = 82"
  "(ucast (c :: u8) :: u32) = 83 \<longleftrightarrow> c = 83" "(ucast (c :: u8) :: u32) = 84 \<longleftrightarrow> c = 84"
proof -
  have e: "(ucast c :: u32) = ucast d \<longleftrightarrow> c = d" for d :: u8
    unfolding word_eq_iff_unsigned [where ?'a = nat] unat_ucast_8 by simp
  show "(ucast c :: u32) = 81 \<longleftrightarrow> c = 81" using e [of 81] by simp
  show "(ucast c :: u32) = 82 \<longleftrightarrow> c = 82" using e [of 82] by simp
  show "(ucast c :: u32) = 83 \<longleftrightarrow> c = 83" using e [of 83] by simp
  show "(ucast c :: u32) = 84 \<longleftrightarrow> c = 84" using e [of 84] by simp
qed

lemma input_cmd_alt:
  "input_cmd k a h data mem =
     (if h_cmd h = 82 then Inr (Some (input_ack (una_step k h) h, note_ack a (h_sn h) (h_ts h)))
      else if h_cmd h = 81 then andThen (input_push (una_step k h) h data mem) (\<lambda>k. Inr (Some (k, a)))
      else if h_cmd h = 83
      then Inr (Some ((una_step k h)\<lparr>probe := probe (una_step k h) OR IKCP_ASK_TELL\<rparr>, a))
      else if h_cmd h = 84 then Inr (Some (una_step k h, a))
      else Inr None)"
  by (simp add: input_cmd_def una_step_def Let_def known_cmd_u32)

text \<open>The header checks of one iteration, and its effect.\<close>

lemma input_step_alt:
  assumes "decode_hdr data = Inr (h, rest)" "24 \<le> sz"
  shows "input_step k a data sz alloc =
    (if h_conv h \<noteq> conv k then Inr (InReturn (-1))
     else if sz - 24 < uint (h_len h) \<or> sint (h_len h) < 0 then Inr (InReturn (-2))
     else if \<not> known_cmd (h_cmd h) then Inr (InReturn (-3))
     else andThen (input_cmd k a h rest (alloc sz)) (\<lambda>r. case r of
            None \<Rightarrow> Inr (InReturn (-3))
          | Some (k, a) \<Rightarrow> Inr (InNext k a (drop (unat (h_len h)) rest) (sz - 24 - uint (h_len h)))))"
proof -
  obtain cv p where c: "ikcp_decode32u data = Inr (cv, p)" "decode_fields cv p = Inr (h, rest)"
    using assms(1) by (auto simp: decode_hdr_def andThen_Inr)
  have "h_conv h = cv" using c(2) by (auto simp: decode_fields_def andThen_Inr)
  moreover have "sint IKCP_OVERHEAD = 24" "uint IKCP_OVERHEAD = 24" by simp_all
  ultimately show ?thesis using c assms(2)
    by (auto simp: input_step_def Let_def known_cmd_u32 known_cmd_def)
qed

lemma probe_frame:
  "ackcount (k\<lparr>probe := p\<rparr>) = ackcount k" "conv (k\<lparr>probe := p\<rparr>) = conv k"
  "receiver_of (k\<lparr>probe := p\<rparr>) = receiver_of k" "pending_acks (k\<lparr>probe := p\<rparr>) = pending_acks k"
  by (simp_all add: receiver_of_def pending_acks_def)

lemma input_cmd_spec:
  assumes "kcp_inv k" "unat (ackcount k) < 2147483647" "unat (h_len h) \<le> length data"
    and "known_cmd (h_cmd h)"
  shows "\<exists>k' a'. input_cmd k a h data (True, True) = Inr (Some (k', a')) \<and> kcp_inv k' \<and> conv k' = conv k \<and>
    cwnd k' = cwnd k \<and> unat (ackcount k') \<le> Suc (unat (ackcount k))"
proof -
  note U = una_step_inv [OF assms(1), of h] and F = una_step_frame [OF assms(1), of h]
  consider "h_cmd h = 82" | "h_cmd h = 81" | "h_cmd h = 83" | "h_cmd h = 84"
    using assms(4) by (auto simp: known_cmd_def)
  then show ?thesis
  proof cases
    case 1
    then show ?thesis using input_ack_inv [OF U, of h] input_ack_frame [OF U, of h] F
      by (simp add: input_cmd_alt)
  next
    case 2
    obtain k' where "input_push (una_step k h) h data (True, True) = Inr k'" "kcp_inv k'"
      "conv k' = conv (una_step k h)" "cwnd k' = cwnd (una_step k h)"
      "unat (ackcount k') \<le> Suc (unat (ackcount (una_step k h)))"
      using input_push_spec [OF U, of h data] assms(2,3) F by auto
    then show ?thesis using 2 F by (simp add: input_cmd_alt)
  next
    case 3
    then show ?thesis using probe_inv [OF U] F by (simp add: input_cmd_alt)
  next
    case 4
    then show ?thesis using U F by (simp add: input_cmd_alt)
  qed
qed

lemma input_step_spec:
  assumes "kcp_inv k" "unat (ackcount k) < 2147483647 \<or> sz < 24" "sz \<le> int (length data)"
  shows "\<exists>r. input_step k a data sz plenty = Inr r \<and>
    (case r of
       InNext k' a' data' sz' \<Rightarrow>
         kcp_inv k' \<and> conv k' = conv k \<and> cwnd k' = cwnd k \<and> sz' \<le> int (length data') \<and>
         0 \<le> sz' \<and> sz' \<le> sz - 24 \<and> unat (ackcount k') \<le> Suc (unat (ackcount k)) \<and> 24 \<le> sz
     | _ \<Rightarrow> True)"
proof (cases "sz < 24")
  case True
  then show ?thesis by (simp add: input_step_def)
next
  case False
  then have "24 \<le> length data" using assms(3) by linarith
  then obtain h where h: "decode_hdr data = Inr (h, drop 24 data)" using decode_hdr_long by blast
  note S = input_step_alt [OF h, of sz k a plenty]
  show ?thesis
  proof (cases "h_conv h \<noteq> conv k \<or> sz - 24 < uint (h_len h) \<or> sint (h_len h) < 0 \<or> \<not> known_cmd (h_cmd h)")
    case True
    then show ?thesis using S False by auto
  next
    case ok: False
    have "uint (h_len h) \<le> int (length data) - 24" using ok assms(3) by simp
    then have "int (unat (h_len h)) \<le> int (length data) - 24" by simp
    then have "unat (h_len h) \<le> length data - 24" by linarith
    then have "unat (h_len h) \<le> length (drop 24 data)" by (simp only: length_drop)
    then have dl: "sz - 24 - uint (h_len h) \<le> int (length (drop (unat (h_len h)) (drop 24 data)))"
    proof -
      have "int (length (drop (unat (h_len h)) (drop 24 data))) =
          int (length (drop 24 data)) - int (unat (h_len h))"
        unfolding length_drop [of "unat (h_len h)" "drop 24 data"]
        by (rule of_nat_diff) (rule \<open>unat (h_len h) \<le> length (drop 24 data)\<close>)
      moreover have "int (length (drop 24 data)) = int (length data) - 24"
        using \<open>24 \<le> length data\<close> by simp
      moreover have "int (unat (h_len h)) = uint (h_len h)" by simp
      ultimately show ?thesis using assms(3) by linarith
    qed
    from \<open>unat (h_len h) \<le> length (drop 24 data)\<close>
    have "unat (h_len h) \<le> length (drop 24 data)" .
    from input_cmd_spec [OF assms(1) _ this, of a] assms(2) ok False
    obtain k' a' where "input_cmd k a h (drop 24 data) (True, True) = Inr (Some (k', a'))" "kcp_inv k'"
      "conv k' = conv k" "cwnd k' = cwnd k" "unat (ackcount k') \<le> Suc (unat (ackcount k))" by auto
    then show ?thesis using S ok False dl by (auto simp: plenty_apply simp del: drop_drop length_drop)
  qed
qed

lemma input_loop_spec:
  assumes "kcp_inv k" "sz \<le> int (length data)" "24 * int (unat (ackcount k)) + sz < 24 * 2147483647"
  shows "\<exists>r k' a'. input_loop k a data sz plenty = Inr (r, k', a') \<and> kcp_inv k' \<and> conv k' = conv k \<and>
    cwnd k' = cwnd k \<and> 24 * int (unat (ackcount k')) + min 0 sz \<le> 24 * int (unat (ackcount k)) + sz"
  using assms
proof (induction k a data sz "plenty :: memory" rule: input_loop.induct)
  case (1 k a data sz)
  note IH = "1.hyps"(1)
  have "unat (ackcount k) < 2147483647 \<or> sz < 24" using "1.prems"(3) by linarith
  then obtain r where r: "input_step k a data sz plenty = Inr r"
    "case r of InNext k' a' data' sz' \<Rightarrow>
         kcp_inv k' \<and> conv k' = conv k \<and> cwnd k' = cwnd k \<and> sz' \<le> int (length data') \<and>
         0 \<le> sz' \<and> sz' \<le> sz - 24 \<and> unat (ackcount k') \<le> Suc (unat (ackcount k)) \<and> 24 \<le> sz
     | _ \<Rightarrow> True"
    using input_step_spec [OF "1.prems"(1) _ "1.prems"(2)] by blast
  show ?case
  proof (cases r)
    case (InNext k' a' data' sz')
    have i: "kcp_inv k'" "conv k' = conv k" "cwnd k' = cwnd k" "sz' \<le> int (length data')" "0 \<le> sz'"
      "sz' \<le> sz - 24" "unat (ackcount k') \<le> Suc (unat (ackcount k))" "24 \<le> sz"
      using r(2) InNext by simp_all
    have m: "24 * int (unat (ackcount k')) + sz' \<le> 24 * int (unat (ackcount k)) + sz"
      using i(6,7) by linarith
    have "\<exists>r k'' a''. input_loop k' a' data' sz' plenty = Inr (r, k'', a'') \<and> kcp_inv k'' \<and>
      conv k'' = conv k' \<and> cwnd k'' = cwnd k' \<and>
      24 * int (unat (ackcount k'')) + min 0 sz' \<le> 24 * int (unat (ackcount k')) + sz'"
      by (rule IH [OF r(1) InNext i(1,4)]) (rule le_less_trans [OF m "1.prems"(3)])
    then obtain r'' k'' a'' where
      l: "input_loop k' a' data' sz' plenty = Inr (r'', k'', a'')" "kcp_inv k''" "conv k'' = conv k'"
        "cwnd k'' = cwnd k'" "24 * int (unat (ackcount k'')) + min 0 sz' \<le> 24 * int (unat (ackcount k')) + sz'"
      by blast
    have "24 * int (unat (ackcount k'')) + min 0 sz \<le> 24 * int (unat (ackcount k)) + sz"
      using l(5) m i(5,8) by simp
    then show ?thesis using l i r(1) InNext by (simp add: input_loop.simps [of k a data sz])
  qed (use r "1.prems" in \<open>auto simp: input_loop.simps [of k a data sz]\<close>)
qed

text \<open>The congestion window after an advance of \<open>snd_una\<close>.\<close>

lemma open_cwnd_spec:
  assumes "26 \<le> unat (mss k)"
  shows "\<exists>c i. open_cwnd k = Inr (k\<lparr>cwnd := c, incr := i\<rparr>) \<and> c \<le> rmt_wnd k"
proof -
  define m where "m = mss k"
  define j where "j = (if incr k < m then m else incr k)"
  have "m \<noteq> 0" using assms by (auto simp: m_def)
  then have "0 < m" by (simp add: word_gt_0)
  then have j: "j \<noteq> 0" by (auto simp: j_def)
  define grown where "grown =
    (if cwnd k < ssthresh k then (cwnd k + 1, incr k + m)
     else let i = j + ((m * m) div j + m div 16)
          in if (cwnd k + 1) * m \<le> i then ((i + m - 1) div (if m > 0 then m else 1), i)
             else (cwnd k, i))"
  have k2: "(if incr k < m then k\<lparr>incr := m\<rparr> else k) = k\<lparr>incr := j\<rparr>" by (simp add: j_def)
  have "open_cwnd k = Inr (
      let k' = k\<lparr>cwnd := fst grown, incr := snd grown\<rparr>
      in if cwnd k' > rmt_wnd k' then k'\<lparr>cwnd := rmt_wnd k', incr := rmt_wnd k' * m\<rparr> else k')"
  proof (cases "cwnd k < ssthresh k")
    case True
    then show ?thesis unfolding open_cwnd_def m_def [symmetric] Let_def by (simp add: grown_def)
  next
    case False
    then show ?thesis unfolding open_cwnd_def m_def [symmetric] Let_def k2
      using j by (simp add: grown_def Let_def)
  qed
  then show ?thesis by (auto simp: Let_def not_less intro!: exI)
qed

lemma cwnd_inv: "kcp_inv k \<Longrightarrow> kcp_inv (k\<lparr>cwnd := c, incr := i\<rparr>)"
proof (rule kcp_invI)
  assume i: "kcp_inv k"
  show "cfg_inv (k\<lparr>cwnd := c, incr := i\<rparr>)" by (rule cfg_frame [OF kcp_inv_parts(1) [OF i]]) simp_all
  show "snd_inv (k\<lparr>cwnd := c, incr := i\<rparr>)" by (rule snd_frame [OF kcp_inv_parts(2) [OF i]]) simp_all
  show "rcv_inv (k\<lparr>cwnd := c, incr := i\<rparr>)" by (rule rcv_frame [OF kcp_inv_parts(3) [OF i]]) simp_all
  show "ack_inv (k\<lparr>cwnd := c, incr := i\<rparr>)" by (rule ack_frame [OF kcp_inv_parts(4) [OF i]]) simp_all
qed

lemma fastack_inv: "kcp_inv k \<Longrightarrow> kcp_inv (ikcp_parse_fastack k sn ts)"
proof (rule kcp_invI)
  assume i: "kcp_inv k"
  have b: "snd_base k" using i by (simp add: kcp_inv_def snd_inv_def)
  note S = parse_fastack_spec [OF b, of sn ts]
  show "cfg_inv (ikcp_parse_fastack k sn ts)" unfolding S by (rule cfg_frame [OF kcp_inv_parts(1) [OF i]]) simp_all
  show "snd_inv (ikcp_parse_fastack k sn ts)" by (rule parse_fastack_inv [OF kcp_inv_parts(2) [OF i]])
  show "rcv_inv (ikcp_parse_fastack k sn ts)" unfolding S by (rule rcv_frame [OF kcp_inv_parts(3) [OF i]]) simp_all
  show "ack_inv (ikcp_parse_fastack k sn ts)" unfolding S by (rule ack_frame [OF kcp_inv_parts(4) [OF i]]) simp_all
qed

lemma fastack_frame:
  "cwnd (ikcp_parse_fastack k sn ts) = cwnd k" "conv (ikcp_parse_fastack k sn ts) = conv k"
  "ackcount (ikcp_parse_fastack k sn ts) = ackcount k" "rmt_wnd (ikcp_parse_fastack k sn ts) = rmt_wnd k"
  "mss (ikcp_parse_fastack k sn ts) = mss k" "snd_una (ikcp_parse_fastack k sn ts) = snd_una k"
  by (simp_all add: ikcp_parse_fastack_def)

lemma input_finish_spec:
  assumes "kcp_inv k"
  shows "\<exists>k'. input_finish k a u = Inr k' \<and> kcp_inv k' \<and> conv k' = conv k \<and>
    ackcount k' = ackcount k \<and> rmt_wnd k' = rmt_wnd k \<and>
    (cwnd k' = cwnd k \<or> itimediff (snd_una k) u > 0 \<and> cwnd k < rmt_wnd k \<and> cwnd k' \<le> rmt_wnd k)"
proof -
  define k1 where "k1 = (if a_flag a then ikcp_parse_fastack k (a_maxack a) (a_latest_ts a) else k)"
  have k1: "kcp_inv k1" "cwnd k1 = cwnd k" "conv k1 = conv k" "ackcount k1 = ackcount k"
    "rmt_wnd k1 = rmt_wnd k" "mss k1 = mss k" "snd_una k1 = snd_una k"
    using assms by (simp_all add: k1_def fastack_inv fastack_frame)
  have f: "input_finish k a u =
      (if itimediff (snd_una k1) u > 0 \<and> cwnd k1 < rmt_wnd k1 then open_cwnd k1 else Inr k1)"
    unfolding input_finish_def k1_def Let_def by (rule refl)
  have "26 \<le> unat (mss k1)" using mss_bounds(2) k1(1) by (auto simp: kcp_inv_def)
  from open_cwnd_spec [OF this] obtain c i where
    o: "open_cwnd k1 = Inr (k1\<lparr>cwnd := c, incr := i\<rparr>)" "c \<le> rmt_wnd k1" by blast
  show ?thesis
  proof (cases "itimediff (snd_una k1) u > 0 \<and> cwnd k1 < rmt_wnd k1")
    case True
    then show ?thesis using f o k1 cwnd_inv [OF k1(1)] by simp
  next
    case False
    then show ?thesis unfolding f if_not_P [OF False] using k1 by simp
  qed
qed

lemma ikcp_input_total:
  assumes "kcp_inv k" "\<forall>d. data = Some d \<longrightarrow> sz \<le> int (length d)"
    and "24 * int (unat (ackcount k)) + max 0 sz < 51539607528"
  shows "\<exists>r k'. ikcp_input k data sz plenty = Inr (r, k') \<and> kcp_inv k' \<and> conv k' = conv k \<and>
    24 * int (unat (ackcount k')) \<le> 24 * int (unat (ackcount k)) + max 0 sz \<and>
    (cwnd k' = cwnd k \<or> cwnd k' \<le> rmt_wnd k')"
proof (cases data)
  case None
  then show ?thesis using assms(1) by (simp add: ikcp_input_def)
next
  case (Some d)
  let ?a = "\<lparr>a_flag = False, a_maxack = 0, a_latest_ts = 0\<rparr>"
  have "sz \<le> int (length d)" "24 * int (unat (ackcount k)) + sz < 24 * 2147483647"
    using assms(2,3) Some by auto
  from input_loop_spec [OF assms(1) this, of ?a] obtain r k1 a where
    l: "input_loop k ?a d sz plenty = Inr (r, k1, a)" "kcp_inv k1" "conv k1 = conv k" "cwnd k1 = cwnd k"
      "24 * int (unat (ackcount k1)) + min 0 sz \<le> 24 * int (unat (ackcount k)) + sz" by blast
  obtain k2 where f: "input_finish k1 a (snd_una k) = Inr k2" "kcp_inv k2" "conv k2 = conv k1"
    "ackcount k2 = ackcount k1" "rmt_wnd k2 = rmt_wnd k1" "cwnd k2 = cwnd k1 \<or> cwnd k2 \<le> rmt_wnd k1"
    using input_finish_spec [OF l(2)] by metis
  have c: "24 * int (unat (ackcount k1)) \<le> 24 * int (unat (ackcount k)) + max 0 sz"
    using l(5) by linarith
  show ?thesis
  proof (cases "i32 sz < 24")
    case True
    then show ?thesis using Some assms(1) by (simp add: ikcp_input_def)
  next
    case False
    then show ?thesis using l f c Some by (cases r) (simp_all add: ikcp_input_def)
  qed
qed

text \<open>
  C3. What \<open>ikcp_input\<close> does with any datagram, whoever sent it, and whatever the allocator does. For
  a buffer that holds the \<open>size\<close> bytes the caller says, from a state in the invariant in which the
  pending acknowledgements leave room for those of this datagram in a 32-bit count: where the
  allocations succeed the call returns, reads nothing outside the datagram, the buffers and the
  acknowledgement array, divides by nothing that is zero, keeps the conversation number and
  the invariant, and a congestion window it changes is at most the window the peer advertises.
  Where one fails, the call does exactly the same or ends the program in one of two
  ways: the assertion in \<open>ikcp_ack_push\<close> when the acknowledgement list cannot grow, or
  the write through the NULL that \<open>ikcp_segment_new\<close> returned, which \<open>ikcp_input\<close> does not check.
  There is no other fault.
\<close>

theorem ikcp_input_safe:
  assumes "kcp_inv k" "\<forall>d. data = Some d \<longrightarrow> sz \<le> int (length d)"
    and "24 * int (unat (ackcount k)) + max 0 sz < 51539607528"
  shows "(\<exists>r k'. ikcp_input k data sz plenty = Inr (r, k') \<and> kcp_inv k' \<and> conv k' = conv k \<and>
      (cwnd k' = cwnd k \<or> cwnd k' \<le> rmt_wnd k')) \<and>
    (ikcp_input k data sz alloc = ikcp_input k data sz plenty \<or>
     ikcp_input k data sz alloc = Inl AssertFail \<and> (\<exists>n. \<not> fst (alloc n)) \<or>
     ikcp_input k data sz alloc = Inl NullDeref \<and> (\<exists>n. \<not> snd (alloc n)))"
  using ikcp_input_total [OF assms] input_mem [of k data sz alloc] unfolding short_of_def by blast

text \<open>A segment with the data \<open>Hi\<close> for conversation 7; without memory for it the call writes through NULL.\<close>

definition hi_bytes :: bytes where
  "hi_bytes = [7, 0, 0, 0, 81, 0, 0, 4, 0, 0, 0, 0, 0, 0, 0, 0, 0, 0, 0, 0, 2, 0, 0, 0, 72, 105]"

lemma input_needs_memory:
  "ikcp_input (kcp_fresh 7) (Some hi_bytes) 26 (\<lambda>_. (True, False)) = Inl NullDeref"
  by code_simp

lemma hi_length: "length hi_bytes = 26"
  by (simp add: hi_bytes_def)

theorem ikcp_input_safe_witness:
  "(\<exists>r k'. ikcp_input (kcp_fresh 7) (Some hi_bytes) 26 plenty = Inr (r, k') \<and> kcp_inv k') \<and>
   ikcp_input (kcp_fresh 7) (Some hi_bytes) 26 (\<lambda>_. (True, False)) = Inl NullDeref"
  using ikcp_input_safe [OF fresh_inv, of "Some hi_bytes" 26 7 "\<lambda>_. (True, False)"] hi_length
    input_needs_memory by auto

text \<open>
  What \<open>ikcp_input\<close> refuses at once leaves the control block as it was: NULL or less than
  24 bytes with \<open>-1\<close>; a first header of another conversation with \<open>-1\<close>, one that
  announces more data than the datagram holds with \<open>-2\<close>, one with an unknown command with \<open>-3\<close>,
  in that order of precedence.
\<close>

theorem input_rejects:
  assumes "sz < 2147483648" "-2147483648 \<le> sz" "sz \<le> int (length d)"
  shows "ikcp_input k None sz alloc = Inr (-1, k) \<and>
    (sz < 24 \<longrightarrow> ikcp_input k (Some d) sz alloc = Inr (-1, k)) \<and>
    (24 \<le> sz \<longrightarrow> (\<exists>h rest. decode_hdr d = Inr (h, rest) \<and> length rest = length d - 24 \<and>
       (h_conv h \<noteq> conv k \<longrightarrow> ikcp_input k (Some d) sz alloc = Inr (-1, k)) \<and>
       (h_conv h = conv k \<and> (sz - 24 < uint (h_len h) \<or> 2147483648 \<le> uint (h_len h)) \<longrightarrow>
          ikcp_input k (Some d) sz alloc = Inr (-2, k)) \<and>
       (h_conv h = conv k \<and> \<not> (sz - 24 < uint (h_len h) \<or> 2147483648 \<le> uint (h_len h)) \<and>
          \<not> known_cmd (h_cmd h) \<longrightarrow> ikcp_input k (Some d) sz alloc = Inr (-3, k))))"
proof (intro conjI impI)
  have i: "i32 sz = sz" using assms by (simp add: i32_id)
  show "ikcp_input k None sz alloc = Inr (-1, k)" by (simp add: ikcp_input_def)
  show "ikcp_input k (Some d) sz alloc = Inr (-1, k)" if "sz < 24" using that i by (simp add: ikcp_input_def)
  assume 24: "24 \<le> sz"
  then have "24 \<le> length d" using assms(3) by linarith
  then obtain h where h: "decode_hdr d = Inr (h, drop 24 d)" using decode_hdr_long by blast
  note S = input_step_alt [OF h 24, of k _ alloc, unfolded sint_u32_neg]
  have ret: "ikcp_input k (Some d) sz alloc = Inr (r, k)"
    if "input_step k \<lparr>a_flag = False, a_maxack = 0, a_latest_ts = 0\<rparr> d sz alloc = Inr (InReturn r)" for r
    using that 24 i by (simp add: ikcp_input_def input_loop.simps [of k _ d sz])
  show "\<exists>h rest. decode_hdr d = Inr (h, rest) \<and> length rest = length d - 24 \<and>
       (h_conv h \<noteq> conv k \<longrightarrow> ikcp_input k (Some d) sz alloc = Inr (-1, k)) \<and>
       (h_conv h = conv k \<and> (sz - 24 < uint (h_len h) \<or> 2147483648 \<le> uint (h_len h)) \<longrightarrow>
          ikcp_input k (Some d) sz alloc = Inr (-2, k)) \<and>
       (h_conv h = conv k \<and> \<not> (sz - 24 < uint (h_len h) \<or> 2147483648 \<le> uint (h_len h)) \<and>
          \<not> known_cmd (h_cmd h) \<longrightarrow> ikcp_input k (Some d) sz alloc = Inr (-3, k))"
    by (rule exI [of _ h], rule exI [of _ "drop 24 d"], intro conjI impI, rule h, simp)
       (rule ret, simp only: S if_True if_False simp_thms | simp add: S)+
qed

theorem input_rejects_witness:
  "ikcp_input (kcp_fresh 7) (Some (replicate 24 0)) 24 plenty = Inr (-1, kcp_fresh 7)"
proof -
  have l: "(24 :: int) \<le> int (length (replicate 24 (0 :: u8)))" by simp
  obtain h rest where h: "decode_hdr (replicate 24 0) = Inr (h, rest)"
    "h_conv h \<noteq> 7 \<longrightarrow> ikcp_input (kcp_fresh 7) (Some (replicate 24 0)) 24 plenty = Inr (-1, kcp_fresh 7)"
    using input_rejects [OF _ _ l, of "kcp_fresh 7" plenty] by auto
  have "ikcp_decode32u (replicate 24 0) = Inr (0, replicate 20 0)"
    by (simp add: numeral_eq_Suc)
  then have "h_conv h = 0" using h(1)
    by (auto simp: decode_hdr_def decode_fields_def andThen_Inr)
  then show ?thesis using h(2) by simp
qed

end
