(* ===== verification/Kcp_Send.thy ===== *)
theory Kcp_Send
  imports Kcp_Inv
begin

text \<open>
  \<open>ikcp_send\<close>: the user's message is cut into fragments of at most \<open>mss\<close> bytes, which are appended
  to \<open>snd_queue\<close>; in stream mode the last queued segment is first filled up. \<open>buf\<close> holds the
  bytes from the (non-NULL) argument \<open>buffer\<close> on, \<open>alloc n\<close> says whether the \<open>n\<close>-th allocation of
  the call succeeds. Where an allocation fails the code returns \<open>-2\<close> (with assertions enabled it
  aborts at the same point).
\<close>

section \<open>The code\<close>

definition new_fragment :: "kcpcb \<Rightarrow> bytes \<Rightarrow> int \<Rightarrow> int \<Rightarrow> seg" where
  "new_fragment k d sz frg =
     (ikcp_segment_new d)\<lparr>s_len := of_int sz, s_frg := (if stream k = 0 then of_int frg else 0)\<rparr>"

fun send_fragments ::
  "kcpcb \<Rightarrow> bytes \<Rightarrow> int \<Rightarrow> int \<Rightarrow> nat \<Rightarrow> (nat \<Rightarrow> bool) \<Rightarrow> nat \<Rightarrow> fault + (int \<times> kcpcb)" where
  \<comment> \<open>the loop \<open>for (i = 0; i < count; i++)\<close>, with \<open>count - i\<close> iterations left and \<open>a\<close> allocations made\<close>
  "send_fragments k buf len count 0 alloc a = Inr (0, k)"
| "send_fragments k buf len count (Suc left) alloc a =
     (let i = count - int (Suc left);
          sz = (if len > sint (mss k) then sint (mss k) else len)
      in if \<not> alloc a then Inr (-2, k)
         else andThen (if len > 0 then mem_read buf (nat sz) else Inr []) (\<lambda>d.
           send_fragments
             (k\<lparr>snd_queue := snd_queue k @ [new_fragment k d sz (count - i - 1)],
                nsnd_que := nsnd_que k + 1\<rparr>)
             (drop (nat sz) buf) (len - sz) count left alloc (Suc a)))"

definition send_count :: "kcpcb \<Rightarrow> int \<Rightarrow> int" where
  "send_count k len =
     (if len \<le> sint (mss k) then 1 else sint ((of_int len + mss k - 1) div mss k))"

definition send_rest ::
  "kcpcb \<Rightarrow> bytes \<Rightarrow> int \<Rightarrow> (nat \<Rightarrow> bool) \<Rightarrow> nat \<Rightarrow> fault + (int \<times> kcpcb)" where
  "send_rest k buf len alloc a =
     (let count = send_count k len
      in if count \<ge> sint IKCP_WND_RCV then Inr (-2, k)
         else let count = (if count = 0 then 1 else count)
              in send_fragments k buf len count (nat count) alloc a)"

definition send_append ::
  "kcpcb \<Rightarrow> bytes \<Rightarrow> int \<Rightarrow> (nat \<Rightarrow> bool) \<Rightarrow> fault + (kcpcb \<times> bytes \<times> int \<times> nat) option" where
  \<comment> \<open>stream mode: fill up the last queued segment; \<open>None\<close> where the allocation fails\<close>
  "send_append k buf len alloc =
     (if snd_queue k = [] then Inr (Some (k, buf, len, 0))
      else let old = last (snd_queue k)
           in if s_len old < mss k then
                let capacity = sint (mss k - s_len old);
                    extend = (if len < capacity then len else capacity)
                in if \<not> alloc 0 then Inr None
                   else andThen (mem_read (s_data old) (unat (s_len old))) (\<lambda>od.
                        andThen (mem_read buf (nat extend)) (\<lambda>d.
                          let seg = (ikcp_segment_new (od @ d))
                                      \<lparr>s_len := s_len old + of_int extend, s_frg := 0\<rparr>
                          in Inr (Some (k\<lparr>snd_queue := butlast (snd_queue k) @ [seg]\<rparr>,
                                        drop (nat extend) buf, len - extend, 1))))
              else Inr (Some (k, buf, len, 0)))"

definition ikcp_send ::
  "kcpcb \<Rightarrow> bytes \<Rightarrow> int \<Rightarrow> (nat \<Rightarrow> bool) \<Rightarrow> fault + (int \<times> kcpcb)" where
  "ikcp_send k buf len alloc =
     (if mss k = 0 then Inl AssertFail
      else if len < 0 then Inr (-1, k)
      else if stream k \<noteq> 0 then
        andThen (send_append k buf len alloc) (\<lambda>r. case r of
            None \<Rightarrow> Inr (-2, k)
          | Some (k, buf, len, a) \<Rightarrow>
              if len \<le> 0 then Inr (0, k) else send_rest k buf len alloc a)
      else send_rest k buf len alloc 0)"

section \<open>What fragmentation should do\<close>

text \<open>The reference: cut a message into chunks, number the chunks downwards, ending with 0.\<close>

fun chunks :: "nat \<Rightarrow> bytes \<Rightarrow> bytes list" where
  "chunks m xs = (if m = 0 \<or> length xs \<le> m then [xs] else take m xs # chunks m (drop m xs))"

declare chunks.simps [simp del]

fun fragments :: "bool \<Rightarrow> bytes list \<Rightarrow> seg list" where
  "fragments streaming [] = []"
| "fragments streaming (d # ds) =
     (ikcp_segment_new d)\<lparr>s_len := of_nat (length d),
                          s_frg := (if streaming then 0 else of_nat (length ds))\<rparr>
       # fragments streaming ds"

lemma concat_chunks: "concat (chunks m xs) = xs"
proof (induction m xs rule: chunks.induct)
  case (1 m xs)
  then show ?case by (simp add: chunks.simps [of m xs])
qed

lemma chunks_bound: "0 < m \<Longrightarrow> \<forall>d \<in> set (chunks m xs). length d \<le> m"
proof (induction m xs rule: chunks.induct)
  case (1 m xs)
  then show ?case by (simp add: chunks.simps [of m xs])
qed

lemma chunks_nonempty [simp]: "chunks m xs \<noteq> []"
  by (simp add: chunks.simps [of m xs])

lemma length_chunks:
  "0 < m \<Longrightarrow> length (chunks m xs) = (if length xs \<le> m then 1 else (length xs + m - 1) div m)"
proof (induction m xs rule: chunks.induct)
  case (1 m xs)
  show ?case
  proof (cases "length xs \<le> m")
    case True
    then show ?thesis by (simp add: chunks.simps [of m xs])
  next
    case False
    let ?n = "length xs - m"
    have IH: "length (chunks m (drop m xs)) = (if ?n \<le> m then 1 else (?n + m - 1) div m)"
      using "1.IH" "1.prems" False by simp
    also have "\<dots> = (length xs - 1) div m"
    proof (cases "?n \<le> m")
      case True
      have "(length xs - 1) div m = 1"
        by (rule div_nat_eqI) (use True False "1.prems" in auto)
      then show ?thesis using True by simp
    next
      case f: False
      have "?n + m - 1 = length xs - 1" using False by simp
      then show ?thesis using f by simp
    qed
    finally have "length (chunks m xs) = Suc ((length xs - 1) div m)"
      using False "1.prems" by (simp add: chunks.simps [of m xs])
    moreover have "Suc ((length xs - 1) div m) = (length xs + m - 1) div m"
    proof -
      have "length xs + m - 1 = (length xs - 1) + m" using False by linarith
      moreover have "((length xs - 1) + m) div m = (length xs - 1) div m + 1"
        by (rule div_add_self2) (use "1.prems" in simp)
      ultimately show ?thesis by (metis Suc_eq_plus1)
    qed
    ultimately show ?thesis using False by simp
  qed
qed

lemma fragments_data [simp]: "map s_data (fragments st ds) = ds"
  by (induction st ds rule: fragments.induct) (auto simp: ikcp_segment_new_def)

lemma length_fragments [simp]: "length (fragments st ds) = length ds"
  by (induction st ds rule: fragments.induct) auto

lemma fragments_wf:
  "s \<in> set (fragments st ds) \<Longrightarrow> s_data s \<in> set ds \<and> s_len s = of_nat (length (s_data s))"
  by (induction st ds rule: fragments.induct) (auto simp: ikcp_segment_new_def)

lemma fragments_len: "map s_len (fragments st ds) = map (\<lambda>d. of_nat (length d)) ds"
  by (induction st ds rule: fragments.induct) auto

lemma fragments_frg: "map s_frg (fragments False ds) = map of_nat (rev [0..<length ds])"
  by (induction "False" ds rule: fragments.induct) auto

lemma fragments_frg_stream: "s \<in> set (fragments True ds) \<Longrightarrow> s_frg s = 0"
  by (induction "True" ds rule: fragments.induct) auto

section \<open>The loop implements it\<close>

lemma send_fragments_spec:
  assumes "sint (mss k) = int m" "0 < m" "\<And>n. alloc n"
    and "length (chunks m buf) = left" "length buf < 2147483648"
  shows "send_fragments k buf (int (length buf)) count left alloc a =
     Inr (0, k\<lparr>snd_queue := snd_queue k @ fragments (stream k \<noteq> 0) (chunks m buf),
               nsnd_que := nsnd_que k + of_nat left\<rparr>)"
  using assms
proof (induction left arbitrary: k buf a)
  case 0
  then show ?case by simp
next
  case (Suc left)
  show ?case
  proof (cases "length buf \<le> m")
    case True
    then have "chunks m buf = [buf]" by (simp add: chunks.simps [of m buf])
    then show ?thesis using Suc.prems True
      by (auto simp: new_fragment_def mem_read_ok Let_def)
  next
    case False
    let ?k = "k\<lparr>snd_queue := snd_queue k @ [new_fragment k (take m buf) (int m) (int left)],
               nsnd_que := nsnd_que k + 1\<rparr>"
    have c: "chunks m buf = take m buf # chunks m (drop m buf)"
      using False Suc.prems(2) by (simp add: chunks.simps [of m buf])
    have IH: "send_fragments ?k (drop m buf) (int (length (drop m buf))) count left alloc (Suc a) =
       Inr (0, ?k\<lparr>snd_queue := snd_queue ?k @ fragments (stream ?k \<noteq> 0) (chunks m (drop m buf)),
                  nsnd_que := nsnd_que ?k + of_nat left\<rparr>)"
      by (rule Suc.IH) (use Suc.prems c in auto)
    have l: "length (chunks m (drop m buf)) = left" using c Suc.prems by simp
    have len: "int (length buf) - int m = int (length (drop m buf))" using False by simp
    have "send_fragments k buf (int (length buf)) count (Suc left) alloc a =
          send_fragments ?k (drop m buf) (int (length buf) - int m) count left alloc (Suc a)"
      using Suc.prems(1,2,3) False by (cases buf) (simp_all add: mem_read_ok Let_def)
    also have "\<dots> = Inr (0, ?k\<lparr>snd_queue := snd_queue ?k @ fragments (stream ?k \<noteq> 0) (chunks m (drop m buf)),
                  nsnd_que := nsnd_que ?k + of_nat left\<rparr>)"
      unfolding len by (rule IH)
    also have "\<dots> = Inr (0, k\<lparr>snd_queue := snd_queue k @ fragments (stream k \<noteq> 0) (chunks m buf),
               nsnd_que := nsnd_que k + of_nat (Suc left)\<rparr>)"
      using False by (simp add: c new_fragment_def l)
    finally show ?thesis .
  qed
qed

lemma send_count_chunks:
  assumes "sint (mss k) = int m" "0 < m" "length buf < 2147483648"
  shows "send_count k (int (length buf)) = int (length (chunks m buf))"
proof (cases "length buf \<le> m")
  case True
  then show ?thesis using assms by (simp add: send_count_def length_chunks)
next
  case False
  have m: "unat (mss k) = m" "m < 2147483648"
    using sint_int_unat [OF assms(1)] by simp_all
  have "unat (of_nat (length buf) + mss k - 1 :: u32) = length buf + m - 1"
  proof -
    have "unat (of_nat (length buf) + mss k :: u32) = length buf + m"
      using assms(3) m by (simp add: unat_word_ariths unat_of_nat)
    moreover have "of_nat (length buf) + mss k \<noteq> (0 :: u32)"
      using calculation assms(2) by (metis add_is_0 not_gr_zero unat_0)
    ultimately show ?thesis by (simp add: unat_minus_one)
  qed
  then have "unat ((of_nat (length buf) + mss k - 1) div mss k :: u32) = (length buf + m - 1) div m"
    by (simp add: unat_div m)
  moreover have "(length buf + m - 1) div m < 2147483648"
  proof -
    have "(length buf + m - 1) div m = length (chunks m buf)" using assms False by (simp add: length_chunks)
    also have "\<dots> \<le> length buf" using False
    proof (induction m buf rule: chunks.induct)
      case (1 m xs)
      then show ?case
        by (cases "length xs - m \<le> m") (auto simp: chunks.simps [of m xs] chunks.simps [of m "drop m xs"])
    qed
    finally show ?thesis using assms(3) by simp
  qed
  ultimately show ?thesis using False assms
    by (simp add: send_count_def sint_u32_small length_chunks)
qed

lemma send_rest_spec:
  assumes "sint (mss k) = int m" "0 < m" "length buf < 2147483648" "\<And>n. alloc n"
  shows "send_rest k buf (int (length buf)) alloc a =
     (if length (chunks m buf) < 128
      then Inr (0, k\<lparr>snd_queue := snd_queue k @ fragments (stream k \<noteq> 0) (chunks m buf),
                     nsnd_que := nsnd_que k + of_nat (length (chunks m buf))\<rparr>)
      else Inr (-2, k))"
  using send_fragments_spec [OF assms(1,2,4) refl assms(3)] send_count_chunks [OF assms(1-3)]
  by (simp add: send_rest_def Let_def)

lemma mss_int:
  assumes "0 < unat (mss k)" "unat (mss k) < 2147483648"
  shows "sint (mss k) = int (unat (mss k))" "mss k \<noteq> 0"
  using assms by (auto simp: sint_u32_small)

section \<open>Properties of \<open>ikcp_send\<close>\<close>



section \<open>The invariant, and no fault\<close>

text \<open>What any run of the loop does to the control block, whether allocations fail or not.\<close>

definition queued :: "kcpcb \<Rightarrow> seg list \<Rightarrow> kcpcb" where
  "queued k fs =
     k\<lparr>snd_queue := snd_queue k @ fs, nsnd_que := nsnd_que k + of_nat (length fs)\<rparr>"

lemma queued_Nil: "queued k [] = k"
  by (simp add: queued_def)

lemma queued_Cons:
  "queued (k\<lparr>snd_queue := snd_queue k @ [f], nsnd_que := nsnd_que k + 1\<rparr>) fs = queued k (f # fs)"
  by (simp add: queued_def)

lemma send_fragments_frame:
  assumes "send_fragments k buf len count left alloc a = Inr (r, k')"
    and "0 \<le> len" "unat (mss k) < 2147483648" "len < 2147483648"
  shows "\<exists>fs. k' = queued k fs \<and> (\<forall>s \<in> set fs. snd_seg_ok k s)"
  using assms
proof (induction left arbitrary: k buf len a)
  case 0
  then show ?case by (intro exI [of _ "[]"]) (simp add: queued_Nil)
next
  case (Suc left)
  let ?sz = "if len > sint (mss k) then sint (mss k) else len"
  have m: "sint (mss k) = int (unat (mss k))" by (rule sint_u32_small) (rule Suc.prems(3))
  show ?case
  proof (cases "alloc a")
    case False
    then show ?thesis using Suc.prems(1) by (intro exI [of _ "[]"]) (simp add: queued_Nil Let_def)
  next
    case True
    define i where "i = count - int (Suc left)"
    from Suc.prems(1) True obtain d where
      d: "(if len > 0 then mem_read buf (nat ?sz) else Inr []) = Inr d" and
      rec: "send_fragments (k\<lparr>snd_queue := snd_queue k @ [new_fragment k d ?sz (count - i - 1)],
              nsnd_que := nsnd_que k + 1\<rparr>) (drop (nat ?sz) buf) (len - ?sz) count left alloc (Suc a)
            = Inr (r, k')"
      unfolding i_def by (auto simp: Let_def andThen_Inr simp del: of_nat_Suc)
    let ?f = "new_fragment k d ?sz (count - i - 1)"
    let ?k = "k\<lparr>snd_queue := snd_queue k @ [?f], nsnd_que := nsnd_que k + 1\<rparr>"
    have sz: "0 \<le> ?sz" "?sz \<le> int (unat (mss k))" "?sz \<le> len" using Suc.prems(2) m by auto
    have "length d = nat ?sz"
      using d Suc.prems(2) sz by (auto simp: mem_read_Inr split: if_splits)
    moreover have "unat (of_int ?sz :: u32) = nat ?sz"
      using sz Suc.prems(4) unat_of_nat_u32 [of "nat ?sz"] by simp
    moreover have "nat ?sz \<le> unat (mss k)" using sz(2) nat_le_iff by blast
    ultimately have f: "snd_seg_ok k ?f"
      by (simp only: snd_seg_ok_def seg_ok_def new_fragment_def ikcp_segment_new_def seg.simps
            seg.update_convs)
    have "\<exists>fs. k' = queued ?k fs \<and> (\<forall>s \<in> set fs. snd_seg_ok ?k s)"
      by (rule Suc.IH [OF rec]) (use Suc.prems sz in simp_all)
    then obtain fs where "k' = queued ?k fs" "\<forall>s \<in> set fs. snd_seg_ok ?k s" by blast
    then show ?thesis using f
      by (intro exI [of _ "?f # fs"]) (simp add: queued_Cons snd_seg_ok_def)
  qed
qed

lemma send_fragments_total:
  assumes "0 \<le> len" "unat (mss k) < 2147483648" "len \<le> int (length buf)"
  shows "\<exists>r. send_fragments k buf len count left alloc a = Inr r"
  using assms
proof (induction left arbitrary: k buf len a)
  case (Suc left)
  let ?sz = "if len > sint (mss k) then sint (mss k) else len"
  have m: "sint (mss k) = int (unat (mss k))" by (rule sint_u32_small) (rule Suc.prems(2))
  have sz: "0 \<le> ?sz" "?sz \<le> len" using Suc.prems m by auto
  then have "\<exists>r. send_fragments k' (drop (nat ?sz) buf) (len - ?sz) count left alloc (Suc a) = Inr r"
    if "mss k' = mss k" for k'
    using Suc.prems that by (intro Suc.IH) auto
  moreover have "mem_read buf (nat ?sz) = Inr (take (nat ?sz) buf)"
    using sz Suc.prems(3) by (intro mem_read_ok) linarith
  ultimately show ?case by (auto simp: Let_def simp del: of_nat_Suc split: if_splits)
qed simp

lemma queued_inv:
  assumes "kcp_inv k" "\<forall>s \<in> set fs. snd_seg_ok k s"
  shows "kcp_inv (queued k fs)"
proof -
  have i: "cfg_inv k" "snd_inv k" "rcv_inv k" "ack_inv k" using assms(1) by (auto simp: kcp_inv_def)
  have "snd_base (queued k fs)"
    using i(2) assms(2) by (auto simp: snd_inv_def snd_base_def queued_def) (auto simp: snd_seg_ok_def)
  moreover have "una_tight (queued k fs)"
    using i(2) by (auto simp: snd_inv_def queued_def elim: una_tight_frame)
  moreover have "cfg_inv (queued k fs)" using i(1) by (rule cfg_frame) (simp_all add: queued_def)
  moreover have "rcv_inv (queued k fs)" using i(3) by (rule rcv_frame) (simp_all add: queued_def)
  moreover have "ack_inv (queued k fs)" using i(4) by (rule ack_frame) (simp_all add: queued_def)
  ultimately show ?thesis by (simp add: kcp_inv_def snd_inv_def)
qed

text \<open>Stream mode: the room in the last queued segment, and what filling it up does.\<close>

definition stream_room :: "kcpcb \<Rightarrow> nat" where
  "stream_room k =
     (if snd_queue k = [] then 0 else unat (mss k) - length (s_data (last (snd_queue k))))"

lemma send_append_total:
  assumes "snd_inv k" "unat (mss k) < 2147483648" "0 \<le> len" "len \<le> int (length buf)"
  shows "send_append k buf len alloc = Inr (
    if stream_room k = 0 then Some (k, buf, len, 0)
    else if \<not> alloc 0 then None
    else let old = last (snd_queue k); e = min (nat len) (stream_room k)
         in Some (k\<lparr>snd_queue := butlast (snd_queue k) @
                     [(ikcp_segment_new (s_data old @ take e buf))
                        \<lparr>s_len := of_nat (length (s_data old) + e), s_frg := 0\<rparr>]\<rparr>,
                  drop e buf, len - int e, 1))"
proof (cases "snd_queue k = []")
  case True
  then show ?thesis by (simp add: send_append_def stream_room_def)
next
  case False
  let ?old = "last (snd_queue k)"
  have "snd_seg_ok k ?old" using assms(1) False by (auto simp: snd_inv_def snd_base_def)
  then have o: "unat (s_len ?old) = length (s_data ?old)" "length (s_data ?old) \<le> unat (mss k)"
    by (auto simp: snd_seg_ok_def seg_ok_def)
  have room: "stream_room k = unat (mss k) - unat (s_len ?old)" using False o by (simp add: stream_room_def)
  show ?thesis
  proof (cases "s_len ?old < mss k")
    case True
    then have "unat (mss k - s_len ?old) = unat (mss k) - unat (s_len ?old)"
      by (intro unat_sub) simp
    then have c: "sint (mss k - s_len ?old) = int (stream_room k)"
      using assms(2) room by (subst sint_u32_small) simp_all
    have r0: "stream_room k \<noteq> 0" using True room by (simp add: unat_less_u32)
    define e where "e = min (nat len) (stream_room k)"
    have ext: "(if len < int (stream_room k) then len else int (stream_room k)) = int e"
      using assms(3) by (simp add: e_def)
    have e: "e \<le> length buf" using assms(4) by (simp add: e_def)
    have l: "s_len ?old = of_nat (length (s_data ?old))" unfolding o(1) [symmetric] by simp
    have od: "mem_read (s_data ?old) (unat (s_len ?old)) = Inr (s_data ?old)"
      unfolding o(1) by (simp add: mem_read_ok)
    show ?thesis unfolding send_append_def Let_def c ext od
      using False True r0 e by (simp add: mem_read_ok e_def [symmetric] l)
  next
    case False
    then have "stream_room k = 0" using room by (simp add: unat_less_u32)
    with False show ?thesis by (simp add: send_append_def Let_def)
  qed
qed

lemma filled_inv:
  assumes "kcp_inv k" "snd_queue k \<noteq> []" "snd_seg_ok k s"
  shows "kcp_inv (k\<lparr>snd_queue := butlast (snd_queue k) @ [s]\<rparr>)" (is "kcp_inv ?k")
proof -
  have i: "cfg_inv k" "snd_inv k" "rcv_inv k" "ack_inv k" using assms(1) by (auto simp: kcp_inv_def)
  have "snd_base ?k"
    using i(2) assms(2,3) by (auto simp: snd_inv_def snd_base_def snd_seg_ok_def dest: in_set_butlastD)
  moreover have "una_tight ?k"
    using i(2) by (auto simp: snd_inv_def elim: una_tight_frame)
  moreover have "cfg_inv ?k" using i(1) by (rule cfg_frame) simp_all
  moreover have "rcv_inv ?k" using i(3) by (rule rcv_frame) simp_all
  moreover have "ack_inv ?k" using i(4) by (rule ack_frame) simp_all
  ultimately show ?thesis by (simp add: kcp_inv_def snd_inv_def)
qed

text \<open>The result of filling up keeps the invariant, whatever allocations succeed.\<close>

lemma send_append_inv:
  assumes "kcp_inv k" "0 \<le> len" "len \<le> int (length buf)"
    and "send_append k buf len alloc = Inr (Some (k', buf', len', a))"
  shows "kcp_inv k' \<and> mss k' = mss k \<and> 0 \<le> len' \<and> len' \<le> int (length buf') \<and> len' \<le> len"
proof -
  have i: "cfg_inv k" "snd_inv k" using assms(1) by (auto simp: kcp_inv_def)
  have m: "unat (mss k) < 2147483648" using mss_bounds [OF i(1)] by simp
  note T = send_append_total [OF i(2) m assms(2,3), of alloc]
  show ?thesis
  proof (cases "stream_room k = 0")
    case True
    then show ?thesis using T assms by simp
  next
    case False
    define old where "old = last (snd_queue k)"
    define e where "e = min (nat len) (stream_room k)"
    have q: "snd_queue k \<noteq> []" using False by (auto simp: stream_room_def)
    have "snd_seg_ok k old" using i(2) q by (auto simp: old_def snd_inv_def snd_base_def)
    then have o: "length (s_data old) \<le> unat (mss k)" by (simp add: snd_seg_ok_def)
    have "e \<le> stream_room k" "e \<le> length buf" using assms(3) by (auto simp: e_def)
    moreover have "stream_room k = unat (mss k) - length (s_data old)" using q by (simp add: stream_room_def old_def)
    ultimately have e: "length (s_data old) + e \<le> unat (mss k)" "e \<le> length buf" using o by auto
    let ?s = "(ikcp_segment_new (s_data old @ take e buf))\<lparr>s_len := of_nat (length (s_data old) + e), s_frg := 0\<rparr>"
    have s: "snd_seg_ok k ?s" using e m
      by (simp add: snd_seg_ok_def seg_ok_def ikcp_segment_new_def del: of_nat_add)
         (rule unat_of_nat_u32, simp)
    have "k' = k\<lparr>snd_queue := butlast (snd_queue k) @ [?s]\<rparr>" "buf' = drop e buf" "len' = len - int e"
      using T assms(4) False by (auto simp: Let_def old_def e_def split: if_splits)
    moreover have "int e \<le> len" using assms(2) by (simp add: e_def)
    ultimately show ?thesis using filled_inv [OF assms(1) q s] assms(2,3) e(2) by simp
  qed
qed

lemma send_rest_inv:
  assumes "kcp_inv k" "0 \<le> len" "len \<le> int (length buf)" "len < 2147483648"
  shows "\<exists>r k'. send_rest k buf len alloc a = Inr (r, k') \<and> kcp_inv k'"
proof -
  have m: "unat (mss k) < 2147483648" using mss_bounds assms(1) by (fastforce simp: kcp_inv_def)
  have "\<exists>r k'. send_fragments k buf len c n alloc a = Inr (r, k') \<and> kcp_inv k'" for c n
  proof -
    obtain r k' where s: "send_fragments k buf len c n alloc a = Inr (r, k')"
      using send_fragments_total [OF assms(2) m assms(3)] by (metis surj_pair)
    obtain fs where "k' = queued k fs" "\<forall>s \<in> set fs. snd_seg_ok k s"
      using send_fragments_frame [OF s assms(2) m assms(4)] by blast
    then show ?thesis using s queued_inv [OF assms(1)] by blast
  qed
  then show ?thesis using assms(1) by (simp add: send_rest_def Let_def)
qed

lemma ikcp_send_total:
  assumes "kcp_inv k" "len \<le> int (length buf)" "len < 2147483648"
  shows "\<exists>r k'. ikcp_send k buf len alloc = Inr (r, k') \<and> kcp_inv k'"
proof (cases "len < 0 \<or> stream k = 0")
  case True
  have "mss k \<noteq> 0" using mss_bounds(2) assms(1) by (fastforce simp: kcp_inv_def)
  with True show ?thesis
    using send_rest_inv [of k len buf alloc 0] assms by (auto simp: ikcp_send_def)
next
  case False
  then have f: "0 \<le> len" "stream k \<noteq> 0" by auto
  have i: "snd_inv k" "unat (mss k) < 2147483648" "mss k \<noteq> 0"
    using mss_bounds assms(1) by (fastforce simp: kcp_inv_def)+
  obtain r where r: "send_append k buf len alloc = Inr r"
    using send_append_total [OF i(1,2) f(1) assms(2)] by blast
  show ?thesis
  proof (cases r)
    case None
    then show ?thesis using r f i(3) assms(1) by (simp add: ikcp_send_def)
  next
    case (Some t)
    obtain k' buf' len' a where t: "t = (k', buf', len', a)" by (cases t)
    note s = send_append_inv [OF assms(1) f(1) assms(2), of alloc k' buf' len' a]
    have "kcp_inv k'" "0 \<le> len'" "len' \<le> int (length buf')" "len' < 2147483648"
      using s r Some t assms(3) by auto
    then show ?thesis
      using send_rest_inv [of k' len' buf' alloc a] r Some t f i(3) by (auto simp: ikcp_send_def)
  qed
qed



section \<open>Stream mode\<close>

abbreviation queued_bytes :: "kcpcb \<Rightarrow> bytes" where
  "queued_bytes k \<equiv> concat (map s_data (snd_queue k))"

lemma chunks_few:
  assumes "0 < m"
  shows "length (chunks m xs) < 128 \<longleftrightarrow> length xs \<le> 127 * m"
proof (cases "length xs \<le> m")
  case True
  then show ?thesis using assms by (simp add: length_chunks)
next
  case False
  have "(length xs + m - 1) div m < 128 \<longleftrightarrow> length xs + m - 1 < 128 * m"
    by (rule div_less_iff_less_mult) (rule assms)
  also have "\<dots> \<longleftrightarrow> length xs \<le> 127 * m" using assms by linarith
  finally show ?thesis using False assms by (simp add: length_chunks)
qed

lemma rest_fragments:
  assumes "kcp_inv k" "\<forall>n. alloc n" "mss k' = mss k" "length b < 2147483648"
  shows "send_rest k' b (int (length b)) alloc a =
      (if length b \<le> 127 * unat (mss k)
       then Inr (0, queued k' (fragments (stream k' \<noteq> 0) (chunks (unat (mss k)) b))) else Inr (-2, k'))"
proof -
  let ?m = "unat (mss k)"
  have i: "?m < 2147483648" "0 < ?m" using mss_bounds assms(1) by (fastforce simp: kcp_inv_def)+
  then have "sint (mss k) = int ?m" by (intro sint_u32_small) simp
  then show ?thesis using send_rest_spec [of k' ?m b alloc a] assms i by (simp add: chunks_few queued_def)
qed

lemma append_fills_last:
  \<comment> \<open>what fits into the last queued segment\<close>
  assumes "kcp_inv k" "stream_room k \<noteq> 0" "\<forall>n. alloc n" and e: "e = min (length buf) (stream_room k)"
  obtains k1 where "send_append k buf (int (length buf)) alloc =
      Inr (Some (k1, drop e buf, int (length (drop e buf)), 1))"
    "queued_bytes k1 = queued_bytes k @ take e buf" "mss k1 = mss k" "stream k1 = stream k"
proof -
  have i: "snd_inv k" "unat (mss k) < 2147483648" using mss_bounds assms(1) by (fastforce simp: kcp_inv_def)+
  define old where "old = last (snd_queue k)"
  define k1 where "k1 = k\<lparr>snd_queue := butlast (snd_queue k) @
      [(ikcp_segment_new (s_data old @ take e buf))\<lparr>s_len := of_nat (length (s_data old) + e), s_frg := 0\<rparr>]\<rparr>"
  have q: "snd_queue k \<noteq> []" using assms(2) by (auto simp: stream_room_def)
  have a: "send_append k buf (int (length buf)) alloc =
      Inr (Some (k1, drop e buf, int (length (drop e buf)), 1))"
    using send_append_total [OF i, of "int (length buf)" buf alloc, simplified] assms(2,3)
    by (simp add: Let_def k1_def old_def e of_nat_diff)
  have "queued_bytes k1 = concat (map s_data (butlast (snd_queue k) @ [old])) @ take e buf"
    by (simp add: k1_def ikcp_segment_new_def)
  also have "butlast (snd_queue k) @ [old] = snd_queue k" using q by (simp add: old_def)
  finally have b: "queued_bytes k1 = queued_bytes k @ take e buf" .
  show thesis by (rule that [OF a b]) (simp_all add: k1_def)
qed

text \<open>
  C20. Stream mode. The bytes waiting in \<open>snd_queue\<close> grow by the whole argument when it fits the
  room in the last segment and 127 more segments, and the call returns 0. When it does not
  fit, the call returns \<open>-2\<close>, but the bytes that fill up the last segment are queued all the same:
  a caller that sends the buffer again after the error sends them twice.
\<close>

theorem send_stream_appends:
  assumes "kcp_inv k" "stream k \<noteq> 0" "\<forall>n. alloc n" "length buf < 2147483648"
  shows "\<exists>k'. queued_bytes k' = queued_bytes k @
      (if length buf \<le> stream_room k + 127 * unat (mss k) then buf else take (stream_room k) buf) \<and>
    ikcp_send k buf (int (length buf)) alloc =
      Inr (if length buf \<le> stream_room k + 127 * unat (mss k) then 0 else -2, k')"
proof -
  have i: "snd_inv k" "unat (mss k) < 2147483648" "mss k \<noteq> 0" "0 < unat (mss k)"
    using mss_bounds assms(1) by (fastforce simp: kcp_inv_def)+
  note T = send_append_total [OF i(1,2), of "int (length buf)" buf alloc, simplified]
  note rest = rest_fragments [OF assms(1,3)]
  show ?thesis
  proof (cases "stream_room k = 0")
    case True
    show ?thesis
    proof (cases "buf = []")
      case True
      then show ?thesis using T \<open>stream_room k = 0\<close> assms i
        by (intro exI [of _ k]) (simp add: ikcp_send_def)
    next
      case False
      then show ?thesis using T True assms(2) i rest [OF refl assms(4), of 0]
        by (auto simp: ikcp_send_def queued_def concat_chunks)
    qed
  next
    case False
    define e where "e = min (length buf) (stream_room k)"
    obtain k1 where a: "send_append k buf (int (length buf)) alloc =
        Inr (Some (k1, drop e buf, int (length (drop e buf)), 1))"
      and b: "queued_bytes k1 = queued_bytes k @ take e buf" and m1: "mss k1 = mss k" "stream k1 = stream k"
      by (rule append_fills_last [OF assms(1) False assms(3) e_def])
    show ?thesis
    proof (cases "length buf \<le> stream_room k")
      case True
      then have "drop e buf = []" "take e buf = buf" by (simp_all add: e_def)
      then show ?thesis using a b True assms(2) i(3) by (intro exI [of _ k1]) (simp add: ikcp_send_def)
    next
      case False
      then have e: "e = stream_room k" "drop e buf \<noteq> []" by (auto simp: e_def)
      then have s: "ikcp_send k buf (int (length buf)) alloc = send_rest k1 (drop e buf) (int (length (drop e buf))) alloc 1"
        using a assms(2) i(3) by (simp add: ikcp_send_def)
      have fit: "length (drop e buf) \<le> 127 * unat (mss k) \<longleftrightarrow> length buf \<le> stream_room k + 127 * unat (mss k)"
        using e(1) by auto
      have "length (drop e buf) < 2147483648" using assms(4) by simp
      note R = rest [OF m1(1) this, of 1, unfolded fit]
      show ?thesis unfolding s R using b e(1) i(4) by (auto simp: queued_def concat_chunks)
    qed
  qed
qed

definition streaming :: kcpcb where
  "streaming = (kcp_fresh 7)\<lparr>stream := 1,
     snd_queue := [(ikcp_segment_new [1])\<lparr>s_len := 1\<rparr>], nsnd_que := 1\<rparr>"

lemma streaming_inv: "kcp_inv streaming"
proof -
  have "kcp_inv (queued ((kcp_fresh 7)\<lparr>stream := 1\<rparr>) [(ikcp_segment_new [1])\<lparr>s_len := 1\<rparr>])"
    by (rule queued_inv)
       (simp_all add: kcp_inv_def inv_parts snd_seg_ok_def seg_ok_def ikcp_segment_new_def)
  then show ?thesis by (simp add: streaming_def queued_def)
qed

theorem send_stream_appends_witness:
  "\<exists>k'. queued_bytes k' = [1, 2, 3] \<and> ikcp_send streaming [2, 3] 2 (\<lambda>_. True) = Inr (0, k')"
  using send_stream_appends [OF streaming_inv, of "\<lambda>_. True" "[2, 3]"]
  by (simp add: streaming_def stream_room_def ikcp_segment_new_def)

end
