(* ===== verification/Kcp_Flush.thy ===== *)
theory Kcp_Flush
  imports Kcp_Codec Kcp_Ack Kcp_Send
begin

text \<open>
  \<open>ikcp_flush\<close>: acknowledgements, window probes and data segments are encoded one behind the other
  into \<open>buffer\<close>; whenever the next piece would exceed \<open>mtu\<close> the bytes so far go to the output
  callback. The state of this writer is a pair: the bytes between \<open>buffer\<close> and \<open>ptr\<close>, and the
  datagrams handed to the callback so far. The callback gets the bytes and, as both users of it
  in this repository, leaves the control block alone; its return value is not used.
\<close>

unbundle bit_operations_syntax

section \<open>The writer\<close>

type_synonym writer = "bytes \<times> bytes list"

definition ikcp_output :: "kcpcb \<Rightarrow> bytes \<Rightarrow> bytes list \<Rightarrow> fault + bytes list" where
  "ikcp_output k data pkts =
     (if \<not> output_set k then Inl AssertFail
      else if length data = 0 then Inr pkts
      else Inr (pkts @ [data]))"

definition make_room :: "kcpcb \<Rightarrow> int \<Rightarrow> writer \<Rightarrow> fault + writer" where
  "make_room k need w =
     (if i32 (int (length (fst w)) + need) > sint (mtu k)
      then andThen (ikcp_output k (fst w) (snd w)) (\<lambda>pkts. Inr ([], pkts))
      else Inr w)"

definition buf_write :: "kcpcb \<Rightarrow> bytes \<Rightarrow> writer \<Rightarrow> fault + writer" where
  "buf_write k d w =
     (if length (fst w) + length d \<le> buffer k then Inr (fst w @ d, snd w) else Inl OobWrite)"

section \<open>Acknowledgements and window probes\<close>

definition ikcp_wnd_unused :: "kcpcb \<Rightarrow> int" where
  "ikcp_wnd_unused k = (if nrcv_que k < rcv_wnd k then sint (rcv_wnd k - nrcv_que k) else 0)"

definition flush_header :: "kcpcb \<Rightarrow> seg" where
  "flush_header k =
     (ikcp_segment_new [])\<lparr>s_conv := conv k, s_cmd := IKCP_CMD_ACK, s_frg := 0,
        s_wnd := of_int (ikcp_wnd_unused k), s_una := rcv_nxt k, s_len := 0, s_sn := 0, s_ts := 0\<rparr>"

definition emit_header :: "kcpcb \<Rightarrow> seg \<Rightarrow> writer \<Rightarrow> fault + writer" where
  "emit_header k s w =
     andThen (make_room k (sint IKCP_OVERHEAD) w) (\<lambda>w. buf_write k (ikcp_encode_seg s) w)"

fun flush_acks :: "kcpcb \<Rightarrow> seg \<Rightarrow> nat list \<Rightarrow> writer \<Rightarrow> fault + (seg \<times> writer)" where
  \<comment> \<open>the loop over \<open>i\<close> from 0 to \<open>count - 1\<close>; the list holds the values of \<open>i\<close> still to come\<close>
  "flush_acks k s [] w = Inr (s, w)"
| "flush_acks k s (i # is) w =
     andThen (make_room k (sint IKCP_OVERHEAD) w) (\<lambda>w.
     andThen (ikcp_ack_get k i) (\<lambda>(sn, ts).
       let s = s\<lparr>s_sn := sn, s_ts := ts\<rparr>
       in andThen (buf_write k (ikcp_encode_seg s) w) (\<lambda>w. flush_acks k s is w)))"

definition flush_probe_timer :: "kcpcb \<Rightarrow> kcpcb" where
  "flush_probe_timer k =
     (if rmt_wnd k = 0 then
        if probe_wait k = 0 then
          k\<lparr>probe_wait := IKCP_PROBE_INIT, ts_probe := current k + IKCP_PROBE_INIT\<rparr>
        else if itimediff (current k) (ts_probe k) \<ge> 0 then
          let w = (if probe_wait k < IKCP_PROBE_INIT then IKCP_PROBE_INIT else probe_wait k);
              w = w + w div 2;
              w = (if w > IKCP_PROBE_LIMIT then IKCP_PROBE_LIMIT else w)
          in k\<lparr>probe_wait := w, ts_probe := current k + w, probe := probe k OR IKCP_ASK_SEND\<rparr>
        else k
      else k\<lparr>ts_probe := 0, probe_wait := 0\<rparr>)"

definition flush_probe :: "kcpcb \<Rightarrow> u32 \<Rightarrow> u32 \<Rightarrow> seg \<Rightarrow> writer \<Rightarrow> fault + (seg \<times> writer)" where
  "flush_probe k ask cmd s w =
     (if probe k AND ask \<noteq> 0
      then let s = s\<lparr>s_cmd := cmd\<rparr> in andThen (emit_header k s w) (\<lambda>w. Inr (s, w))
      else Inr (s, w))"

section \<open>Moving data into the send window\<close>

definition flush_cwnd :: "kcpcb \<Rightarrow> u32" where
  "flush_cwnd k =
     (let c = imin (snd_wnd k) (rmt_wnd k) in if nocwnd k = 0 then imin (cwnd k) c else c)"

definition stamp_new :: "kcpcb \<Rightarrow> u32 \<Rightarrow> seg \<Rightarrow> seg" where
  "stamp_new k wnd s =
     s\<lparr>s_conv := conv k, s_cmd := IKCP_CMD_PUSH, s_wnd := wnd, s_ts := current k,
       s_sn := snd_nxt k, s_una := rcv_nxt k, s_resendts := current k,
       s_rto := of_int (rx_rto k), s_fastack := 0, s_xmit := 0\<rparr>"

fun flush_move :: "u32 \<Rightarrow> u32 \<Rightarrow> seg list \<Rightarrow> kcpcb \<Rightarrow> kcpcb" where
  \<comment> \<open>the loop that moves segments from \<open>snd_queue\<close>, the list argument, to \<open>snd_buf\<close>\<close>
  "flush_move wnd cw [] k = k"
| "flush_move wnd cw (s # q) k =
     (if itimediff (snd_nxt k) (snd_una k + cw) < 0
      then flush_move wnd cw q
             (k\<lparr>snd_queue := q, snd_buf := snd_buf k @ [stamp_new k wnd s],
                nsnd_que := nsnd_que k - 1, nsnd_buf := nsnd_buf k + 1, snd_nxt := snd_nxt k + 1\<rparr>)
      else k)"

section \<open>Transmission and retransmission\<close>

text \<open>What happens to one segment: nothing, first transmission, timeout, or fast retransmission.\<close>

datatype due = NotDue | First | Timeout | Fast

definition seg_due :: "kcpcb \<Rightarrow> u32 \<Rightarrow> seg \<Rightarrow> due" where
  "seg_due k resent s =
     (if s_xmit s = 0 then First
      else if itimediff (current k) (s_resendts s) \<ge> 0 then Timeout
      else if s_fastack s \<ge> resent then
        if sint (s_xmit s) \<le> fastlimit k \<or> fastlimit k \<le> 0 then Fast else NotDue
      else NotDue)"

definition seg_update :: "kcpcb \<Rightarrow> u32 \<Rightarrow> due \<Rightarrow> seg \<Rightarrow> seg" where
  "seg_update k rtomin d s =
     (case d of
        NotDue \<Rightarrow> s
      | First \<Rightarrow>
          let r = of_int (rx_rto k)
          in s\<lparr>s_xmit := s_xmit s + 1, s_rto := r, s_resendts := current k + r + rtomin\<rparr>
      | Timeout \<Rightarrow>
          let r = (if nodelay k = 0
                   then s_rto s + imax (s_rto s) (of_int (rx_rto k))
                   else let step = (if nodelay k < 2 then sint (s_rto s) else rx_rto k)
                        in s_rto s + of_int (cdiv step 2))
          in s\<lparr>s_xmit := s_xmit s + 1, s_rto := r, s_resendts := current k + r\<rparr>
      | Fast \<Rightarrow>
          s\<lparr>s_xmit := s_xmit s + 1, s_fastack := 0, s_resendts := current k + s_rto s\<rparr>)"

record flushing =
  f_kcp :: kcpcb
  f_writer :: writer
  f_change :: nat
  f_lost :: bool

definition emit_seg :: "kcpcb \<Rightarrow> seg \<Rightarrow> writer \<Rightarrow> fault + writer" where
  "emit_seg k s w =
     andThen (make_room k (sint (IKCP_OVERHEAD + s_len s)) w) (\<lambda>w.
     andThen (buf_write k (ikcp_encode_seg s) w) (\<lambda>w.
       if s_len s > 0
       then andThen (mem_read (s_data s) (unat (s_len s))) (\<lambda>d. buf_write k d w)
       else Inr w))"

definition flush_seg :: "u32 \<Rightarrow> u32 \<Rightarrow> u32 \<Rightarrow> seg \<Rightarrow> flushing \<Rightarrow> fault + (seg \<times> flushing)" where
  "flush_seg wnd resent rtomin s f =
     (let k = f_kcp f;
          d = seg_due k resent s;
          s = seg_update k rtomin d s;
          k = (if d = Timeout then k\<lparr>xmit := xmit k + 1\<rparr> else k);
          f = f\<lparr>f_kcp := k, f_change := (if d = Fast then f_change f + 1 else f_change f),
                f_lost := (f_lost f \<or> d = Timeout)\<rparr>
      in if d = NotDue then Inr (s, f)
         else
           let s = s\<lparr>s_ts := current k, s_wnd := wnd, s_una := rcv_nxt k\<rparr>
           in andThen (emit_seg k s (f_writer f)) (\<lambda>w.
                let k = (if s_xmit s \<ge> dead_link k then k\<lparr>state := -1\<rparr> else k)
                in Inr (s, f\<lparr>f_kcp := k, f_writer := w\<rparr>)))"

fun flush_data ::
  "u32 \<Rightarrow> u32 \<Rightarrow> u32 \<Rightarrow> seg list \<Rightarrow> flushing \<Rightarrow> fault + (seg list \<times> flushing)" where
  "flush_data wnd resent rtomin [] f = Inr ([], f)"
| "flush_data wnd resent rtomin (s # q) f =
     andThen (flush_seg wnd resent rtomin s f) (\<lambda>(s, f).
     andThen (flush_data wnd resent rtomin q f) (\<lambda>(q, f). Inr (s # q, f)))"

definition flush_ssthresh :: "kcpcb \<Rightarrow> nat \<Rightarrow> bool \<Rightarrow> u32 \<Rightarrow> u32 \<Rightarrow> kcpcb" where
  "flush_ssthresh k change lost cw resent =
     (let k = (if change \<noteq> 0 then
                 let t = (snd_nxt k - snd_una k) div 2;
                     t = (if t < IKCP_THRESH_MIN then IKCP_THRESH_MIN else t)
                 in k\<lparr>ssthresh := t, cwnd := t + resent, incr := (t + resent) * mss k\<rparr>
               else k);
          k = (if lost then
                 let t = cw div 2;
                     t = (if t < IKCP_THRESH_MIN then IKCP_THRESH_MIN else t)
                 in k\<lparr>ssthresh := t, cwnd := 1, incr := mss k\<rparr>
               else k)
      in if cwnd k < 1 then k\<lparr>cwnd := 1, incr := mss k\<rparr> else k)"

section \<open>The whole flush\<close>

definition flush_resent :: "kcpcb \<Rightarrow> u32" where
  "flush_resent k = (if fastresend k > 0 then of_int (fastresend k) else 0xffffffff)"

definition flush_rtomin :: "kcpcb \<Rightarrow> u32" where
  "flush_rtomin k = (if nodelay k = 0 then of_int (drop_bit 3 (rx_rto k)) else 0)"

definition flush_control :: "kcpcb \<Rightarrow> fault + (kcpcb \<times> writer)" where
  \<comment> \<open>acknowledgements and window probes, up to the reset of \<open>probe\<close>\<close>
  "flush_control k =
     andThen (flush_acks k (flush_header k) [0..<nat (sint (ackcount k))] ([], [])) (\<lambda>(s, w).
       let k = flush_probe_timer (k\<lparr>ackcount := 0\<rparr>)
       in andThen (flush_probe k IKCP_ASK_SEND IKCP_CMD_WASK s w) (\<lambda>(s, w).
          andThen (flush_probe k IKCP_ASK_TELL IKCP_CMD_WINS s w) (\<lambda>(s, w).
            Inr (k\<lparr>probe := 0\<rparr>, w))))"

definition ikcp_flush :: "kcpcb \<Rightarrow> fault + (kcpcb \<times> bytes list)" where
  "ikcp_flush k =
     (if updated k = 0 then Inr (k, [])
      else
        let wnd = of_int (ikcp_wnd_unused k)
        in andThen (flush_control k) (\<lambda>(k, w).
          let cw = flush_cwnd k;
              k = flush_move wnd cw (snd_queue k) k;
              resent = flush_resent k;
              rtomin = flush_rtomin k
          in andThen (flush_data wnd resent rtomin (snd_buf k)
                       \<lparr>f_kcp = k, f_writer = w, f_change = 0, f_lost = False\<rparr>) (\<lambda>(q, f).
               let k = (f_kcp f)\<lparr>snd_buf := q\<rparr>;
                   w = f_writer f
               in andThen (if length (fst w) > 0 then ikcp_output k (fst w) (snd w)
                           else Inr (snd w)) (\<lambda>pkts.
                    Inr (flush_ssthresh k (f_change f) (f_lost f) cw resent, pkts)))))"

section \<open>What the writer has put out\<close>

text \<open>
  A datagram is a sequence of segments, each a header and its data. \<open>packed m w out\<close>: the segments
  \<open>out\<close>, in order, are in the writer \<open>w\<close>, cut into non-empty datagrams of at most \<open>m\<close> bytes and
  the unfinished one.
\<close>

definition wire :: "seg \<Rightarrow> bytes" where
  "wire s = ikcp_encode_seg s @ s_data s"

definition datagram :: "seg list \<Rightarrow> bytes" where
  "datagram g = concat (map wire g)"

definition packed :: "nat \<Rightarrow> writer \<Rightarrow> seg list \<Rightarrow> bool" where
  "packed m w out =
     (\<exists>gs cur. w = (datagram cur, map datagram gs) \<and> concat gs @ cur = out \<and>
        length (datagram cur) \<le> m \<and> (\<forall>g \<in> set gs. g \<noteq> [] \<and> length (datagram g) \<le> m))"

lemma datagram_simps [simp]:
  "datagram [] = []" "datagram (s # g) = wire s @ datagram g" "datagram (g @ h) = datagram g @ datagram h"
  by (simp_all add: datagram_def)

lemma length_wire [simp]: "length (wire s) = 24 + length (s_data s)"
  by (simp add: wire_def)

lemma datagram_empty: "datagram g = [] \<longleftrightarrow> g = []"
proof (cases g)
  case (Cons s h)
  have "length (datagram (s # h)) \<noteq> 0" by simp
  then have "datagram (s # h) \<noteq> []" by (metis list.size(3))
  then show ?thesis using Cons by (simp del: datagram_simps)
qed simp

lemma packed_start: "packed m ([], []) []"
  unfolding packed_def by (intro exI [of _ "[]"]) simp

lemma mtu_int:
  assumes "cfg_inv k"
  shows "sint (mtu k) = int (unat (mtu k))"
  by (rule sint_u32_small) (use assms in \<open>simp add: cfg_inv_def\<close>)

lemma output_spec:
  "output_set k \<Longrightarrow> ikcp_output k d pkts = Inr (if d = [] then pkts else pkts @ [d])"
  by (simp add: ikcp_output_def)

text \<open>Room for \<open>n\<close> more bytes: after it, they fit.\<close>

lemma make_room_packed:
  assumes "cfg_inv k" "output_set k" "packed (unat (mtu k)) w out" "n \<le> unat (mtu k)"
  shows "\<exists>w'. make_room k (int n) w = Inr w' \<and> packed (unat (mtu k)) w' out \<and>
    length (fst w') + n \<le> unat (mtu k)"
proof -
  obtain gs cur where w: "w = (datagram cur, map datagram gs)" "concat gs @ cur = out"
    "length (datagram cur) \<le> unat (mtu k)"
    "\<forall>g \<in> set gs. g \<noteq> [] \<and> length (datagram g) \<le> unat (mtu k)"
    using assms(3) by (auto simp: packed_def)
  have m: "unat (mtu k) < 1073741824" using assms(1) by (simp add: cfg_inv_def)
  then have "length (datagram cur) + n \<le> 2147483647" using w(3) assms(4) by linarith
  then have "i32 (int (length (datagram cur) + n)) = int (length (datagram cur) + n)"
    by (intro i32_id) linarith+
  then have i: "i32 (int (length (fst w)) + int n) = int (length (datagram cur) + n)"
    using w(1) by simp
  show ?thesis
  proof (cases "length (datagram cur) + n \<le> unat (mtu k)")
    case True
    then have "make_room k (int n) w = Inr w"
      unfolding make_room_def i mtu_int [OF assms(1)] of_nat_less_iff by simp
    then show ?thesis using True assms(3) w(1) by auto
  next
    case False
    then have r: "make_room k (int n) w = andThen (ikcp_output k (fst w) (snd w)) (\<lambda>pkts. Inr ([], pkts))"
      unfolding make_room_def i mtu_int [OF assms(1)] of_nat_less_iff by simp
    have "cur \<noteq> []" using False assms(4) by auto
    then have o: "make_room k (int n) w = Inr (datagram [], map datagram (gs @ [cur]))"
      using r w(1) output_spec [OF assms(2)] by (simp add: datagram_empty)
    moreover have "packed (unat (mtu k)) (datagram [], map datagram (gs @ [cur])) out"
      unfolding packed_def using w \<open>cur \<noteq> []\<close>
      by (intro exI [of _ "gs @ [cur]"] exI [of _ "[]"]) auto
    ultimately show ?thesis using assms(4) by simp
  qed
qed

lemma write_packed:
  assumes "packed m w out" "length (fst w) + length (wire s) \<le> m"
  shows "packed m (fst w @ wire s, snd w) (out @ [s])"
proof -
  obtain gs cur where "w = (datagram cur, map datagram gs)" "concat gs @ cur = out"
    "length (datagram cur) \<le> m" "\<forall>g \<in> set gs. g \<noteq> [] \<and> length (datagram g) \<le> m"
    using assms(1) by (auto simp: packed_def)
  then show ?thesis unfolding packed_def using assms(2)
    by (intro exI [of _ gs] exI [of _ "cur @ [s]"]) auto
qed

lemma seg_need:
  assumes "cfg_inv k" "snd_seg_ok k s"
  shows "24 + length (s_data s) \<le> unat (mtu k)"
    and "sint (IKCP_OVERHEAD + s_len s) = int (24 + length (s_data s))"
proof -
  have l: "unat (s_len s) = length (s_data s)" "length (s_data s) \<le> unat (mss k)"
    using assms(2) by (auto simp: snd_seg_ok_def seg_ok_def)
  note M = mss_bounds [OF assms(1)]
  then show n: "24 + length (s_data s) \<le> unat (mtu k)" using l by linarith
  have "unat (24 + s_len s) = 24 + length (s_data s)"
    using l M(3) by (subst unat_word_ariths) simp
  moreover have "24 + length (s_data s) < 2147483648" using n assms(1) by (simp add: cfg_inv_def)
  ultimately show "sint (IKCP_OVERHEAD + s_len s) = int (24 + length (s_data s))"
    using sint_u32_small [of "24 + s_len s"] by simp
qed

lemma emit_seg_packed:
  assumes "cfg_inv k" "output_set k" "packed (unat (mtu k)) w out" "snd_seg_ok k s"
  shows "\<exists>w'. emit_seg k s w = Inr w' \<and> packed (unat (mtu k)) w' (out @ [s])"
proof -
  have l: "unat (s_len s) = length (s_data s)" using assms(4) by (simp add: snd_seg_ok_def seg_ok_def)
  obtain w1 where w1: "make_room k (int (24 + length (s_data s))) w = Inr w1"
    "packed (unat (mtu k)) w1 out" "length (fst w1) + (24 + length (s_data s)) \<le> unat (mtu k)"
    using make_room_packed [OF assms(1-3) seg_need(1) [OF assms(1,4)]] by blast
  have b: "unat (mtu k) \<le> buffer k" using assms(1) by (simp add: cfg_inv_def)
  have e: "s_data s = [] \<longleftrightarrow> s_len s = 0" using l by (auto simp: unsigned_eq_0_iff)
  have "emit_seg k s w = Inr (fst w1 @ wire s, snd w1)"
    unfolding emit_seg_def seg_need(2) [OF assms(1,4)]
    using w1(1,3) b l e by (simp add: buf_write_def wire_def mem_read_ok word_gt_0)
  then show ?thesis using write_packed [OF w1(2), of s] w1(3) by simp
qed

lemma emit_header_packed:
  assumes "cfg_inv k" "output_set k" "packed (unat (mtu k)) w out" "s_data s = []"
  shows "\<exists>w'. emit_header k s w = Inr w' \<and> packed (unat (mtu k)) w' (out @ [s])"
proof -
  have 24: "sint IKCP_OVERHEAD = int 24" "24 \<le> unat (mtu k)" using assms(1) by (simp_all add: cfg_inv_def)
  obtain w1 where w1: "make_room k (int 24) w = Inr w1"
    "packed (unat (mtu k)) w1 out" "length (fst w1) + 24 \<le> unat (mtu k)"
    using make_room_packed [OF assms(1-3) 24(2)] by blast
  have b: "unat (mtu k) \<le> buffer k" using assms(1) by (simp add: cfg_inv_def)
  have "emit_header k s w = Inr (fst w1 @ wire s, snd w1)"
    unfolding emit_header_def 24(1) using w1(1,3) b assms(4) by (simp add: buf_write_def wire_def)
  then show ?thesis using write_packed [OF w1(2), of s] w1(3) assms(4) by simp
qed

section \<open>Acknowledgements and probes are emitted and cleared\<close>

lemma ack_get_pending:
  assumes "ack_inv k" "p < unat (ackcount k)"
  shows "ikcp_ack_get k p = Inr (pending_acks k ! p)"
proof -
  have "0 < ackcount k" using assms(2) by (simp add: unat_less_u32)
  then obtain l where "acklist k = Some l" using assms(1)
    by (cases "acklist k") (auto simp: ack_inv_def)
  then show ?thesis using assms by (simp add: ikcp_ack_get_def pending_acks_def ack_inv_def)
qed

definition ack_seg :: "seg \<Rightarrow> u32 \<times> u32 \<Rightarrow> seg" where
  "ack_seg s a = s\<lparr>s_sn := fst a, s_ts := snd a\<rparr>"

lemma ack_seg_again [simp]: "ack_seg (ack_seg s a) b = ack_seg s b" "s_data (ack_seg s a) = s_data s"
  by (simp_all add: ack_seg_def)

lemma flush_acks_packed:
  assumes "cfg_inv k" "output_set k" "ack_inv k" "packed (unat (mtu k)) w out" "s_data s = []"
    and "\<forall>p \<in> set is. p < unat (ackcount k)"
  shows "\<exists>w'. flush_acks k s is w =
      Inr (if is = [] then s else ack_seg s (pending_acks k ! last is), w') \<and>
    packed (unat (mtu k)) w' (out @ map (\<lambda>p. ack_seg s (pending_acks k ! p)) is)"
  using assms(4-6)
proof (induction "is" arbitrary: s w out)
  case (Cons p ps)
  define s1 where "s1 = ack_seg s (pending_acks k ! p)"
  have g: "ikcp_ack_get k p = Inr (pending_acks k ! p)"
    by (rule ack_get_pending [OF assms(3)]) (use Cons.prems(3) in simp)
  obtain w1 where w1: "emit_header k s1 w = Inr w1" "packed (unat (mtu k)) w1 (out @ [s1])"
    using emit_header_packed [OF assms(1,2) Cons.prems(1), of s1] Cons.prems(2) by (auto simp: s1_def)
  have "\<exists>w'. flush_acks k s1 ps w1 =
      Inr (if ps = [] then s1 else ack_seg s1 (pending_acks k ! last ps), w') \<and>
    packed (unat (mtu k)) w' ((out @ [s1]) @ map (\<lambda>p. ack_seg s1 (pending_acks k ! p)) ps)"
    by (rule Cons.IH [OF w1(2)]) (use Cons.prems in \<open>simp_all add: s1_def\<close>)
  then obtain w' where w': "flush_acks k s1 ps w1 =
      Inr (if ps = [] then s1 else ack_seg s1 (pending_acks k ! last ps), w')"
    "packed (unat (mtu k)) w' ((out @ [s1]) @ map (\<lambda>p. ack_seg s1 (pending_acks k ! p)) ps)" by blast
  have "flush_acks k s (p # ps) w = andThen (emit_header k s1 w) (\<lambda>w. flush_acks k s1 ps w)"
    by (cases "make_room k (sint IKCP_OVERHEAD) w")
       (simp_all add: emit_header_def g s1_def ack_seg_def case_prod_unfold Let_def)
  then show ?case using w' w1(1) by (auto simp: s1_def)
qed simp

text \<open>The segments a flush owes besides data: one ACK per pending acknowledgement, then the probes.\<close>

definition ack_segs :: "kcpcb \<Rightarrow> seg list" where
  "ack_segs k = map (ack_seg (flush_header k)) (pending_acks k)"

definition last_header :: "kcpcb \<Rightarrow> seg" where
  "last_header k = (if pending_acks k = [] then flush_header k else last (ack_segs k))"

definition probe_segs :: "kcpcb \<Rightarrow> seg list" where
  "probe_segs k =
     (let p = probe (flush_probe_timer k)
      in (if p AND IKCP_ASK_SEND \<noteq> 0 then [(last_header k)\<lparr>s_cmd := IKCP_CMD_WASK\<rparr>] else []) @
         (if p AND IKCP_ASK_TELL \<noteq> 0 then [(last_header k)\<lparr>s_cmd := IKCP_CMD_WINS\<rparr>] else []))"

definition controlled :: "kcpcb \<Rightarrow> kcpcb" where
  "controlled k = (flush_probe_timer (k\<lparr>ackcount := 0\<rparr>))\<lparr>probe := 0\<rparr>"

lemma probe_timer_frame [simp]:
  "mtu (flush_probe_timer k) = mtu k" "buffer (flush_probe_timer k) = buffer k"
  "mss (flush_probe_timer k) = mss k" "rcv_wnd (flush_probe_timer k) = rcv_wnd k"
  "rmt_wnd (flush_probe_timer k) = rmt_wnd k" "rx_minrto (flush_probe_timer k) = rx_minrto k"
  "rx_rto (flush_probe_timer k) = rx_rto k" "output_set (flush_probe_timer k) = output_set k"
  "snd_queue (flush_probe_timer k) = snd_queue k" "snd_buf (flush_probe_timer k) = snd_buf k"
  "nsnd_que (flush_probe_timer k) = nsnd_que k" "nsnd_buf (flush_probe_timer k) = nsnd_buf k"
  "snd_una (flush_probe_timer k) = snd_una k" "snd_nxt (flush_probe_timer k) = snd_nxt k"
  "rcv_queue (flush_probe_timer k) = rcv_queue k" "rcv_buf (flush_probe_timer k) = rcv_buf k"
  "nrcv_que (flush_probe_timer k) = nrcv_que k" "nrcv_buf (flush_probe_timer k) = nrcv_buf k"
  "rcv_nxt (flush_probe_timer k) = rcv_nxt k" "acklist (flush_probe_timer k) = acklist k"
  "ackcount (flush_probe_timer k) = ackcount k" "ackblock (flush_probe_timer k) = ackblock k"
  "conv (flush_probe_timer k) = conv k" "current (flush_probe_timer k) = current k"
  "cwnd (flush_probe_timer k) = cwnd k" "snd_wnd (flush_probe_timer k) = snd_wnd k"
  "nocwnd (flush_probe_timer k) = nocwnd k" "nodelay (flush_probe_timer k) = nodelay k"
  "fastresend (flush_probe_timer k) = fastresend k" "fastlimit (flush_probe_timer k) = fastlimit k"
  "dead_link (flush_probe_timer k) = dead_link k" "updated (flush_probe_timer k) = updated k"
  by (simp_all add: flush_probe_timer_def Let_def)

lemma probe_timer_ackcount:
  "probe (flush_probe_timer (k\<lparr>ackcount := c\<rparr>)) = probe (flush_probe_timer k)"
  by (simp add: flush_probe_timer_def Let_def)

lemma flush_probe_packed:
  assumes "cfg_inv k" "output_set k" "packed (unat (mtu k)) w out" "s_data s = []"
  shows "\<exists>w'. flush_probe k ask c s w =
      Inr (if probe k AND ask \<noteq> 0 then s\<lparr>s_cmd := c\<rparr> else s, w') \<and>
    packed (unat (mtu k)) w' (out @ (if probe k AND ask \<noteq> 0 then [s\<lparr>s_cmd := c\<rparr>] else []))"
proof (cases "probe k AND ask = 0")
  case False
  obtain w' where "emit_header k (s\<lparr>s_cmd := c\<rparr>) w = Inr w'"
    "packed (unat (mtu k)) w' (out @ [s\<lparr>s_cmd := c\<rparr>])"
    using emit_header_packed [OF assms(1-3), of "s\<lparr>s_cmd := c\<rparr>"] assms(4) by auto
  then show ?thesis using False by (simp add: flush_probe_def Let_def)
qed (use assms in \<open>simp add: flush_probe_def\<close>)

lemma flush_control_packed:
  assumes "cfg_inv k" "output_set k" "ack_inv k" "unat (ackcount k) < 2147483648"
  shows "\<exists>w. flush_control k = Inr (controlled k, w) \<and>
    packed (unat (mtu k)) w (ack_segs k @ probe_segs k)"
proof -
  let ?h = "flush_header k" and ?n = "unat (ackcount k)"
  have h: "s_data ?h = []" by (simp add: flush_header_def ikcp_segment_new_def)
  have n: "nat (sint (ackcount k)) = ?n"
    using sint_u32_small [OF assms(4)] by linarith
  have pl: "length (pending_acks k) = ?n" by (rule pending_length [OF assms(3)])
  obtain w1 where w1: "flush_acks k ?h [0..<?n] ([], []) =
      Inr (if [0..<?n] = [] then ?h else ack_seg ?h (pending_acks k ! last [0..<?n]), w1)"
    "packed (unat (mtu k)) w1 ([] @ map (\<lambda>p. ack_seg ?h (pending_acks k ! p)) [0..<?n])"
    using flush_acks_packed [OF assms(1-3) packed_start h, of "[0..<?n]"] by auto
  have a: "map (\<lambda>p. ack_seg ?h (pending_acks k ! p)) [0..<?n] = ack_segs k"
    unfolding ack_segs_def pl [symmetric] by (rule nth_equalityI) simp_all
  have l: "(if [0..<?n] = [] then ?h else ack_seg ?h (pending_acks k ! last [0..<?n])) = last_header k"
    unfolding last_header_def ack_segs_def using pl
    by (cases "pending_acks k = []") (auto simp: last_map last_conv_nth)
  have ld: "s_data (last_header k) = []"
    using h by (cases "pending_acks k = []") (simp_all add: last_header_def ack_segs_def last_map)
  define k1 where "k1 = flush_probe_timer (k\<lparr>ackcount := 0\<rparr>)"
  have k1: "cfg_inv k1" "output_set k1" "mtu k1 = mtu k"
    using assms(1,2) by (auto simp: k1_def elim!: cfg_frame)
  have p: "probe k1 = probe (flush_probe_timer k)" by (simp add: k1_def probe_timer_ackcount)
  let ?s2 = "if probe k1 AND IKCP_ASK_SEND \<noteq> 0 then (last_header k)\<lparr>s_cmd := IKCP_CMD_WASK\<rparr> else last_header k"
  have P1: "packed (unat (mtu k1)) w1 (ack_segs k)" using w1(2) a k1(3) by simp
  obtain w2 where w2: "flush_probe k1 IKCP_ASK_SEND IKCP_CMD_WASK (last_header k) w1 = Inr (?s2, w2)"
    "packed (unat (mtu k1)) w2 (ack_segs k @
       (if probe k1 AND IKCP_ASK_SEND \<noteq> 0 then [(last_header k)\<lparr>s_cmd := IKCP_CMD_WASK\<rparr>] else []))"
    using flush_probe_packed [OF k1(1,2) P1 ld] by blast
  have s2: "s_data ?s2 = []" using ld by simp
  obtain w3 where w3: "flush_probe k1 IKCP_ASK_TELL IKCP_CMD_WINS ?s2 w2 =
      Inr (if probe k1 AND IKCP_ASK_TELL \<noteq> 0 then ?s2\<lparr>s_cmd := IKCP_CMD_WINS\<rparr> else ?s2, w3)"
    "packed (unat (mtu k1)) w3 ((ack_segs k @
       (if probe k1 AND IKCP_ASK_SEND \<noteq> 0 then [(last_header k)\<lparr>s_cmd := IKCP_CMD_WASK\<rparr>] else [])) @
       (if probe k1 AND IKCP_ASK_TELL \<noteq> 0 then [?s2\<lparr>s_cmd := IKCP_CMD_WINS\<rparr>] else []))"
    using flush_probe_packed [OF k1(1,2) w2(2) s2] by blast
  have "?s2\<lparr>s_cmd := IKCP_CMD_WINS\<rparr> = (last_header k)\<lparr>s_cmd := IKCP_CMD_WINS\<rparr>" by simp
  then have "packed (unat (mtu k)) w3 (ack_segs k @ probe_segs k)"
    using w3(2) unfolding k1(3) probe_segs_def Let_def p [symmetric] by (simp only: append_assoc)
  moreover have "flush_control k = Inr (controlled k, w3)"
    unfolding flush_control_def n w1(1) l controlled_def k1_def [symmetric] Let_def andThen_simps
      prod.case w2(1) w3(1) by (rule refl)
  ultimately show ?thesis by blast
qed

section \<open>The send window\<close>

lemma stamp_ignores_uninit:
  "s_frg s = s_frg t \<Longrightarrow> s_len s = s_len t \<Longrightarrow> s_data s = s_data t \<Longrightarrow>
   stamp_new k wnd s = stamp_new k wnd t"
  by (simp add: stamp_new_def)

definition moved_out :: "u32 \<Rightarrow> kcpcb \<Rightarrow> seg \<Rightarrow> seg list \<Rightarrow> kcpcb" where
  "moved_out wnd k s q =
     k\<lparr>snd_queue := q, snd_buf := snd_buf k @ [stamp_new k wnd s], nsnd_que := nsnd_que k - 1,
       nsnd_buf := nsnd_buf k + 1, snd_nxt := snd_nxt k + 1\<rparr>"

lemma flush_move_Cons:
  "flush_move wnd cw (s # q) k =
     (if itimediff (snd_nxt k) (snd_una k + cw) < 0 then flush_move wnd cw q (moved_out wnd k s q) else k)"
  by (simp add: moved_out_def)

declare flush_move.simps(2) [simp del]

lemma moved_out_frame [simp]:
  "mtu (moved_out wnd k s q) = mtu k" "mss (moved_out wnd k s q) = mss k"
  "buffer (moved_out wnd k s q) = buffer k" "rcv_wnd (moved_out wnd k s q) = rcv_wnd k"
  "rmt_wnd (moved_out wnd k s q) = rmt_wnd k" "rx_minrto (moved_out wnd k s q) = rx_minrto k"
  "rx_rto (moved_out wnd k s q) = rx_rto k" "rcv_queue (moved_out wnd k s q) = rcv_queue k"
  "rcv_buf (moved_out wnd k s q) = rcv_buf k" "nrcv_que (moved_out wnd k s q) = nrcv_que k"
  "nrcv_buf (moved_out wnd k s q) = nrcv_buf k" "rcv_nxt (moved_out wnd k s q) = rcv_nxt k"
  "acklist (moved_out wnd k s q) = acklist k" "ackcount (moved_out wnd k s q) = ackcount k"
  "ackblock (moved_out wnd k s q) = ackblock k" "conv (moved_out wnd k s q) = conv k"
  "current (moved_out wnd k s q) = current k" "output_set (moved_out wnd k s q) = output_set k"
  "snd_una (moved_out wnd k s q) = snd_una k" "probe (moved_out wnd k s q) = probe k"
  "snd_queue (moved_out wnd k s q) = q" "snd_nxt (moved_out wnd k s q) = snd_nxt k + 1"
  "cwnd (moved_out wnd k s q) = cwnd k" "ssthresh (moved_out wnd k s q) = ssthresh k"
  by (simp_all add: moved_out_def)

lemma flush_move_frame [simp]:
  "mtu (flush_move wnd cw q k) = mtu k" "mss (flush_move wnd cw q k) = mss k"
  "buffer (flush_move wnd cw q k) = buffer k" "rcv_wnd (flush_move wnd cw q k) = rcv_wnd k"
  "rmt_wnd (flush_move wnd cw q k) = rmt_wnd k" "rx_minrto (flush_move wnd cw q k) = rx_minrto k"
  "rx_rto (flush_move wnd cw q k) = rx_rto k" "rcv_queue (flush_move wnd cw q k) = rcv_queue k"
  "rcv_buf (flush_move wnd cw q k) = rcv_buf k" "nrcv_que (flush_move wnd cw q k) = nrcv_que k"
  "nrcv_buf (flush_move wnd cw q k) = nrcv_buf k" "rcv_nxt (flush_move wnd cw q k) = rcv_nxt k"
  "acklist (flush_move wnd cw q k) = acklist k" "ackcount (flush_move wnd cw q k) = ackcount k"
  "ackblock (flush_move wnd cw q k) = ackblock k" "conv (flush_move wnd cw q k) = conv k"
  "current (flush_move wnd cw q k) = current k" "output_set (flush_move wnd cw q k) = output_set k"
  "snd_una (flush_move wnd cw q k) = snd_una k" "probe (flush_move wnd cw q k) = probe k"
  "cwnd (flush_move wnd cw q k) = cwnd k" "ssthresh (flush_move wnd cw q k) = ssthresh k"
  by (induction wnd cw q k rule: flush_move.induct) (simp_all add: flush_move_Cons flip: moved_out_def)

lemma window_open:
  assumes "snd_inv k" "unat cw \<le> 65535"
  shows "itimediff (snd_nxt k) (snd_una k + cw) < 0 \<longleftrightarrow> seqoff (snd_una k) (snd_nxt k) < unat cw"
proof -
  have "seqoff (snd_una k) (snd_nxt k) \<le> 65535" using assms(1) by (simp add: snd_inv_def snd_base_def)
  then have "itimediff (snd_nxt k) (snd_una k + cw) = int (seqoff (snd_una k) (snd_nxt k)) - int (unat cw)"
    using itimediff_seqoff [of "snd_una k" "snd_nxt k" "snd_una k + cw"] assms(2)
    by (simp add: seqoff_plus)
  then show ?thesis by linarith
qed

lemma first_sn_append: "first_sn (b @ [s]) n = first_sn b (s_sn s)"
  by (cases b) simp_all

lemma moved_out_inv:
  assumes "snd_inv k" "snd_queue k = s # q" "seqoff (snd_una k) (snd_nxt k) < 65535"
  shows "snd_inv (moved_out wnd k s q)"
proof -
  let ?k = "moved_out wnd k s q" and ?b = "snd_una k"
  have n: "seqoff ?b (snd_nxt k + 1) = Suc (seqoff ?b (snd_nxt k))"
    by (rule seqoff_Suc) (use assms(3) in simp)
  have b: "snd_base k" "una_tight k" using assms(1) by (simp_all add: snd_inv_def)
  have o: "in_order ?b (seqoff ?b (snd_nxt k)) (snd_buf k)" using b(1) by (simp add: snd_base_def)
  have sn: "s_sn (stamp_new k wnd s) = snd_nxt k" by (simp add: stamp_new_def)
  have "in_order ?b (Suc (seqoff ?b (snd_nxt k))) (snd_buf k @ [stamp_new k wnd s])"
    unfolding in_order_append
    using in_order_mono [OF o] in_order_bound [OF o] sn by (simp add: in_order_Cons)
  moreover have "snd_seg_ok k (stamp_new k wnd s)"
    using b(1) assms(2) by (simp add: snd_base_def snd_seg_ok_def seg_ok_def stamp_new_def)
  ultimately have "snd_base ?k"
    using b(1) assms(2,3) n by (auto simp: snd_base_def moved_out_def snd_seg_ok_def)
  moreover have "una_tight ?k"
    using b(2) sn by (simp add: una_tight_def moved_out_def first_sn_append)
  ultimately show ?thesis by (simp add: snd_inv_def)
qed

text \<open>The loop moves as many segments as are waiting and as the window allows, in order.\<close>

lemma flush_move_spec:
  assumes "snd_inv k" "snd_queue k = q" "unat cw \<le> 65535"
  shows "let k' = flush_move wnd cw q k; n = min (length q) (unat cw - seqoff (snd_una k) (snd_nxt k))
    in snd_inv k' \<and> snd_queue k' = drop n q \<and> snd_nxt k' = snd_nxt k + of_nat n \<and>
       (\<exists>new. snd_buf k' = snd_buf k @ new \<and> map s_data new = map s_data (take n q) \<and>
          map s_frg new = map s_frg (take n q) \<and> map s_sn new = map (\<lambda>i. snd_nxt k + of_nat i) [0..<n] \<and>
          (\<forall>s \<in> set new. s_xmit s = 0 \<and> s_conv s = conv k \<and> s_cmd s = IKCP_CMD_PUSH))"
  using assms
proof (induction q arbitrary: k)
  case Nil
  then show ?case by simp
next
  case (Cons s q)
  note W = window_open [OF Cons.prems(1,3)]
  let ?u = "seqoff (snd_una k) (snd_nxt k)" and ?k = "moved_out wnd k s q"
  show ?case
  proof (cases "?u < unat cw")
    case False
    then have "flush_move wnd cw (s # q) k = k" using W by (simp add: flush_move_Cons)
    then show ?thesis using False Cons.prems(1,2) by (simp add: Let_def)
  next
    case True
    then have u: "?u < 65535" using Cons.prems(3) by simp
    have i: "snd_inv ?k" by (rule moved_out_inv [OF Cons.prems(1,2) u])
    have su: "seqoff (snd_una ?k) (snd_nxt ?k) = Suc ?u"
      using seqoff_Suc [of "snd_una k" "snd_nxt k"] u by simp
    let ?m = "min (length q) (unat cw - Suc ?u)"
    have n: "min (length (s # q)) (unat cw - ?u) = Suc ?m" using True by auto
    have f: "flush_move wnd cw (s # q) k = flush_move wnd cw q ?k" using True W by (simp add: flush_move_Cons)
    from Cons.IH [OF i _ Cons.prems(3)] obtain new where IH:
      "snd_inv (flush_move wnd cw q ?k)" "snd_queue (flush_move wnd cw q ?k) = drop ?m q"
      "snd_nxt (flush_move wnd cw q ?k) = snd_nxt k + 1 + of_nat ?m"
      "snd_buf (flush_move wnd cw q ?k) = snd_buf ?k @ new" "map s_data new = map s_data (take ?m q)"
      "map s_frg new = map s_frg (take ?m q)"
      "map s_sn new = map (\<lambda>i. snd_nxt k + 1 + of_nat i) [0..<?m]"
      "\<forall>s \<in> set new. s_xmit s = 0 \<and> s_conv s = conv k \<and> s_cmd s = IKCP_CMD_PUSH"
      unfolding Let_def su by (simp del: ikcp_consts) blast
    have sn: "map (\<lambda>i. snd_nxt k + of_nat i) [0..<Suc ?m] =
        snd_nxt k # map (\<lambda>i. snd_nxt k + 1 + of_nat i) [0..<?m]"
      by (simp add: upt_conv_Cons map_Suc_upt [symmetric] add.assoc del: upt_Suc)
    have "snd_buf (flush_move wnd cw q ?k) = snd_buf k @ stamp_new k wnd s # new"
      using IH(4) by (simp add: moved_out_def)
    then show ?thesis unfolding f n Let_def sn
      using IH by (intro conjI exI [of _ "stamp_new k wnd s # new"])
        (simp_all add: stamp_new_def add.assoc)
  qed
qed

section \<open>Which segments are sent, and how they are marked\<close>

definition resend :: "u32 \<Rightarrow> u32 \<Rightarrow> u32 \<Rightarrow> kcpcb \<Rightarrow> seg \<Rightarrow> seg" where
  "resend wnd resent rtomin k s =
     (if seg_due k resent s = NotDue then s
      else (seg_update k rtomin (seg_due k resent s) s)
             \<lparr>s_ts := current k, s_wnd := wnd, s_una := rcv_nxt k\<rparr>)"

abbreviation noted :: "kcpcb \<Rightarrow> u32 \<Rightarrow> u32 \<Rightarrow> kcpcb" where
  "noted k x y \<equiv> k\<lparr>xmit := x, state := y\<rparr>"

lemma noted_same [simp]:
  "seg_due (noted k x y) resent s = seg_due k resent s"
  "seg_update (noted k x y) rtomin d s = seg_update k rtomin d s"
  "resend wnd resent rtomin (noted k x y) s = resend wnd resent rtomin k s"
  "cfg_inv (noted k x y) = cfg_inv k" "snd_seg_ok (noted k x y) s = snd_seg_ok k s"
  by (simp_all add: seg_due_def seg_update_def resend_def cfg_inv_def snd_seg_ok_def split: due.split)

lemma seg_update_data [simp]:
  "s_data (seg_update k rtomin d s) = s_data s" "s_len (seg_update k rtomin d s) = s_len s"
  "s_sn (seg_update k rtomin d s) = s_sn s" "s_frg (seg_update k rtomin d s) = s_frg s"
  "s_conv (seg_update k rtomin d s) = s_conv s" "s_cmd (seg_update k rtomin d s) = s_cmd s"
  by (simp_all add: seg_update_def Let_def split: due.split)

lemma resend_data [simp]:
  "s_data (resend wnd resent rtomin k s) = s_data s" "s_len (resend wnd resent rtomin k s) = s_len s"
  "s_sn (resend wnd resent rtomin k s) = s_sn s" "s_frg (resend wnd resent rtomin k s) = s_frg s"
  "s_conv (resend wnd resent rtomin k s) = s_conv s" "s_cmd (resend wnd resent rtomin k s) = s_cmd s"
  by (simp_all add: resend_def)

text \<open>The segments of \<open>q\<close> that go out in a flush, as they go out.\<close>

definition sent_segs :: "u32 \<Rightarrow> u32 \<Rightarrow> u32 \<Rightarrow> kcpcb \<Rightarrow> seg list \<Rightarrow> seg list" where
  "sent_segs wnd resent rtomin k q =
     map (resend wnd resent rtomin k) (filter (\<lambda>s. seg_due k resent s \<noteq> NotDue) q)"

definition lost_segs :: "u32 \<Rightarrow> kcpcb \<Rightarrow> seg list \<Rightarrow> seg list" where
  "lost_segs resent k q = filter (\<lambda>s. seg_due k resent s = Timeout) q"

definition fast_segs :: "u32 \<Rightarrow> kcpcb \<Rightarrow> seg list \<Rightarrow> seg list" where
  "fast_segs resent k q = filter (\<lambda>s. seg_due k resent s = Fast) q"

text \<open>The link is dead once a segment has been sent \<open>dead_link\<close> times.\<close>

definition link_state :: "kcpcb \<Rightarrow> seg list \<Rightarrow> u32" where
  "link_state k out = (if \<exists>s \<in> set out. s_xmit s \<ge> dead_link k then -1 else state k)"

lemma flush_seg_packed:
  assumes "cfg_inv k" "output_set k" "packed (unat (mtu k)) (f_writer f) out" "snd_seg_ok k s"
    and "f_kcp f = k"
  shows "\<exists>w'. flush_seg wnd resent rtomin s f = Inr (resend wnd resent rtomin k s,
      \<lparr>f_kcp = noted k (xmit k + of_nat (length (lost_segs resent k [s])))
                (link_state k (sent_segs wnd resent rtomin k [s])),
       f_writer = w', f_change = f_change f + length (fast_segs resent k [s]),
       f_lost = (f_lost f \<or> lost_segs resent k [s] \<noteq> [])\<rparr>) \<and>
    packed (unat (mtu k)) w' (out @ sent_segs wnd resent rtomin k [s])"
proof (cases "seg_due k resent s = NotDue")
  case True
  have "flush_seg wnd resent rtomin s f = Inr (s, f)"
    using True assms(5) by (simp add: flush_seg_def Let_def seg_update_def)
  then show ?thesis using True assms(3,5)
    by (cases f) (simp add: resend_def lost_segs_def fast_segs_def sent_segs_def link_state_def)
next
  case False
  let ?r = "resend wnd resent rtomin k s"
  define k1 where "k1 = (if seg_due k resent s = Timeout then k\<lparr>xmit := xmit k + 1\<rparr> else k)"
  have k1: "cfg_inv k1" "output_set k1" "snd_seg_ok k1 ?r" "mtu k1 = mtu k" "dead_link k1 = dead_link k"
    "current k1 = current k" "rcv_nxt k1 = rcv_nxt k"
    using assms(1,2,4) by (auto simp: k1_def snd_seg_ok_def seg_ok_def elim!: cfg_frame)
  have r: "(seg_update k rtomin (seg_due k resent s) s)\<lparr>s_ts := current k, s_wnd := wnd, s_una := rcv_nxt k\<rparr> = ?r"
    using False by (simp add: resend_def)
  obtain w' where w': "emit_seg k1 ?r (f_writer f) = Inr w'" "packed (unat (mtu k)) w' (out @ [?r])"
    using emit_seg_packed [OF k1(1,2) _ k1(3), of "f_writer f" out] assms(3) k1(4) by auto
  have e: "flush_seg wnd resent rtomin s f = Inr (?r,
      \<lparr>f_kcp = (if s_xmit ?r \<ge> dead_link k then k1\<lparr>state := -1\<rparr> else k1), f_writer = w',
       f_change = (if seg_due k resent s = Fast then f_change f + 1 else f_change f),
       f_lost = (f_lost f \<or> seg_due k resent s = Timeout)\<rparr>)"
    unfolding flush_seg_def Let_def assms(5) k1_def [symmetric] k1(6,7) flushing.simps r
    using False w'(1) k1(5) by (simp add: assms(5) k1_def [symmetric] r k1(6,7))
  have "(if s_xmit ?r \<ge> dead_link k then k1\<lparr>state := -1\<rparr> else k1) =
      noted k (xmit k + of_nat (length (lost_segs resent k [s]))) (link_state k (sent_segs wnd resent rtomin k [s]))"
    using False by (simp add: k1_def lost_segs_def link_state_def sent_segs_def)
  then show ?thesis using e w'(2) False
    by (simp add: lost_segs_def fast_segs_def sent_segs_def)
qed

lemma sent_segs_append: "sent_segs wnd r t k (p @ q) = sent_segs wnd r t k p @ sent_segs wnd r t k q"
  by (simp add: sent_segs_def)

lemma lost_segs_append: "lost_segs r k (p @ q) = lost_segs r k p @ lost_segs r k q"
  by (simp add: lost_segs_def)

lemma fast_segs_append: "fast_segs r k (p @ q) = fast_segs r k p @ fast_segs r k q"
  by (simp add: fast_segs_def)

lemma noted_segs [simp]:
  "sent_segs wnd r t (noted k x y) q = sent_segs wnd r t k q"
  "lost_segs r (noted k x y) q = lost_segs r k q" "fast_segs r (noted k x y) q = fast_segs r k q"
  by (simp_all add: sent_segs_def lost_segs_def fast_segs_def)

lemma link_state_append:
  "link_state (noted k x (link_state k p)) q = link_state k (p @ q)"
  by (auto simp: link_state_def)

lemma flush_data_packed:
  assumes "cfg_inv k" "output_set k" "packed (unat (mtu k)) (f_writer f) out"
    and "\<forall>s \<in> set q. snd_seg_ok k s" "f_kcp f = k"
  shows "\<exists>w'. flush_data wnd resent rtomin q f = Inr (map (resend wnd resent rtomin k) q,
      \<lparr>f_kcp = noted k (xmit k + of_nat (length (lost_segs resent k q)))
                (link_state k (sent_segs wnd resent rtomin k q)),
       f_writer = w', f_change = f_change f + length (fast_segs resent k q),
       f_lost = (f_lost f \<or> lost_segs resent k q \<noteq> [])\<rparr>) \<and>
    packed (unat (mtu k)) w' (out @ sent_segs wnd resent rtomin k q)"
  using assms
proof (induction q arbitrary: k f out)
  case Nil
  then show ?case
    by (cases f) (simp add: lost_segs_def fast_segs_def sent_segs_def link_state_def)
next
  case (Cons s q)
  have sk: "snd_seg_ok k s" using Cons.prems(4) by simp
  let ?k = "noted k (xmit k + of_nat (length (lost_segs resent k [s])))
                (link_state k (sent_segs wnd resent rtomin k [s]))"
  obtain w1 where w1: "flush_seg wnd resent rtomin s f = Inr (resend wnd resent rtomin k s,
      \<lparr>f_kcp = ?k, f_writer = w1, f_change = f_change f + length (fast_segs resent k [s]),
       f_lost = (f_lost f \<or> lost_segs resent k [s] \<noteq> [])\<rparr>)" (is "_ = Inr (_, ?f)")
    "packed (unat (mtu k)) w1 (out @ sent_segs wnd resent rtomin k [s])"
    using flush_seg_packed [OF Cons.prems(1-3) sk Cons.prems(5)] by blast
  have c: "cfg_inv ?k" "output_set ?k" "packed (unat (mtu ?k)) (f_writer ?f) (out @ sent_segs wnd resent rtomin k [s])"
    "\<forall>s \<in> set q. snd_seg_ok ?k s" "f_kcp ?f = ?k"
    using Cons.prems w1(2) by simp_all
  obtain w2 where w2: "flush_data wnd resent rtomin q ?f = Inr (map (resend wnd resent rtomin ?k) q,
      \<lparr>f_kcp = noted ?k (xmit ?k + of_nat (length (lost_segs resent ?k q)))
                (link_state ?k (sent_segs wnd resent rtomin ?k q)),
       f_writer = w2, f_change = f_change ?f + length (fast_segs resent ?k q),
       f_lost = (f_lost ?f \<or> lost_segs resent ?k q \<noteq> [])\<rparr>)"
    "packed (unat (mtu ?k)) w2 ((out @ sent_segs wnd resent rtomin k [s]) @ sent_segs wnd resent rtomin ?k q)"
    using Cons.IH [OF c] by blast
  note app = sent_segs_append [of wnd resent rtomin k "[s]" q] lost_segs_append [of resent k "[s]" q]
    fast_segs_append [of resent k "[s]" q]
  show ?case
    using w1(1) w2 app by (simp add: link_state_append add.assoc)
qed

section \<open>The whole flush\<close>

text \<open>
  The reference: \<open>ready k\<close> is the control block once the window has been filled, \<open>data_segs k\<close> are
  the data segments that are due then.
\<close>

definition advertised :: "kcpcb \<Rightarrow> u32" where
  "advertised k = of_int (ikcp_wnd_unused k)"

definition ready :: "kcpcb \<Rightarrow> kcpcb" where
  "ready k = flush_move (advertised k) (flush_cwnd (controlled k)) (snd_queue k) (controlled k)"

definition data_segs :: "kcpcb \<Rightarrow> seg list" where
  "data_segs k = sent_segs (advertised k) (flush_resent (ready k)) (flush_rtomin (ready k)) (ready k)
     (snd_buf (ready k))"

lemma controlled_inv:
  assumes "kcp_inv k"
  shows "kcp_inv (controlled k)"
proof (rule kcp_invI)
  show "cfg_inv (controlled k)"
    by (rule cfg_frame [OF kcp_inv_parts(1) [OF assms]]) (simp_all add: controlled_def)
  show "snd_inv (controlled k)"
    by (rule snd_frame [OF kcp_inv_parts(2) [OF assms]]) (simp_all add: controlled_def)
  show "rcv_inv (controlled k)"
    by (rule rcv_frame [OF kcp_inv_parts(3) [OF assms]]) (simp_all add: controlled_def)
  show "ack_inv (controlled k)"
    using kcp_inv_parts(4) [OF assms] by (cases "acklist k") (simp_all add: controlled_def ack_inv_def)
qed

lemma flush_cwnd_bound:
  assumes "cfg_inv k"
  shows "unat (flush_cwnd k) \<le> 65535"
proof -
  have "unat (imin a b) = min (unat a) (unat b)" for a b :: u32
    by (simp add: imin_def min_def unat_le_u32)
  moreover have "unat (rmt_wnd k) \<le> 65535" using assms by (simp add: cfg_inv_def)
  ultimately show ?thesis by (simp add: flush_cwnd_def Let_def min_le_iff_disj)
qed

lemma ready_spec:
  assumes "kcp_inv k"
  shows "kcp_inv (ready k)" "\<exists>n new. n = min (length (snd_queue k))
      (unat (flush_cwnd (controlled k)) - seqoff (snd_una k) (snd_nxt k)) \<and>
    snd_queue (ready k) = drop n (snd_queue k) \<and> snd_nxt (ready k) = snd_nxt k + of_nat n \<and>
    snd_una (ready k) = snd_una k \<and> snd_buf (ready k) = snd_buf k @ new \<and>
    map s_data new = map s_data (take n (snd_queue k)) \<and> map s_frg new = map s_frg (take n (snd_queue k)) \<and>
    map s_sn new = map (\<lambda>i. snd_nxt k + of_nat i) [0..<n] \<and>
    (\<forall>s \<in> set new. s_xmit s = 0 \<and> s_conv s = conv k \<and> s_cmd s = IKCP_CMD_PUSH)"
proof -
  let ?c = "controlled k"
  have i: "kcp_inv ?c" by (rule controlled_inv [OF assms])
  have q: "snd_queue ?c = snd_queue k" "snd_nxt ?c = snd_nxt k" "snd_una ?c = snd_una k"
    "snd_buf ?c = snd_buf k" "conv ?c = conv k" by (simp_all add: controlled_def)
  note M = flush_move_spec [OF kcp_inv_parts(2) [OF i] q(1) flush_cwnd_bound [OF kcp_inv_parts(1) [OF i]],
      of "advertised k", unfolded Let_def q, folded ready_def]
  show "kcp_inv (ready k)"
  proof (rule kcp_invI)
    show "snd_inv (ready k)" using M by blast
    show "cfg_inv (ready k)" by (rule cfg_frame [OF kcp_inv_parts(1) [OF i]]) (simp_all add: ready_def)
    show "rcv_inv (ready k)" by (rule rcv_frame [OF kcp_inv_parts(3) [OF i]]) (simp_all add: ready_def)
    show "ack_inv (ready k)" by (rule ack_frame [OF kcp_inv_parts(4) [OF i]]) (simp_all add: ready_def)
  qed
  have "snd_una (ready k) = snd_una k" using q by (simp add: ready_def)
  then show "\<exists>n new. n = min (length (snd_queue k))
      (unat (flush_cwnd (controlled k)) - seqoff (snd_una k) (snd_nxt k)) \<and>
    snd_queue (ready k) = drop n (snd_queue k) \<and> snd_nxt (ready k) = snd_nxt k + of_nat n \<and>
    snd_una (ready k) = snd_una k \<and> snd_buf (ready k) = snd_buf k @ new \<and>
    map s_data new = map s_data (take n (snd_queue k)) \<and> map s_frg new = map s_frg (take n (snd_queue k)) \<and>
    map s_sn new = map (\<lambda>i. snd_nxt k + of_nat i) [0..<n] \<and>
    (\<forall>s \<in> set new. s_xmit s = 0 \<and> s_conv s = conv k \<and> s_cmd s = IKCP_CMD_PUSH)"
    using M by blast
qed

lemma ssthresh_frame [simp]:
  "mtu (flush_ssthresh k c l cw r) = mtu k" "mss (flush_ssthresh k c l cw r) = mss k"
  "buffer (flush_ssthresh k c l cw r) = buffer k" "rcv_wnd (flush_ssthresh k c l cw r) = rcv_wnd k"
  "rmt_wnd (flush_ssthresh k c l cw r) = rmt_wnd k" "rx_minrto (flush_ssthresh k c l cw r) = rx_minrto k"
  "rx_rto (flush_ssthresh k c l cw r) = rx_rto k" "snd_queue (flush_ssthresh k c l cw r) = snd_queue k"
  "snd_buf (flush_ssthresh k c l cw r) = snd_buf k" "nsnd_que (flush_ssthresh k c l cw r) = nsnd_que k"
  "nsnd_buf (flush_ssthresh k c l cw r) = nsnd_buf k" "snd_una (flush_ssthresh k c l cw r) = snd_una k"
  "snd_nxt (flush_ssthresh k c l cw r) = snd_nxt k" "rcv_queue (flush_ssthresh k c l cw r) = rcv_queue k"
  "rcv_buf (flush_ssthresh k c l cw r) = rcv_buf k" "nrcv_que (flush_ssthresh k c l cw r) = nrcv_que k"
  "nrcv_buf (flush_ssthresh k c l cw r) = nrcv_buf k" "rcv_nxt (flush_ssthresh k c l cw r) = rcv_nxt k"
  "acklist (flush_ssthresh k c l cw r) = acklist k" "ackcount (flush_ssthresh k c l cw r) = ackcount k"
  "ackblock (flush_ssthresh k c l cw r) = ackblock k" "conv (flush_ssthresh k c l cw r) = conv k"
  "probe (flush_ssthresh k c l cw r) = probe k" "state (flush_ssthresh k c l cw r) = state k"
  "current (flush_ssthresh k c l cw r) = current k" "output_set (flush_ssthresh k c l cw r) = output_set k"
  "updated (flush_ssthresh k c l cw r) = updated k" "interval (flush_ssthresh k c l cw r) = interval k"
  "ts_flush (flush_ssthresh k c l cw r) = ts_flush k" "stream (flush_ssthresh k c l cw r) = stream k"
  by (simp_all add: flush_ssthresh_def Let_def)

lemma ssthresh_cwnd: "1 \<le> unat (cwnd (flush_ssthresh k c l cw r))"
proof -
  have "\<not> cwnd (flush_ssthresh k c l cw r) < 1" by (simp add: flush_ssthresh_def Let_def)
  then show ?thesis by (simp add: unat_less_u32)
qed

lemma ssthresh_min: "2 \<le> unat (ssthresh k) \<Longrightarrow> 2 \<le> unat (ssthresh (flush_ssthresh k c l cw r))"
  by (auto simp: flush_ssthresh_def Let_def unat_less_u32)

text \<open>The control block after a flush.\<close>

definition flushed :: "kcpcb \<Rightarrow> kcpcb" where
  "flushed k =
     (let r = ready k; resent = flush_resent r; t = flush_rtomin r; wnd = advertised k
      in flush_ssthresh
           (noted r (xmit r + of_nat (length (lost_segs resent r (snd_buf r)))) (link_state r (data_segs k))
              \<lparr>snd_buf := map (resend wnd resent t r) (snd_buf r)\<rparr>)
           (length (fast_segs resent r (snd_buf r))) (lost_segs resent r (snd_buf r) \<noteq> [])
           (flush_cwnd (controlled k)) resent)"

lemma ikcp_flush_spec:
  assumes "kcp_inv k" "output_set k" "updated k \<noteq> 0" "unat (ackcount k) < 2147483648"
  shows "\<exists>gs. ikcp_flush k = Inr (flushed k, map datagram gs) \<and>
    concat gs = ack_segs k @ probe_segs k @ data_segs k \<and>
    (\<forall>g \<in> set gs. g \<noteq> [] \<and> length (datagram g) \<le> unat (mtu k))"
proof -
  let ?r = "ready k" and ?wnd = "advertised k"
  let ?resent = "flush_resent ?r" and ?t = "flush_rtomin ?r"
  have r: "cfg_inv ?r" "snd_inv ?r" using ready_spec(1) [OF assms(1)] by (simp_all add: kcp_inv_def)
  have f: "output_set ?r" "mtu ?r = mtu k" using assms(2) by (simp_all add: ready_def controlled_def)
  obtain w where w: "flush_control k = Inr (controlled k, w)"
    "packed (unat (mtu k)) w (ack_segs k @ probe_segs k)"
    using flush_control_packed [OF kcp_inv_parts(1) [OF assms(1)] assms(2) kcp_inv_parts(4) [OF assms(1)] assms(4)]
    by blast
  have q: "snd_queue (controlled k) = snd_queue k" by (simp add: controlled_def)
  let ?f = "\<lparr>f_kcp = ?r, f_writer = w, f_change = 0, f_lost = False\<rparr>"
  have ok: "\<forall>s \<in> set (snd_buf ?r). snd_seg_ok ?r s" using r(2) by (simp add: snd_inv_def snd_base_def)
  obtain w' where w': "flush_data ?wnd ?resent ?t (snd_buf ?r) ?f = Inr (map (resend ?wnd ?resent ?t ?r) (snd_buf ?r),
      \<lparr>f_kcp = noted ?r (xmit ?r + of_nat (length (lost_segs ?resent ?r (snd_buf ?r)))) (link_state ?r (data_segs k)),
       f_writer = w', f_change = 0 + length (fast_segs ?resent ?r (snd_buf ?r)),
       f_lost = (False \<or> lost_segs ?resent ?r (snd_buf ?r) \<noteq> [])\<rparr>)"
    "packed (unat (mtu k)) w' ((ack_segs k @ probe_segs k) @ data_segs k)"
    using flush_data_packed [OF r(1) f(1) _ ok, of ?f "ack_segs k @ probe_segs k" ?wnd ?resent ?t] w(2) f(2)
    by (auto simp: data_segs_def)
  obtain gs cur where p: "w' = (datagram cur, map datagram gs)"
    "concat gs @ cur = (ack_segs k @ probe_segs k) @ data_segs k" "length (datagram cur) \<le> unat (mtu k)"
    "\<forall>g \<in> set gs. g \<noteq> [] \<and> length (datagram g) \<le> unat (mtu k)"
    using w'(2) by (auto simp: packed_def)
  let ?k1 = "noted ?r (xmit ?r + of_nat (length (lost_segs ?resent ?r (snd_buf ?r)))) (link_state ?r (data_segs k))
              \<lparr>snd_buf := map (resend ?wnd ?resent ?t ?r) (snd_buf ?r)\<rparr>"
  define all where "all = (if cur = [] then gs else gs @ [cur])"
  have out: "(if length (fst w') > 0 then ikcp_output ?k1 (fst w') (snd w') else Inr (snd w')) =
      Inr (map datagram all)"
    using p(1) f(1) by (simp add: output_spec datagram_empty all_def)
  have "ikcp_flush k = Inr (flushed k, map datagram all)"
    unfolding ikcp_flush_def if_not_P [OF assms(3)] w(1) Let_def advertised_def [symmetric] andThen_simps
      prod.case q ready_def [symmetric] w'(1) flushing.simps out flushed_def
    by simp
  moreover have "concat all = ack_segs k @ probe_segs k @ data_segs k" using p(2) by (auto simp: all_def)
  moreover have "\<forall>g \<in> set all. g \<noteq> [] \<and> length (datagram g) \<le> unat (mtu k)"
    using p(3,4) by (simp add: all_def)
  ultimately show ?thesis by blast
qed

lemma flushed_fields:
  "snd_queue (flushed k) = snd_queue (ready k)" "snd_nxt (flushed k) = snd_nxt (ready k)"
  "snd_una (flushed k) = snd_una (ready k)" "mtu (flushed k) = mtu k" "probe (flushed k) = 0"
  "ackcount (flushed k) = 0" "output_set (flushed k) = output_set k" "conv (flushed k) = conv k"
  "rcv_queue (flushed k) = rcv_queue k" "rcv_buf (flushed k) = rcv_buf k" "rcv_nxt (flushed k) = rcv_nxt k"
  "snd_buf (flushed k) = map (resend (advertised k) (flush_resent (ready k)) (flush_rtomin (ready k)) (ready k))
     (snd_buf (ready k))" "rcv_wnd (flushed k) = rcv_wnd k" "rmt_wnd (flushed k) = rmt_wnd k"
  "mss (flushed k) = mss k"
  by (simp_all add: flushed_def Let_def ready_def controlled_def)

lemma flushed_inv:
  assumes "kcp_inv k"
  shows "kcp_inv (flushed k)"
proof -
  let ?r = "ready k"
  let ?q = "map (resend (advertised k) (flush_resent ?r) (flush_rtomin ?r) ?r) (snd_buf ?r)"
  note i = kcp_inv_parts [OF ready_spec(1) [OF assms]]
  show ?thesis
  proof (rule kcp_invI)
    have "snd_inv (?r\<lparr>snd_buf := ?q\<rparr>)"
      by (rule snd_inv_buf_map [OF i(2)]) (simp_all add: comp_def)
    then show "snd_inv (flushed k)" by (rule snd_frame) (simp_all add: flushed_def Let_def)
    show "cfg_inv (flushed k)" by (rule cfg_frame [OF i(1)]) (simp_all add: flushed_def Let_def)
    show "rcv_inv (flushed k)" by (rule rcv_frame [OF i(3)]) (simp_all add: flushed_def Let_def)
    show "ack_inv (flushed k)" by (rule ack_frame [OF i(4)]) (simp_all add: flushed_def Let_def)
  qed
qed

lemma flushed_pending: "pending_acks (flushed k) = []"
  by (cases "acklist (flushed k)") (simp_all add: pending_acks_def flushed_fields)

text \<open>
  C4. \<open>ikcp_flush\<close> is safe and keeps its promises. With the callback set it returns, never writes
  past \<open>buffer\<close>, hands out only non-empty datagrams of at most \<open>mtu\<close> bytes, and the datagrams
  hold, in order: one ACK for each pending acknowledgement, the window probe and the answer to
  one if they are due, and the data segments that are due. Afterwards no
  acknowledgement and no probe is pending, the congestion window is at least one, and the invariant
  holds.
\<close>

theorem ikcp_flush_emits:
  assumes "kcp_inv k" "output_set k" "updated k \<noteq> 0" "unat (ackcount k) < 2147483648"
  shows "\<exists>k' gs. ikcp_flush k = Inr (k', map datagram gs) \<and>
    concat gs = ack_segs k @ probe_segs k @ data_segs k \<and>
    (\<forall>g \<in> set gs. g \<noteq> [] \<and> length (datagram g) \<le> unat (mtu k)) \<and>
    kcp_inv k' \<and> pending_acks k' = [] \<and> probe k' = 0 \<and> 1 \<le> unat (cwnd k')"
proof -
  have "1 \<le> unat (cwnd (flushed k))" unfolding flushed_def Let_def by (rule ssthresh_cwnd)
  then show ?thesis
    using ikcp_flush_spec [OF assms] flushed_inv [OF assms(1)] flushed_pending [of k] flushed_fields(5) [of k]
    by blast
qed

definition sending :: kcpcb where
  "sending = (queued (kcp_fresh 7) [(ikcp_segment_new [1, 2])\<lparr>s_len := 2\<rparr>])
     \<lparr>output_set := True, updated := 1, nocwnd := 1\<rparr>"

lemma sending_inv: "kcp_inv sending"
proof -
  have i: "kcp_inv (queued (kcp_fresh 7) [(ikcp_segment_new [1, 2])\<lparr>s_len := 2\<rparr>])" (is "kcp_inv ?k")
    by (rule queued_inv [OF fresh_inv]) (simp add: snd_seg_ok_def seg_ok_def ikcp_segment_new_def)
  show ?thesis
  proof (rule kcp_invI)
    show "cfg_inv sending" by (rule cfg_frame [OF kcp_inv_parts(1) [OF i]]) (simp_all add: sending_def)
    show "snd_inv sending" by (rule snd_frame [OF kcp_inv_parts(2) [OF i]]) (simp_all add: sending_def)
    show "rcv_inv sending" by (rule rcv_frame [OF kcp_inv_parts(3) [OF i]]) (simp_all add: sending_def)
    show "ack_inv sending" by (rule ack_frame [OF kcp_inv_parts(4) [OF i]]) (simp_all add: sending_def)
  qed
qed

lemma sending_fields:
  "output_set sending" "updated sending \<noteq> 0" "unat (ackcount sending) < 2147483648"
  "map s_data (snd_queue sending) = [[1, 2]]" "snd_buf sending = []" "snd_nxt sending = 0"
  "snd_una sending = 0" "flush_cwnd sending = 32" "length (snd_queue sending) = 1"
  by (simp_all add: sending_def queued_def ikcp_segment_new_def flush_cwnd_def imin_def)

theorem ikcp_flush_emits_witness:
  "\<exists>k' gs. ikcp_flush sending = Inr (k', map datagram gs) \<and> kcp_inv k' \<and> pending_acks k' = []"
  using ikcp_flush_emits [OF sending_inv sending_fields(1-3)] by blast

text \<open>
  C16. The send window. A flush moves segments from the queue to the window in order, without
  touching their data or fragment numbers, gives them consecutive numbers from \<open>snd_nxt\<close>, and moves
  exactly as many as are waiting and as the window \<open>cw\<close> (the least of the send window, the
  peer's window and, unless switched off, the congestion window) leaves room for: when it has
  moved one, at most \<open>cw\<close> segments are unacknowledged.
\<close>

theorem flush_fills_window:
  assumes "kcp_inv k" "output_set k" "updated k \<noteq> 0" "unat (ackcount k) < 2147483648"
  shows "\<exists>k' pkts n. ikcp_flush k = Inr (k', pkts) \<and>
    n = min (length (snd_queue k)) (unat (flush_cwnd k) - seqoff (snd_una k) (snd_nxt k)) \<and>
    snd_queue k' = drop n (snd_queue k) \<and> snd_nxt k' = snd_nxt k + of_nat n \<and> snd_una k' = snd_una k \<and>
    map s_sn (snd_buf k') = map s_sn (snd_buf k) @ map (\<lambda>i. snd_nxt k + of_nat i) [0..<n] \<and>
    map s_data (snd_buf k') = map s_data (snd_buf k) @ map s_data (take n (snd_queue k)) \<and>
    map s_frg (snd_buf k') = map s_frg (snd_buf k) @ map s_frg (take n (snd_queue k)) \<and>
    (0 < n \<longrightarrow> seqoff (snd_una k') (snd_nxt k') \<le> unat (flush_cwnd k))"
proof -
  have c: "flush_cwnd (controlled k) = flush_cwnd k" by (simp add: flush_cwnd_def controlled_def Let_def)
  obtain n new where R: "n = min (length (snd_queue k)) (unat (flush_cwnd k) - seqoff (snd_una k) (snd_nxt k))"
    "snd_queue (ready k) = drop n (snd_queue k)" "snd_nxt (ready k) = snd_nxt k + of_nat n"
    "snd_una (ready k) = snd_una k" "snd_buf (ready k) = snd_buf k @ new"
    "map s_data new = map s_data (take n (snd_queue k))" "map s_frg new = map s_frg (take n (snd_queue k))"
    "map s_sn new = map (\<lambda>i. snd_nxt k + of_nat i) [0..<n]"
    using ready_spec(2) [OF assms(1), unfolded c] by blast
  have w: "seqoff (snd_una k) (snd_nxt k + of_nat n) \<le> unat (flush_cwnd k)" if "0 < n"
  proof -
    let ?u = "seqoff (snd_una k) (snd_nxt k)"
    have u: "?u < unat (flush_cwnd k)" "?u + n \<le> unat (flush_cwnd k)" using that R(1) by auto
    have f: "unat (flush_cwnd k) \<le> 65535" by (rule flush_cwnd_bound [OF kcp_inv_parts(1) [OF assms(1)]])
    have "seqoff (snd_una k) (snd_nxt k + of_nat n) = ?u + n"
      by (rule seqoff_add) (use u(2) f in linarith)
    then show ?thesis using u(2) by simp
  qed
  obtain gs where "ikcp_flush k = Inr (flushed k, map datagram gs)"
    using ikcp_flush_spec [OF assms] by blast
  then show ?thesis using R w
    by (intro exI [of _ "flushed k"] exI [of _ "map datagram gs"] exI [of _ n])
       (simp add: flushed_fields comp_def)
qed

theorem flush_fills_window_witness:
  "\<exists>k' pkts. ikcp_flush sending = Inr (k', pkts) \<and> snd_queue k' = [] \<and> map s_data (snd_buf k') = [[1, 2]]"
proof -
  obtain k' pkts n where *: "ikcp_flush sending = Inr (k', pkts)"
    "n = min (length (snd_queue sending)) (unat (flush_cwnd sending) - seqoff (snd_una sending) (snd_nxt sending))"
    "snd_queue k' = drop n (snd_queue sending)"
    "map s_data (snd_buf k') = map s_data (snd_buf sending) @ map s_data (take n (snd_queue sending))"
    using flush_fills_window [OF sending_inv sending_fields(1-3)] by blast
  have "n = 1" using *(2) by (simp add: sending_fields)
  then show ?thesis using * sending_fields(4,5,9) by (intro exI [of _ k'] exI [of _ pkts]) simp
qed

lemma ready_same:
  "current (ready k) = current k \<and> fastlimit (ready k) = fastlimit k \<and> fastresend (ready k) = fastresend k \<and>
   dead_link (ready k) = dead_link k \<and> nodelay (ready k) = nodelay k"
proof -
  have "current (flush_move w c q j) = current j \<and> fastlimit (flush_move w c q j) = fastlimit j \<and>
    fastresend (flush_move w c q j) = fastresend j \<and> dead_link (flush_move w c q j) = dead_link j \<and>
    nodelay (flush_move w c q j) = nodelay j" for w c q j
    by (induction w c q j rule: flush_move.induct) (simp_all add: flush_move_Cons moved_out_def)
  then show ?thesis by (simp add: ready_def controlled_def)
qed

text \<open>
  C17. Retransmission. Every segment in flight that has never been sent, whose retransmission time
  has come, or that enough later segments have overtaken (and that has not been sent more than
  \<open>fastlimit\<close> times, if there is a limit), is in one of the datagrams of the flush with its own
  number and data, and its transmission count goes up by one; the others are left as they are.
\<close>

theorem flush_sends_due:
  assumes "kcp_inv k" "output_set k" "updated k \<noteq> 0" "unat (ackcount k) < 2147483648"
    and "s \<in> set (snd_buf k)"
  shows "\<exists>k' gs s'. ikcp_flush k = Inr (k', map datagram gs) \<and> s' \<in> set (snd_buf k') \<and>
    s_sn s' = s_sn s \<and> s_data s' = s_data s \<and>
    (if s_xmit s = 0 \<or> itimediff (current k) (s_resendts s) \<ge> 0 \<or>
        s_fastack s \<ge> flush_resent k \<and> (sint (s_xmit s) \<le> fastlimit k \<or> fastlimit k \<le> 0)
     then (\<exists>g \<in> set gs. s' \<in> set g) \<and> s_xmit s' = s_xmit s + 1
     else s' = s)"
proof -
  let ?r = "ready k" and ?resent = "flush_resent (ready k)"
  let ?up = "resend (advertised k) ?resent (flush_rtomin ?r) ?r"
  obtain gs where f: "ikcp_flush k = Inr (flushed k, map datagram gs)"
    "concat gs = ack_segs k @ probe_segs k @ data_segs k" using ikcp_flush_spec [OF assms(1-4)] by blast
  have s: "s \<in> set (snd_buf ?r)" using ready_spec(2) [OF assms(1)] assms(5) by auto
  have e: "current ?r = current k" "fastlimit ?r = fastlimit k" "fastresend ?r = fastresend k"
    using ready_same [of k] by simp_all
  have due: "seg_due ?r ?resent s \<noteq> NotDue \<longleftrightarrow>
      s_xmit s = 0 \<or> itimediff (current k) (s_resendts s) \<ge> 0 \<or>
      s_fastack s \<ge> flush_resent k \<and> (sint (s_xmit s) \<le> fastlimit k \<or> fastlimit k \<le> 0)"
    by (simp add: seg_due_def e flush_resent_def)
  have "?up s \<in> set (snd_buf (flushed k))" using s by (simp add: flushed_fields)
  moreover have "\<exists>g \<in> set gs. ?up s \<in> set g" "s_xmit (?up s) = s_xmit s + 1" if "seg_due ?r ?resent s \<noteq> NotDue"
  proof -
    have "?up s \<in> set (data_segs k)" using s that by (simp add: data_segs_def sent_segs_def)
    then have "?up s \<in> set (concat gs)" using f(2) by simp
    then show "\<exists>g \<in> set gs. ?up s \<in> set g" by simp
    show "s_xmit (?up s) = s_xmit s + 1" using that
      by (cases "seg_due ?r ?resent s") (simp_all add: resend_def seg_update_def Let_def)
  qed
  moreover have "?up s = s" if "seg_due ?r ?resent s = NotDue" using that by (simp add: resend_def)
  ultimately show ?thesis unfolding due [symmetric] using f(1)
    by (intro exI [of _ "flushed k"] exI [of _ gs] exI [of _ "?up s"]) simp
qed

definition flying :: kcpcb where
  "flying = in_flight2\<lparr>output_set := True, updated := 1\<rparr>"

lemma flying_inv: "kcp_inv flying"
proof (rule kcp_invI)
  note i = kcp_inv_parts [OF fresh_inv [of 7]]
  show "cfg_inv flying" by (rule cfg_frame [OF i(1)]) (simp_all add: flying_def in_flight2_def)
  show "snd_inv flying" by (rule snd_frame [OF in_flight2_inv]) (simp_all add: flying_def)
  show "rcv_inv flying" by (rule rcv_frame [OF i(3)]) (simp_all add: flying_def in_flight2_def)
  show "ack_inv flying" by (rule ack_frame [OF i(4)]) (simp_all add: flying_def in_flight2_def)
qed

theorem flush_sends_due_witness:
  "\<exists>k' gs s'. ikcp_flush flying = Inr (k', map datagram gs) \<and> (\<exists>g \<in> set gs. s' \<in> set g) \<and> s_sn s' = 1"
proof -
  have f: "output_set flying" "updated flying \<noteq> 0" "unat (ackcount flying) < 2147483648"
    "(ikcp_segment_new [])\<lparr>s_sn := 1\<rparr> \<in> set (snd_buf flying)"
    by (simp_all add: flying_def in_flight2_def)
  from flush_sends_due [OF flying_inv f] show ?thesis
    by (simp add: ikcp_segment_new_def) blast
qed

end
