(* ===== verification/Kcp_Timer.thy ===== *)
theory Kcp_Timer
  imports Kcp_Flush
begin

text \<open>
  \<open>ikcp_update\<close>, which drives the flush timer, and \<open>ikcp_check\<close>, which tells the user when to call
  it next.
\<close>

definition update_timer :: "kcpcb \<Rightarrow> u32 \<Rightarrow> bool \<times> kcpcb" where
  \<comment> \<open>\<open>ikcp_update\<close> up to the call of \<open>ikcp_flush\<close>: is a flush due, and the timer set for the next\<close>
  "update_timer k cur =
     (let k = k\<lparr>current := cur\<rparr>;
          k = (if updated k = 0 then k\<lparr>updated := 1, ts_flush := current k\<rparr> else k);
          slap = itimediff (current k) (ts_flush k);
          (k, slap) = (if slap \<ge> 10000 \<or> slap < -10000 then (k\<lparr>ts_flush := current k\<rparr>, 0)
                       else (k, slap))
      in if slap \<ge> 0 then
           let k = k\<lparr>ts_flush := ts_flush k + interval k\<rparr>
           in (True, if itimediff (current k) (ts_flush k) \<ge> 0
                     then k\<lparr>ts_flush := current k + interval k\<rparr> else k)
         else (False, k))"

definition ikcp_update :: "kcpcb \<Rightarrow> u32 \<Rightarrow> fault + (kcpcb \<times> bytes list)" where
  "ikcp_update k cur =
     (let (due, k) = update_timer k cur in if due then ikcp_flush k else Inr (k, []))"

fun check_packets :: "u32 \<Rightarrow> seg list \<Rightarrow> int \<Rightarrow> int option" where
  \<comment> \<open>the loop over \<open>snd_buf\<close>; \<open>None\<close> is the early return of \<open>current\<close>\<close>
  "check_packets cur [] tm = Some tm"
| "check_packets cur (s # q) tm =
     (let diff = itimediff (s_resendts s) cur
      in if diff \<le> 0 then None else check_packets cur q (if diff < tm then diff else tm))"

definition ikcp_check :: "kcpcb \<Rightarrow> u32 \<Rightarrow> u32" where
  "ikcp_check k cur =
     (if updated k = 0 then cur
      else
        let tsf = (if itimediff cur (ts_flush k) \<ge> 10000 \<or> itimediff cur (ts_flush k) < -10000
                   then cur else ts_flush k)
        in if itimediff cur tsf \<ge> 0 then cur
           else
             let tm_flush = itimediff tsf cur
             in case check_packets cur (snd_buf k) 0x7fffffff of
                  None \<Rightarrow> cur
                | Some tm_packet \<Rightarrow>
                    let minimal = (of_int (if tm_packet < tm_flush then tm_packet else tm_flush) :: u32);
                        minimal = (if minimal \<ge> interval k then interval k else minimal)
                    in cur + minimal)"

section \<open>\<open>ikcp_update\<close>\<close>

lemma timer_fields [simp]:
  "current (snd (update_timer k cur)) = cur" "updated (snd (update_timer k cur)) \<noteq> 0"
  "ackcount (snd (update_timer k cur)) = ackcount k" "output_set (snd (update_timer k cur)) = output_set k"
  "mtu (snd (update_timer k cur)) = mtu k" "interval (snd (update_timer k cur)) = interval k"
  "conv (snd (update_timer k cur)) = conv k" "probe (snd (update_timer k cur)) = probe k"
  "snd_buf (snd (update_timer k cur)) = snd_buf k" "snd_queue (snd (update_timer k cur)) = snd_queue k"
  "snd_una (snd (update_timer k cur)) = snd_una k" "snd_nxt (snd (update_timer k cur)) = snd_nxt k"
  "rcv_queue (snd (update_timer k cur)) = rcv_queue k" "rcv_buf (snd (update_timer k cur)) = rcv_buf k"
  "rcv_nxt (snd (update_timer k cur)) = rcv_nxt k" "rcv_wnd (snd (update_timer k cur)) = rcv_wnd k"
  "acklist (snd (update_timer k cur)) = acklist k"
  by (simp_all add: update_timer_def Let_def)

lemma timer_inv:
  assumes "kcp_inv k"
  shows "kcp_inv (snd (update_timer k cur))"
proof (rule kcp_invI)
  note i = kcp_inv_parts [OF assms]
  show "cfg_inv (snd (update_timer k cur))" by (rule cfg_frame [OF i(1)]) (simp_all add: update_timer_def Let_def)
  show "snd_inv (snd (update_timer k cur))" by (rule snd_frame [OF i(2)]) (simp_all add: update_timer_def Let_def)
  show "rcv_inv (snd (update_timer k cur))" by (rule rcv_frame [OF i(3)]) (simp_all add: update_timer_def Let_def)
  show "ack_inv (snd (update_timer k cur))" by (rule ack_frame [OF i(4)]) (simp_all add: update_timer_def Let_def)
qed

lemma ikcp_update_alt:
  "ikcp_update k cur =
     (if fst (update_timer k cur) then ikcp_flush (snd (update_timer k cur))
      else Inr (snd (update_timer k cur), []))"
  by (simp add: ikcp_update_def case_prod_unfold)

lemma ikcp_update_total:
  assumes "kcp_inv k" "output_set k" "unat (ackcount k) < 2147483648"
  shows "\<exists>k' pkts. ikcp_update k cur = Inr (k', pkts) \<and> kcp_inv k' \<and> output_set k' \<and> conv k' = conv k \<and>
    unat (ackcount k') \<le> unat (ackcount k) \<and>
    (\<forall>p \<in> set pkts. 24 \<le> length p \<and> length p \<le> unat (mtu k))"
proof (cases "fst (update_timer k cur)")
  case False
  then show ?thesis using timer_inv [OF assms(1)] assms(2) by (simp add: ikcp_update_alt)
next
  case True
  let ?k = "snd (update_timer k cur)"
  have i: "kcp_inv ?k" "output_set ?k" "updated ?k \<noteq> 0" "unat (ackcount ?k) < 2147483648"
    using assms timer_inv by simp_all
  obtain gs where f: "ikcp_flush ?k = Inr (flushed ?k, map datagram gs)"
    "\<forall>g \<in> set gs. g \<noteq> [] \<and> length (datagram g) \<le> unat (mtu ?k)"
    using ikcp_flush_spec [OF i] by blast
  have "24 \<le> length (datagram g)" if "g \<noteq> []" for g using that by (cases g) simp_all
  then show ?thesis using True f flushed_inv [OF i(1)] assms(2)
    by (auto simp: ikcp_update_alt flushed_fields)
qed

text \<open>
  C21. \<open>ikcp_update\<close> is safe, due or not, whatever time the caller passes: it returns, and the
  datagrams it hands out hold at least one header and at most \<open>mtu\<close> bytes.
\<close>

theorem ikcp_update_safe:
  assumes "kcp_inv k" "output_set k" "unat (ackcount k) < 2147483648"
  shows "\<exists>k' pkts. ikcp_update k cur = Inr (k', pkts) \<and> kcp_inv k' \<and>
    (\<forall>p \<in> set pkts. 24 \<le> length p \<and> length p \<le> unat (mtu k))"
  using ikcp_update_total [OF assms] by blast

theorem ikcp_update_safe_witness:
  "\<exists>k' pkts. ikcp_update sending 5 = Inr (k', pkts) \<and> kcp_inv k'"
  using ikcp_update_safe [OF sending_inv sending_fields(1,3)] by blast

section \<open>The flush timer\<close>

lemma itimediff_add:
  assumes "unat w < 2147483648"
  shows "itimediff (cur + w) cur = int (unat w)"
  using itimediff_base [of cur "cur + w"] assms by (simp add: seqoff_plus)

text \<open>After a flush, the next one is due within one interval, and not at once.\<close>

lemma timer_next:
  assumes "10 \<le> unat (interval k)" "unat (interval k) \<le> 5000"
  shows "0 < itimediff (ts_flush (snd (update_timer k cur))) cur \<and>
    itimediff (ts_flush (snd (update_timer k cur))) cur \<le>
      (if fst (update_timer k cur) then int (unat (interval k)) else 10000)"
proof -
  let ?i = "interval k"
  have base: "itimediff (cur + ?i) cur = int (unat ?i)" by (rule itimediff_add) (use assms in simp)
  have pos: "0 < int (unat ?i)" using assms(1) by linarith
  have neg: "itimediff cur (cur + ?i) < 0"
    using itimediff_swap [of "cur + ?i" cur] base assms by linarith
  define t where "t = (if updated k = 0 then cur else ts_flush k)"
  define slap where "slap = itimediff cur t"
  show ?thesis
  proof (cases "slap \<ge> 10000 \<or> slap < -10000")
    case True
    then have "ts_flush (snd (update_timer k cur)) = cur + ?i" "fst (update_timer k cur)"
      using neg by (auto simp: update_timer_def Let_def slap_def t_def split: if_splits)
    then show ?thesis using base pos by simp
  next
    case near: False
    show ?thesis
    proof (cases "slap \<ge> 0")
      case True
      define s where "s = nat slap"
      have s: "seqoff t cur = s" "s < 10000"
        using True near itimediff_nonneg [of cur t] itimediff_base [of t cur] by (auto simp: s_def slap_def)
      have d: "itimediff cur (t + ?i) = int s - int (unat ?i)"
        using itimediff_seqoff [of t cur "t + ?i"] s assms by (simp add: seqoff_plus)
      have d': "itimediff (t + ?i) cur = int (unat ?i) - int s"
        using itimediff_seqoff [of t "t + ?i" cur] s assms by (simp add: seqoff_plus)
      show ?thesis
      proof (cases "itimediff cur (t + ?i) \<ge> 0")
        case True
        then have "ts_flush (snd (update_timer k cur)) = cur + ?i" "fst (update_timer k cur)"
          using near \<open>slap \<ge> 0\<close> by (auto simp: update_timer_def Let_def slap_def t_def split: if_splits)
        then show ?thesis using base pos by simp
      next
        case False
        then have "ts_flush (snd (update_timer k cur)) = t + ?i" "fst (update_timer k cur)"
          using near \<open>slap \<ge> 0\<close> by (auto simp: update_timer_def Let_def slap_def t_def split: if_splits)
        then show ?thesis using d d' False by simp
      qed
    next
      case False
      then have u: "updated k \<noteq> 0" "t = ts_flush k" by (auto simp: slap_def t_def split: if_splits)
      have o: "ts_flush (snd (update_timer k cur)) = t" "\<not> fst (update_timer k cur)"
        using near False u by (auto simp: update_timer_def Let_def slap_def)
      have "itimediff t cur = - slap" unfolding slap_def
        by (rule itimediff_swap) (use near in \<open>simp add: slap_def\<close>)
      then show ?thesis using o False near by simp
    qed
  qed
qed

lemma ready_ts_flush: "ts_flush (ready k) = ts_flush k"
proof -
  have "ts_flush (flush_move w c q j) = ts_flush j" for w c q j
    by (induction w c q j rule: flush_move.induct) (simp_all add: flush_move_Cons moved_out_def)
  then show ?thesis by (simp add: ready_def controlled_def flush_probe_timer_def Let_def)
qed

text \<open>
  The flush timer. With the interval the setters allow (10 to 5000 ms), after \<open>ikcp_update\<close>
  has flushed, the next flush is due within one interval and not at once, however long
  the caller has been away; when it has not flushed, within 10 s.
\<close>

theorem update_schedules_next:
  assumes "10 \<le> unat (interval k)" "unat (interval k) \<le> 5000"
    and "kcp_inv k" "output_set k" "unat (ackcount k) < 2147483648"
  shows "\<exists>k' pkts. ikcp_update k cur = Inr (k', pkts) \<and> current k' = cur \<and>
    0 < itimediff (ts_flush k') cur \<and>
    itimediff (ts_flush k') cur \<le> (if fst (update_timer k cur) then int (unat (interval k)) else 10000)"
proof -
  note T = timer_next [OF assms(1,2), of cur]
  show ?thesis
  proof (cases "fst (update_timer k cur)")
    case False
    then show ?thesis using T by (simp add: ikcp_update_alt)
  next
    case True
    let ?k = "snd (update_timer k cur)"
    obtain gs where f: "ikcp_flush ?k = Inr (flushed ?k, map datagram gs)"
      using ikcp_flush_spec [of ?k] assms(3-5) timer_inv by auto
    have "ts_flush (flushed ?k) = ts_flush ?k" "current (flushed ?k) = cur"
      using ready_same [of ?k] ready_ts_flush [of ?k] by (simp_all add: flushed_def Let_def)
    then show ?thesis using T True f by (simp add: ikcp_update_alt)
  qed
qed

theorem update_schedules_next_witness:
  "\<exists>k' pkts. ikcp_update sending 5 = Inr (k', pkts) \<and> 0 < itimediff (ts_flush k') 5"
proof -
  have "unat (interval sending) = 100" by (simp add: sending_def queued_def)
  then show ?thesis
    using update_schedules_next [of sending 5, OF _ _ sending_inv sending_fields(1,3)] by auto
qed

section \<open>\<open>ikcp_check\<close>\<close>

lemma check_packets_spec:
  "check_packets cur q tm = Some r \<Longrightarrow>
   r \<le> tm \<and> (\<forall>s \<in> set q. 0 < itimediff (s_resendts s) cur \<and> r \<le> itimediff (s_resendts s) cur) \<and>
   (0 < tm \<longrightarrow> 0 < r)"
  by (induction cur q tm rule: check_packets.induct) (fastforce simp: Let_def split: if_splits)+

lemma itimediff_later:
  assumes "int d < itimediff x cur"
  shows "itimediff x (cur + of_nat d) = itimediff x cur - int d"
proof -
  have "seqoff cur x < 2147483648" using assms itimediff_nonneg [of x cur] by linarith
  then have x: "itimediff x cur = int (seqoff cur x)" "seqoff cur x < 2147483648"
    by (simp_all add: itimediff_base)
  then have "seqoff cur (cur + of_nat d) = d"
    using assms by (simp add: seqoff_plus unat_of_nat_u32)
  then show ?thesis using itimediff_seqoff [of cur x "cur + of_nat d"] x assms by simp
qed

definition check_delay :: "kcpcb \<Rightarrow> u32 \<Rightarrow> nat" where
  "check_delay k cur = seqoff cur (ikcp_check k cur)"

lemma check_now: "ikcp_check k cur = cur \<Longrightarrow> check_delay k cur = 0"
  by (simp add: check_delay_def)

text \<open>What \<open>ikcp_check\<close> returns when it does not say "now".\<close>

lemma check_later:
  assumes "0 < check_delay k cur"
  shows "check_delay k cur \<le> unat (interval k) \<and> updated k \<noteq> 0 \<and>
    itimediff cur (ts_flush k) < 0 \<and> - 10000 \<le> itimediff cur (ts_flush k) \<and>
    int (check_delay k cur) \<le> itimediff (ts_flush k) cur \<and>
    (\<forall>s \<in> set (snd_buf k). int (check_delay k cur) \<le> itimediff (s_resendts s) cur)"
proof -
  have ne: "ikcp_check k cur \<noteq> cur" using assms check_now by fastforce
  then have u: "updated k \<noteq> 0" by (auto simp: ikcp_check_def)
  have near: "\<not> (itimediff cur (ts_flush k) \<ge> 10000 \<or> itimediff cur (ts_flush k) < -10000)"
    using ne u by (auto simp: ikcp_check_def Let_def)
  have neg: "itimediff cur (ts_flush k) < 0"
  proof (rule ccontr)
    assume "\<not> itimediff cur (ts_flush k) < 0"
    then have "ikcp_check k cur = cur" using u near by (simp add: ikcp_check_def Let_def)
    with ne show False ..
  qed
  let ?f = "itimediff (ts_flush k) cur"
  obtain p where p: "check_packets cur (snd_buf k) 2147483647 = Some p"
    using ne u near neg by (cases "check_packets cur (snd_buf k) 2147483647") (auto simp: ikcp_check_def Let_def)
  define m where "m = (if p < ?f then p else ?f)"
  have f: "0 < ?f" "?f \<le> 10000"
    using itimediff_swap [of cur "ts_flush k"] near neg by auto
  have P: "0 < p" "\<forall>s \<in> set (snd_buf k). p \<le> itimediff (s_resendts s) cur"
    using check_packets_spec [OF p] by auto
  then have m: "0 < m" "m \<le> 10000" "m \<le> ?f" "m \<le> p" using f by (auto simp: m_def)
  have um: "unat (of_int m :: u32) = nat m"
    using m unat_of_nat_u32 [of "nat m"] by simp
  let ?d = "if (of_int m :: u32) \<ge> interval k then interval k else of_int m"
  have "ikcp_check k cur = cur + ?d"
    using u near neg p by (simp add: ikcp_check_def Let_def m_def)
  then have c: "check_delay k cur = unat ?d" by (simp add: check_delay_def seqoff_plus)
  have "unat ?d \<le> unat (interval k)" "unat ?d \<le> nat m"
    using um by (auto simp: unat_le_u32)
  then have "int (check_delay k cur) \<le> m" "check_delay k cur \<le> unat (interval k)"
    using c m(1) by linarith+
  then show ?thesis using u near neg m(3,4) P(2) by fastforce
qed

text \<open>
  C22. \<open>ikcp_check\<close> is never late. The time it returns is at most one interval ahead; and
  at every time before it, calling \<open>ikcp_update\<close> sends nothing and changes nothing but the clock,
  and no segment in flight has reached its retransmission time. So a caller that sleeps
  until that time misses nothing.
\<close>

theorem check_never_late:
  assumes "d < check_delay k cur"
  shows "check_delay k cur \<le> unat (interval k) \<and>
    ikcp_update k (cur + of_nat d) = Inr (k\<lparr>current := cur + of_nat d\<rparr>, []) \<and>
    (\<forall>s \<in> set (snd_buf k). 0 < itimediff (s_resendts s) (cur + of_nat d))"
proof (intro conjI)
  have "0 < check_delay k cur" using assms by simp
  note L = check_later [OF this]
  show "check_delay k cur \<le> unat (interval k)" using L by blast
  have later: "0 < itimediff x (cur + of_nat d)" if "int (check_delay k cur) \<le> itimediff x cur" for x
    using itimediff_later [of d x cur] that assms by linarith
  show "\<forall>s \<in> set (snd_buf k). 0 < itimediff (s_resendts s) (cur + of_nat d)"
    using L later by blast
  have f: "0 < itimediff (ts_flush k) (cur + of_nat d)"
    "itimediff (ts_flush k) (cur + of_nat d) = itimediff (ts_flush k) cur - int d"
    using L later itimediff_later [of d "ts_flush k" cur] assms by auto
  have "itimediff (ts_flush k) cur \<le> 10000"
    using L itimediff_swap [of cur "ts_flush k"] by linarith
  then have "itimediff (cur + of_nat d) (ts_flush k) < 0" "- 10000 \<le> itimediff (cur + of_nat d) (ts_flush k)"
    using f itimediff_swap [of "ts_flush k" "cur + of_nat d"] by linarith+
  then have "update_timer k (cur + of_nat d) = (False, k\<lparr>current := cur + of_nat d\<rparr>)"
    using L by (simp add: update_timer_def Let_def)
  then show "ikcp_update k (cur + of_nat d) = Inr (k\<lparr>current := cur + of_nat d\<rparr>, [])"
    by (simp add: ikcp_update_def)
qed

theorem check_never_late_witness:
  "ikcp_update ((kcp_fresh 7)\<lparr>updated := 1\<rparr>) 40 = Inr ((kcp_fresh 7)\<lparr>updated := 1, current := 40\<rparr>, [])"
proof -
  have "ikcp_check ((kcp_fresh 7)\<lparr>updated := 1\<rparr>) 0 = 100"
    by (simp add: ikcp_check_def Let_def itimediff_def)
  then have "40 < check_delay ((kcp_fresh 7)\<lparr>updated := 1\<rparr>) 0" by (simp add: check_delay_def seqoff_def)
  from check_never_late [OF this] show ?thesis by simp
qed

end
