(* ===== verification/Kcp_Datagram.thy ===== *)
theory Kcp_Datagram
  imports Kcp_Input Kcp_Timer
begin

text \<open>
  How a datagram that one endpoint's \<open>ikcp_flush\<close> put together is taken apart by the other
  endpoint's \<open>ikcp_input\<close>: segment by segment, in order, each PUSH handed to the abstract receiver.
  And what the input leaves alone on the sending side. Both are what \<open>Kcp_Net\<close> needs.
\<close>

section \<open>The sending side across \<open>ikcp_input\<close>\<close>

text \<open>The fields of a segment in flight that never change.\<close>

definition core :: "seg \<Rightarrow> u32 \<times> u32 \<times> u32 \<times> u32 \<times> bytes" where
  "core s = (s_conv s, s_cmd s, s_frg s, s_sn s, s_data s)"

text \<open>\<open>sends_less k k'\<close>: on the way from \<open>k\<close> to \<open>k'\<close> segments may only have left \<open>snd_buf\<close>.\<close>

definition sends_less :: "kcpcb \<Rightarrow> kcpcb \<Rightarrow> bool" where
  "sends_less k k' =
     (snd_queue k' = snd_queue k \<and> snd_nxt k' = snd_nxt k \<and> conv k' = conv k \<and>
      stream k' = stream k \<and> output_set k' = output_set k \<and> mss k' = mss k \<and> rcv_wnd k' = rcv_wnd k \<and>
      core ` set (snd_buf k') \<subseteq> core ` set (snd_buf k))"

lemma sends_less_refl [simp]: "sends_less k k"
  by (simp add: sends_less_def)

lemma sends_less_trans:
  assumes "sends_less k k'" "sends_less k' k''"
  shows "sends_less k k''"
proof -
  have "core ` set (snd_buf k'') \<subseteq> core ` set (snd_buf k)"
    using assms unfolding sends_less_def by (blast intro: subset_trans)
  then show ?thesis using assms by (simp add: sends_less_def)
qed

lemma sends_less_una: "snd_buf k = q \<Longrightarrow> sends_less k (una_loop una q k)"
proof (induction una q k rule: una_loop.induct)
  case (2 una s q k)
  show ?case
  proof (cases "itimediff una (s_sn s) > 0")
    case True
    have "sends_less k (k\<lparr>snd_buf := q, nsnd_buf := nsnd_buf k - 1\<rparr>)"
      using 2(2) by (auto simp: sends_less_def)
    then show ?thesis using True 2(1) [OF True] by (auto elim: sends_less_trans)
  qed simp
qed simp

lemma sends_less_shrink: "sends_less k (ikcp_shrink_buf k)"
  by (simp add: shrink_buf_alt sends_less_def)

lemma sends_less_rtt: "sends_less k (rtt_step k h)"
  by (simp add: rtt_step_def sends_less_def update_ack_same)

lemma ack_scan_subset: "ack_scan sn q = Some r \<Longrightarrow> set r \<subseteq> set q"
  by (induction q arbitrary: r) (auto split: if_splits)

lemma sends_less_parse_ack: "sends_less k (ikcp_parse_ack k sn)"
  by (auto simp: ikcp_parse_ack_def sends_less_def split: option.split dest!: ack_scan_subset)

lemma sends_less_ack_push: "ikcp_ack_push k sn ts alloc = Inr k' \<Longrightarrow> sends_less k k'"
  by (auto simp: ikcp_ack_push_def ack_grow_def Let_def andThen_Inr sends_less_def
      split: if_splits option.splits)

lemma sends_less_parse_data: "sends_less k (ikcp_parse_data k s)"
  by (simp add: sends_less_def)

lemma fastack_cores: "map core (fastack_scan sn q) = map core q"
  by (induction q) (auto simp: core_def)

lemma sends_less_fastack: "sends_less k (ikcp_parse_fastack k sn ts)"
proof -
  have "core ` set (fastack_scan sn q) = core ` set q" for q
    by (metis fastack_cores list.set_map)
  then show ?thesis by (simp add: ikcp_parse_fastack_def sends_less_def)
qed

lemma sends_less_open: "open_cwnd k = Inr k' \<Longrightarrow> sends_less k k'"
  unfolding open_cwnd_def Let_def by (auto simp: andThen_Inr sends_less_def split: if_splits)

lemma sends_less_una_step: "sends_less k (una_step k h)"
proof -
  have "sends_less k (k\<lparr>rmt_wnd := ucast (h_wnd h)\<rparr>)" by (simp add: sends_less_def)
  then show ?thesis unfolding una_step_def ikcp_parse_una_def
    by (blast intro: sends_less_trans sends_less_una sends_less_shrink)
qed

lemma sends_less_input_ack: "sends_less k (input_ack k h)"
  unfolding input_ack_def Let_def rtt_step_def [symmetric]
  by (blast intro: sends_less_trans sends_less_rtt sends_less_parse_ack sends_less_shrink)

lemma sends_less_push: "input_push k h d mem = Inr k' \<Longrightarrow> sends_less k k'"
  unfolding input_push_def
  by (auto simp: andThen_Inr split: if_splits
      intro: sends_less_trans sends_less_ack_push sends_less_parse_data)

lemma sends_less_cmd: "input_cmd k a h d mem = Inr (Some (k', a')) \<Longrightarrow> sends_less k k'"
proof -
  have p: "sends_less j (j\<lparr>probe := p\<rparr>)" for j p by (simp add: sends_less_def)
  assume "input_cmd k a h d mem = Inr (Some (k', a'))"
  then show ?thesis unfolding input_cmd_alt
    by (auto simp: andThen_Inr split: if_splits
        intro: sends_less_trans sends_less_una_step sends_less_input_ack sends_less_push p)
qed

lemma sends_less_step: "input_step k a d sz alloc = Inr (InNext k' a' d' sz') \<Longrightarrow> sends_less k k'"
  unfolding input_step_def
  by (auto simp: andThen_Inr Let_def split: if_splits option.splits intro: sends_less_cmd)

lemma sends_less_loop: "input_loop k a d sz alloc = Inr (r, k', a') \<Longrightarrow> sends_less k k'"
proof (induction k a d sz alloc rule: input_loop.induct)
  case (1 k a d sz alloc)
  then show ?case
    by (auto simp: input_loop.simps [of k a d sz] split: sum.splits in_step.splits
        intro: sends_less_trans sends_less_step)
qed

lemma sends_less_finish:
  assumes "input_finish k a u = Inr k'"
  shows "sends_less k k'"
proof -
  define j where "j = (if a_flag a then ikcp_parse_fastack k (a_maxack a) (a_latest_ts a) else k)"
  have "sends_less k j" by (simp add: j_def sends_less_fastack)
  moreover have "(if itimediff (snd_una j) u > 0 \<and> cwnd j < rmt_wnd j then open_cwnd j else Inr j) = Inr k'"
    using assms unfolding input_finish_def j_def Let_def .
  then have "sends_less j k'" by (auto split: if_splits intro: sends_less_open)
  ultimately show ?thesis by (rule sends_less_trans)
qed

lemma input_sends_less: "ikcp_input k data sz alloc = Inr (r, k') \<Longrightarrow> sends_less k k'"
  unfolding ikcp_input_def
  by (auto simp: andThen_Inr split: option.splits if_splits
      dest: sends_less_loop sends_less_finish intro: sends_less_trans)

section \<open>The receiving side: one segment after the other\<close>

definition valid_seg :: "u32 \<Rightarrow> seg \<Rightarrow> bool" where
  "valid_seg cv s =
     (s_conv s = cv \<and> (s_cmd s = 81 \<or> s_cmd s = 82 \<or> s_cmd s = 83 \<or> s_cmd s = 84) \<and> seg_ok s \<and>
      length (s_data s) < 2147483648)"

definition take_in :: "nat \<Rightarrow> seg \<Rightarrow> receiver \<Rightarrow> receiver" where
  \<comment> \<open>the effect of one segment of a datagram on the abstract receiver\<close>
  "take_in w s a = (if s_cmd s = IKCP_CMD_PUSH then accept w (push_seg (hdr_of s) (s_data s)) a else a)"

lemma input_cmd_receiver:
  assumes "kcp_inv k" "unat (ackcount k) < 2147483647" "unat (h_len h) \<le> length data"
    and "input_cmd k a h data (True, True) = Inr (Some (k', a'))"
  shows "receiver_of k' =
    (if h_cmd h = 81 then accept (unat (rcv_wnd k)) (push_seg h (take (unat (h_len h)) data)) (receiver_of k)
     else receiver_of k)"
proof -
  note U = una_step_inv [OF assms(1), of h] and F = una_step_frame [OF assms(1), of h]
  have "unat (ackcount (una_step k h)) < 2147483647" using assms(2) F by simp
  note P = input_push_spec [OF U this assms(3)]
  show ?thesis using assms(4) P F input_ack_frame [OF U, of h]
    unfolding input_cmd_alt by (auto simp: andThen_Inr probe_frame split: if_splits)
qed

lemma valid_cmd:
  assumes "valid_seg cv s"
  shows "known_cmd (h_cmd (hdr_of s))" "h_cmd (hdr_of s) = 81 \<longleftrightarrow> s_cmd s = 81"
  using assms by (auto simp: valid_seg_def hdr_of_def known_cmd_def)

lemma valid_len:
  assumes "valid_seg cv s"
  shows "unat (h_len (hdr_of s)) = length (s_data s)" "uint (h_len (hdr_of s)) = int (length (s_data s))"
    "0 \<le> sint (h_len (hdr_of s))"
proof -
  show u: "unat (h_len (hdr_of s)) = length (s_data s)"
    using assms by (simp add: valid_seg_def seg_ok_def hdr_of_def)
  have "int (unat (h_len (hdr_of s))) = int (length (s_data s))" unfolding u ..
  then show "uint (h_len (hdr_of s)) = int (length (s_data s))" by simp
  show "0 \<le> sint (h_len (hdr_of s))"
    unfolding sint_u32_nonneg u using assms by (simp add: valid_seg_def)
qed

lemma input_step_wire:
  assumes "valid_seg (conv k) s" "kcp_inv k" "unat (ackcount k) < 2147483647"
  shows "\<exists>k' a'. input_step k a (wire s @ rest) (int (length (wire s @ rest))) plenty =
      Inr (InNext k' a' rest (int (length rest))) \<and> kcp_inv k' \<and> conv k' = conv k \<and>
    rcv_wnd k' = rcv_wnd k \<and> unat (ackcount k') \<le> Suc (unat (ackcount k)) \<and>
    receiver_of k' = take_in (unat (rcv_wnd k)) s (receiver_of k)"
proof -
  let ?h = "hdr_of s"
  have d: "decode_hdr (wire s @ rest) = Inr (?h, s_data s @ rest)"
    by (simp add: wire_def decode_encode_seg)
  note c = valid_cmd [OF assms(1)] and l = valid_len [OF assms(1)]
  have lr: "unat (h_len ?h) \<le> length (s_data s @ rest)" unfolding l(1) by simp
  have cv: "h_conv ?h = conv k" using assms(1) by (simp add: valid_seg_def hdr_of_def)
  obtain k' a' where cmd: "input_cmd k a ?h (s_data s @ rest) (True, True) = Inr (Some (k', a'))" "kcp_inv k'"
    "conv k' = conv k" "unat (ackcount k') \<le> Suc (unat (ackcount k))"
    using input_cmd_spec [OF assms(2,3) lr c(1)] by blast
  have "rcv_wnd k' = rcv_wnd k" using sends_less_cmd [OF cmd(1)] by (simp add: sends_less_def)
  moreover have "receiver_of k' = take_in (unat (rcv_wnd k)) s (receiver_of k)"
    using input_cmd_receiver [OF assms(2,3) lr cmd(1)] c(2) unfolding l(1)
    by (simp add: take_in_def)
  moreover have "input_step k a (wire s @ rest) (int (length (wire s @ rest))) plenty =
      Inr (InNext k' a' rest (int (length rest)))"
  proof -
    have "\<not> sint (h_len ?h) < 0" using l(3) by linarith
    then show ?thesis using c(1) cv cmd(1) by (subst input_step_alt [OF d]) (simp_all add: l plenty_apply)
  qed
  ultimately show ?thesis using cmd by blast
qed

lemma input_loop_wire:
  assumes "\<forall>s \<in> set g. valid_seg (conv k) s" "kcp_inv k" "unat (ackcount k) + length g < 2147483648"
  shows "\<exists>k' a'. input_loop k a (datagram g) (int (length (datagram g))) plenty = Inr (None, k', a') \<and>
    kcp_inv k' \<and> conv k' = conv k \<and> receiver_of k' = fold (take_in (unat (rcv_wnd k))) g (receiver_of k)"
  using assms
proof (induction g arbitrary: k a)
  case Nil
  then show ?case by (simp add: input_loop.simps [of k] input_step_def)
next
  case (Cons s g)
  have "valid_seg (conv k) s" "unat (ackcount k) < 2147483647" using Cons.prems by auto
  from input_step_wire [OF this(1) Cons.prems(2) this(2), of a "datagram g"] obtain k1 a1 where
    s: "input_step k a (datagram (s # g)) (int (length (datagram (s # g)))) plenty =
      Inr (InNext k1 a1 (datagram g) (int (length (datagram g))))" "kcp_inv k1" "conv k1 = conv k"
    "rcv_wnd k1 = rcv_wnd k" "unat (ackcount k1) \<le> Suc (unat (ackcount k))"
    "receiver_of k1 = take_in (unat (rcv_wnd k)) s (receiver_of k)" by auto
  have "\<exists>k' a'. input_loop k1 a1 (datagram g) (int (length (datagram g))) plenty = Inr (None, k', a') \<and>
    kcp_inv k' \<and> conv k' = conv k1 \<and> receiver_of k' = fold (take_in (unat (rcv_wnd k1))) g (receiver_of k1)"
    by (rule Cons.IH) (use Cons.prems s in auto)
  then show ?case using s by (simp add: input_loop.simps [of k a])
qed

lemma parse_fastack_receiver: "receiver_of (ikcp_parse_fastack k sn ts) = receiver_of k"
  by (simp add: ikcp_parse_fastack_def receiver_of_def)

lemma open_cwnd_receiver: "open_cwnd k = Inr k' \<Longrightarrow> receiver_of k' = receiver_of k"
  unfolding open_cwnd_def Let_def by (auto simp: andThen_Inr receiver_of_def split: if_splits)

lemma input_finish_receiver:
  assumes "input_finish k a u = Inr k'"
  shows "receiver_of k' = receiver_of k"
proof -
  define j where "j = (if a_flag a then ikcp_parse_fastack k (a_maxack a) (a_latest_ts a) else k)"
  have "receiver_of j = receiver_of k" by (simp add: j_def parse_fastack_receiver)
  moreover have "(if itimediff (snd_una j) u > 0 \<and> cwnd j < rmt_wnd j then open_cwnd j else Inr j) = Inr k'"
    using assms unfolding input_finish_def j_def Let_def .
  then have "receiver_of k' = receiver_of j" by (auto split: if_splits dest: open_cwnd_receiver)
  ultimately show ?thesis by simp
qed

lemma input_datagram:
  assumes "g \<noteq> []" "\<forall>s \<in> set g. valid_seg (conv k) s" "kcp_inv k"
    and "unat (ackcount k) + length g < 2147483648" "length (datagram g) < 2147483648"
  shows "\<exists>k'. ikcp_input k (Some (datagram g)) (int (length (datagram g))) plenty = Inr (0, k') \<and> kcp_inv k' \<and>
    conv k' = conv k \<and> receiver_of k' = fold (take_in (unat (rcv_wnd k))) g (receiver_of k)"
proof -
  let ?a = "\<lparr>a_flag = False, a_maxack = 0, a_latest_ts = 0\<rparr>"
  obtain k1 a1 where l: "input_loop k ?a (datagram g) (int (length (datagram g))) plenty = Inr (None, k1, a1)"
    "kcp_inv k1" "conv k1 = conv k" "receiver_of k1 = fold (take_in (unat (rcv_wnd k))) g (receiver_of k)"
    using input_loop_wire [OF assms(2-4)] by blast
  obtain k2 where f: "input_finish k1 a1 (snd_una k) = Inr k2" "kcp_inv k2" "conv k2 = conv k1"
    using input_finish_spec [OF l(2)] by blast
  have "24 \<le> length (datagram g)" using assms(1) by (cases g) simp_all
  then have "\<not> i32 (int (length (datagram g))) < 24" using assms(5) by (simp add: i32_id)
  then show ?thesis using l f input_finish_receiver [OF f(1)] by (simp add: ikcp_input_def)
qed

text \<open>
  C26. A datagram is taken apart the way it was put together. \<open>ikcp_input\<close> on the bytes of a sequence
  of valid segments of the same conversation returns 0, keeps the invariant, and acts on the
  abstract receiver as the segments do one after the other: a PUSH is offered to it
  with its own number and data, the other commands do not touch it. The allocations it makes are
  assumed to succeed (C3 says what a failing one does).
\<close>

theorem input_takes_datagram_apart:
  assumes "g \<noteq> []" "\<forall>s \<in> set g. valid_seg (conv k) s" "kcp_inv k"
    and "unat (ackcount k) + length g < 2147483648" "length (datagram g) < 2147483648"
  shows "\<exists>k'. ikcp_input k (Some (datagram g)) (int (length (datagram g))) plenty = Inr (0, k') \<and> kcp_inv k' \<and>
    receiver_of k' = fold (take_in (unat (rcv_wnd k))) g (receiver_of k)"
  using input_datagram [OF assms] by blast

definition hello :: seg where
  "hello = (ikcp_segment_new [72, 105])\<lparr>s_conv := 7, s_cmd := 81, s_len := 2\<rparr>"

theorem input_takes_datagram_apart_witness:
  "\<exists>k'. ikcp_input (kcp_fresh 7) (Some (datagram [hello])) 26 plenty = Inr (0, k') \<and> kcp_inv k' \<and>
    receiver_of k' = take_in 128 hello (receiver_of (kcp_fresh 7))"
proof -
  have v: "\<forall>s \<in> set [hello]. valid_seg (conv (kcp_fresh 7)) s" and l: "length (datagram [hello]) = 26"
    by (simp_all add: hello_def valid_seg_def seg_ok_def ikcp_segment_new_def)
  show ?thesis using input_takes_datagram_apart [OF _ v fresh_inv] l by simp
qed

end
