(* ===== verification/Kcp_Net.thy ===== *)
theory Kcp_Net
  imports Kcp_Datagram
begin

text \<open>
  Two endpoints and an unreliable network. Datagrams that side A hands to its callback may be lost,
  repeated and reordered on the way to side B; side A may be fed anything at all. The states are
  the two control blocks, the datagrams A has ever sent, and four histories that no code
  keeps: the fragments A has numbered, the fragments of every accepted message, the messages A
  accepted, and the messages B's user received. The theorem: what B's user received is a prefix of
  what A's user sent, message by message.
\<close>

type_synonym frag = "u32 \<times> bytes"

definition fd :: "seg \<Rightarrow> frag" where
  "fd s = (s_frg s, s_data s)"

definition wf_frags :: "frag list \<Rightarrow> bool" where
  \<comment> \<open>the fragments of one message: numbered downwards, ending with 0\<close>
  "wf_frags f = (f \<noteq> [] \<and> length f < 128 \<and> map fst f = map of_nat (rev [0..<length f]))"

definition msg_of :: "frag list \<Rightarrow> bytes" where
  "msg_of f = concat (map snd f)"

section \<open>The system\<close>

record net =
  side_a :: kcpcb
  side_b :: kcpcb
  n_wire :: "bytes set"
  n_hist :: "frag list"
  n_frags :: "frag list list"
  n_sent :: "bytes list"
  n_got :: "bytes list"

text \<open>
  Both sides as \<open>Forwarder.cpp\<close> and \<open>ClientSideForwarder.cpp\<close> set them up:
  \<open>ikcp_create\<close>, the callback, \<open>ikcp_wndsize(1024, 1024)\<close>, \<open>ikcp_nodelay(2, 10, 2, 1)\<close>.
\<close>

definition kcp_setup :: "kcpcb \<Rightarrow> kcpcb" where
  "kcp_setup k =
     snd (ikcp_nodelay (snd (ikcp_wndsize (ikcp_setoutput k True) 1024 1024)) 2 10 2 1)"

definition session_kcp :: "u32 \<Rightarrow> kcpcb" where
  "session_kcp cv = kcp_setup (kcp_fresh cv)"

definition net_start :: "u32 \<Rightarrow> net" where
  "net_start cv = \<lparr>side_a = session_kcp cv, side_b = session_kcp cv, n_wire = {}, n_hist = [],
     n_frags = [], n_sent = [], n_got = []\<rparr>"

definition acks_fit :: "kcpcb \<Rightarrow> nat \<Rightarrow> bool" where
  \<comment> \<open>the acknowledgement count stays below \<open>2^31\<close> across a datagram of \<open>n\<close> bytes\<close>
  "acks_fit k n = (24 * unat (ackcount k) + n < 51539607528)"

inductive net_step :: "net \<Rightarrow> net \<Rightarrow> bool" where
  send_a: "ikcp_send (side_a n) m (int (length m)) (\<lambda>_. True) = Inr (r, a) \<Longrightarrow>
    length m < 2147483648 \<Longrightarrow>
    net_step n (n\<lparr>side_a := a,
      n_sent := (if r = 0 then n_sent n @ [m] else n_sent n),
      n_frags := (if r = 0 then n_frags n @ [map fd (drop (length (snd_queue (side_a n))) (snd_queue a))]
                  else n_frags n)\<rparr>)"
| update_a: "ikcp_update (side_a n) cur = Inr (a, pkts) \<Longrightarrow> unat (ackcount (side_a n)) < 2147483648 \<Longrightarrow>
    net_step n (n\<lparr>side_a := a, n_wire := n_wire n \<union> set pkts,
      n_hist := n_hist n @ map fd (take (length (snd_queue (side_a n)) - length (snd_queue a))
                                     (snd_queue (side_a n)))\<rparr>)"
| input_a: "ikcp_input (side_a n) (Some d) (int (length d)) alloc = Inr (r, a) \<Longrightarrow>
    acks_fit (side_a n) (length d) \<Longrightarrow> net_step n (n\<lparr>side_a := a\<rparr>)"
| recv_a: "ikcp_recv (side_a n) (Some c) len = Inr (r, out, a) \<Longrightarrow> 0 \<le> len \<Longrightarrow>
    net_step n (n\<lparr>side_a := a\<rparr>)"
| input_b: "p \<in> n_wire n \<Longrightarrow> ikcp_input (side_b n) (Some p) (int (length p)) alloc = Inr (r, b) \<Longrightarrow>
    acks_fit (side_b n) (length p) \<Longrightarrow> net_step n (n\<lparr>side_b := b\<rparr>)"
| recv_b: "ikcp_recv (side_b n) (Some c) len = Inr (r, out, b) \<Longrightarrow> 0 \<le> len \<Longrightarrow>
    net_step n (n\<lparr>side_b := b, n_got := (if r < 0 then n_got n else n_got n @ [out])\<rparr>)"
| update_b: "ikcp_update (side_b n) cur = Inr (b, pkts) \<Longrightarrow> unat (ackcount (side_b n)) < 2147483648 \<Longrightarrow>
    net_step n (n\<lparr>side_b := b\<rparr>)"
| send_b: "ikcp_send (side_b n) m (int (length m)) alloc = Inr (r, b) \<Longrightarrow> length m < 2147483648 \<Longrightarrow>
    net_step n (n\<lparr>side_b := b\<rparr>)"

inductive net_reach :: "u32 \<Rightarrow> net \<Rightarrow> bool" for cv where
  start: "net_reach cv (net_start cv)"
| step: "net_reach cv n \<Longrightarrow> net_step n n' \<Longrightarrow> net_reach cv n'"

inductive_cases net_stepE: "net_step n n'"

section \<open>The receiver against the history\<close>

definition receiver_ok :: "frag list \<Rightarrow> frag list list \<Rightarrow> bytes list \<Rightarrow> receiver \<Rightarrow> bool" where
  "receiver_ok hist frags got a =
     (\<exists>m j. m \<le> length hist \<and> j \<le> length frags \<and> sp_nxt a = of_nat m \<and>
        got = map msg_of (take j frags) \<and> concat (take j frags) @ map fd (sp_out a) = take m hist \<and>
        (\<forall>i s. sp_store a i = Some s \<longrightarrow> (\<exists>t < length hist. i = of_nat t \<and> fd s = hist ! t)))"

lemma receiver_ok_mono:
  assumes "receiver_ok hist frags got a"
  shows "receiver_ok (hist @ x) (frags @ y) got a"
proof -
  obtain m j where r: "m \<le> length hist" "j \<le> length frags" "sp_nxt a = of_nat m"
    "got = map msg_of (take j frags)" "concat (take j frags) @ map fd (sp_out a) = take m hist"
    "\<forall>i s. sp_store a i = Some s \<longrightarrow> (\<exists>t < length hist. i = of_nat t \<and> fd s = hist ! t)"
    using assms unfolding receiver_ok_def by blast
  have "\<forall>i s. sp_store a i = Some s \<longrightarrow> (\<exists>t < length (hist @ x). i = of_nat t \<and> fd s = (hist @ x) ! t)"
  proof (intro allI impI)
    fix i s assume "sp_store a i = Some s"
    then obtain t where "t < length hist" "i = of_nat t" "fd s = hist ! t" using r(6) by blast
    then show "\<exists>t < length (hist @ x). i = of_nat t \<and> fd s = (hist @ x) ! t"
      by (intro exI [of _ t]) (simp add: nth_append)
  qed
  then show ?thesis unfolding receiver_ok_def using r(1-5)
    by (intro exI [of _ m] exI [of _ j]) simp
qed

lemma of_nat_u32_inj:
  "(of_nat i :: u32) = of_nat j \<Longrightarrow> i < 4294967296 \<Longrightarrow> j < 4294967296 \<Longrightarrow> i = j"
  by (metis unat_of_nat_u32)

lemma deliver_ok:
  assumes "receiver_ok hist frags got a" "length hist < 4294967296"
  shows "receiver_ok hist frags got (deliver room a)"
  using assms(1)
proof (induction room arbitrary: a)
  case (Suc room)
  obtain m j where r: "m \<le> length hist" "j \<le> length frags" "sp_nxt a = of_nat m"
    "got = map msg_of (take j frags)" "concat (take j frags) @ map fd (sp_out a) = take m hist"
    "\<forall>i s. sp_store a i = Some s \<longrightarrow> (\<exists>t < length hist. i = of_nat t \<and> fd s = hist ! t)"
    using Suc.prems unfolding receiver_ok_def by blast
  show ?case
  proof (cases "sp_store a (sp_nxt a)")
    case None
    then show ?thesis using Suc.prems by simp
  next
    case (Some s)
    then obtain t where t: "t < length hist" "sp_nxt a = of_nat t" "fd s = hist ! t" using r(6) by blast
    have "t = m" using of_nat_u32_inj [of t m] t(1,2) r(1,3) assms(2) by simp
    then have tk: "take (Suc m) hist = take m hist @ [fd s]" using t by (simp add: take_Suc_conv_app_nth)
    let ?a = "a\<lparr>sp_nxt := sp_nxt a + 1, sp_store := (sp_store a)(sp_nxt a := None), sp_out := sp_out a @ [s]\<rparr>"
    have "receiver_ok hist frags got ?a"
      unfolding receiver_ok_def using r t \<open>t = m\<close> tk
      by (intro exI [of _ "Suc m"] exI [of _ j]) (auto simp flip: r(5))
    then show ?thesis using Suc.IH Some by simp
  qed
qed simp

definition from_hist :: "frag list \<Rightarrow> seg \<Rightarrow> bool" where
  "from_hist hist s = (\<exists>i < length hist. s_sn s = of_nat i \<and> fd s = hist ! i)"

lemma accept_ok:
  assumes "receiver_ok hist frags got a" "length hist < 4294967296" "from_hist hist s"
  shows "receiver_ok hist frags got (accept w s a)"
proof -
  have "receiver_ok hist frags got (a\<lparr>sp_store := (sp_store a)(s_sn s \<mapsto> s)\<rparr>)"
    using assms(1,3) unfolding receiver_ok_def from_hist_def by fastforce
  then show ?thesis using assms(1,2) by (simp add: accept_def deliver_ok)
qed

text \<open>Fragment numbers are below 128, so they survive the byte they have on the wire.\<close>

lemma ucast_byte: "unat x < 256 \<Longrightarrow> ucast (ucast (x :: u32) :: u8) = x"
proof -
  assume "unat x < 256"
  moreover have "unat (ucast x :: u8) = unat x mod 256"
    unfolding unsigned_ucast_eq by (simp add: take_bit_eq_mod)
  ultimately have "unat (ucast (ucast x :: u8) :: u32) = unat x" by (simp add: unat_ucast_8)
  then show ?thesis by (rule unsigned_word_eqI)
qed

lemma wf_frags_small:
  assumes "wf_frags f" "x \<in> set f"
  shows "unat (fst x) < 128"
proof -
  have "set (map fst f) = set (map of_nat (rev [0..<length f]))"
    using assms(1) by (simp only: wf_frags_def)
  then have "fst x \<in> of_nat ` {0..<length f}" using assms(2) by auto
  then obtain i where "fst x = of_nat i" "i < length f" by auto
  then show ?thesis using assms(1) by (simp add: wf_frags_def unat_of_nat_u32)
qed

definition small_frags :: "frag list \<Rightarrow> bool" where
  "small_frags hist = (\<forall>x \<in> set hist. unat (fst x) < 256)"

lemma take_in_ok:
  assumes "receiver_ok hist frags got a" "length hist < 4294967296" "small_frags hist"
    and "s_cmd s = 81 \<longrightarrow> from_hist hist s"
  shows "receiver_ok hist frags got (take_in w s a)"
proof (cases "s_cmd s = 81")
  case True
  then obtain i where i: "i < length hist" "s_sn s = of_nat i" "fd s = hist ! i"
    using assms(4) by (auto simp: from_hist_def)
  have "unat (fst (hist ! i)) < 256" using assms(3) i(1) by (simp add: small_frags_def)
  then have "unat (s_frg s) < 256" using i(3) by (metis fd_def fst_conv)
  then have "fd (push_seg (hdr_of s) (s_data s)) = fd s"
    by (simp add: fd_def push_seg_def hdr_of_def ikcp_segment_new_def ucast_byte)
  moreover have "s_sn (push_seg (hdr_of s) (s_data s)) = s_sn s" by (simp add: push_seg_def hdr_of_def)
  ultimately have "from_hist hist (push_seg (hdr_of s) (s_data s))" using i by (auto simp: from_hist_def)
  then show ?thesis using accept_ok [OF assms(1,2)] True by (simp add: take_in_def)
qed (use assms(1) in \<open>simp add: take_in_def\<close>)

lemma take_in_fold_ok:
  assumes "receiver_ok hist frags got a" "length hist < 4294967296" "small_frags hist"
    and "\<forall>s \<in> set g. s_cmd s = 81 \<longrightarrow> from_hist hist s"
  shows "receiver_ok hist frags got (fold (take_in w) g a)"
  using assms(1,4) by (induction g arbitrary: a) (simp_all add: take_in_ok assms(2,3))

section \<open>Taking one message\<close>

lemma first_msg_countdown:
  "map s_frg p = map of_nat (rev [0..<Suc n]) \<Longrightarrow> n < 4294967296 \<Longrightarrow> first_msg (p @ q) = p"
proof (induction n arbitrary: p)
  case 0
  then obtain s where "p = [s]" "s_frg s = 0" by (auto simp: map_eq_Cons_conv)
  then show ?case by simp
next
  case (Suc n)
  then obtain s p' where p: "p = s # p'" "s_frg s = of_nat (Suc n)"
    "map s_frg p' = map of_nat (rev [0..<Suc n])" by (auto simp: map_eq_Cons_conv)
  have "unat (s_frg s) \<noteq> 0" unfolding p(2) using Suc.prems(2) by (subst unat_of_nat_u32) simp_all
  then have "s_frg s \<noteq> 0" by auto
  then show ?case using Suc.IH [OF p(3)] Suc.prems(2) p(1) by simp
qed

lemma first_msg_wf:
  assumes "wf_frags (map fd p)"
  shows "first_msg (p @ q) = p"
proof -
  obtain n where n: "length p = Suc n" using assms by (cases p) (auto simp: wf_frags_def)
  have "map s_frg p = map fst (map fd p)" by (simp add: fd_def)
  then have "map s_frg p = map of_nat (rev [0..<Suc n])" using assms n by (simp only: wf_frags_def length_map)
  then show ?thesis using n assms by (intro first_msg_countdown [of p n]) (simp_all add: wf_frags_def)
qed

text \<open>
  When the queue is the beginning of the fragments still to come, and \<open>ikcp_recv\<close> finds its first
  message complete, that message is exactly the next one.
\<close>

lemma complete_first:
  assumes "map fd q @ rest = concat fs" "\<forall>f \<in> set fs. wf_frags f" "msg_complete q"
  shows "\<exists>f fs'. fs = f # fs' \<and> map fd (first_msg q) = f \<and> length (first_msg q) = length f"
proof -
  have q: "q \<noteq> []" using assms(3) by (simp add: msg_complete_def)
  then have "concat fs \<noteq> []" using assms(1) by (metis append_is_Nil_conv map_is_Nil_conv)
  then obtain f fs' where fs: "fs = f # fs'" by (cases fs) auto
  have wf: "wf_frags f" using assms(2) fs by simp
  then have f: "f \<noteq> []" "length f < 128" "map fst f = map of_nat (rev [0..<length f])"
    by (simp_all add: wf_frags_def)
  have e: "map fd q @ rest = f @ concat fs'" using assms(1) fs by simp
  have "fd (hd q) = hd f" using e q f(1) by (metis hd_append2 hd_map map_is_Nil_conv)
  moreover have "fst (hd f) = of_nat (length f - 1)"
  proof -
    have "fst (hd f) = hd (map fst f)" using f(1) by (simp add: hd_map)
    then show ?thesis using f(1,3) by (cases "length f") (simp_all add: hd_map)
  qed
  ultimately have frg: "s_frg (hd q) = of_nat (length f - 1)" by (metis fd_def fst_conv)
  then have "unat (s_frg (hd q)) = length f - 1" using f(2) by (simp add: unat_of_nat_u32)
  then have len: "length f \<le> length q"
    using assms(3) f(1) q by (cases "length f"; cases "length q") (auto simp: msg_complete_def)
  then have tk: "map fd (take (length f) q) = f"
    using e by (metis append_eq_append_conv_if length_map take_map)
  have "first_msg (take (length f) q @ drop (length f) q) = take (length f) q"
    by (rule first_msg_wf) (simp add: tk wf)
  then have "first_msg q = take (length f) q" by simp
  then show ?thesis using fs tk len by simp
qed

lemma recv_ok:
  assumes "receiver_ok hist frags got (receiver_of k)" "hist @ later = concat frags"
    and "\<forall>f \<in> set frags. wf_frags f" "msg_complete (rcv_queue k)"
  shows "receiver_ok hist frags (got @ [concat (map s_data (first_msg (rcv_queue k)))])
    ((receiver_of k)\<lparr>sp_out := drop (length (first_msg (rcv_queue k))) (rcv_queue k)\<rparr>)"
proof -
  let ?q = "rcv_queue k" and ?a = "receiver_of k"
  have out: "sp_out ?a = ?q" by (simp add: receiver_of_def)
  obtain m j where r: "m \<le> length hist" "j \<le> length frags" "sp_nxt ?a = of_nat m"
    "got = map msg_of (take j frags)" "concat (take j frags) @ map fd ?q = take m hist"
    "\<forall>i s. sp_store ?a i = Some s \<longrightarrow> (\<exists>t < length hist. i = of_nat t \<and> fd s = hist ! t)"
    using assms(1) unfolding receiver_ok_def out by blast
  have "concat (take j frags) @ concat (drop j frags) = concat frags"
    by (metis append_take_drop_id concat_append)
  moreover have "take m hist @ drop m hist @ later = concat frags"
    using assms(2) by (metis append_assoc append_take_drop_id)
  ultimately have "concat (take j frags) @ concat (drop j frags) =
      concat (take j frags) @ map fd ?q @ drop m hist @ later"
    unfolding r(5) [symmetric] by simp
  then have rest: "map fd ?q @ (drop m hist @ later) = concat (drop j frags)" by simp
  have "\<forall>f \<in> set (drop j frags). wf_frags f" using assms(3) by (auto dest: in_set_dropD)
  then obtain f fs' where f: "drop j frags = f # fs'" "map fd (first_msg ?q) = f"
    "length (first_msg ?q) = length f" using complete_first [OF rest _ assms(4)] by blast
  have j: "j < length frags" using f(1) by (metis drop_all list.discI not_le)
  then have tk: "take (Suc j) frags = take j frags @ [f]"
    using f(1) by (metis Cons_nth_drop_Suc list.inject take_Suc_conv_app_nth)
  have msg: "concat (map s_data (first_msg ?q)) = msg_of f"
    unfolding f(2) [symmetric] by (simp add: msg_of_def fd_def comp_def)
  have q: "map fd ?q = f @ map fd (drop (length (first_msg ?q)) ?q)"
    using f(2) by (metis append_take_drop_id first_msg_prefix map_append)
  show ?thesis unfolding receiver_ok_def using r j tk msg q
    by (intro exI [of _ m] exI [of _ "Suc j"]) simp
qed

section \<open>The invariant\<close>

definition numbered :: "u32 \<Rightarrow> frag list \<Rightarrow> seg \<Rightarrow> bool" where
  "numbered cv hist s = (s_conv s = cv \<and> s_cmd s = 81 \<and> from_hist hist s)"

definition sender_ok :: "u32 \<Rightarrow> net \<Rightarrow> bool" where
  "sender_ok cv n =
     (stream (side_a n) = 0 \<and> output_set (side_a n) \<and> conv (side_a n) = cv \<and>
      snd_nxt (side_a n) = of_nat (length (n_hist n)) \<and>
      n_hist n @ map fd (snd_queue (side_a n)) = concat (n_frags n) \<and>
      (\<forall>f \<in> set (n_frags n). wf_frags f) \<and> map msg_of (n_frags n) = n_sent n \<and>
      (\<forall>s \<in> set (snd_buf (side_a n)). numbered cv (n_hist n) s))"

definition wire_ok :: "u32 \<Rightarrow> net \<Rightarrow> bool" where
  "wire_ok cv n =
     (\<forall>p \<in> n_wire n. \<exists>g. p = datagram g \<and> g \<noteq> [] \<and> length p < 1073741824 \<and>
        (\<forall>s \<in> set g. valid_seg cv s \<and> (s_cmd s = 81 \<longrightarrow> from_hist (n_hist n) s)))"

definition net_inv :: "u32 \<Rightarrow> net \<Rightarrow> bool" where
  "net_inv cv n =
     (kcp_inv (side_a n) \<and> kcp_inv (side_b n) \<and> output_set (side_b n) \<and> conv (side_b n) = cv \<and>
      sender_ok cv n \<and> wire_ok cv n \<and>
      (length (n_hist n) < 4294967296 \<longrightarrow>
         receiver_ok (n_hist n) (n_frags n) (n_got n) (receiver_of (side_b n))))"

lemma from_hist_mono: "from_hist hist s \<Longrightarrow> from_hist (hist @ x) s"
  unfolding from_hist_def by (metis length_append nth_append trans_less_add1)

lemma numbered_mono: "numbered cv hist s \<Longrightarrow> numbered cv (hist @ x) s"
  by (simp add: numbered_def from_hist_mono)

lemma numbered_core: "core s = core t \<Longrightarrow> numbered cv hist s \<longleftrightarrow> numbered cv hist t"
  by (simp add: core_def numbered_def from_hist_def fd_def)

lemma hist_small:
  assumes "hist @ later = concat frags" "\<forall>f \<in> set frags. wf_frags f"
  shows "small_frags hist"
  unfolding small_frags_def
proof
  fix x assume "x \<in> set hist"
  then have "x \<in> set (concat frags)" unfolding assms(1) [symmetric] by simp
  then obtain f where "f \<in> set frags" "x \<in> set f" by auto
  then show "unat (fst x) < 256" using wf_frags_small assms(2) by fastforce
qed

lemma session_inv: "kcp_inv (session_kcp cv)"
proof -
  have "kcp_inv (ikcp_setoutput (kcp_fresh cv) True)"
    by (rule kcp_invI) (simp_all add: ikcp_setoutput_def inv_parts)
  then show ?thesis unfolding session_kcp_def kcp_setup_def by (intro nodelay_inv wndsize_inv) simp_all
qed

lemma session_fields:
  "stream (session_kcp cv) = 0" "output_set (session_kcp cv)" "conv (session_kcp cv) = cv"
  "snd_nxt (session_kcp cv) = 0" "snd_queue (session_kcp cv) = []" "snd_buf (session_kcp cv) = []"
  "rcv_nxt (session_kcp cv) = 0" "rcv_queue (session_kcp cv) = []" "rcv_buf (session_kcp cv) = []"
  "ackcount (session_kcp cv) = 0"
  by (simp_all add: session_kcp_def kcp_setup_def ikcp_nodelay_def ikcp_wndsize_def ikcp_setoutput_def Let_def)

lemma net_start_inv: "net_inv cv (net_start cv)"
  by (simp add: net_inv_def net_start_def session_inv session_fields sender_ok_def wire_ok_def
      receiver_ok_def receiver_of_def)

section \<open>Side A: what each operation puts into the channel\<close>

lemma flushed_stream: "stream (flushed k) = stream k"
proof -
  have "stream (flush_move w c q j) = stream j" for w c q j
    by (induction w c q j rule: flush_move.induct) (simp_all add: flush_move_Cons moved_out_def)
  then show ?thesis
    by (simp add: flushed_def Let_def ready_def controlled_def flush_probe_timer_def)
qed

lemma resend_numbered: "numbered cv hist (resend w r t k s) \<longleftrightarrow> numbered cv hist s"
  by (simp add: numbered_def from_hist_def fd_def)

lemma control_segs_valid:
  assumes "s \<in> set (ack_segs k @ probe_segs k)"
  shows "valid_seg (conv k) s \<and> s_cmd s \<noteq> 81"
proof -
  have h: "s_conv (flush_header k) = conv k" "s_cmd (flush_header k) = 82" "s_len (flush_header k) = 0"
    "s_data (flush_header k) = []" by (simp_all add: flush_header_def ikcp_segment_new_def)
  have a: "s_conv t = conv k \<and> s_cmd t = 82 \<and> s_len t = 0 \<and> s_data t = []" if "t \<in> set (ack_segs k)" for t
    using that h by (auto simp: ack_segs_def ack_seg_def)
  have "ack_segs k = [] \<longleftrightarrow> pending_acks k = []" by (simp add: ack_segs_def)
  then have "last_header k = flush_header k \<or> last_header k \<in> set (ack_segs k)"
    using last_in_set [of "ack_segs k"] unfolding last_header_def by presburger
  then have "s_conv (last_header k) = conv k \<and> s_len (last_header k) = 0 \<and> s_data (last_header k) = []"
    using a h by auto
  then have "s_conv t = conv k \<and> (s_cmd t = 83 \<or> s_cmd t = 84) \<and> s_len t = 0 \<and> s_data t = []"
    if "t \<in> set (probe_segs k)" for t
    using that by (auto simp: probe_segs_def Let_def split: if_splits)
  then have "s_conv s = conv k \<and> (s_cmd s = 82 \<or> s_cmd s = 83 \<or> s_cmd s = 84) \<and> s_len s = 0 \<and> s_data s = []"
    using assms a by auto
  then show ?thesis by (auto simp: valid_seg_def seg_ok_def)
qed

lemma new_numbered:
  assumes "map s_data new = map s_data q" "map s_frg new = map s_frg q"
    and "map s_sn new = map (\<lambda>i. of_nat (length hist) + of_nat i) [0..<length q]"
    and "\<forall>s \<in> set new. s_conv s = cv \<and> s_cmd s = 81"
  shows "\<forall>s \<in> set new. numbered cv (hist @ map fd q) s"
proof
  fix s assume s: "s \<in> set new"
  have len: "length new = length q" using assms(1) by (rule map_eq_imp_length_eq)
  obtain i where i: "i < length q" "s = new ! i" using s len by (auto simp: in_set_conv_nth)
  have "s_data s = s_data (q ! i)" "s_frg s = s_frg (q ! i)"
    using arg_cong [OF assms(1), of "\<lambda>l. l ! i"] arg_cong [OF assms(2), of "\<lambda>l. l ! i"] i len by simp_all
  then have "fd s = (hist @ map fd q) ! (length hist + i)" using i by (simp add: nth_append fd_def)
  moreover have "s_sn s = of_nat (length hist + i)"
    using arg_cong [OF assms(3), of "\<lambda>l. l ! i"] i len by simp
  ultimately have "from_hist (hist @ map fd q) s"
    unfolding from_hist_def using i(1) by (intro exI [of _ "length hist + i"]) simp
  then show "numbered cv (hist @ map fd q) s" using assms(4) s by (simp add: numbered_def)
qed

lemma ready_channel:
  \<comment> \<open>the fragments a flush moves to the send window are numbered on from the history\<close>
  assumes "kcp_inv k" "snd_nxt k = of_nat (length hist)" "\<forall>s \<in> set (snd_buf k). numbered (conv k) hist s"
  obtains n where "n = length (snd_queue k) - length (snd_queue (flushed k))"
    "snd_queue (flushed k) = drop n (snd_queue k)"
    "snd_nxt (flushed k) = of_nat (length (hist @ map fd (take n (snd_queue k))))"
    "\<forall>s \<in> set (snd_buf (ready k)). numbered (conv k) (hist @ map fd (take n (snd_queue k))) s"
proof -
  obtain n new where R: "n = min (length (snd_queue k))
      (unat (flush_cwnd (controlled k)) - seqoff (snd_una k) (snd_nxt k))"
    "snd_queue (ready k) = drop n (snd_queue k)" "snd_nxt (ready k) = snd_nxt k + of_nat n"
    "snd_buf (ready k) = snd_buf k @ new" "map s_data new = map s_data (take n (snd_queue k))"
    "map s_frg new = map s_frg (take n (snd_queue k))"
    "map s_sn new = map (\<lambda>i. snd_nxt k + of_nat i) [0..<n]"
    "\<forall>s \<in> set new. s_xmit s = 0 \<and> s_conv s = conv k \<and> s_cmd s = IKCP_CMD_PUSH"
    using ready_spec(2) [OF assms(1)] by blast
  have nq: "n \<le> length (snd_queue k)" unfolding R(1) by (rule min.cobounded1)
  then have n: "n = length (snd_queue k) - length (snd_queue (flushed k))" "length (take n (snd_queue k)) = n"
    using R(2) by (simp_all add: flushed_fields)
  let ?h = "hist @ map fd (take n (snd_queue k))"
  have "\<forall>s \<in> set new. numbered (conv k) ?h s"
    by (rule new_numbered) (use R(5-8) n(2) assms(2) in simp_all)
  moreover have "\<forall>s \<in> set (snd_buf k). numbered (conv k) ?h s" using assms(3) numbered_mono by blast
  ultimately have "\<forall>s \<in> set (snd_buf (ready k)). numbered (conv k) ?h s" using R(4) by auto
  moreover have "snd_nxt (flushed k) = of_nat (length ?h)" using R(3) n(2) assms(2) by (simp add: flushed_fields)
  moreover have "snd_queue (flushed k) = drop n (snd_queue k)" using R(2) by (simp add: flushed_fields)
  ultimately show thesis using that n(1) by blast
qed

lemma data_segs_valid:
  assumes "kcp_inv k" "\<forall>s \<in> set (snd_buf (ready k)). numbered (conv k) h s" "s \<in> set (data_segs k)"
  shows "valid_seg (conv k) s \<and> from_hist h s"
proof -
  have ri: "kcp_inv (ready k)" by (rule ready_spec(1) [OF assms(1)])
  from assms(3) obtain t where t: "t \<in> set (snd_buf (ready k))"
    "s = resend (advertised k) (flush_resent (ready k)) (flush_rtomin (ready k)) (ready k) t"
    by (auto simp: data_segs_def sent_segs_def)
  have "snd_seg_ok (ready k) t" using ri t(1) by (simp add: kcp_inv_def snd_inv_def snd_base_def)
  moreover have "unat (mss (ready k)) < 1073741824" using ri mss_bounds by (simp add: kcp_inv_def)
  ultimately have "seg_ok t" "length (s_data t) < 2147483648" by (simp_all add: snd_seg_ok_def)
  moreover have "numbered (conv k) h t" using assms(2) t(1) by blast
  ultimately show ?thesis unfolding t(2) by (simp add: valid_seg_def seg_ok_def numbered_def from_hist_def fd_def)
qed

lemma flush_channel:
  assumes "kcp_inv k" "output_set k" "updated k \<noteq> 0" "unat (ackcount k) < 2147483648"
    and "snd_nxt k = of_nat (length hist)" "\<forall>s \<in> set (snd_buf k). numbered (conv k) hist s"
  shows "\<exists>n pkts. ikcp_flush k = Inr (flushed k, pkts) \<and>
    n = length (snd_queue k) - length (snd_queue (flushed k)) \<and>
    snd_queue (flushed k) = drop n (snd_queue k) \<and>
    snd_nxt (flushed k) = of_nat (length (hist @ map fd (take n (snd_queue k)))) \<and>
    (\<forall>s \<in> set (snd_buf (flushed k)). numbered (conv k) (hist @ map fd (take n (snd_queue k))) s) \<and>
    (\<forall>p \<in> set pkts. \<exists>g. p = datagram g \<and> g \<noteq> [] \<and> length p < 1073741824 \<and>
       (\<forall>s \<in> set g. valid_seg (conv k) s \<and>
          (s_cmd s = 81 \<longrightarrow> from_hist (hist @ map fd (take n (snd_queue k))) s)))"
proof -
  obtain n where n: "n = length (snd_queue k) - length (snd_queue (flushed k))"
    "snd_queue (flushed k) = drop n (snd_queue k)"
    "snd_nxt (flushed k) = of_nat (length (hist @ map fd (take n (snd_queue k))))"
    "\<forall>s \<in> set (snd_buf (ready k)). numbered (conv k) (hist @ map fd (take n (snd_queue k))) s"
    by (rule ready_channel [OF assms(1,5,6)])
  let ?h = "hist @ map fd (take n (snd_queue k))"
  obtain gs where gs: "ikcp_flush k = Inr (flushed k, map datagram gs)"
    "concat gs = (ack_segs k @ probe_segs k) @ data_segs k"
    "\<forall>g \<in> set gs. g \<noteq> [] \<and> length (datagram g) \<le> unat (mtu k)"
    using ikcp_flush_spec [OF assms(1-4)] by auto
  have m: "unat (mtu k) < 1073741824" using assms(1) by (simp add: kcp_inv_def cfg_inv_def)
  have seg: "valid_seg (conv k) s \<and> (s_cmd s = 81 \<longrightarrow> from_hist ?h s)" if "g \<in> set gs" "s \<in> set g" for g s
  proof -
    have "s \<in> set (concat gs)" using that by auto
    then have "s \<in> set (ack_segs k @ probe_segs k) \<or> s \<in> set (data_segs k)" unfolding gs(2) by simp
    then show ?thesis using control_segs_valid data_segs_valid [OF assms(1) n(4)] by blast
  qed
  have "\<forall>p \<in> set (map datagram gs). \<exists>g. p = datagram g \<and> g \<noteq> [] \<and> length p < 1073741824 \<and>
       (\<forall>s \<in> set g. valid_seg (conv k) s \<and> (s_cmd s = 81 \<longrightarrow> from_hist ?h s))"
  proof
    fix p assume "p \<in> set (map datagram gs)"
    then obtain g where g: "g \<in> set gs" "p = datagram g" by auto
    then have "length p < 1073741824" "g \<noteq> []" using gs(3) m by (auto intro: le_less_trans)
    then show "\<exists>g. p = datagram g \<and> g \<noteq> [] \<and> length p < 1073741824 \<and>
       (\<forall>s \<in> set g. valid_seg (conv k) s \<and> (s_cmd s = 81 \<longrightarrow> from_hist ?h s))"
      using g seg by blast
  qed
  moreover have "\<forall>s \<in> set (snd_buf (flushed k)). numbered (conv k) ?h s"
    using n(4) by (simp add: flushed_fields resend_numbered)
  ultimately show ?thesis using gs(1) n(1-3) by blast
qed

lemma timer_stream: "stream (snd (update_timer k cur)) = stream k"
  by (simp add: update_timer_def Let_def)

lemma update_a_ok:
  assumes "kcp_inv (side_a n)" "sender_ok cv n" "wire_ok cv n" "unat (ackcount (side_a n)) < 2147483648"
    and "ikcp_update (side_a n) cur = Inr (a, pkts)"
    and "n' = n\<lparr>side_a := a, n_wire := n_wire n \<union> set pkts,
      n_hist := n_hist n @ map fd (take (length (snd_queue (side_a n)) - length (snd_queue a))
                                     (snd_queue (side_a n)))\<rparr>"
  shows "kcp_inv a \<and> sender_ok cv n' \<and> wire_ok cv n'"
proof -
  let ?k = "snd (update_timer (side_a n) cur)"
  have S: "output_set (side_a n)" "conv (side_a n) = cv" "stream (side_a n) = 0"
    "snd_nxt (side_a n) = of_nat (length (n_hist n))"
    "n_hist n @ map fd (snd_queue (side_a n)) = concat (n_frags n)" "\<forall>f \<in> set (n_frags n). wf_frags f"
    "map msg_of (n_frags n) = n_sent n" "\<forall>s \<in> set (snd_buf (side_a n)). numbered cv (n_hist n) s"
    using assms(2) by (simp_all add: sender_ok_def)
  have i: "kcp_inv ?k" by (rule timer_inv [OF assms(1)])
  show ?thesis
  proof (cases "fst (update_timer (side_a n) cur)")
    case False
    then have e: "a = ?k" "pkts = []" using assms(5) by (simp_all add: ikcp_update_alt)
    then have n': "n' = n\<lparr>side_a := ?k\<rparr>" using assms(6) by simp
    show ?thesis unfolding e(1) n' using i S assms(3)
      by (simp add: sender_ok_def wire_ok_def timer_stream)
  next
    case True
    then have f: "ikcp_flush ?k = Inr (a, pkts)" using assms(5) by (simp add: ikcp_update_alt)
    have pre: "output_set ?k" "updated ?k \<noteq> 0" "unat (ackcount ?k) < 2147483648"
      "snd_nxt ?k = of_nat (length (n_hist n))" "\<forall>s \<in> set (snd_buf ?k). numbered (conv ?k) (n_hist n) s"
      using S assms(4) by simp_all
    obtain m where C: "a = flushed ?k" "m = length (snd_queue (side_a n)) - length (snd_queue a)"
      "snd_queue a = drop m (snd_queue (side_a n))"
      "snd_nxt a = of_nat (length (n_hist n @ map fd (take m (snd_queue (side_a n)))))"
      "\<forall>s \<in> set (snd_buf a). numbered cv (n_hist n @ map fd (take m (snd_queue (side_a n)))) s"
      "\<forall>p \<in> set pkts. \<exists>g. p = datagram g \<and> g \<noteq> [] \<and> length p < 1073741824 \<and>
         (\<forall>s \<in> set g. valid_seg cv s \<and>
            (s_cmd s = 81 \<longrightarrow> from_hist (n_hist n @ map fd (take m (snd_queue (side_a n)))) s))"
      using flush_channel [OF i pre] f S(2) by auto
    have h: "n_hist n' = n_hist n @ map fd (take m (snd_queue (side_a n)))"
      using assms(6) C(2) by simp
    have "n_hist n' @ map fd (snd_queue a) = concat (n_frags n)"
      unfolding h C(3) using S(5) by (simp flip: map_append)
    moreover have "stream a = 0" "output_set a" "conv a = cv"
      using C(1) S(1-3) by (simp_all add: flushed_stream flushed_fields timer_stream)
    ultimately have "sender_ok cv n'"
      using C(4,5) S(6,7) assms(6) unfolding sender_ok_def h by simp
    moreover have "wire_ok cv n'"
      unfolding wire_ok_def
    proof
      fix p assume "p \<in> n_wire n'"
      then consider "p \<in> n_wire n" | "p \<in> set pkts" using assms(6) by auto
      then show "\<exists>g. p = datagram g \<and> g \<noteq> [] \<and> length p < 1073741824 \<and>
         (\<forall>s \<in> set g. valid_seg cv s \<and> (s_cmd s = 81 \<longrightarrow> from_hist (n_hist n') s))"
      proof cases
        case 1
        then show ?thesis using assms(3) from_hist_mono unfolding wire_ok_def h by blast
      next
        case 2
        then show ?thesis using C(6) unfolding h by blast
      qed
    qed
    ultimately show ?thesis using flushed_inv [OF i] C(1) by simp
  qed
qed

lemma map_fd: "map fst (map fd ss) = map s_frg ss" "map snd (map fd ss) = map s_data ss"
  by (simp_all add: fd_def)

text \<open>In message mode a message is queued whole, as well-formed fragments, or not at all.\<close>

lemma send_message:
  assumes "kcp_inv k" "stream k = 0" "length m < 2147483648"
  shows "\<exists>fs. wf_frags (map fd fs) \<and> msg_of (map fd fs) = m \<and>
    (ikcp_send k m (int (length m)) (\<lambda>_. True) = Inr (0, queued k fs) \<or>
     ikcp_send k m (int (length m)) (\<lambda>_. True) = Inr (-2, k))"
proof -
  let ?m = "unat (mss k)"
  have b: "0 < ?m" "?m < 2147483648" using mss_bounds assms(1) by (fastforce simp: kcp_inv_def)+
  note i = mss_int [OF b]
  have s: "ikcp_send k m (int (length m)) (\<lambda>_. True) =
      (if length (chunks ?m m) < 128 then Inr (0, queued k (fragments False (chunks ?m m))) else Inr (-2, k))"
    using assms(2) i send_rest_spec [OF i(1) b(1) assms(3), of "\<lambda>_. True" 0]
    by (simp add: ikcp_send_def queued_def)
  show ?thesis
  proof (cases "length (chunks ?m m) < 128")
    case True
    let ?fs = "fragments False (chunks ?m m)"
    have l: "length (map fd ?fs) = length (chunks ?m m)" by (simp only: length_map length_fragments)
    have "map fst (map fd ?fs) = map of_nat (rev [0..<length (map fd ?fs)])"
      unfolding l map_fd fragments_frg by (rule refl)
    moreover have "map fd ?fs \<noteq> []" "length (map fd ?fs) < 128"
      using l True chunks_nonempty [of ?m m] by (simp_all only: length_0_conv [symmetric] not_False_eq_True)
    ultimately have "wf_frags (map fd ?fs)" unfolding wf_frags_def by (intro conjI)
    moreover have "msg_of (map fd ?fs) = m"
      unfolding msg_of_def map_fd fragments_data by (rule concat_chunks)
    moreover have "ikcp_send k m (int (length m)) (\<lambda>_. True) = Inr (0, queued k ?fs)"
      unfolding s using True by (simp only: if_True)
    ultimately show ?thesis by (intro exI [of _ ?fs] conjI disjI1)
  next
    case False
    have "wf_frags (map fd (fragments False [m]))" "msg_of (map fd (fragments False [m])) = m"
      by (simp_all add: wf_frags_def msg_of_def fd_def ikcp_segment_new_def)
    moreover have "ikcp_send k m (int (length m)) (\<lambda>_. True) = Inr (-2, k)"
      unfolding s using False by (simp only: if_False)
    ultimately show ?thesis by (intro exI [of _ "fragments False [m]"] conjI disjI2)
  qed
qed

lemma send_a_ok:
  assumes "kcp_inv (side_a n)" "sender_ok cv n" "length m < 2147483648"
    and "ikcp_send (side_a n) m (int (length m)) (\<lambda>_. True) = Inr (r, a)"
    and "n' = n\<lparr>side_a := a, n_sent := (if r = 0 then n_sent n @ [m] else n_sent n),
      n_frags := (if r = 0 then n_frags n @ [map fd (drop (length (snd_queue (side_a n))) (snd_queue a))]
                  else n_frags n)\<rparr>"
  shows "kcp_inv a \<and> sender_ok cv n'"
proof -
  have "kcp_inv a" using ikcp_send_total [of "side_a n" "int (length m)" m "\<lambda>_. True"] assms(1,3,4) by auto
  moreover have "stream (side_a n) = 0" using assms(2) by (simp add: sender_ok_def)
  then obtain fs where fs: "wf_frags (map fd fs)" "msg_of (map fd fs) = m"
    "r = 0 \<and> a = queued (side_a n) fs \<or> r = -2 \<and> a = side_a n"
    using send_message [OF assms(1) _ assms(3)] assms(4) by fastforce
  from fs(3) have "sender_ok cv n'"
  proof
    assume "r = 0 \<and> a = queued (side_a n) fs"
    then have n': "n' = n\<lparr>side_a := queued (side_a n) fs, n_sent := n_sent n @ [m],
        n_frags := n_frags n @ [map fd fs]\<rparr>" using assms(5) by (simp add: queued_def)
    show ?thesis unfolding n' using assms(2) fs(1,2) by (auto simp: sender_ok_def queued_def)
  next
    assume "r = -2 \<and> a = side_a n"
    then show ?thesis using assms(2,5) by (simp add: sender_ok_def)
  qed
  ultimately show ?thesis ..
qed

lemma sends_less_ok:
  assumes "sender_ok cv n" "sends_less (side_a n) a"
  shows "sender_ok cv (n\<lparr>side_a := a\<rparr>)"
proof -
  have nb: "\<forall>s \<in> set (snd_buf a). numbered cv (n_hist n) s"
  proof
    fix s assume "s \<in> set (snd_buf a)"
    then have "core s \<in> core ` set (snd_buf (side_a n))"
      using assms(2) unfolding sends_less_def by blast
    then obtain t where t: "t \<in> set (snd_buf (side_a n))" "core s = core t" by (rule imageE)
    have "\<forall>t \<in> set (snd_buf (side_a n)). numbered cv (n_hist n) t"
      using assms(1) unfolding sender_ok_def by blast
    then show "numbered cv (n_hist n) s" using t numbered_core by blast
  qed
  show ?thesis using assms nb unfolding sender_ok_def sends_less_def by simp
qed

section \<open>Every step keeps the invariant\<close>

lemma move_ready_sends: "sends_less k (move_ready q k)"
  by (simp add: sends_less_def)

lemma recv_sends_less:
  assumes "kcp_inv k" "ikcp_recv k (Some c) len = Inr (n, out, k')" "0 \<le> len"
  shows "sends_less k k' \<and> kcp_inv k'"
proof -
  let ?l = "length (first_msg (rcv_queue k))"
  consider "k' = k" | recover where "k' = recv_refill (recv_left False k ?l) recover"
    using recv_effect [OF kcp_inv_parts(3) [OF assms(1)] assms(2,3)] by blast
  then show ?thesis
  proof cases
    case 1
    then show ?thesis using assms(1) by (simp add: sends_less_def)
  next
    case 2
    have "?l \<le> length (rcv_queue k)" using first_msg_prefix [of "rcv_queue k"] by (metis nat_le_linear take_all_iff)
    then have "kcp_inv k'" using recv_refill_spec recv_left_inv [OF assms(1)] 2 by blast
    moreover have "sends_less k (recv_left False k ?l)" by (simp add: sends_less_def recv_left_def)
    moreover have "sends_less (recv_left False k ?l) k'"
      using move_ready_sends [of "recv_left False k ?l" "rcv_buf (recv_left False k ?l)"]
      unfolding 2 recv_refill_def Let_def by (simp add: sends_less_def)
    ultimately show ?thesis using sends_less_trans by blast
  qed
qed

lemma net_invI:
  assumes "kcp_inv (side_a n)" "kcp_inv (side_b n)" "output_set (side_b n)" "conv (side_b n) = cv"
    and "sender_ok cv n" "wire_ok cv n"
    and "length (n_hist n) < 4294967296 \<Longrightarrow>
      receiver_ok (n_hist n) (n_frags n) (n_got n) (receiver_of (side_b n))"
  shows "net_inv cv n"
  using assms by (simp add: net_inv_def)

lemma net_invD:
  assumes "net_inv cv n"
  shows "kcp_inv (side_a n)" "kcp_inv (side_b n)" "output_set (side_b n)" "conv (side_b n) = cv"
    "sender_ok cv n" "wire_ok cv n"
    "length (n_hist n) < 4294967296 \<Longrightarrow> receiver_ok (n_hist n) (n_frags n) (n_got n) (receiver_of (side_b n))"
  using assms by (simp_all add: net_inv_def)

lemma sender_a_step:
  assumes "net_inv cv n" "kcp_inv a" "sends_less (side_a n) a"
  shows "net_inv cv (n\<lparr>side_a := a\<rparr>)"
  using net_invD [OF assms(1)] assms(2) sends_less_ok [OF net_invD(5) [OF assms(1)] assms(3)]
  by (intro net_invI) (simp_all add: wire_ok_def)

lemma receiver_b_step:
  assumes "net_inv cv n" "kcp_inv b" "output_set b" "conv b = cv"
    and "length (n_hist n) < 4294967296 \<Longrightarrow> receiver_ok (n_hist n) (n_frags n) got (receiver_of b)"
  shows "net_inv cv (n\<lparr>side_b := b, n_got := got\<rparr>)"
  using net_invD [OF assms(1)] assms(2-5)
  by (intro net_invI) (simp_all add: wire_ok_def sender_ok_def)

lemma input_b_ok:
  assumes "net_inv cv n" "p \<in> n_wire n" "ikcp_input (side_b n) (Some p) (int (length p)) alloc = Inr (r, b)"
    and "acks_fit (side_b n) (length p)"
  shows "net_inv cv (n\<lparr>side_b := b\<rparr>)"
proof -
  note I = net_invD [OF assms(1)]
  obtain g where g: "p = datagram g" "g \<noteq> []" "length p < 1073741824" "\<forall>s \<in> set g. valid_seg cv s"
    "\<forall>s \<in> set g. s_cmd s = 81 \<longrightarrow> from_hist (n_hist n) s"
    using I(6) assms(2) unfolding wire_ok_def by blast
  have "24 * length g \<le> length (datagram g)" by (induction g) simp_all
  then have fit: "unat (ackcount (side_b n)) + length g < 2147483648" "length (datagram g) < 2147483648"
    using assms(4) g(1,3) by (simp_all add: acks_fit_def)
  obtain k where k: "ikcp_input (side_b n) (Some p) (int (length p)) plenty = Inr (0, k)" "kcp_inv k"
    "conv k = conv (side_b n)"
    "receiver_of k = fold (take_in (unat (rcv_wnd (side_b n)))) g (receiver_of (side_b n))"
    using input_datagram [OF g(2) _ I(2) fit] g(1,4) I(4) by auto
  have b: "b = k" using k(1) input_mem_Inr [OF assms(3)] by simp
  have "output_set b" using input_sends_less [OF assms(3)] I(3) by (simp add: sends_less_def)
  moreover have "small_frags (n_hist n)"
    using I(5) hist_small unfolding sender_ok_def by blast
  ultimately have "receiver_ok (n_hist n) (n_frags n) (n_got n) (receiver_of b)"
    if "length (n_hist n) < 4294967296"
    unfolding b k(4) using take_in_fold_ok [OF I(7) [OF that] that _ g(5)] by blast
  then have "net_inv cv (n\<lparr>side_b := b, n_got := n_got n\<rparr>)"
    using receiver_b_step [OF assms(1), of b "n_got n"] k(2,3) b I(4) \<open>output_set b\<close> by blast
  then show ?thesis by simp
qed

lemma recv_b_ok:
  assumes "net_inv cv n" "ikcp_recv (side_b n) (Some c) len = Inr (r, out, b)" "0 \<le> len"
  shows "net_inv cv (n\<lparr>side_b := b, n_got := (if r < 0 then n_got n else n_got n @ [out])\<rparr>)"
proof (rule receiver_b_step [OF assms(1)])
  note I = net_invD [OF assms(1)]
  let ?k = "side_b n" and ?m = "first_msg (rcv_queue (side_b n))"
  have S: "sends_less ?k b" "kcp_inv b" using recv_sends_less [OF I(2) assms(2,3)] by simp_all
  then show "kcp_inv b" "output_set b" "conv b = cv" using I(3,4) by (simp_all add: sends_less_def)
  assume h: "length (n_hist n) < 4294967296"
  show "receiver_ok (n_hist n) (n_frags n) (if r < 0 then n_got n else n_got n @ [out]) (receiver_of b)"
  proof (cases "r < 0")
    case True
    then have "b = ?k" using recv_effect [OF kcp_inv_parts(3) [OF I(2)] assms(2,3)] by auto
    then show ?thesis using True I(7) [OF h] by simp
  next
    case False
    then obtain recover where R: "msg_complete (rcv_queue ?k)" "out = concat (map s_data ?m)"
      "b = recv_refill (recv_left False ?k (length ?m)) recover"
      using recv_effect [OF kcp_inv_parts(3) [OF I(2)] assms(2,3)] by auto
    have "length ?m \<le> length (rcv_queue ?k)"
      using first_msg_prefix [of "rcv_queue ?k"] by (metis nat_le_linear take_all_iff)
    then obtain room where "receiver_of b = deliver room (receiver_of (recv_left False ?k (length ?m)))"
      using recv_refill_spec [OF recv_left_inv [OF I(2)]] unfolding R(3) by blast
    moreover have "receiver_of (recv_left False ?k (length ?m)) =
        (receiver_of ?k)\<lparr>sp_out := drop (length ?m) (rcv_queue ?k)\<rparr>"
      by (simp add: receiver_of_def recv_left_def)
    moreover have "receiver_ok (n_hist n) (n_frags n) (n_got n @ [out])
        ((receiver_of ?k)\<lparr>sp_out := drop (length ?m) (rcv_queue ?k)\<rparr>)"
      using recv_ok [OF I(7) [OF h] _ _ R(1)] I(5) unfolding sender_ok_def R(2) by blast
    ultimately show ?thesis using deliver_ok h False by simp
  qed
qed

definition receives_same :: "kcpcb \<Rightarrow> kcpcb \<Rightarrow> bool" where
  "receives_same k k' =
     (receiver_of k' = receiver_of k \<and> output_set k' = output_set k \<and> conv k' = conv k)"

lemma send_fragments_receives:
  "send_fragments k buf len c n alloc a = Inr (r, k') \<Longrightarrow> receives_same k k'"
proof (induction n arbitrary: k buf len a)
  case (Suc n)
  then show ?case
    by (fastforce simp: Let_def andThen_Inr receives_same_def receiver_of_def split: if_splits)
qed (simp add: receives_same_def)

lemma send_receives:
  assumes "ikcp_send k buf len alloc = Inr (r, k')"
  shows "receives_same k k'"
proof -
  have rest: "receives_same k k'" if "send_rest k buf len alloc a = Inr (r, k')" for k buf len a
    using that send_fragments_receives by (auto simp: send_rest_def Let_def receives_same_def split: if_splits)
  have app: "receives_same k k1" if "send_append k buf len alloc = Inr (Some (k1, b1, l1, a1))" for k1 b1 l1 a1
    using that by (auto simp: send_append_def Let_def andThen_Inr receives_same_def receiver_of_def split: if_splits)
  consider "k' = k" | "send_rest k buf len alloc 0 = Inr (r, k')"
    | res where "send_append k buf len alloc = Inr res"
        "(case res of None \<Rightarrow> Inr (-2, k) | Some (k, buf, len, a) \<Rightarrow>
            if len \<le> 0 then Inr (0, k) else send_rest k buf len alloc a) = Inr (r, k')"
    using assms unfolding ikcp_send_def by (auto simp: andThen_Inr split: if_splits)
  then show ?thesis
  proof cases
    case 1
    then show ?thesis by (simp add: receives_same_def)
  next
    case 2
    then show ?thesis by (rule rest)
  next
    case (3 res)
    show ?thesis
    proof (cases res)
      case None
      then show ?thesis using 3 by (simp add: receives_same_def)
    next
      case (Some x)
      obtain k1 b1 l1 a1 where x: "x = (k1, b1, l1, a1)" by (metis prod.exhaust)
      have "receives_same k k1" using app 3(1) Some x by simp
      moreover have "k' = k1 \<or> receives_same k1 k'"
        using 3(2) Some x rest by (auto split: if_splits)
      ultimately show ?thesis by (auto simp: receives_same_def)
    qed
  qed
qed

lemma side_b_step:
  assumes "net_inv cv n" "kcp_inv b" "receives_same (side_b n) b"
  shows "net_inv cv (n\<lparr>side_b := b\<rparr>)"
  using net_invD [OF assms(1)] assms(2,3) receiver_b_step [OF assms(1), of b "n_got n"]
  by (simp add: receives_same_def)

lemma update_receives:
  assumes "ikcp_update k cur = Inr (k', pkts)" "kcp_inv k" "output_set k" "unat (ackcount k) < 2147483648"
  shows "receives_same k k'"
proof -
  let ?k = "snd (update_timer k cur)"
  have "k' = ?k \<or> k' = flushed ?k"
    using assms ikcp_flush_spec [OF timer_inv [OF assms(2)], of cur] by (auto simp: ikcp_update_alt split: if_splits)
  then show ?thesis by (auto simp: receives_same_def receiver_of_def flushed_fields)
qed

lemma net_step_inv:
  assumes "net_step n n'" "net_inv cv n"
  shows "net_inv cv n'"
proof -
  note I = net_invD [OF assms(2)]
  show ?thesis
    using assms(1)
  proof (cases rule: net_step.cases)
    case (send_a m r a)
    have "kcp_inv a \<and> sender_ok cv n'" by (rule send_a_ok [OF I(1,5) send_a(3,2,1)])
    moreover have "n_frags n' = n_frags n \<or> (\<exists>f. n_frags n' = n_frags n @ f)" using send_a(1) by auto
    then obtain f where "n_frags n' = n_frags n @ f" by auto
    ultimately show ?thesis using I(2-4,6,7) send_a(1) receiver_ok_mono [of "n_hist n" "n_frags n" _ _ "[]" f]
      by (intro net_invI) (simp_all add: wire_ok_def)
  next
    case (update_a cur a pkts)
    have "kcp_inv a \<and> sender_ok cv n' \<and> wire_ok cv n'"
      by (rule update_a_ok [OF I(1,5,6) update_a(3,2,1)])
    then show ?thesis using I(2-4,7) update_a(1) receiver_ok_mono [of "n_hist n" "n_frags n" _ _ _ "[]"]
      by (intro net_invI) simp_all
  next
    case (input_a d alloc r a)
    have "24 * int (unat (ackcount (side_a n))) + max 0 (int (length d)) < 51539607528"
      using input_a(3) unfolding acks_fit_def by linarith
    then have "kcp_inv a" using ikcp_input_total [OF I(1), of "Some d" "int (length d)"] input_mem_Inr [OF input_a(2)]
      by auto
    then show ?thesis using sender_a_step [OF assms(2)] input_sends_less input_a(1,2) by blast
  next
    case (recv_a c len r out a)
    then show ?thesis using sender_a_step [OF assms(2)] recv_sends_less [OF I(1)] by blast
  next
    case (input_b p alloc r b)
    then show ?thesis using input_b_ok [OF assms(2)] by blast
  next
    case (recv_b c len r out b)
    then show ?thesis using recv_b_ok [OF assms(2)] by blast
  next
    case (update_b cur b pkts)
    have "kcp_inv b" using ikcp_update_total [OF I(2,3) update_b(3), of cur] update_b(2) by auto
    then show ?thesis using side_b_step [OF assms(2)] update_receives [OF update_b(2) I(2,3) update_b(3)] update_b(1)
      by blast
  next
    case (send_b m alloc r b)
    have "kcp_inv b" using ikcp_send_total [OF I(2), of "int (length m)" m alloc] send_b(2,3) by auto
    then show ?thesis using side_b_step [OF assms(2)] send_receives [OF send_b(2)] send_b(1) by blast
  qed
qed

lemma net_reach_inv: "net_reach cv n \<Longrightarrow> net_inv cv n"
  by (induction rule: net_reach.induct) (use net_start_inv net_step_inv in blast)+

text \<open>
  C2. The promise of the whole protocol. However the network loses, repeats, reorders and invents
  (towards A) datagrams, and however the two users interleave their calls, the messages that B's
  user has received are, in order and whole, the first messages that A's user sent; this holds as
  long as A has numbered fewer than \<open>2^32\<close> fragments, with the allocations of A's \<open>ikcp_send\<close> succeeding (those
  of \<open>ikcp_input\<close> may fail, and then there is no next state).
\<close>

theorem messages_in_order:
  assumes "net_reach cv n" "length (n_hist n) < 4294967296"
  shows "\<exists>rest. n_sent n = n_got n @ rest"
proof -
  note I = net_invD [OF net_reach_inv [OF assms(1)]]
  obtain j where "n_got n = map msg_of (take j (n_frags n))"
    using I(7) [OF assms(2)] unfolding receiver_ok_def by blast
  moreover have "map msg_of (n_frags n) = n_sent n" using I(5) unfolding sender_ok_def by blast
  ultimately show ?thesis by (metis append_take_drop_id map_append)
qed

text \<open>A run that delivers a message: send, update, feed the datagram to the other side, receive.\<close>

definition hi_run :: "fault + kcpcb \<times> kcpcb \<times> bytes list \<times> kcpcb \<times> bytes \<times> kcpcb" where
  "hi_run =
     andThen (ikcp_send (session_kcp 7) [72, 105] 2 (\<lambda>_. True)) (\<lambda>(_, a).
     andThen (ikcp_update a 0) (\<lambda>(a', ps).
     andThen (ikcp_input (session_kcp 7) (Some (hd ps)) 26 plenty) (\<lambda>(_, b).
     andThen (ikcp_recv b (Some 100) 100) (\<lambda>(r, out, b').
       Inr (a, a', ps, b, (if r < 0 then [] else out), b')))))"

definition hi_good :: "fault + kcpcb \<times> kcpcb \<times> bytes list \<times> kcpcb \<times> bytes \<times> kcpcb \<Rightarrow> bool" where
  "hi_good x = (case x of Inl _ \<Rightarrow> False | Inr (a, a', ps, b, out, b') \<Rightarrow>
     map fd (snd_queue a) = [(0, [72, 105])] \<and> snd_queue a' = [] \<and> unat (ackcount a) = 0 \<and>
     ps \<noteq> [] \<and> length (hd ps) = 26 \<and> out = [72, 105])"

lemma hi_run_good: "hi_good hi_run"
  by code_simp

lemma hi_reach: "\<exists>n. net_reach 7 n \<and> n_hist n = [(0, [72, 105])] \<and> n_got n = [[72, 105]]"
proof -
  obtain a a' ps b b' where g: "hi_run = Inr (a, a', ps, b, [72, 105], b')"
    "map fd (snd_queue a) = [(0, [72, 105])]" "snd_queue a' = []" "unat (ackcount a) = 0"
    "ps \<noteq> []" "length (hd ps) = 26"
    using hi_run_good unfolding hi_good_def by (fastforce split: sum.splits prod.splits)
  obtain r1 r2 r3 out where s: "ikcp_send (session_kcp 7) [72, 105] 2 (\<lambda>_. True) = Inr (r1, a)"
    "ikcp_update a 0 = Inr (a', ps)" "ikcp_input (session_kcp 7) (Some (hd ps)) 26 plenty = Inr (r2, b)"
    "ikcp_recv b (Some 100) 100 = Inr (r3, out, b')" "(if r3 < 0 then [] else out) = [72, 105]"
    using g(1) unfolding hi_run_def by (auto simp: andThen_Inr)
  then have r: "\<not> r3 < 0" "out = [72, 105]" by (auto split: if_splits)
  have r1: "r1 = 0"
    using send_message [OF session_inv [of 7] session_fields(1), of "[72, 105]"] s(1) g(2) session_fields(5) by auto
  let ?n0 = "net_start 7"
  let ?n1 = "?n0\<lparr>side_a := a, n_sent := [[72, 105]], n_frags := [[(0, [72, 105])]]\<rparr>"
  let ?n2 = "?n1\<lparr>side_a := a', n_wire := set ps, n_hist := [(0, [72, 105])]\<rparr>"
  let ?n3 = "?n2\<lparr>side_b := b\<rparr>"
  let ?n4 = "?n3\<lparr>side_b := b', n_got := [[72, 105]]\<rparr>"
  have "net_step ?n0 ?n1"
    using net_step.send_a [of ?n0 "[72, 105]" 0 a] s(1) r1
    by (simp add: net_start_def session_fields g(2))
  moreover have "net_step ?n1 ?n2"
    using net_step.update_a [of ?n1 0 a' ps] by (simp add: net_start_def s(2) g(2-4))
  moreover have "net_step ?n2 ?n3"
    using net_step.input_b [of "hd ps" ?n2 plenty r2 b] s(3) g(5,6)
    by (simp add: net_start_def acks_fit_def session_fields)
  moreover have "net_step ?n3 ?n4"
    using net_step.recv_b [of ?n3 100 100 r3 out b'] s(4) r by (simp add: net_start_def)
  ultimately have "net_reach 7 ?n4" by (meson net_reach.start net_reach.step)
  then show ?thesis by (intro exI [of _ ?n4]) simp
qed

theorem messages_in_order_witness:
  "\<exists>n. net_reach 7 n \<and> n_got n = [[72, 105]] \<and> (\<exists>rest. n_sent n = n_got n @ rest)"
proof -
  obtain n where n: "net_reach 7 n" "n_hist n = [(0, [72, 105])]" "n_got n = [[72, 105]]"
    using hi_reach by blast
  then show ?thesis using messages_in_order [OF n(1)] by auto
qed

end
