(* ===== verification/Flex_Session.thy ===== *)
theory Flex_Session
  imports Kcp_Net Flex_Utils
begin

text \<open>
  One proxied connection, as \<open>ClientSideForwarder.cpp\<close> runs it (\<open>Forwarder.cpp\<close>, the server's
  half, is built from the same coroutines in \<open>Flex_Server\<close>). The object is a record whose fields are
  \<open>None\<close> until the code first assigns them, so that reading a member too early is the fault
  \<open>UninitRead\<close>. A coroutine is a program counter naming the \<open>co_await\<close> it is suspended at with the
  locals it keeps; resuming it with the result of the awaited operation runs it up to
  the next suspension. What the operating system answers is an argument.
\<close>

section \<open>The object\<close>

record forwarder =
  fwd_id :: u32
  kcpCb :: "kcpcb option"
  isRunning :: "bool option"
  isKcpAlive :: "bool option"
  udp_open :: bool
  tcp_open :: bool

definition get :: "'a option \<Rightarrow> fault + 'a" where
  \<comment> \<open>reading a member that the constructor does not initialise\<close>
  "get m = (case m of None \<Rightarrow> Inl UninitRead | Some x \<Rightarrow> Inr x)"

definition client_construct :: "u32 \<Rightarrow> forwarder \<times> u32" where
  \<comment> \<open>with the value of \<open>gIdCounter\<close> before and after\<close>
  "client_construct gIdCounter =
     (\<lparr>fwd_id = gIdCounter, kcpCb = None, isRunning = None, isKcpAlive = None,
       udp_open = False, tcp_open = False\<rparr>, gIdCounter + 1)"

definition client_destroy :: "forwarder \<Rightarrow> fault + freed list" where
  "client_destroy f =
     andThen (get (isRunning f)) (\<lambda>r.
       if r then Inl AssertFail
       else andThen (get (kcpCb f)) (\<lambda>k. Inr (ikcp_release k)))"

definition Stop :: "forwarder \<Rightarrow> forwarder" where
  "Stop f = f\<lparr>isRunning := Some False, udp_open := False, tcp_open := False\<rparr>"

record start_env =
  \<comment> \<open>the answers of the socket calls and of the allocator, in the order of the calls\<close>
  on_open :: "errc option"
  on_reuse :: "errc option"
  on_bind :: "errc option"
  on_connect :: "errc option"
  on_sndbuf :: "errc option"
  on_rcvbuf :: "errc option"
  kcp_alloc :: "nat \<Rightarrow> bool"

definition client_start :: "start_env \<Rightarrow> forwarder \<Rightarrow> fault + (bool \<times> forwarder)" where
  \<comment> \<open>\<open>set_option\<close> without an error argument throws, and nothing above catches it\<close>
  "client_start env f =
     (let f = f\<lparr>tcp_open := True\<rparr>
      in if on_open env \<noteq> None then Inr (False, f)
         else let f = f\<lparr>udp_open := True\<rparr>
         in if on_connect env \<noteq> None then Inr (False, f)
         else if on_sndbuf env \<noteq> None \<or> on_rcvbuf env \<noteq> None then Inl Uncaught
         else case ikcp_create 0x5a3331fd (kcp_alloc env) of
                None \<Rightarrow> Inl NullDeref
              | Some k \<Rightarrow> Inr (True, f\<lparr>kcpCb := Some (kcp_setup k), isRunning := Some True\<rparr>))"

section \<open>From TCP to KCP\<close>

datatype tcp_pc = Tcp_start | Tcp_receive | Tcp_done

definition tcp_loop :: "forwarder \<Rightarrow> fault + (forwarder \<times> tcp_pc)" where
  \<comment> \<open>\<open>while (isRunning)\<close>, up to the suspended \<open>async_receive\<close>\<close>
  "tcp_loop f = andThen (get (isRunning f)) (\<lambda>r. Inr (f, if r then Tcp_receive else Tcp_done))"

definition tcp_to_kcp :: "(nat \<Rightarrow> bool) \<Rightarrow> forwarder \<Rightarrow> errc + bytes \<Rightarrow> fault + (forwarder \<times> tcp_pc)" where
  \<comment> \<open>the coroutine, resumed with the outcome of \<open>async_receive\<close>\<close>
  "tcp_to_kcp alloc f r =
     (case r of
        Inl ec \<Rightarrow> if IsTryAgain ec then tcp_loop f else Inr (Stop f, Tcp_done)
      | Inr d \<Rightarrow>
          andThen (get (kcpCb f)) (\<lambda>k.
          andThen (ikcp_send k d (int (length d)) alloc) (\<lambda>(_, k).
            tcp_loop (f\<lparr>kcpCb := Some k\<rparr>))))"

section \<open>From KCP to TCP\<close>

datatype kcp_pc =
    Kcp_start
  | Kcp_write bytes u32   \<comment> \<open>in \<open>AsyncWrite\<close> of these bytes, with \<open>now\<close>\<close>
  | Kcp_retry bytes u32   \<comment> \<open>in the 2 ms wait before writing them again\<close>
  | Kcp_sleep u32         \<comment> \<open>in the wait until \<open>now + 10ms\<close>\<close>
  | Kcp_done

definition kcp_output :: "bool \<Rightarrow> forwarder \<Rightarrow> bytes \<Rightarrow> bytes list" where
  \<comment> \<open>the callback of \<open>kcpCb\<close>: what reaches the socket (the outcome of \<open>send\<close> is ignored)\<close>
  "kcp_output chk f buf = (if udp_open f then [frame_out chk buf] else [])"

definition kcp_drain :: "forwarder \<Rightarrow> u32 \<Rightarrow> fault + (forwarder \<times> kcp_pc)" where
  \<comment> \<open>the head of the inner loop: one \<open>ikcp_recv\<close>\<close>
  "kcp_drain f now =
     andThen (get (kcpCb f)) (\<lambda>k.
     andThen (ikcp_recv k (Some 16384) 16384) (\<lambda>(n, out, k).
       Inr (f\<lparr>kcpCb := Some k\<rparr>, if n \<le> 0 then Kcp_sleep now else Kcp_write out now)))"

definition kcp_loop :: "bool \<Rightarrow> forwarder \<Rightarrow> u32 \<Rightarrow> fault + (forwarder \<times> kcp_pc \<times> bytes list)" where
  \<comment> \<open>\<open>while (isRunning)\<close>: update, then the inner loop up to its first suspension\<close>
  "kcp_loop chk f now =
     andThen (get (isRunning f)) (\<lambda>r.
       if \<not> r then Inr (f, Kcp_done, [])
       else andThen (get (kcpCb f)) (\<lambda>k.
            andThen (ikcp_update k now) (\<lambda>(k, pkts).
            andThen (kcp_drain (f\<lparr>kcpCb := Some k\<rparr>) now) (\<lambda>(f', pc).
              Inr (f', pc, concat (map (kcp_output chk f) pkts))))))"

definition kcp_written :: "forwarder \<Rightarrow> bytes \<Rightarrow> u32 \<Rightarrow> errc + nat \<Rightarrow> fault + (forwarder \<times> kcp_pc)" where
  \<comment> \<open>resumed with the outcome of \<open>AsyncWrite\<close>\<close>
  "kcp_written f d now r =
     (case AsyncWrite r of
        Some ec \<Rightarrow> if IsTryAgain ec then Inr (f, Kcp_retry d now) else Inr (Stop f, Kcp_done)
      | None \<Rightarrow> kcp_drain f now)"

definition kcp_woken :: "bool \<Rightarrow> forwarder \<Rightarrow> errc + unit \<Rightarrow> u32 \<Rightarrow> fault + (forwarder \<times> kcp_pc \<times> bytes list)" where
  \<comment> \<open>resumed with the outcome of the 10 ms wait; the clock is read again\<close>
  "kcp_woken chk f r now =
     (case AsyncWait r of Some _ \<Rightarrow> Inl AssertFail | None \<Rightarrow> kcp_loop chk f now)"

section \<open>From UDP into KCP\<close>

datatype udp_pc = Udp_start | Udp_receive | Udp_done

definition udp_loop :: "forwarder \<Rightarrow> fault + (forwarder \<times> udp_pc)" where
  "udp_loop f = andThen (get (isRunning f)) (\<lambda>r. Inr (f, if r then Udp_receive else Udp_done))"

definition feed_kcp :: "bool \<Rightarrow> forwarder \<Rightarrow> bytes \<Rightarrow> memory \<Rightarrow> fault + forwarder" where
  "feed_kcp chk f buf alloc =
     (case frame_in chk buf of
        None \<Rightarrow> Inr f
      | Some p \<Rightarrow>
          andThen (get (kcpCb f)) (\<lambda>k.
          andThen (ikcp_input k (Some p) (int (length p)) alloc) (\<lambda>(_, k).
            Inr (f\<lparr>kcpCb := Some k\<rparr>))))"

definition udp_to_kcp ::
  "bool \<Rightarrow> forwarder \<Rightarrow> errc + bytes \<Rightarrow> memory \<Rightarrow> fault + (forwarder \<times> udp_pc)" where
  "udp_to_kcp chk f r alloc =
     (case r of
        Inl ec \<Rightarrow> if IsTryAgain ec then udp_loop f else Inr (Stop f, Udp_done)
      | Inr buf \<Rightarrow> andThen (feed_kcp chk (f\<lparr>isKcpAlive := Some True\<rparr>) buf alloc) udp_loop)"

end
