(* ===== verification/Flex_Server.thy ===== *)
theory Flex_Server
  imports Flex_Session
begin

text \<open>
  The server: \<open>Forwarder.cpp\<close>, one forwarder per peer address, and the accept loop of
  \<open>FlexServer.cpp\<close>, which finds or makes the forwarder a datagram belongs to. Where a coroutine of the
  forwarder repeats one of \<open>ClientSideForwarder.cpp\<close> word for word, its definition is that one.
\<close>

section \<open>Forwarder.cpp\<close>

definition server_construct :: "u32 \<Rightarrow> forwarder \<times> u32" where
  "server_construct gIdCounter =
     (\<lparr>fwd_id = gIdCounter, kcpCb = None, isRunning = None, isKcpAlive = None,
       udp_open = False, tcp_open = False\<rparr>, gIdCounter + 1)"

definition server_destroy :: "forwarder \<Rightarrow> fault + freed list" where
  "server_destroy f =
     andThen (get (isRunning f)) (\<lambda>r.
       if r then Inl AssertFail
       else andThen (get (kcpCb f)) (\<lambda>k. Inr (ikcp_release k)))"

definition server_output :: "bool \<Rightarrow> forwarder \<Rightarrow> bytes \<Rightarrow> bytes list" where
  "server_output chk f buf = kcp_output chk f buf"

definition server_create_kcp :: "start_env \<Rightarrow> forwarder \<Rightarrow> fault + forwarder" where
  \<comment> \<open>the end of \<open>Start\<close>; the callback installed is \<open>server_output\<close>\<close>
  "server_create_kcp env f =
     (case ikcp_create 0x5a3331fd (kcp_alloc env) of
        None \<Rightarrow> Inl NullDeref
      | Some k \<Rightarrow> Inr (f\<lparr>kcpCb := Some (kcp_setup k)\<rparr>))"

definition server_start :: "start_env \<Rightarrow> forwarder \<Rightarrow> fault + (bool \<times> forwarder)" where
  \<comment> \<open>the coroutine spawned on the way is \<open>server_connect\<close>; it first runs after \<open>Start\<close> returned\<close>
  "server_start env f =
     (if on_open env \<noteq> None then Inr (False, f)
      else let f = f\<lparr>udp_open := True\<rparr>
      in if on_reuse env \<noteq> None then Inl Uncaught
      else if on_bind env \<noteq> None then Inr (False, f)
      else if on_connect env \<noteq> None then Inr (False, f)
      else andThen (server_create_kcp env f) (\<lambda>f. Inr (True, f)))"

definition server_connect :: "forwarder \<Rightarrow> errc option \<Rightarrow> errc + unit \<Rightarrow> bool \<times> forwarder" where
  \<comment> \<open>the start coroutine; the result says whether the four others were spawned\<close>
  "server_connect f opened r =
     (if opened \<noteq> None then (False, f)
      else let f = f\<lparr>tcp_open := True\<rparr>
      in if AsyncConnect r \<noteq> None then (False, f)
         else (True, f\<lparr>isRunning := Some True\<rparr>))"

definition server_tcp_to_kcp ::
  "(nat \<Rightarrow> bool) \<Rightarrow> forwarder \<Rightarrow> errc + bytes \<Rightarrow> fault + (forwarder \<times> tcp_pc)" where
  "server_tcp_to_kcp alloc f r = tcp_to_kcp alloc f r"

definition server_kcp_loop :: "bool \<Rightarrow> forwarder \<Rightarrow> u32 \<Rightarrow> fault + (forwarder \<times> kcp_pc \<times> bytes list)" where
  "server_kcp_loop chk f now = kcp_loop chk f now"

definition server_kcp_written ::
  "forwarder \<Rightarrow> bytes \<Rightarrow> u32 \<Rightarrow> errc + nat \<Rightarrow> fault + (forwarder \<times> kcp_pc)" where
  "server_kcp_written f d now r = kcp_written f d now r"

definition server_kcp_woken ::
  "bool \<Rightarrow> forwarder \<Rightarrow> errc + unit \<Rightarrow> u32 \<Rightarrow> fault + (forwarder \<times> kcp_pc \<times> bytes list)" where
  "server_kcp_woken chk f r now = kcp_woken chk f r now"

definition server_udp_to_kcp ::
  "bool \<Rightarrow> forwarder \<Rightarrow> errc + bytes \<Rightarrow> memory \<Rightarrow> fault + (forwarder \<times> udp_pc)" where
  "server_udp_to_kcp chk f r alloc = udp_to_kcp chk f r alloc"

datatype dog_pc = Dog_start | Dog_wait | Dog_done

definition dog_loop :: "forwarder \<Rightarrow> fault + (forwarder \<times> dog_pc)" where
  "dog_loop f = andThen (get (isRunning f)) (\<lambda>r. Inr (f, if r then Dog_wait else Dog_done))"

definition server_watchdog :: "forwarder \<Rightarrow> errc + unit \<Rightarrow> fault + (forwarder \<times> dog_pc)" where
  \<comment> \<open>resumed after 5 seconds\<close>
  "server_watchdog f r =
     (if AsyncWait r \<noteq> None then Inl AssertFail
      else andThen (get (isKcpAlive f)) (\<lambda>alive.
             if alive then dog_loop (f\<lparr>isKcpAlive := Some False\<rparr>)
             else Inr (Stop f, Dog_done)))"

definition OnUdpData :: "bool \<Rightarrow> forwarder \<Rightarrow> bytes \<Rightarrow> memory \<Rightarrow> fault + forwarder" where
  "OnUdpData chk f buf alloc =
     (let f = f\<lparr>isKcpAlive := Some True\<rparr>
      in if chk then
           if length buf > 1 then
             if XorCheck (drop 1 buf) (length buf - 1) = hd buf then
               andThen (get (kcpCb f)) (\<lambda>k.
               andThen (ikcp_input k (Some (encrypt (drop 1 buf) (length buf - 1))) (int (length buf - 1)) alloc)
                 (\<lambda>(_, k). Inr (f\<lparr>kcpCb := Some k\<rparr>)))
             else Inr f
           else Inr f
         else
           andThen (get (kcpCb f)) (\<lambda>k.
           andThen (ikcp_input k (Some (encrypt buf (length buf))) (int (length buf)) alloc)
             (\<lambda>(_, k). Inr (f\<lparr>kcpCb := Some k\<rparr>))))"

definition server_stop :: "forwarder \<Rightarrow> forwarder" where
  "server_stop f = f\<lparr>isRunning := Some False, udp_open := False, tcp_open := False\<rparr>"

lemma OnUdpData_feed: "OnUdpData chk f buf alloc = feed_kcp chk (f\<lparr>isKcpAlive := Some True\<rparr>) buf alloc"
  by (simp add: OnUdpData_def feed_kcp_def frame_in_def Let_def)

end
