(* ===== verification/Flex_Endpoint.thy ===== *)
theory Flex_Endpoint
  imports Flex_Server
begin

text \<open>
  A running forwarder: the object and its coroutines, each suspended at one \<open>co_await\<close>. An event is the
  completion of one of the awaited operations, chosen by the event loop; it resumes the coroutine
  that waits for it. On the client the watchdog coroutine does not exist (\<open>Dog_done\<close>).
\<close>

record endpoint =
  fw :: forwarder
  tcp_c :: tcp_pc
  kcp_c :: kcp_pc
  udp_c :: udp_pc
  dog_c :: dog_pc

datatype event =
    Tcp_begin | Tcp_event "errc + bytes" "nat \<Rightarrow> bool"
  | Kcp_begin u32 | Write_event "errc + nat" | Retry_event "errc + unit" | Wake_event "errc + unit" u32
  | Udp_begin | Udp_event "errc + bytes" memory
  | Dog_begin | Dog_event "errc + unit"
  | Direct bytes memory  \<comment> \<open>\<open>OnUdpData\<close>, called by the accept loop\<close>

definition with_tcp :: "endpoint \<Rightarrow> fault + (forwarder \<times> tcp_pc) \<Rightarrow> fault + (endpoint \<times> bytes list)" where
  "with_tcp e r = andThen r (\<lambda>(f, c). Inr (e\<lparr>fw := f, tcp_c := c\<rparr>, []))"

definition with_kcp :: "endpoint \<Rightarrow> fault + (forwarder \<times> kcp_pc \<times> bytes list) \<Rightarrow> fault + (endpoint \<times> bytes list)" where
  "with_kcp e r = andThen r (\<lambda>(f, c, out). Inr (e\<lparr>fw := f, kcp_c := c\<rparr>, out))"

definition with_udp :: "endpoint \<Rightarrow> fault + (forwarder \<times> udp_pc) \<Rightarrow> fault + (endpoint \<times> bytes list)" where
  "with_udp e r = andThen r (\<lambda>(f, c). Inr (e\<lparr>fw := f, udp_c := c\<rparr>, []))"

definition with_dog :: "endpoint \<Rightarrow> fault + (forwarder \<times> dog_pc) \<Rightarrow> fault + (endpoint \<times> bytes list)" where
  "with_dog e r = andThen r (\<lambda>(f, c). Inr (e\<lparr>fw := f, dog_c := c\<rparr>, []))"

definition ep_step :: "bool \<Rightarrow> endpoint \<Rightarrow> event \<Rightarrow> (fault + (endpoint \<times> bytes list)) option" where
  \<comment> \<open>\<open>None\<close> where no coroutine waits for the event; the byte strings go to the UDP socket\<close>
  "ep_step chk e ev =
     (case ev of
        Tcp_begin \<Rightarrow> if tcp_c e = Tcp_start then Some (with_tcp e (tcp_loop (fw e))) else None
      | Tcp_event r alloc \<Rightarrow>
          if tcp_c e = Tcp_receive then Some (with_tcp e (tcp_to_kcp alloc (fw e) r)) else None
      | Kcp_begin now \<Rightarrow> if kcp_c e = Kcp_start then Some (with_kcp e (kcp_loop chk (fw e) now)) else None
      | Write_event r \<Rightarrow>
          (case kcp_c e of
             Kcp_write d now \<Rightarrow>
               Some (with_kcp e (andThen (kcp_written (fw e) d now r) (\<lambda>(f, c). Inr (f, c, []))))
           | _ \<Rightarrow> None)
      | Retry_event r \<Rightarrow>
          (case kcp_c e of Kcp_retry d now \<Rightarrow> Some (Inr (e\<lparr>kcp_c := Kcp_write d now\<rparr>, [])) | _ \<Rightarrow> None)
      | Wake_event r now \<Rightarrow>
          (case kcp_c e of Kcp_sleep _ \<Rightarrow> Some (with_kcp e (kcp_woken chk (fw e) r now)) | _ \<Rightarrow> None)
      | Udp_begin \<Rightarrow> if udp_c e = Udp_start then Some (with_udp e (udp_loop (fw e))) else None
      | Udp_event r alloc \<Rightarrow>
          if udp_c e = Udp_receive then Some (with_udp e (udp_to_kcp chk (fw e) r alloc)) else None
      | Dog_begin \<Rightarrow> if dog_c e = Dog_start then Some (with_dog e (dog_loop (fw e))) else None
      | Dog_event r \<Rightarrow>
          if dog_c e = Dog_wait then Some (with_dog e (server_watchdog (fw e) r)) else None
      | Direct buf alloc \<Rightarrow> Some (andThen (OnUdpData chk (fw e) buf alloc) (\<lambda>f. Inr (e\<lparr>fw := f\<rparr>, []))))"

section \<open>Invariant\<close>

definition kcb_ok :: "kcpcb \<Rightarrow> bool" where
  "kcb_ok k = (kcp_inv k \<and> output_set k)"

definition fw_inv :: "forwarder \<Rightarrow> bool" where
  "fw_inv f =
     ((\<exists>k. kcpCb f = Some k \<and> kcb_ok k) \<and> isRunning f \<noteq> None \<and>
      (isRunning f = Some False \<longrightarrow> \<not> udp_open f \<and> \<not> tcp_open f))"

definition ep_inv :: "endpoint \<Rightarrow> bool" where
  "ep_inv e = (fw_inv (fw e) \<and> (dog_c e \<noteq> Dog_done \<longrightarrow> isKcpAlive (fw e) \<noteq> None))"

definition fits :: "kcpcb \<Rightarrow> event \<Rightarrow> bool" where
  \<comment> \<open>sizes an execution would need gigabytes of memory to exceed, and timers that are not cancelled\<close>
  "fits k ev =
     (first_size (rcv_queue k) < 2147483648 \<and>
      (case ev of
         Tcp_event (Inr d) _ \<Rightarrow> length d < 2147483648
       | Kcp_begin _ \<Rightarrow> unat (ackcount k) < 2147483648
       | Wake_event r _ \<Rightarrow> unat (ackcount k) < 2147483648 \<and> r = Inr ()
       | Dog_event r \<Rightarrow> r = Inr ()
       | Udp_event (Inr d) _ \<Rightarrow> acks_fit k (length d)
       | Direct d _ \<Rightarrow> acks_fit k (length d)
       | _ \<Rightarrow> True))"

definition ev_memory :: "event \<Rightarrow> memory" where
  \<comment> \<open>which allocations of \<open>ikcp_input\<close> succeed while the event is handled\<close>
  "ev_memory ev = (case ev of Udp_event _ alloc \<Rightarrow> alloc | Direct _ alloc \<Rightarrow> alloc | _ \<Rightarrow> plenty)"

section \<open>No operation of the protocol faults\<close>

lemma get_Some [simp]: "get (Some x) = Inr x"
  by (simp add: get_def)

lemma send_ok:
  assumes "kcb_ok k" "length d < 2147483648"
  shows "\<exists>r k'. ikcp_send k d (int (length d)) alloc = Inr (r, k') \<and> kcb_ok k'"
proof -
  obtain r k' where s: "ikcp_send k d (int (length d)) alloc = Inr (r, k')" "kcp_inv k'"
    using ikcp_send_total [of k "int (length d)" d alloc] assms by (auto simp: kcb_ok_def)
  then show ?thesis using send_receives [OF s(1)] assms(1) by (auto simp: kcb_ok_def receives_same_def)
qed

lemma recv_fits:
  assumes "kcb_ok k" "first_size (rcv_queue k) < 2147483648"
  shows "\<exists>n out k'. ikcp_recv k (Some 16384) 16384 = Inr (n, out, k') \<and> kcb_ok k'"
proof -
  obtain n out k' where r: "ikcp_recv k (Some 16384) 16384 = Inr (n, out, k')"
    using ikcp_recv_cases [of k 16384 "Some 16384"] assms by (auto simp: kcb_ok_def split: if_splits)
  then show ?thesis using recv_sends_less [OF _ r] assms(1) by (auto simp: kcb_ok_def sends_less_def)
qed

lemma input_ok:
  assumes "kcb_ok k" "acks_fit k n" "length p \<le> n"
  shows "(\<exists>r k'. ikcp_input k (Some p) (int (length p)) alloc = Inr (r, k') \<and> kcb_ok k') \<or>
    (\<exists>x. ikcp_input k (Some p) (int (length p)) alloc = Inl x \<and> short_of alloc x)"
proof -
  have "24 * int (unat (ackcount k)) + max 0 (int (length p)) < 51539607528"
    using assms(2,3) unfolding acks_fit_def by linarith
  then obtain r k' where i: "ikcp_input k (Some p) (int (length p)) plenty = Inr (r, k')" "kcp_inv k'"
    using ikcp_input_total [of k "Some p" "int (length p)"] assms(1) by (auto simp: kcb_ok_def)
  then have "kcb_ok k'" using input_sends_less [OF i(1)] assms(1) by (auto simp: kcb_ok_def sends_less_def)
  then show ?thesis using input_mem [of k "Some p" "int (length p)" alloc] i(1) by auto
qed

lemma update_ok:
  assumes "kcb_ok k" "unat (ackcount k) < 2147483648"
  shows "\<exists>k' pkts. ikcp_update k now = Inr (k', pkts) \<and> kcb_ok k' \<and> rcv_queue k' = rcv_queue k \<and>
    (\<forall>p \<in> set pkts. 24 \<le> length p \<and> length p \<le> unat (mtu k))"
proof -
  obtain k' pkts where u: "ikcp_update k now = Inr (k', pkts)" "kcp_inv k'" "output_set k'"
    "\<forall>p \<in> set pkts. 24 \<le> length p \<and> length p \<le> unat (mtu k)"
    using ikcp_update_total [of k now] assms by (auto simp: kcb_ok_def)
  then show ?thesis using update_receives [OF u(1)] assms
    by (auto simp: kcb_ok_def receives_same_def receiver_of_def)
qed

section \<open>No coroutine faults\<close>

lemma fw_invE:
  assumes "fw_inv f"
  obtains k r where "kcpCb f = Some k" "kcb_ok k" "isRunning f = Some r"
  using assms by (auto simp: fw_inv_def)

lemma stop_inv: "fw_inv f \<Longrightarrow> fw_inv (Stop f)"
  by (auto simp: fw_inv_def Stop_def)

lemma set_kcp_inv: "fw_inv f \<Longrightarrow> kcb_ok k \<Longrightarrow> fw_inv (f\<lparr>kcpCb := Some k\<rparr>)"
  by (auto simp: fw_inv_def)

lemma set_alive_inv: "fw_inv (f\<lparr>isKcpAlive := a\<rparr>) = fw_inv f"
  by (simp add: fw_inv_def)

lemma alive_frame [simp]:
  "isKcpAlive (Stop f) = isKcpAlive f" "kcpCb (Stop f) = kcpCb f" "isRunning (Stop f) = Some False"
  by (simp_all add: Stop_def)

definition good :: "forwarder \<Rightarrow> forwarder \<Rightarrow> bool" where
  \<comment> \<open>what every coroutine leaves behind\<close>
  "good f f' = (fw_inv f' \<and> (isKcpAlive f \<noteq> None \<longrightarrow> isKcpAlive f' \<noteq> None))"

lemma good_refl: "fw_inv f \<Longrightarrow> good f f"
  by (simp add: good_def)

lemma good_set_kcp: "fw_inv f \<Longrightarrow> kcb_ok k \<Longrightarrow> good f (f\<lparr>kcpCb := Some k\<rparr>)"
  by (simp add: good_def set_kcp_inv)

lemma good_stop: "fw_inv f \<Longrightarrow> good f (Stop f)"
  by (simp add: good_def stop_inv)

lemma good_trans: "good f g \<Longrightarrow> good g h \<Longrightarrow> good f h"
  by (simp add: good_def)

lemma loops_good:
  assumes "fw_inv f"
  shows "\<exists>c. tcp_loop f = Inr (f, c)" "\<exists>c. udp_loop f = Inr (f, c)" "\<exists>c. dog_loop f = Inr (f, c)"
  using fw_invE [OF assms] by (metis andThen_simps(2) get_Some tcp_loop_def udp_loop_def dog_loop_def)+

lemma tcp_to_kcp_good:
  assumes "fw_inv f" "\<And>d. r = Inr d \<Longrightarrow> length d < 2147483648"
  shows "\<exists>f' c. tcp_to_kcp alloc f r = Inr (f', c) \<and> good f f'"
proof (cases r)
  case (Inl ec)
  then show ?thesis using loops_good(1) [OF assms(1)] assms(1)
    by (auto simp: tcp_to_kcp_def good_refl good_stop)
next
  case (Inr d)
  obtain k where k: "kcpCb f = Some k" "kcb_ok k" using fw_invE [OF assms(1)] by blast
  obtain n k' where s: "ikcp_send k d (int (length d)) alloc = Inr (n, k')" "kcb_ok k'"
    using send_ok [OF k(2) assms(2) [OF Inr]] by blast
  have i: "fw_inv (f\<lparr>kcpCb := Some k'\<rparr>)" by (rule set_kcp_inv [OF assms(1) s(2)])
  then obtain c where "tcp_loop (f\<lparr>kcpCb := Some k'\<rparr>) = Inr (f\<lparr>kcpCb := Some k'\<rparr>, c)"
    using loops_good(1) by blast
  then show ?thesis using Inr k(1) s i by (simp add: tcp_to_kcp_def good_def)
qed

lemma kcp_drain_good:
  assumes "fw_inv f" "\<And>k. kcpCb f = Some k \<Longrightarrow> first_size (rcv_queue k) < 2147483648"
  shows "\<exists>f' c. kcp_drain f now = Inr (f', c) \<and> good f f'"
proof -
  obtain k where k: "kcpCb f = Some k" "kcb_ok k" using fw_invE [OF assms(1)] by blast
  obtain n out k' where r: "ikcp_recv k (Some 16384) 16384 = Inr (n, out, k')" "kcb_ok k'"
    using recv_fits [OF k(2) assms(2) [OF k(1)]] by blast
  then show ?thesis using k good_set_kcp [OF assms(1) r(2)] by (simp add: kcp_drain_def)
qed

lemma kcp_loop_good:
  assumes "fw_inv f"
    and "\<And>k. kcpCb f = Some k \<Longrightarrow> first_size (rcv_queue k) < 2147483648 \<and> unat (ackcount k) < 2147483648"
  shows "\<exists>f' c out. kcp_loop chk f now = Inr (f', c, out) \<and> good f f' \<and>
    (isRunning f = Some False \<longrightarrow> out = [])"
proof -
  obtain k r where k: "kcpCb f = Some k" "kcb_ok k" "isRunning f = Some r" by (rule fw_invE [OF assms(1)])
  show ?thesis
  proof (cases r)
    case False
    then show ?thesis using k good_refl [OF assms(1)] by (simp add: kcp_loop_def)
  next
    case True
    obtain k' pkts where u: "ikcp_update k now = Inr (k', pkts)" "kcb_ok k'" "rcv_queue k' = rcv_queue k"
      using update_ok [OF k(2)] assms(2) [OF k(1)] by blast
    have g: "good f (f\<lparr>kcpCb := Some k'\<rparr>)" by (rule good_set_kcp [OF assms(1) u(2)])
    then have "fw_inv (f\<lparr>kcpCb := Some k'\<rparr>)" by (simp add: good_def)
    then obtain f' c where d: "kcp_drain (f\<lparr>kcpCb := Some k'\<rparr>) now = Inr (f', c)" "good (f\<lparr>kcpCb := Some k'\<rparr>) f'"
      using kcp_drain_good [of "f\<lparr>kcpCb := Some k'\<rparr>" now] u(3) assms(2) [OF k(1)] by auto
    have "good f f'" by (rule good_trans [OF g d(2)])
    then show ?thesis using k u(1) d(1) True by (simp add: kcp_loop_def)
  qed
qed

lemma feed_good:
  assumes "fw_inv f" "\<And>k. kcpCb f = Some k \<Longrightarrow> acks_fit k (length buf)"
  shows "(\<exists>f'. feed_kcp chk f buf alloc = Inr f' \<and> good f f') \<or>
    (\<exists>x. feed_kcp chk f buf alloc = Inl x \<and> short_of alloc x)"
proof (cases "frame_in chk buf")
  case None
  then show ?thesis using good_refl [OF assms(1)] by (simp add: feed_kcp_def)
next
  case (Some p)
  then have l: "length p \<le> length buf" by (auto simp: frame_in_def split: if_splits)
  obtain k where k: "kcpCb f = Some k" "kcb_ok k" using fw_invE [OF assms(1)] by blast
  show ?thesis using input_ok [OF k(2) assms(2) [OF k(1)] l, of alloc] Some k(1) good_set_kcp [OF assms(1)]
    by (auto simp: feed_kcp_def)
qed

lemma udp_to_kcp_good:
  assumes "fw_inv f" "\<And>k d. kcpCb f = Some k \<Longrightarrow> r = Inr d \<Longrightarrow> acks_fit k (length d)"
  shows "(\<exists>f' c. udp_to_kcp chk f r alloc = Inr (f', c) \<and> good f f') \<or>
    (\<exists>x. udp_to_kcp chk f r alloc = Inl x \<and> short_of alloc x)"
proof (cases r)
  case (Inl ec)
  then show ?thesis using loops_good(2) [OF assms(1)] assms(1)
    by (auto simp: udp_to_kcp_def good_refl good_stop)
next
  case (Inr d)
  let ?f = "f\<lparr>isKcpAlive := Some True\<rparr>"
  have i: "fw_inv ?f" by (simp add: set_alive_inv assms(1))
  consider f' where "feed_kcp chk ?f d alloc = Inr f'" "good ?f f'"
    | x where "feed_kcp chk ?f d alloc = Inl x" "short_of alloc x"
    using feed_good [OF i, of d chk alloc] assms(2) [OF _ Inr] by auto
  then show ?thesis
  proof cases
    case (1 f')
    then obtain c where "udp_loop f' = Inr (f', c)" using loops_good(2) by (auto simp: good_def)
    then show ?thesis using Inr 1 by (simp add: udp_to_kcp_def good_def)
  qed (simp add: udp_to_kcp_def Inr)
qed

lemma watchdog_good:
  assumes "fw_inv f" "isKcpAlive f \<noteq> None"
  shows "\<exists>f' c. server_watchdog f (Inr ()) = Inr (f', c) \<and> good f f'"
proof -
  let ?f = "f\<lparr>isKcpAlive := Some False\<rparr>"
  have i: "fw_inv ?f" by (simp add: set_alive_inv assms(1))
  then have "good f ?f" by (simp add: good_def)
  moreover obtain c where "dog_loop ?f = Inr (?f, c)" using loops_good(3) [OF i] by blast
  ultimately show ?thesis using good_stop [OF assms(1)] assms(2)
    by (auto simp: server_watchdog_def AsyncWait_def)
qed

section \<open>The endpoint as a whole\<close>

lemma ep_inv_good: "ep_inv e \<Longrightarrow> good (fw e) f \<Longrightarrow> dog_c e = Dog_done \<longrightarrow> c = Dog_done \<Longrightarrow>
    ep_inv (e\<lparr>fw := f, dog_c := c\<rparr>)"
  by (auto simp: ep_inv_def good_def)

lemma kcp_step_good:
  \<comment> \<open>the events of the coroutine that runs the protocol\<close>
  assumes "ep_inv e" "\<And>k. kcpCb (fw e) = Some k \<Longrightarrow> fits k ev" "ep_step chk e ev = Some r"
    and ev: "ev = Kcp_begin now \<or> ev = Write_event q \<or> ev = Retry_event w \<or> ev = Wake_event v now"
  shows "\<exists>e' out. r = Inr (e', out) \<and> ep_inv e' \<and> (isRunning (fw e) = Some False \<longrightarrow> out = [])"
proof -
  have f: "fw_inv (fw e)" using assms(1) by (simp add: ep_inv_def)
  have keep: "ep_inv (e\<lparr>fw := f'\<rparr>)" if "good (fw e) f'" for f'
    using ep_inv_good [OF assms(1) that, of "dog_c e"] by simp
  show ?thesis
  proof (cases ev)
    case (Kcp_begin now)
    obtain f' c out where
      g: "kcp_loop chk (fw e) now = Inr (f', c, out)" "good (fw e) f'" "isRunning (fw e) = Some False \<longrightarrow> out = []"
      using kcp_loop_good [OF f, of chk now] assms(2) Kcp_begin by (auto simp: fits_def)
    then show ?thesis using assms(3) Kcp_begin keep [OF g(2)]
      by (auto simp: ep_step_def with_kcp_def ep_inv_def split: if_splits)
  next
    case (Write_event q)
    then obtain d now where w: "kcp_c e = Kcp_write d now"
      "r = with_kcp e (andThen (kcp_written (fw e) d now q) (\<lambda>(f, c). Inr (f, c, [])))"
      using assms(3) by (auto simp: ep_step_def split: kcp_pc.splits)
    have "\<exists>f' c. kcp_written (fw e) d now q = Inr (f', c) \<and> good (fw e) f'"
      using kcp_drain_good [OF f, of now] assms(2) Write_event good_refl [OF f] good_stop [OF f]
      by (auto simp: kcp_written_def fits_def split: option.split)
    then show ?thesis using w(2) keep by (auto simp: with_kcp_def ep_inv_def)
  next
    case (Retry_event q)
    then show ?thesis using assms(1,3) by (auto simp: ep_step_def ep_inv_def split: kcp_pc.splits)
  next
    case (Wake_event q now)
    have q: "q = Inr ()" using fw_invE [OF f] assms(2) Wake_event by (auto simp: fits_def)
    obtain f' c out where
      g: "kcp_loop chk (fw e) now = Inr (f', c, out)" "good (fw e) f'" "isRunning (fw e) = Some False \<longrightarrow> out = []"
      using kcp_loop_good [OF f, of chk now] assms(2) Wake_event by (auto simp: fits_def)
    then show ?thesis using assms(3) Wake_event keep [OF g(2)] q
      by (auto simp: ep_step_def with_kcp_def kcp_woken_def AsyncWait_def ep_inv_def split: kcp_pc.splits)
  qed (use ev in simp_all)
qed

lemma ep_step_good:
  assumes "ep_inv e" "\<And>k. kcpCb (fw e) = Some k \<Longrightarrow> fits k ev" "ep_step chk e ev = Some r"
  shows "(\<exists>e' out. r = Inr (e', out) \<and> ep_inv e' \<and> (isRunning (fw e) = Some False \<longrightarrow> out = [])) \<or>
    (\<exists>x. r = Inl x \<and> short_of (ev_memory ev) x)"
proof -
  have f: "fw_inv (fw e)" "dog_c e \<noteq> Dog_done \<longrightarrow> isKcpAlive (fw e) \<noteq> None"
    using assms(1) by (simp_all add: ep_inv_def)
  have keep: "ep_inv (e\<lparr>fw := f'\<rparr>)" if "good (fw e) f'" for f'
    using ep_inv_good [OF assms(1) that, of "dog_c e"] by simp
  note inv = f(1) f(2) assms(2,3)
  show ?thesis
  proof (cases ev)
    case Tcp_begin
    then show ?thesis using assms(1,3) loops_good(1) [OF f(1)]
      by (auto simp: ep_step_def with_tcp_def ep_inv_def split: if_splits)
  next
    case (Tcp_event q alloc)
    have "length d < 2147483648" if "q = Inr d" for d
      using fw_invE [OF f(1)] assms(2) Tcp_event that by (fastforce simp: fits_def)
    from tcp_to_kcp_good [OF f(1) this] obtain f' c where
      g: "tcp_to_kcp alloc (fw e) q = Inr (f', c)" "good (fw e) f'" by blast
    then show ?thesis using assms(3) Tcp_event keep [OF g(2)]
      by (auto simp: ep_step_def with_tcp_def ep_inv_def split: if_splits)
  next
    case Udp_begin
    then show ?thesis using assms(1,3) loops_good(2) [OF f(1)]
      by (auto simp: ep_step_def with_udp_def ep_inv_def split: if_splits)
  next
    case (Udp_event q alloc)
    have "acks_fit k (length d)" if "kcpCb (fw e) = Some k" "q = Inr d" for k d
      using assms(2) Udp_event that by (auto simp: fits_def)
    from udp_to_kcp_good [where r = q and chk = chk and alloc = alloc, OF f(1) this] consider
        f' c where "udp_to_kcp chk (fw e) q alloc = Inr (f', c)" "good (fw e) f'"
      | x where "udp_to_kcp chk (fw e) q alloc = Inl x" "short_of alloc x" by blast
    then show ?thesis using assms(3) Udp_event keep
      by cases (auto simp: ep_step_def with_udp_def ep_inv_def ev_memory_def split: if_splits)
  next
    case Dog_begin
    then show ?thesis using assms(1,3) loops_good(3) [OF f(1)]
      by (auto simp: ep_step_def with_dog_def ep_inv_def split: if_splits)
  next
    case (Dog_event q)
    then have d: "dog_c e = Dog_wait" "r = with_dog e (server_watchdog (fw e) q)"
      using assms(3) by (auto simp: ep_step_def split: if_splits)
    have q: "q = Inr ()" using fw_invE [OF f(1)] assms(2) Dog_event by (auto simp: fits_def)
    obtain f' c where "server_watchdog (fw e) q = Inr (f', c)" "good (fw e) f'"
      using watchdog_good [OF f(1)] f(2) d(1) q by auto
    then show ?thesis using d ep_inv_good [OF assms(1)] by (auto simp: with_dog_def)
  next
    case (Direct buf alloc)
    have i: "fw_inv ((fw e)\<lparr>isKcpAlive := Some True\<rparr>)" by (simp add: set_alive_inv f(1))
    consider f' where "OnUdpData chk (fw e) buf alloc = Inr f'" "good ((fw e)\<lparr>isKcpAlive := Some True\<rparr>) f'"
      | x where "OnUdpData chk (fw e) buf alloc = Inl x" "short_of alloc x"
      using feed_good [OF i, of buf chk alloc] assms(2) Direct by (auto simp: OnUdpData_feed fits_def)
    then show ?thesis
    proof cases
      case (1 f')
      then have "good (fw e) f'" by (simp add: good_def)
      then show ?thesis using assms(3) Direct 1(1) keep by (auto simp: ep_step_def)
    qed (use assms(3) Direct in \<open>auto simp: ep_step_def ev_memory_def\<close>)
  qed (use kcp_step_good [OF assms] in simp_all)
qed

section \<open>From construction to destruction\<close>

definition spawned :: "forwarder \<Rightarrow> dog_pc \<Rightarrow> endpoint" where
  "spawned f dog = \<lparr>fw = f, tcp_c = Tcp_start, kcp_c = Kcp_start, udp_c = Udp_start, dog_c = dog\<rparr>"

inductive connecting :: "bool \<Rightarrow> forwarder \<Rightarrow> bool" for chk where
  \<comment> \<open>a server forwarder before its TCP connection is up: the accept loop has fed it one or more datagrams\<close>
  first: "server_start env (fst (server_construct g)) = Inr (True, f0) \<Longrightarrow>
    acks_fit (session_kcp 0x5a3331fd) (length buf) \<Longrightarrow> OnUdpData chk f0 buf alloc = Inr f \<Longrightarrow> connecting chk f"
| more: "connecting chk f \<Longrightarrow> (\<And>k. kcpCb f = Some k \<Longrightarrow> acks_fit k (length buf)) \<Longrightarrow>
    OnUdpData chk f buf alloc = Inr f' \<Longrightarrow> connecting chk f'"

inductive ep_reach :: "bool \<Rightarrow> endpoint \<Rightarrow> bool" for chk where
  client: "client_start env (fst (client_construct g)) = Inr (True, f) \<Longrightarrow> ep_reach chk (spawned f Dog_done)"
| server: "connecting chk f0 \<Longrightarrow> server_connect f0 opened r = (True, f) \<Longrightarrow>
    ep_reach chk (spawned f Dog_start)"
| step: "ep_reach chk e \<Longrightarrow> (\<And>k. kcpCb (fw e) = Some k \<Longrightarrow> fits k ev) \<Longrightarrow>
    ep_step chk e ev = Some (Inr (e', out)) \<Longrightarrow> ep_reach chk e'"

lemma session_kcb_ok: "kcb_ok (session_kcp cv)"
  by (simp add: kcb_ok_def session_inv session_fields)

lemma created: "ikcp_create cv alloc = Some k \<Longrightarrow> kcp_setup k = session_kcp cv"
  by (simp add: ikcp_create_def session_kcp_def split: if_splits)

lemma client_started:
  assumes "client_start env f0 = Inr (True, f)"
  shows "kcpCb f = Some (session_kcp 0x5a3331fd) \<and> isRunning f = Some True \<and> udp_open f \<and> tcp_open f"
  using assms by (auto simp: client_start_def Let_def created split: if_splits option.splits)

lemma server_started:
  assumes "server_start env f0 = Inr (True, f)"
  shows "kcpCb f = Some (session_kcp 0x5a3331fd) \<and> isRunning f = isRunning f0"
  using assms by (auto simp: server_start_def server_create_kcp_def Let_def created split: if_splits option.splits)

lemma OnUdpData_ok:
  assumes "kcpCb f = Some k" "kcb_ok k" "acks_fit k (length buf)" "OnUdpData chk f buf alloc = Inr f'"
  shows "\<exists>k'. f' = f\<lparr>isKcpAlive := Some True, kcpCb := Some k'\<rparr> \<and> kcb_ok k'"
proof (cases "frame_in chk buf")
  case None
  then have "f' = f\<lparr>isKcpAlive := Some True\<rparr>" using assms(4) by (simp add: OnUdpData_feed feed_kcp_def)
  then show ?thesis using assms(1,2) by (intro exI [of _ k]) simp
next
  case (Some p)
  then have l: "length p \<le> length buf" by (auto simp: frame_in_def split: if_splits)
  show ?thesis using input_ok [OF assms(2,3) l, of alloc] assms(1,4) Some
    by (auto simp: OnUdpData_feed feed_kcp_def)
qed

lemma connecting_inv:
  "connecting chk f \<Longrightarrow> \<exists>k. kcpCb f = Some k \<and> kcb_ok k \<and> isKcpAlive f = Some True \<and> isRunning f = None"
proof (induction rule: connecting.induct)
  case (first env g f0 buf alloc f)
  then show ?case using server_started [OF first(1)] OnUdpData_ok [OF _ session_kcb_ok first(2,3)]
    by (auto simp: server_construct_def)
next
  case (more f buf alloc f')
  then obtain k where k: "kcpCb f = Some k" "kcb_ok k" "isRunning f = None" by blast
  then show ?case using OnUdpData_ok [OF k(1,2) more(2) [OF k(1)] more(3)] by auto
qed

lemma ep_reach_inv: "ep_reach chk e \<Longrightarrow> ep_inv e"
proof (induction rule: ep_reach.induct)
  case (client env g f)
  then show ?case using client_started [OF client] session_kcb_ok
    by (auto simp: ep_inv_def spawned_def fw_inv_def)
next
  case (server f0 opened r f)
  have "f = f0\<lparr>tcp_open := True, isRunning := Some True\<rparr>"
    using server(2) by (auto simp: server_connect_def Let_def split: if_splits)
  then show ?case using connecting_inv [OF server(1)] by (auto simp: ep_inv_def spawned_def fw_inv_def)
next
  case (step e ev e' out)
  then show ?case using ep_step_good [OF step.IH, of ev chk "Inr (e', out)"] by blast
qed


definition calm :: start_env where
  \<comment> \<open>every call succeeds\<close>
  "calm = \<lparr>on_open = None, on_reuse = None, on_bind = None, on_connect = None, on_sndbuf = None,
     on_rcvbuf = None, kcp_alloc = (\<lambda>_. True)\<rparr>"

definition calm_client :: endpoint where
  "calm_client = spawned
     ((fst (client_construct 0))\<lparr>tcp_open := True, udp_open := True,
        kcpCb := Some (session_kcp 0x5a3331fd), isRunning := Some True\<rparr>) Dog_done"

lemma calm_client_reach: "ep_reach chk calm_client"
  unfolding calm_client_def
  by (rule ep_reach.client [of calm 0])
    (simp add: client_start_def calm_def Let_def ikcp_create_def session_kcp_def client_construct_def)


section \<open>Winding down\<close>

definition tcp_left :: "tcp_pc \<Rightarrow> nat" where "tcp_left c = (if c = Tcp_done then 0 else 1)"
definition udp_left :: "udp_pc \<Rightarrow> nat" where "udp_left c = (if c = Udp_done then 0 else 1)"
definition dog_left :: "dog_pc \<Rightarrow> nat" where "dog_left c = (if c = Dog_done then 0 else 1)"

definition kcp_left :: "kcp_pc \<Rightarrow> nat" where
  "kcp_left c = (case c of Kcp_done \<Rightarrow> 0 | Kcp_retry _ _ \<Rightarrow> 2 | _ \<Rightarrow> 1)"

definition left :: "endpoint \<Rightarrow> nat" where
  "left e = tcp_left (tcp_c e) + kcp_left (kcp_c e) + udp_left (udp_c e) + dog_left (dog_c e)"

definition closing :: "event \<Rightarrow> bool" where
  \<comment> \<open>what a closed socket answers: a write does not succeed and does not ask to be tried again\<close>
  "closing ev = (case ev of Write_event r \<Rightarrow> (\<exists>ec. r = Inl ec \<and> \<not> IsTryAgain ec) | Direct _ _ \<Rightarrow> False | _ \<Rightarrow> True)"

lemma feed_running: "feed_kcp chk f buf alloc = Inr f' \<Longrightarrow> isRunning f' = isRunning f"
  by (auto simp: feed_kcp_def andThen_Inr split: option.splits)

lemma wind_down_step:
  assumes "isRunning (fw e) = Some False" "closing ev" "ep_step chk e ev = Some (Inr (e', out))"
  shows "isRunning (fw e') = Some False \<and> left e' < left e"
proof (cases ev)
  case Tcp_begin
  then show ?thesis using assms
    by (auto simp: ep_step_def with_tcp_def tcp_loop_def left_def tcp_left_def split: if_splits)
next
  case (Tcp_event r alloc)
  then show ?thesis using assms
    by (auto simp: ep_step_def with_tcp_def tcp_to_kcp_def tcp_loop_def left_def tcp_left_def andThen_Inr
        split: if_splits sum.splits)
next
  case (Kcp_begin now)
  then show ?thesis using assms
    by (auto simp: ep_step_def with_kcp_def kcp_loop_def left_def kcp_left_def split: if_splits)
next
  case (Write_event r)
  then show ?thesis using assms
    by (auto simp: ep_step_def with_kcp_def kcp_written_def AsyncWrite_def closing_def left_def kcp_left_def
        andThen_Inr split: if_splits kcp_pc.splits)
next
  case (Retry_event r)
  then show ?thesis using assms by (auto simp: ep_step_def left_def kcp_left_def split: kcp_pc.splits)
next
  case (Wake_event r now)
  then show ?thesis using assms
    by (auto simp: ep_step_def with_kcp_def kcp_woken_def kcp_loop_def left_def kcp_left_def
        split: if_splits kcp_pc.splits option.splits)
next
  case Udp_begin
  then show ?thesis using assms
    by (auto simp: ep_step_def with_udp_def udp_loop_def left_def udp_left_def split: if_splits)
next
  case (Udp_event r alloc)
  then show ?thesis using assms
    by (auto simp: ep_step_def with_udp_def udp_to_kcp_def udp_loop_def left_def udp_left_def andThen_Inr
        dest!: feed_running split: if_splits sum.splits)
next
  case Dog_begin
  then show ?thesis using assms
    by (auto simp: ep_step_def with_dog_def dog_loop_def left_def dog_left_def split: if_splits)
next
  case (Dog_event r)
  then show ?thesis using assms
    by (auto simp: ep_step_def with_dog_def server_watchdog_def dog_loop_def left_def dog_left_def andThen_Inr
        split: if_splits)
qed (use assms in \<open>simp add: closing_def\<close>)

fun ep_run :: "bool \<Rightarrow> endpoint \<Rightarrow> event list \<Rightarrow> (fault + endpoint) option" where
  "ep_run chk e [] = Some (Inr e)"
| "ep_run chk e (ev # evs) =
     (case ep_step chk e ev of
        None \<Rightarrow> None
      | Some (Inl x) \<Rightarrow> Some (Inl x)
      | Some (Inr (e', out)) \<Rightarrow> ep_run chk e' evs)"

lemma wind_down_run:
  "ep_run chk e evs = Some (Inr e') \<Longrightarrow> isRunning (fw e) = Some False \<Longrightarrow> \<forall>ev \<in> set evs. closing ev \<Longrightarrow>
   isRunning (fw e') = Some False \<and> left e' + length evs \<le> left e"
proof (induction evs arbitrary: e)
  case (Cons ev evs)
  then obtain e1 out where s: "ep_step chk e ev = Some (Inr (e1, out))" "ep_run chk e1 evs = Some (Inr e')"
    by (auto split: option.splits sum.splits)
  then show ?case using wind_down_step [OF Cons.prems(2) _ s(1)] Cons.IH [OF s(2)] Cons.prems(3) by fastforce
qed simp

lemma step_keeps_kcp:
  assumes "ep_step chk e ev = Some (Inr (e', out))" "kcpCb (fw e) \<noteq> None"
  shows "kcpCb (fw e') \<noteq> None"
proof -
  have feed: "kcpCb f' \<noteq> None" if "feed_kcp chk f b alloc = Inr f'" "kcpCb f \<noteq> None" for f f' b alloc
    using that by (auto simp: feed_kcp_def andThen_Inr split: option.splits)
  have drain: "kcpCb f' \<noteq> None" if "kcp_drain f n = Inr (f', c)" for f n f' c
    using that by (auto simp: kcp_drain_def andThen_Inr)
  note loops = tcp_loop_def udp_loop_def dog_loop_def
  note ks = kcp_loop_def kcp_woken_def kcp_written_def
  show ?thesis
    by (cases ev)
      (use assms in \<open>auto simp: ep_step_def with_tcp_def with_kcp_def with_udp_def with_dog_def andThen_Inr loops ks
         tcp_to_kcp_def udp_to_kcp_def server_watchdog_def OnUdpData_feed Stop_def
         dest!: feed drain split: if_splits sum.splits kcp_pc.splits option.splits\<close>)
qed

lemma run_keeps_kcp:
  "ep_run chk e evs = Some (Inr e') \<Longrightarrow> kcpCb (fw e) \<noteq> None \<Longrightarrow> kcpCb (fw e') \<noteq> None"
proof (induction evs arbitrary: e)
  case (Cons ev evs)
  then obtain e1 out where s: "ep_step chk e ev = Some (Inr (e1, out))" "ep_run chk e1 evs = Some (Inr e')"
    by (auto split: option.splits sum.splits)
  then show ?case using step_keeps_kcp [OF s(1) Cons.prems(2)] Cons.IH [OF s(2)] by blast
qed simp

lemma some_waits:
  "left e = 0 \<or> (\<exists>ev. closing ev \<and> ep_step chk e ev \<noteq> None)"
proof -
  have "\<exists>ev. closing ev \<and> ep_step chk e ev \<noteq> None" if "tcp_c e \<noteq> Tcp_done"
    using that by (cases "tcp_c e") (auto simp: ep_step_def closing_def intro: exI [of _ Tcp_begin]
      exI [of _ "Tcp_event (Inl operation_canceled) (\<lambda>_. True)"])
  moreover have "\<exists>ev. closing ev \<and> ep_step chk e ev \<noteq> None" if "kcp_c e \<noteq> Kcp_done"
    using that by (cases "kcp_c e") (auto simp: ep_step_def closing_def IsTryAgain_def intro: exI [of _ "Kcp_begin 0"]
      exI [of _ "Write_event (Inl operation_canceled)"] exI [of _ "Retry_event (Inr ())"] exI [of _ "Wake_event (Inr ()) 0"])
  moreover have "\<exists>ev. closing ev \<and> ep_step chk e ev \<noteq> None" if "udp_c e \<noteq> Udp_done"
    using that by (cases "udp_c e") (auto simp: ep_step_def closing_def intro: exI [of _ Udp_begin]
      exI [of _ "Udp_event (Inl operation_canceled) plenty"])
  moreover have "\<exists>ev. closing ev \<and> ep_step chk e ev \<noteq> None" if "dog_c e \<noteq> Dog_done"
    using that by (cases "dog_c e") (auto simp: ep_step_def closing_def intro: exI [of _ Dog_begin]
      exI [of _ "Dog_event (Inr ())"])
  ultimately show ?thesis
    by (cases "kcp_c e = Kcp_done") (auto simp: left_def tcp_left_def udp_left_def dog_left_def kcp_left_def)
qed

text \<open>
  C27. A stopped forwarder winds down. After \<open>Stop\<close>, its coroutines complete at most five more
  awaited operations (those on its closed sockets fail); until all four have returned, one
  of them waits for an operation that does complete; and the destructor that runs then finds the
  object in order: it does not abort and releases the control block.
\<close>

theorem stopped_forwarder_terminates:
  assumes "ep_reach chk e" "isRunning (fw e) = Some False" "\<forall>ev \<in> set evs. closing ev"
    and "ep_run chk e evs = Some (Inr e')"
  shows "length evs \<le> 5 \<and> (left e' = 0 \<or> (\<exists>ev. closing ev \<and> ep_step chk e' ev \<noteq> None)) \<and>
    (\<exists>k. kcpCb (fw e') = Some k \<and>
      server_destroy (fw e') = Inr (ikcp_release k) \<and> client_destroy (fw e') = Inr (ikcp_release k))"
proof -
  have "left e \<le> 5"
    by (simp add: left_def tcp_left_def udp_left_def dog_left_def kcp_left_def split: kcp_pc.split)
  moreover note wind_down_run [OF assms(4,2,3)] some_waits [of e' chk]
  moreover have "kcpCb (fw e) \<noteq> None" using ep_reach_inv [OF assms(1)] by (auto simp: ep_inv_def fw_inv_def)
  then have "\<exists>k. kcpCb (fw e') = Some k" using run_keeps_kcp [OF assms(4)] by blast
  ultimately show ?thesis by (auto simp: server_destroy_def client_destroy_def)
qed

lemma calm_client_stops:
  "ep_reach False (calm_client\<lparr>fw := Stop (fw calm_client), tcp_c := Tcp_done\<rparr>)"
proof -
  let ?k = "session_kcp 0x5a3331fd"
  let ?a = "calm_client\<lparr>tcp_c := Tcp_receive\<rparr>" and ?r = "Tcp_event (Inl operation_canceled) (\<lambda>_. True)"
  have k: "kcpCb (fw ?a) = Some ?k" "kcpCb (fw calm_client) = Some ?k" by (simp_all add: calm_client_def spawned_def)
  have fit: "fits ?k Tcp_begin" "fits ?k ?r" by (simp_all add: fits_def session_fields first_size_def)
  have "ep_step False calm_client Tcp_begin = Some (Inr (?a, []))"
    by (simp add: ep_step_def with_tcp_def tcp_loop_def calm_client_def spawned_def)
  then have a: "ep_reach False ?a"
    by (rule ep_reach.step [OF calm_client_reach, rotated]) (use k fit in simp)
  have "ep_step False ?a ?r = Some (Inr (?a\<lparr>fw := Stop (fw ?a), tcp_c := Tcp_done\<rparr>, []))"
    by (simp add: ep_step_def with_tcp_def tcp_to_kcp_def IsTryAgain_def)
  then have "ep_reach False (?a\<lparr>fw := Stop (fw ?a), tcp_c := Tcp_done\<rparr>)"
    by (rule ep_reach.step [OF a, rotated]) (use k fit in simp)
  then show ?thesis by simp
qed

theorem stopped_forwarder_terminates_witness:
  "\<exists>k. server_destroy (fw (calm_client\<lparr>fw := Stop (fw calm_client), tcp_c := Tcp_done, udp_c := Udp_done\<rparr>)) = Inr (ikcp_release k)"
proof -
  let ?e = "calm_client\<lparr>fw := Stop (fw calm_client), tcp_c := Tcp_done\<rparr>"
  let ?e' = "?e\<lparr>udp_c := Udp_done\<rparr>"
  have s: "isRunning (fw ?e) = Some False" by (simp add: Stop_def)
  have c: "\<forall>ev \<in> set [Udp_begin]. closing ev" by (simp add: closing_def)
  have r: "ep_run False ?e [Udp_begin] = Some (Inr ?e')"
    by (simp add: ep_step_def with_udp_def udp_loop_def calm_client_def spawned_def Stop_def)
  show ?thesis using stopped_forwarder_terminates [OF calm_client_stops s c r] by auto
qed

section \<open>Failed starts\<close>

text \<open>
  C28. A forwarder whose start fails is destroyed before \<open>isRunning\<close> was ever assigned: where a UDP
  socket cannot be opened, bound or connected, or the server's TCP connection is refused, the
  destructor's assertion reads an uninitialised member (and, on the paths before
  \<open>ikcp_create\<close>, would go on to release an uninitialised pointer).
\<close>

theorem failed_start_reads_uninitialised:
  "(client_start env (fst (client_construct g)) = Inr (False, f) \<longrightarrow> client_destroy f = Inl UninitRead) \<and>
   (server_start env (fst (server_construct g)) = Inr (False, f) \<longrightarrow> server_destroy f = Inl UninitRead) \<and>
   (connecting chk f \<and> server_connect f opened r = (False, f') \<longrightarrow> server_destroy f' = Inl UninitRead)"
proof (intro conjI impI)
  assume "client_start env (fst (client_construct g)) = Inr (False, f)"
  then show "client_destroy f = Inl UninitRead"
    by (auto simp: client_start_def client_construct_def client_destroy_def get_def Let_def
        split: if_splits option.splits)
next
  assume "server_start env (fst (server_construct g)) = Inr (False, f)"
  then show "server_destroy f = Inl UninitRead"
    by (auto simp: server_start_def server_create_kcp_def server_construct_def server_destroy_def get_def Let_def
        split: if_splits option.splits)
next
  assume "connecting chk f \<and> server_connect f opened r = (False, f')"
  then show "server_destroy f' = Inl UninitRead"
    using connecting_inv [of chk f]
    by (auto simp: server_connect_def server_destroy_def get_def Let_def split: if_splits)
qed

theorem failed_start_reads_uninitialised_witness:
  "server_destroy (fst (server_construct 0)) = Inl UninitRead"
proof -
  have "server_start (calm\<lparr>on_open := Some (other_error 97)\<rparr>) (fst (server_construct 0)) =
      Inr (False, fst (server_construct 0))"
    by (simp add: server_start_def server_create_kcp_def)
  then show ?thesis using failed_start_reads_uninitialised by blast
qed

end
