(* ===== verification/Asio_Address.thy ===== *)
theory Asio_Address
  imports Flex_Utils
begin

text \<open>
  The IP addresses of the bundled asio, which both programs parse from their configuration, print,
  and (on the server) order the table of forwarders by: \<open>ip/address_v4\<close>, \<open>ip/address_v6\<close>,
  \<open>ip/address\<close>, \<open>ip/detail/endpoint\<close> and the byte-order functions of \<open>socket_ops\<close>. A value in network
  byte order is the list of its bytes in memory. Exceptions are the left values of a sum. The
  system's \<open>inet_pton\<close>, \<open>inet_ntop\<close> and \<open>if_nametoindex\<close> are parameters.
\<close>

unbundle bit_operations_syntax

datatype exn = bad_address_cast | out_of_range | invalid_argument_exn | system_error errc

definition throw_error :: "errc option \<Rightarrow> 'a \<Rightarrow> exn + 'a" where
  "throw_error ec x = (case ec of None \<Rightarrow> Inr x | Some e \<Rightarrow> Inl (system_error e))"

section \<open>Byte order\<close>

definition network_to_host_long :: "bytes \<Rightarrow> u32" where
  "network_to_host_long value_p =
     push_bit 24 (ucast (value_p ! 0)) OR push_bit 16 (ucast (value_p ! 1)) OR
     push_bit 8 (ucast (value_p ! 2)) OR ucast (value_p ! 3)"

definition host_to_network_long :: "u32 \<Rightarrow> bytes" where
  "host_to_network_long value =
     [ucast (drop_bit 24 value AND 0xFF), ucast (drop_bit 16 value AND 0xFF),
      ucast (drop_bit 8 value AND 0xFF), ucast (value AND 0xFF)]"

definition network_to_host_short :: "bytes \<Rightarrow> u16" where
  "network_to_host_short value_p = push_bit 8 (ucast (value_p ! 0)) OR ucast (value_p ! 1)"

definition host_to_network_short :: "u16 \<Rightarrow> bytes" where
  "host_to_network_short value = [ucast (drop_bit 8 value AND 0xFF), ucast (value AND 0xFF)]"

section \<open>ip/address_v4\<close>

datatype address_v4 = Address_v4 u8 u8 u8 u8

fun s_addr :: "address_v4 \<Rightarrow> bytes" where
  \<comment> \<open>the four bytes of \<open>addr_.s_addr\<close> in memory\<close>
  "s_addr (Address_v4 a b c d) = [a, b, c, d]"

definition v4_of_bytes :: "bytes \<Rightarrow> address_v4" where
  \<comment> \<open>\<open>memcpy(&addr_.s_addr, bytes.data(), 4)\<close>\<close>
  "v4_of_bytes b = Address_v4 (b ! 0) (b ! 1) (b ! 2) (b ! 3)"

definition v4_default :: address_v4 where
  "v4_default = v4_of_bytes [0, 0, 0, 0]"

definition v4_of_uint :: "u32 \<Rightarrow> address_v4" where
  "v4_of_uint addr = v4_of_bytes (host_to_network_long addr)"

definition v4_to_bytes :: "address_v4 \<Rightarrow> bytes" where
  "v4_to_bytes a = s_addr a"

definition v4_to_uint :: "address_v4 \<Rightarrow> u32" where
  "v4_to_uint a = network_to_host_long (s_addr a)"

definition v4_is_loopback :: "address_v4 \<Rightarrow> bool" where
  "v4_is_loopback a = (v4_to_uint a AND 0xFF000000 = 0x7F000000)"

definition v4_is_unspecified :: "address_v4 \<Rightarrow> bool" where
  "v4_is_unspecified a = (v4_to_uint a = 0)"

definition v4_is_class_a :: "address_v4 \<Rightarrow> bool" where
  "v4_is_class_a a = (v4_to_uint a AND 0x80000000 = 0)"

definition v4_is_class_b :: "address_v4 \<Rightarrow> bool" where
  "v4_is_class_b a = (v4_to_uint a AND 0xC0000000 = 0x80000000)"

definition v4_is_class_c :: "address_v4 \<Rightarrow> bool" where
  "v4_is_class_c a = (v4_to_uint a AND 0xE0000000 = 0xC0000000)"

definition v4_is_multicast :: "address_v4 \<Rightarrow> bool" where
  "v4_is_multicast a = (v4_to_uint a AND 0xF0000000 = 0xE0000000)"

definition v4_eq :: "address_v4 \<Rightarrow> address_v4 \<Rightarrow> bool" where
  "v4_eq a b = (s_addr a = s_addr b)"

definition v4_less :: "address_v4 \<Rightarrow> address_v4 \<Rightarrow> bool" where
  "v4_less a b = (v4_to_uint a < v4_to_uint b)"

definition v4_any :: address_v4 where "v4_any = v4_default"
definition v4_loopback :: address_v4 where "v4_loopback = v4_of_uint 0x7F000001"
definition v4_broadcast :: address_v4 where "v4_broadcast = v4_of_uint 0xFFFFFFFF"

definition v4_broadcast_of :: "address_v4 \<Rightarrow> address_v4 \<Rightarrow> address_v4" where
  "v4_broadcast_of addr msk = v4_of_uint (v4_to_uint addr OR (v4_to_uint msk XOR 0xFFFFFFFF))"

definition v4_netmsk :: "address_v4 \<Rightarrow> address_v4" where
  "v4_netmsk addr =
     (if v4_is_class_a addr then v4_of_uint 0xFF000000
      else if v4_is_class_b addr then v4_of_uint 0xFFFF0000
      else if v4_is_class_c addr then v4_of_uint 0xFFFFFF00
      else v4_of_uint 0xFFFFFFFF)"

section \<open>ip/address_v6\<close>

datatype address_v6 = Address_v6 (s6_addr: bytes) (scope_id: u32)

definition v6_default :: address_v6 where
  "v6_default = Address_v6 (replicate 16 0) 0"

definition v6_of_bytes :: "bytes \<Rightarrow> u32 \<Rightarrow> address_v6" where
  "v6_of_bytes b scope = Address_v6 (take 16 b) scope"

definition v6_to_bytes :: "address_v6 \<Rightarrow> bytes" where
  "v6_to_bytes a = take 16 (s6_addr a)"

definition v6_set_scope_id :: "address_v6 \<Rightarrow> u32 \<Rightarrow> address_v6" where
  "v6_set_scope_id a i = Address_v6 (s6_addr a) i"

definition v6_is_loopback :: "address_v6 \<Rightarrow> bool" where
  "v6_is_loopback a = (let s = s6_addr a in
     s ! 0 = 0 \<and> s ! 1 = 0 \<and> s ! 2 = 0 \<and> s ! 3 = 0 \<and> s ! 4 = 0 \<and> s ! 5 = 0 \<and> s ! 6 = 0 \<and> s ! 7 = 0 \<and>
     s ! 8 = 0 \<and> s ! 9 = 0 \<and> s ! 10 = 0 \<and> s ! 11 = 0 \<and> s ! 12 = 0 \<and> s ! 13 = 0 \<and> s ! 14 = 0 \<and> s ! 15 = 1)"

definition v6_is_unspecified :: "address_v6 \<Rightarrow> bool" where
  "v6_is_unspecified a = (let s = s6_addr a in
     s ! 0 = 0 \<and> s ! 1 = 0 \<and> s ! 2 = 0 \<and> s ! 3 = 0 \<and> s ! 4 = 0 \<and> s ! 5 = 0 \<and> s ! 6 = 0 \<and> s ! 7 = 0 \<and>
     s ! 8 = 0 \<and> s ! 9 = 0 \<and> s ! 10 = 0 \<and> s ! 11 = 0 \<and> s ! 12 = 0 \<and> s ! 13 = 0 \<and> s ! 14 = 0 \<and> s ! 15 = 0)"

definition v6_is_link_local :: "address_v6 \<Rightarrow> bool" where
  "v6_is_link_local a = (s6_addr a ! 0 = 0xfe \<and> s6_addr a ! 1 AND 0xc0 = 0x80)"

definition v6_is_site_local :: "address_v6 \<Rightarrow> bool" where
  "v6_is_site_local a = (s6_addr a ! 0 = 0xfe \<and> s6_addr a ! 1 AND 0xc0 = 0xc0)"

definition v6_is_v4_mapped :: "address_v6 \<Rightarrow> bool" where
  "v6_is_v4_mapped a = (let s = s6_addr a in
     s ! 0 = 0 \<and> s ! 1 = 0 \<and> s ! 2 = 0 \<and> s ! 3 = 0 \<and> s ! 4 = 0 \<and> s ! 5 = 0 \<and> s ! 6 = 0 \<and> s ! 7 = 0 \<and>
     s ! 8 = 0 \<and> s ! 9 = 0 \<and> s ! 10 = 0xff \<and> s ! 11 = 0xff)"

definition v6_is_v4_compatible :: "address_v6 \<Rightarrow> bool" where
  "v6_is_v4_compatible a = (let s = s6_addr a in
     s ! 0 = 0 \<and> s ! 1 = 0 \<and> s ! 2 = 0 \<and> s ! 3 = 0 \<and> s ! 4 = 0 \<and> s ! 5 = 0 \<and> s ! 6 = 0 \<and> s ! 7 = 0 \<and>
     s ! 8 = 0 \<and> s ! 9 = 0 \<and> s ! 10 = 0 \<and> s ! 11 = 0 \<and>
     \<not> (s ! 12 = 0 \<and> s ! 13 = 0 \<and> s ! 14 = 0 \<and> (s ! 15 = 0 \<or> s ! 15 = 1)))"

definition v6_is_multicast :: "address_v6 \<Rightarrow> bool" where
  "v6_is_multicast a = (s6_addr a ! 0 = 0xff)"

definition v6_is_multicast_global :: "address_v6 \<Rightarrow> bool" where
  "v6_is_multicast_global a = (s6_addr a ! 0 = 0xff \<and> s6_addr a ! 1 AND 0x0f = 0x0e)"

definition v6_is_multicast_link_local :: "address_v6 \<Rightarrow> bool" where
  "v6_is_multicast_link_local a = (s6_addr a ! 0 = 0xff \<and> s6_addr a ! 1 AND 0x0f = 0x02)"

definition v6_is_multicast_node_local :: "address_v6 \<Rightarrow> bool" where
  "v6_is_multicast_node_local a = (s6_addr a ! 0 = 0xff \<and> s6_addr a ! 1 AND 0x0f = 0x01)"

definition v6_is_multicast_org_local :: "address_v6 \<Rightarrow> bool" where
  "v6_is_multicast_org_local a = (s6_addr a ! 0 = 0xff \<and> s6_addr a ! 1 AND 0x0f = 0x08)"

definition v6_is_multicast_site_local :: "address_v6 \<Rightarrow> bool" where
  "v6_is_multicast_site_local a = (s6_addr a ! 0 = 0xff \<and> s6_addr a ! 1 AND 0x0f = 0x05)"

fun memcmp :: "bytes \<Rightarrow> bytes \<Rightarrow> int" where
  \<comment> \<open>C's \<open>memcmp\<close> on buffers of one size; a missing byte counts as the smallest, to be total\<close>
  "memcmp [] [] = 0"
| "memcmp [] (y # ys) = -1"
| "memcmp (x # xs) [] = 1"
| "memcmp (x # xs) (y # ys) = (if x < y then -1 else if y < x then 1 else memcmp xs ys)"

definition v6_eq :: "address_v6 \<Rightarrow> address_v6 \<Rightarrow> bool" where
  "v6_eq a b = (memcmp (s6_addr a) (s6_addr b) = 0 \<and> scope_id a = scope_id b)"

definition v6_less :: "address_v6 \<Rightarrow> address_v6 \<Rightarrow> bool" where
  "v6_less a b =
     (let memcmp_result = memcmp (s6_addr a) (s6_addr b)
      in if memcmp_result < 0 then True
         else if memcmp_result > 0 then False
         else scope_id a < scope_id b)"

definition v6_any :: address_v6 where "v6_any = v6_default"

definition v6_loopback :: address_v6 where
  "v6_loopback = (let tmp = v6_default in Address_v6 ((s6_addr tmp)[15 := 1]) (scope_id tmp))"

definition v6_v4_mapped :: "address_v4 \<Rightarrow> address_v6" where
  "v6_v4_mapped addr =
     (let b = v4_to_bytes addr
      in v6_of_bytes [0, 0, 0, 0, 0, 0, 0, 0, 0, 0, 0xFF, 0xFF, b ! 0, b ! 1, b ! 2, b ! 3] 0)"

definition v6_v4_compatible :: "address_v4 \<Rightarrow> address_v6" where
  "v6_v4_compatible addr =
     (let b = v4_to_bytes addr
      in v6_of_bytes [0, 0, 0, 0, 0, 0, 0, 0, 0, 0, 0, 0, b ! 0, b ! 1, b ! 2, b ! 3] 0)"

definition v6_to_v4 :: "address_v6 \<Rightarrow> exn + address_v4" where
  "v6_to_v4 a =
     (if \<not> v6_is_v4_mapped a \<and> \<not> v6_is_v4_compatible a then Inl bad_address_cast
      else let s = s6_addr a in Inr (v4_of_bytes [s ! 12, s ! 13, s ! 14, s ! 15]))"

definition make_address_v4_mapped :: "address_v6 \<Rightarrow> exn + address_v4" where
  "make_address_v4_mapped v6_addr =
     (if \<not> v6_is_v4_mapped v6_addr then Inl bad_address_cast
      else let b = v6_to_bytes v6_addr in Inr (v4_of_bytes [b ! 12, b ! 13, b ! 14, b ! 15]))"

definition make_address_v6_mapped :: "address_v4 \<Rightarrow> address_v6" where
  "make_address_v6_mapped v4_addr =
     (let b = v4_to_bytes v4_addr
      in v6_of_bytes [0, 0, 0, 0, 0, 0, 0, 0, 0, 0, 0xFF, 0xFF, b ! 0, b ! 1, b ! 2, b ! 3] 0)"

section \<open>Orders\<close>

text \<open>
  The forwarder table of the server is a \<open>std::map\<close>, which needs \<open>operator<\<close> to be a strict weak
  order whose ties are equality. The comparison operators of the addresses are linear orders.
\<close>

lemma byte_in_long: "bit (push_bit k (ucast (x :: u8)) :: u32) n \<longleftrightarrow> k \<le> n \<and> n < 32 \<and> n < k + 8 \<and> bit x (n - k)"
  by (auto simp: bit_push_bit_iff bit_ucast_iff dest: bit_imp_le_length)

lemma low_byte_in_long: "bit (ucast (x :: u8) :: u32) n \<longleftrightarrow> n < 8 \<and> bit x n"
  by (auto simp: bit_ucast_iff dest: bit_imp_le_length)

lemma byte_of_long: "bit (ucast (drop_bit k v AND 0xFF :: u32) :: u8) n \<longleftrightarrow> n < 8 \<and> bit v (k + n)"
proof -
  have "drop_bit k v AND 0xFF = take_bit 8 (drop_bit k v)"
    by (simp add: take_bit_eq_mask mask_eq_exp_minus_1)
  then show ?thesis by (auto simp: bit_ucast_iff bit_take_bit_iff bit_drop_bit_eq dest: bit_imp_le_length)
qed

lemma low_byte_of_long: "bit (ucast (v AND 0xFF :: u32) :: u8) n \<longleftrightarrow> n < 8 \<and> bit v n"
  using byte_of_long [of 0 v n] by simp

lemma host_network_long: "network_to_host_long (host_to_network_long v) = v"
proof (rule bit_word_eqI)
  fix n assume "n < LENGTH(32)"
  then have n: "n < 8 \<or> 8 \<le> n \<and> n < 16 \<or> 16 \<le> n \<and> n < 24 \<or> 24 \<le> n \<and> n < 32" by auto
  have "bit (network_to_host_long (host_to_network_long v)) n \<longleftrightarrow>
      (24 \<le> n \<and> n < 32 \<and> n < 24 + 8 \<and> n - 24 < 8 \<and> bit v (24 + (n - 24))) \<or>
      (16 \<le> n \<and> n < 32 \<and> n < 16 + 8 \<and> n - 16 < 8 \<and> bit v (16 + (n - 16))) \<or>
      (8 \<le> n \<and> n < 32 \<and> n < 8 + 8 \<and> n - 8 < 8 \<and> bit v (8 + (n - 8))) \<or> (n < 8 \<and> n < 8 \<and> bit v n)"
    unfolding network_to_host_long_def host_to_network_long_def bit_or_iff byte_in_long low_byte_in_long
    by (simp add: byte_of_long low_byte_of_long bit_drop_bit_eq)
  then show "bit (network_to_host_long (host_to_network_long v)) n \<longleftrightarrow> bit v n"
    using n by (elim disjE conjE) auto
qed

lemma network_host_long: "host_to_network_long (network_to_host_long [a, b, c, d]) = [a, b, c, d]"
proof -
  have v: "bit (network_to_host_long [a, b, c, d]) n \<longleftrightarrow>
      (24 \<le> n \<and> n < 32 \<and> bit a (n - 24)) \<or> (16 \<le> n \<and> n < 24 \<and> bit b (n - 16)) \<or>
      (8 \<le> n \<and> n < 16 \<and> bit c (n - 8)) \<or> (n < 8 \<and> bit d n)" for n
    unfolding network_to_host_long_def bit_or_iff byte_in_long low_byte_in_long by auto
  show ?thesis unfolding host_to_network_long_def list.inject
    by (intro conjI bit_word_eqI refl) (simp_all add: byte_of_long low_byte_of_long bit_drop_bit_eq v)
qed

lemma v4_uint_roundtrip: "v4_to_uint (v4_of_uint u) = u"
  using host_network_long [of u]
  by (simp add: v4_to_uint_def v4_of_uint_def v4_of_bytes_def host_to_network_long_def)

lemma v4_of_to_uint: "v4_of_uint (v4_to_uint a) = a"
  by (cases a) (simp add: v4_to_uint_def v4_of_uint_def v4_of_bytes_def network_host_long)

lemma v4_uint_inj: "v4_to_uint a = v4_to_uint b \<longleftrightarrow> a = b"
  by (metis v4_of_to_uint)

lemma v4_eq_iff: "v4_eq a b \<longleftrightarrow> a = b"
  by (cases a; cases b) (simp add: v4_eq_def)

instantiation address_v4 :: linorder
begin

definition less_address_v4 :: "address_v4 \<Rightarrow> address_v4 \<Rightarrow> bool" where
  "less_address_v4 a b = v4_less a b"

definition less_eq_address_v4 :: "address_v4 \<Rightarrow> address_v4 \<Rightarrow> bool" where
  "less_eq_address_v4 a b = (v4_to_uint a \<le> v4_to_uint b)"

instance
proof
  fix a b c :: address_v4
  show "(a < b) = (a \<le> b \<and> \<not> b \<le> a)" by (auto simp: less_address_v4_def less_eq_address_v4_def v4_less_def)
  show "a \<le> a" by (simp add: less_eq_address_v4_def)
  show "a \<le> b \<Longrightarrow> b \<le> c \<Longrightarrow> a \<le> c" by (simp add: less_eq_address_v4_def)
  show "a \<le> b \<Longrightarrow> b \<le> a \<Longrightarrow> a = b"
    by (simp add: less_eq_address_v4_def v4_uint_inj flip: order_eq_iff)
  show "a \<le> b \<or> b \<le> a" by (auto simp: less_eq_address_v4_def)
qed

end

lemma memcmp_eq: "memcmp xs ys = 0 \<longleftrightarrow> xs = ys"
  by (induction xs ys rule: memcmp.induct) auto

lemma memcmp_sym: "memcmp ys xs = - memcmp xs ys"
  by (induction xs ys rule: memcmp.induct) auto

lemma memcmp_trans: "memcmp xs ys < 0 \<Longrightarrow> memcmp ys zs < 0 \<Longrightarrow> memcmp xs zs < 0"
proof (induction xs ys arbitrary: zs rule: memcmp.induct)
  case (2 y ys)
  then show ?case by (cases zs) auto
next
  case (4 x xs y ys)
  then show ?case by (cases zs) (auto split: if_splits)
qed auto

lemma memcmp_cases: "memcmp xs ys < 0 \<or> xs = ys \<or> memcmp ys xs < 0"
  using memcmp_eq [of xs ys] memcmp_sym [of ys xs] by linarith

lemma v6_eq_iff: "v6_eq a b \<longleftrightarrow> a = b"
  by (cases a; cases b) (simp add: v6_eq_def memcmp_eq)

lemma v6_less_iff: "v6_less a b \<longleftrightarrow>
    memcmp (s6_addr a) (s6_addr b) < 0 \<or> s6_addr a = s6_addr b \<and> scope_id a < scope_id b"
  using memcmp_eq [of "s6_addr a" "s6_addr b"] by (auto simp: v6_less_def Let_def)

lemma memcmp_asym: "memcmp xs ys < 0 \<Longrightarrow> \<not> memcmp ys xs < 0"
  using memcmp_sym [of xs ys] by linarith

lemma memcmp_refl: "memcmp xs xs = 0"
  by (simp add: memcmp_eq)

lemma v6_less_trans: "v6_less a b \<Longrightarrow> v6_less b c \<Longrightarrow> v6_less a c"
  using memcmp_trans [of "s6_addr a" "s6_addr b" "s6_addr c"] unfolding v6_less_iff by auto

lemma v6_cases: "v6_less a b \<or> a = b \<or> v6_less b a"
  using memcmp_cases [of "s6_addr a" "s6_addr b"] unfolding v6_less_iff
  by (cases a; cases b) auto

lemma v6_irrefl: "\<not> v6_less a a"
  by (simp add: v6_less_iff memcmp_refl)

instantiation address_v6 :: linorder
begin

definition less_address_v6 :: "address_v6 \<Rightarrow> address_v6 \<Rightarrow> bool" where
  "less_address_v6 a b = v6_less a b"

definition less_eq_address_v6 :: "address_v6 \<Rightarrow> address_v6 \<Rightarrow> bool" where
  "less_eq_address_v6 a b = (\<not> v6_less b a)"

instance
proof
  fix a b c :: address_v6
  show "(a < b) = (a \<le> b \<and> \<not> b \<le> a)"
    unfolding less_address_v6_def less_eq_address_v6_def using v6_less_trans v6_irrefl by blast
  show "a \<le> a" unfolding less_eq_address_v6_def by (rule v6_irrefl)
  show "a \<le> b \<Longrightarrow> b \<le> c \<Longrightarrow> a \<le> c"
    unfolding less_eq_address_v6_def using v6_less_trans v6_cases by blast
  show "a \<le> b \<Longrightarrow> b \<le> a \<Longrightarrow> a = b"
    unfolding less_eq_address_v6_def using v6_cases by blast
  show "a \<le> b \<or> b \<le> a"
    unfolding less_eq_address_v6_def using v6_less_trans v6_irrefl by blast
qed

end

section \<open>Text\<close>

datatype af = AF_INET | AF_INET6 | AF_other

definition strchr :: "string \<Rightarrow> char \<Rightarrow> nat option" where
  "strchr s c = (let n = length (takeWhile (\<lambda>x. x \<noteq> c) s) in if n < length s then Some n else None)"

definition c_str :: "string \<Rightarrow> string" where
  \<comment> \<open>what a C function sees of a \<open>std::string\<close>: the characters before the first NUL\<close>
  "c_str s = takeWhile (\<lambda>x. x \<noteq> CHR 0x00) s"

definition is_digit :: "char \<Rightarrow> bool" where
  "is_digit c = (48 \<le> (of_char c :: nat) \<and> (of_char c :: nat) \<le> 57)"

definition digits_value :: "string \<Rightarrow> nat" where
  "digits_value s = foldl (\<lambda>n c. 10 * n + (of_char c - 48)) 0 s"

definition is_space :: "char \<Rightarrow> bool" where
  "is_space c = ((of_char c :: nat) = 32 \<or> 9 \<le> (of_char c :: nat) \<and> (of_char c :: nat) \<le> 13)"

definition atoi :: "string \<Rightarrow> int" where
  \<comment> \<open>the mathematical value; C leaves \<open>atoi\<close> undefined where an \<open>int\<close> cannot hold it\<close>
  "atoi s =
     (let s = dropWhile is_space s;
          neg = (s \<noteq> [] \<and> hd s = CHR ''-'');
          s = (if s \<noteq> [] \<and> (hd s = CHR ''-'' \<or> hd s = CHR ''+'') then tl s else s);
          v = int (digits_value (takeWhile is_digit s))
      in if neg then - v else v)"

record os_text =
  \<comment> \<open>the system's conversions: result, bytes written and \<open>errno\<close> afterwards\<close>
  os_pton :: "af \<Rightarrow> string \<Rightarrow> int \<times> bytes \<times> errc option"
  os_ntop :: "af \<Rightarrow> bytes \<Rightarrow> string option \<times> errc option"
  os_nametoindex :: "string \<Rightarrow> u32"
  os_indextoname :: "u32 \<Rightarrow> string option"
  os_print_uint :: "u32 \<Rightarrow> string"

definition max_addr_v6_str_len :: nat where "max_addr_v6_str_len = 256"

definition inet_pton :: "os_text \<Rightarrow> af \<Rightarrow> string \<Rightarrow> bool \<Rightarrow> int \<times> bytes \<times> u32 option \<times> errc option" where
  \<comment> \<open>the POSIX branch: result, \<open>*dest\<close>, \<open>*scope_id\<close> where it is written, \<open>ec\<close>\<close>
  "inet_pton os af src want_scope =
     (let is_v6 = (af = AF_INET6);
          if_name = (if is_v6 then strchr src (CHR ''%'') else None)
      in if (case if_name of None \<Rightarrow> False | Some i \<Rightarrow> i > max_addr_v6_str_len)
         then (0, [], None, Some invalid_argument)
         else let src_ptr = (case if_name of None \<Rightarrow> src | Some i \<Rightarrow> take i src);
                  (result, dest, errno) = os_pton os af src_ptr;
                  ec = (if result \<le> 0 \<and> errno = None then Some invalid_argument else errno)
              in if result > 0 \<and> is_v6 \<and> want_scope then
                   (case if_name of
                      None \<Rightarrow> (result, dest, Some 0, ec)
                    | Some i \<Rightarrow>
                        let is_link_local = (dest ! 0 = 0xfe \<and> dest ! 1 AND 0xc0 = 0x80);
                            is_multicast_link_local = (dest ! 0 = 0xff \<and> dest ! 1 AND 0x0f = 0x02);
                            scope = (if is_link_local \<or> is_multicast_link_local
                                     then os_nametoindex os (drop (Suc i) src) else 0);
                            scope = (if scope = 0 then of_int (atoi (drop (Suc i) src)) else scope)
                        in (result, dest, Some scope, ec))
                 else (result, dest, None, ec))"

definition inet_ntop :: "os_text \<Rightarrow> af \<Rightarrow> bytes \<Rightarrow> u32 \<Rightarrow> string option \<times> errc option" where
  "inet_ntop os af src scope =
     (let (result, errno) = os_ntop os af src;
          ec = (if result = None \<and> errno = None then Some invalid_argument else errno)
      in case result of
           None \<Rightarrow> (None, ec)
         | Some dest \<Rightarrow>
             if af = AF_INET6 \<and> scope \<noteq> 0 then
               let is_link_local = (src ! 0 = 0xfe \<and> src ! 1 AND 0xc0 = 0x80);
                   is_multicast_link_local = (src ! 0 = 0xff \<and> src ! 1 AND 0x0f = 0x02);
                   if_name = (if \<not> is_link_local \<and> \<not> is_multicast_link_local then os_print_uint os scope
                              else case os_indextoname os scope of
                                     None \<Rightarrow> os_print_uint os scope
                                   | Some n \<Rightarrow> n)
               in (Some (dest @ ''%'' @ if_name), ec)
             else (Some dest, ec))"

definition v4_to_string :: "os_text \<Rightarrow> address_v4 \<Rightarrow> exn + string" where
  "v4_to_string os a =
     (case inet_ntop os AF_INET (s_addr a) 0 of
        (None, ec) \<Rightarrow> throw_error ec ''''
      | (Some addr, ec) \<Rightarrow> Inr addr)"

definition v6_to_string :: "os_text \<Rightarrow> address_v6 \<Rightarrow> exn + string" where
  "v6_to_string os a =
     (case inet_ntop os AF_INET6 (s6_addr a) (scope_id a) of
        (None, ec) \<Rightarrow> throw_error ec ''''
      | (Some addr, ec) \<Rightarrow> Inr addr)"

definition make_address_v4 :: "os_text \<Rightarrow> string \<Rightarrow> address_v4 \<times> errc option" where
  "make_address_v4 os str =
     (let (result, dest, _, ec) = inet_pton os AF_INET (c_str str) False
      in if result \<le> 0 then (v4_default, ec) else (v4_of_bytes dest, ec))"

definition make_address_v6 :: "os_text \<Rightarrow> string \<Rightarrow> address_v6 \<times> errc option" where
  "make_address_v6 os str =
     (let (result, dest, scope, ec) = inet_pton os AF_INET6 (c_str str) True
      in if result \<le> 0 then (v6_default, ec)
         else (v6_of_bytes dest (case scope of None \<Rightarrow> 0 | Some x \<Rightarrow> x), ec))"

definition make_address_v4_throwing :: "os_text \<Rightarrow> string \<Rightarrow> exn + address_v4" where
  "make_address_v4_throwing os str = (let (addr, ec) = make_address_v4 os str in throw_error ec addr)"

definition make_address_v6_throwing :: "os_text \<Rightarrow> string \<Rightarrow> exn + address_v6" where
  "make_address_v6_throwing os str = (let (addr, ec) = make_address_v6 os str in throw_error ec addr)"

section \<open>ip/address\<close>

datatype address = Ipv4 address_v4 | Ipv6 address_v6

definition addr_default :: address where "addr_default = Ipv4 v4_default"

definition make_address :: "os_text \<Rightarrow> string \<Rightarrow> address \<times> errc option" where
  "make_address os str =
     (let (ipv6_address, ec) = make_address_v6 os str
      in if ec = None then (Ipv6 ipv6_address, ec)
         else let (ipv4_address, ec) = make_address_v4 os str
              in if ec = None then (Ipv4 ipv4_address, ec) else (addr_default, ec))"

definition make_address_throwing :: "os_text \<Rightarrow> string \<Rightarrow> exn + address" where
  "make_address_throwing os str = (let (addr, ec) = make_address os str in throw_error ec addr)"

definition addr_to_v4 :: "address \<Rightarrow> exn + address_v4" where
  "addr_to_v4 a = (case a of Ipv4 x \<Rightarrow> Inr x | Ipv6 _ \<Rightarrow> Inl bad_address_cast)"

definition addr_to_v6 :: "address \<Rightarrow> exn + address_v6" where
  "addr_to_v6 a = (case a of Ipv6 x \<Rightarrow> Inr x | Ipv4 _ \<Rightarrow> Inl bad_address_cast)"

definition addr_to_string :: "os_text \<Rightarrow> address \<Rightarrow> exn + string" where
  "addr_to_string os a = (case a of Ipv6 x \<Rightarrow> v6_to_string os x | Ipv4 x \<Rightarrow> v4_to_string os x)"

definition addr_is_loopback :: "address \<Rightarrow> bool" where
  "addr_is_loopback a = (case a of Ipv4 x \<Rightarrow> v4_is_loopback x | Ipv6 x \<Rightarrow> v6_is_loopback x)"

definition addr_is_unspecified :: "address \<Rightarrow> bool" where
  "addr_is_unspecified a = (case a of Ipv4 x \<Rightarrow> v4_is_unspecified x | Ipv6 x \<Rightarrow> v6_is_unspecified x)"

definition addr_is_multicast :: "address \<Rightarrow> bool" where
  "addr_is_multicast a = (case a of Ipv4 x \<Rightarrow> v4_is_multicast x | Ipv6 x \<Rightarrow> v6_is_multicast x)"

definition addr_eq :: "address \<Rightarrow> address \<Rightarrow> bool" where
  "addr_eq a b =
     (case (a, b) of (Ipv6 x, Ipv6 y) \<Rightarrow> v6_eq x y | (Ipv4 x, Ipv4 y) \<Rightarrow> v4_eq x y | _ \<Rightarrow> False)"

definition addr_less :: "address \<Rightarrow> address \<Rightarrow> bool" where
  "addr_less a b =
     (case (a, b) of
        (Ipv4 _, Ipv6 _) \<Rightarrow> True
      | (Ipv6 _, Ipv4 _) \<Rightarrow> False
      | (Ipv6 x, Ipv6 y) \<Rightarrow> v6_less x y
      | (Ipv4 x, Ipv4 y) \<Rightarrow> v4_less x y)"

section \<open>ip/detail/endpoint\<close>

datatype endpoint_data =
    Sockaddr_in (sin_port: bytes) (sin_addr: bytes)
  | Sockaddr_in6 (sin6_port: bytes) (sin6_flowinfo: u32) (sin6_addr: bytes) (sin6_scope_id: u32)

definition ep_default :: endpoint_data where
  "ep_default = Sockaddr_in [0, 0] [0, 0, 0, 0]"

definition ep_of_family :: "af \<Rightarrow> u16 \<Rightarrow> endpoint_data" where
  "ep_of_family family port_num =
     (if family = AF_INET then Sockaddr_in (host_to_network_short port_num) [0, 0, 0, 0]
      else Sockaddr_in6 (host_to_network_short port_num) 0 (replicate 16 0) 0)"

definition ep_of_address :: "address \<Rightarrow> u16 \<Rightarrow> endpoint_data" where
  "ep_of_address addr port_num =
     (case addr of
        Ipv4 a \<Rightarrow> Sockaddr_in (host_to_network_short port_num) (host_to_network_long (v4_to_uint a))
      | Ipv6 a \<Rightarrow> Sockaddr_in6 (host_to_network_short port_num) 0 (v6_to_bytes a) (scope_id a))"

definition ep_resize :: "nat \<Rightarrow> nat \<Rightarrow> exn + unit" where
  \<comment> \<open>\<open>storage\<close> is \<open>sizeof(sockaddr_storage_type)\<close>\<close>
  "ep_resize storage new_size =
     (if new_size > storage then throw_error (Some invalid_argument) () else Inr ())"

definition ep_is_v4 :: "endpoint_data \<Rightarrow> bool" where
  "ep_is_v4 e = (case e of Sockaddr_in _ _ \<Rightarrow> True | _ \<Rightarrow> False)"

definition ep_port :: "endpoint_data \<Rightarrow> u16" where
  "ep_port e = (if ep_is_v4 e then network_to_host_short (sin_port e) else network_to_host_short (sin6_port e))"

definition ep_set_port :: "endpoint_data \<Rightarrow> u16 \<Rightarrow> endpoint_data" where
  "ep_set_port e port_num =
     (if ep_is_v4 e then Sockaddr_in (host_to_network_short port_num) (sin_addr e)
      else Sockaddr_in6 (host_to_network_short port_num) (sin6_flowinfo e) (sin6_addr e) (sin6_scope_id e))"

definition ep_address :: "endpoint_data \<Rightarrow> address" where
  "ep_address e =
     (if ep_is_v4 e then Ipv4 (v4_of_uint (network_to_host_long (sin_addr e)))
      else Ipv6 (v6_of_bytes (sin6_addr e) (sin6_scope_id e)))"

definition ep_set_address :: "endpoint_data \<Rightarrow> address \<Rightarrow> endpoint_data" where
  "ep_set_address e addr = ep_of_address addr (ep_port e)"

definition ep_eq :: "endpoint_data \<Rightarrow> endpoint_data \<Rightarrow> bool" where
  "ep_eq e1 e2 = (addr_eq (ep_address e1) (ep_address e2) \<and> ep_port e1 = ep_port e2)"

definition ep_less :: "endpoint_data \<Rightarrow> endpoint_data \<Rightarrow> bool" where
  "ep_less e1 e2 =
     (if addr_less (ep_address e1) (ep_address e2) then True
      else if \<not> addr_eq (ep_address e1) (ep_address e2) then False
      else ep_port e1 < ep_port e2)"

definition ep_to_string :: "os_text \<Rightarrow> endpoint_data \<Rightarrow> exn + string" where
  \<comment> \<open>streaming an address writes its \<open>to_string\<close>\<close>
  "ep_to_string os e =
     (case addr_to_string os (ep_address e) of
        Inl x \<Rightarrow> Inl x
      | Inr a \<Rightarrow> Inr ((if ep_is_v4 e then a else ''['' @ a @ '']'') @ '':'' @ os_print_uint os (ucast (ep_port e))))"

section \<open>Endpoints as keys\<close>

lemma addr_eq_iff: "addr_eq a b \<longleftrightarrow> a = b"
  by (cases a; cases b) (simp_all add: addr_eq_def v4_eq_iff v6_eq_iff)

lemma v4_less_iff: "v4_less a b \<longleftrightarrow> a < b"
  by (simp add: less_address_v4_def)

lemma v6_less_is: "v6_less a b \<longleftrightarrow> a < b"
  by (simp add: less_address_v6_def)

lemmas less_simps = v4_less_iff v6_less_is addr_less_def

instantiation address :: linorder
begin

definition less_address :: "address \<Rightarrow> address \<Rightarrow> bool" where
  "less_address a b = addr_less a b"

definition less_eq_address :: "address \<Rightarrow> address \<Rightarrow> bool" where
  "less_eq_address a b = (addr_less a b \<or> a = b)"

instance
proof
  fix a b c :: address
  show "(a < b) = (a \<le> b \<and> \<not> b \<le> a)"
    by (cases a; cases b) (auto simp: less_address_def less_eq_address_def less_simps)
  show "a \<le> a" by (simp add: less_eq_address_def)
  show "a \<le> b \<Longrightarrow> b \<le> c \<Longrightarrow> a \<le> c"
    by (cases a; cases b; cases c) (auto simp: less_eq_address_def less_simps)
  show "a \<le> b \<Longrightarrow> b \<le> a \<Longrightarrow> a = b"
    by (cases a; cases b) (auto simp: less_eq_address_def less_simps)
  show "a \<le> b \<or> b \<le> a"
    by (cases a; cases b) (auto simp: less_eq_address_def less_simps)
qed

end

lemma ep_less_iff: "ep_less e1 e2 \<longleftrightarrow>
    ep_address e1 < ep_address e2 \<or> ep_address e1 = ep_address e2 \<and> ep_port e1 < ep_port e2"
  by (auto simp: ep_less_def addr_eq_iff simp flip: less_address_def)

lemma ep_eq_iff: "ep_eq e1 e2 \<longleftrightarrow> ep_address e1 = ep_address e2 \<and> ep_port e1 = ep_port e2"
  by (simp add: ep_eq_def addr_eq_iff)

text \<open>
  C31. Endpoints are fit to be the keys of \<open>forwarderMap_\<close>. \<open>operator<\<close> on endpoints is a strict weak
  order (irreflexive and transitive, as \<open>std::map\<close> requires), and two endpoints it cannot tell apart are
  exactly those \<open>operator==\<close> calls equal: no two peers share an entry, and no peer has two.
\<close>

theorem endpoint_order:
  "irreflp ep_less \<and> transp ep_less \<and> (\<lambda>e f. \<not> ep_less e f \<and> \<not> ep_less f e) = ep_eq"
proof (intro conjI)
  show "irreflp ep_less" "transp ep_less"
    unfolding irreflp_on_def transp_on_def ep_less_iff by auto
  show "(\<lambda>e f. \<not> ep_less e f \<and> \<not> ep_less f e) = ep_eq"
    unfolding fun_eq_iff ep_less_iff ep_eq_iff by auto
qed

lemma host_network_short: "network_to_host_short (host_to_network_short p) = p"
proof (rule bit_word_eqI)
  fix n assume n: "n < LENGTH(16)"
  have m: "(v :: u16) AND 0xFF = take_bit 8 v" for v
    by (simp add: take_bit_eq_mask mask_eq_exp_minus_1)
  have hi: "bit (push_bit 8 (ucast (x :: u8)) :: u16) n \<longleftrightarrow> 8 \<le> n \<and> n < 16 \<and> bit x (n - 8)" for x n
    by (auto simp: bit_push_bit_iff bit_ucast_iff dest: bit_imp_le_length)
  have lo: "bit (ucast (x :: u8) :: u16) n \<longleftrightarrow> n < 8 \<and> bit x n" for x n
    by (auto simp: bit_ucast_iff dest: bit_imp_le_length)
  have b1: "bit (ucast (take_bit 8 (drop_bit 8 p)) :: u8) n \<longleftrightarrow> n < 8 \<and> bit p (8 + n)" for n
    by (auto simp: bit_ucast_iff bit_take_bit_iff bit_drop_bit_eq)
  have b0: "bit (ucast (take_bit 8 p) :: u8) n \<longleftrightarrow> n < 8 \<and> bit p n" for n
    by (auto simp: bit_ucast_iff bit_take_bit_iff)
  have "bit (network_to_host_short (host_to_network_short p)) n \<longleftrightarrow>
      8 \<le> n \<and> n < 16 \<and> n - 8 < 8 \<and> bit p (8 + (n - 8)) \<or> n < 8 \<and> bit p n"
    unfolding network_to_host_short_def host_to_network_short_def m bit_or_iff hi lo
    by (simp only: nth_Cons_0 One_nat_def nth_Cons_Suc hi lo b1 b0) auto
  then show "bit (network_to_host_short (host_to_network_short p)) n \<longleftrightarrow> bit p n"
    using n by auto
qed

definition addr_ok :: "address \<Rightarrow> bool" where
  \<comment> \<open>the arrays have their lengths\<close>
  "addr_ok a = (case a of Ipv4 _ \<Rightarrow> True | Ipv6 x \<Rightarrow> length (s6_addr x) = 16)"

lemma ep_address_of: "addr_ok a \<Longrightarrow> ep_address (ep_of_address a p) = a"
  by (cases a) (simp_all add: ep_address_def ep_of_address_def ep_is_v4_def host_network_long v4_of_to_uint
      addr_ok_def v6_of_bytes_def v6_to_bytes_def)

lemma ep_port_of: "ep_port (ep_of_address a p) = p"
  by (cases a) (simp_all add: ep_port_def ep_of_address_def ep_is_v4_def host_network_short)

lemma ep_set_port_fields: "ep_port (ep_set_port e p) = p" "ep_address (ep_set_port e p) = ep_address e"
  by (cases e; simp add: ep_port_def ep_set_port_def ep_is_v4_def ep_address_def host_network_short)+

text \<open>
  What goes into an endpoint comes out. The address and the port an endpoint is made of, kept in
  network byte order inside it, are the ones its accessors return; setting the port keeps the
  address, and setting the address keeps the port.
\<close>

theorem endpoint_fields:
  assumes "addr_ok a" "addr_ok b"
  shows "ep_address (ep_of_address a p) = a \<and> ep_port (ep_of_address a p) = p \<and>
    ep_address (ep_set_port (ep_of_address a p) q) = a \<and> ep_port (ep_set_port (ep_of_address a p) q) = q \<and>
    ep_address (ep_set_address (ep_of_address a p) b) = b \<and> ep_port (ep_set_address (ep_of_address a p) b) = p"
  by (simp add: ep_address_of ep_port_of ep_set_port_fields ep_set_address_def assms)

theorem endpoint_fields_witness:
  "ep_port (ep_set_address (ep_of_address (Ipv4 v4_loopback) 9007) (Ipv6 v6_loopback)) = 9007"
  using endpoint_fields [of "Ipv4 v4_loopback" "Ipv6 v6_loopback" 9007]
  by (simp add: addr_ok_def v6_loopback_def v6_default_def)

end
