(* ===== verification/Address_Parser.thy ===== *)
theory Address_Parser
  imports Asio_Address
begin

text \<open>
  \<open>AddressParser.cpp\<close>: the \<open>address:port\<close> strings of the configuration. The port is read by
  \<open>sscanf("%d")\<close>, which C leaves undefined when the digits name no \<open>int\<close>; what is stored then is the
  parameter \<open>over\<close> (what glibc stores is \<open>glibc_int\<close>). Logging is left out.
\<close>

definition rfind :: "string \<Rightarrow> char \<Rightarrow> nat option" where
  "rfind s c =
     (let n = length (takeWhile (\<lambda>x. x \<noteq> c) (rev s))
      in if n < length s then Some (length s - 1 - n) else None)"

definition sscanf_d :: "(string \<Rightarrow> int) \<Rightarrow> string \<Rightarrow> int" where
  \<comment> \<open>on a non-empty string of digits\<close>
  "sscanf_d over s = (if digits_value s < 2147483648 then int (digits_value s) else over s)"

definition ParseAddressAndPort :: "os_text \<Rightarrow> (string \<Rightarrow> int) \<Rightarrow> string \<Rightarrow> (address \<times> u16) option" where
  "ParseAddressAndPort os over ipPortStr =
     (case rfind ipPortStr (CHR '':'') of
        None \<Rightarrow> None
      | Some index \<Rightarrow>
          if index = length ipPortStr - 1 then None
          else let (address, ec) = make_address os (take index ipPortStr)
          in if ec \<noteq> None then None
          else if \<not> list_all is_digit (drop (index + 1) ipPortStr) then None
          else let intPort = sscanf_d over (drop (index + 1) ipPortStr)
          in if intPort < 0 \<or> intPort > 65535 then None
          else Some (address, of_int intPort))"

definition ParseSocketAddress_tcp :: "os_text \<Rightarrow> (string \<Rightarrow> int) \<Rightarrow> string \<Rightarrow> endpoint_data option" where
  "ParseSocketAddress_tcp os over ipPortStr =
     (case ParseAddressAndPort os over ipPortStr of
        None \<Rightarrow> None
      | Some (ipAddress, port) \<Rightarrow> Some (ep_of_address ipAddress port))"

definition ParseSocketAddress_udp :: "os_text \<Rightarrow> (string \<Rightarrow> int) \<Rightarrow> string \<Rightarrow> endpoint_data option" where
  "ParseSocketAddress_udp os over ipPortStr =
     (case ParseAddressAndPort os over ipPortStr of
        None \<Rightarrow> None
      | Some (ipAddress, port) \<Rightarrow> Some (ep_of_address ipAddress port))"

lemma rfind_Some:
  "rfind s c = Some i \<longleftrightarrow> (\<exists>h p. s = h @ c # p \<and> c \<notin> set p \<and> i = length h)"
proof
  assume r: "rfind s c = Some i"
  let ?q = "takeWhile (\<lambda>x. x \<noteq> c) (rev s)"
  have n: "length ?q < length s" "i = length s - 1 - length ?q"
    using r by (auto simp: rfind_def Let_def split: if_splits)
  have "rev s = ?q @ dropWhile (\<lambda>x. x \<noteq> c) (rev s)" by simp
  moreover obtain x t where d: "dropWhile (\<lambda>x. x \<noteq> c) (rev s) = x # t"
    using n(1) by (metis append_Nil2 length_rev list.exhaust nat_less_le takeWhile_dropWhile_id)
  moreover have "x = c" using hd_dropWhile [of "\<lambda>x. x \<noteq> c" "rev s"] d by simp
  ultimately have "rev s = ?q @ c # t" by simp
  then have s: "s = rev t @ c # rev ?q" by (metis rev_append rev_rev_ident rev.simps(2) append.assoc append_Cons append_Nil)
  have "c \<notin> set (rev ?q)" using set_takeWhileD by fastforce
  moreover have "i = length (rev t)" using n(2) arg_cong [OF s, of length] by simp
  ultimately show "\<exists>h p. s = h @ c # p \<and> c \<notin> set p \<and> i = length h" using s by blast
next
  assume "\<exists>h p. s = h @ c # p \<and> c \<notin> set p \<and> i = length h"
  then obtain h p where s: "s = h @ c # p" "c \<notin> set p" "i = length h" by blast
  have "takeWhile (\<lambda>x. x \<noteq> c) (rev s) = rev p"
    using s(1,2) by (subst s(1)) (auto simp: takeWhile_append2 takeWhile_tail)
  then show "rfind s c = Some i" using s(1,3) by (simp add: rfind_def)
qed

lemma parse_iff:
  "ParseAddressAndPort os over s = Some (a, port) \<longleftrightarrow>
     (\<exists>h p. s = h @ '':'' @ p \<and> p \<noteq> [] \<and> list_all is_digit p \<and> make_address os h = (a, None) \<and>
        0 \<le> sscanf_d over p \<and> sscanf_d over p \<le> 65535 \<and> port = of_int (sscanf_d over p))"
  (is "?l \<longleftrightarrow> ?r")
proof
  assume l: ?l
  then obtain i where i: "rfind s (CHR '':'') = Some i" by (auto simp: ParseAddressAndPort_def split: option.splits)
  then obtain h p where s: "s = h @ CHR '':'' # p" "i = length h" by (auto simp: rfind_Some)
  obtain a' ec where m: "make_address os h = (a', ec)" by (metis surj_pair)
  show ?r using l i s m
    by (intro exI [of _ h] exI [of _ p])
      (auto simp: ParseAddressAndPort_def Let_def split: if_splits)
next
  assume ?r
  then obtain h p where s: "s = h @ '':'' @ p" "p \<noteq> []" "list_all is_digit p" "make_address os h = (a, None)"
    "0 \<le> sscanf_d over p" "sscanf_d over p \<le> 65535" "port = of_int (sscanf_d over p)" by blast
  have "CHR '':'' \<notin> set p" using s(3) by (auto simp: list_all_iff is_digit_def)
  then have "rfind s (CHR '':'') = Some (length h)" using s(1) by (auto simp: rfind_Some)
  then show ?l using s by (simp add: ParseAddressAndPort_def Let_def)
qed

definition glibc_int :: "string \<Rightarrow> int" where
  \<comment> \<open>what \<open>sscanf("%d")\<close> of glibc stores: the number saturates at the largest \<open>long\<close> and its low 32 bits are kept\<close>
  "glibc_int p = i32 (min (int (digits_value p)) 9223372036854775807)"

lemma low_bits:
  "0 \<le> i32 (int n) \<and> i32 (int n) \<le> 65535 \<longleftrightarrow> n mod 4294967296 \<le> 65535"
  "n mod 4294967296 \<le> 65535 \<Longrightarrow> i32 (int n) = int (n mod 4294967296)"
proof -
  have z: "i32 (int n) = i32 (int (n mod 4294967296))" using i32_mod [of "int n"] by (simp add: zmod_int)
  show "n mod 4294967296 \<le> 65535 \<Longrightarrow> i32 (int n) = int (n mod 4294967296)"
    unfolding z by (rule i32_id) linarith+
  have "int (n mod 4294967296) < 4294967296" by simp
  then show "0 \<le> i32 (int n) \<and> i32 (int n) \<le> 65535 \<longleftrightarrow> n mod 4294967296 \<le> 65535"
    unfolding z using i32_id [of "int (n mod 4294967296)"] i32_high [of "int (n mod 4294967296)"]
    by (cases "n mod 4294967296 < 2147483648") auto
qed

lemma glibc_port:
  "0 \<le> sscanf_d glibc_int p \<and> sscanf_d glibc_int p \<le> 65535 \<longleftrightarrow>
     digits_value p < 9223372036854775808 \<and> digits_value p mod 4294967296 \<le> 65535" (is ?iff)
  "digits_value p < 9223372036854775808 \<Longrightarrow> digits_value p mod 4294967296 \<le> 65535 \<Longrightarrow>
     sscanf_d glibc_int p = int (digits_value p mod 4294967296)"
proof -
  let ?n = "digits_value p"
  have big: "i32 9223372036854775807 = -1" by (simp add: i32_def)
  have s: "sscanf_d glibc_int p = i32 (int ?n)" if "?n < 9223372036854775808"
    using that by (auto simp: sscanf_d_def glibc_int_def min_def i32_id)
  then show "?n < 9223372036854775808 \<Longrightarrow> ?n mod 4294967296 \<le> 65535 \<Longrightarrow>
     sscanf_d glibc_int p = int (?n mod 4294967296)" using low_bits(2) by simp
  have "sscanf_d glibc_int p = -1" if "\<not> ?n < 9223372036854775808"
    using that big by (auto simp: sscanf_d_def glibc_int_def min_def)
  then show ?iff using s low_bits(1) [of ?n] by (cases "?n < 9223372036854775808") auto
qed

lemma parse_udp_iff:
  "ParseSocketAddress_udp os over s = Some e \<longleftrightarrow>
     (\<exists>h p a. s = h @ '':'' @ p \<and> p \<noteq> [] \<and> list_all is_digit p \<and> make_address os h = (a, None) \<and>
        0 \<le> sscanf_d over p \<and> sscanf_d over p \<le> 65535 \<and> e = ep_of_address a (of_int (sscanf_d over p)))"
proof -
  have "ParseSocketAddress_udp os over s = Some e \<longleftrightarrow>
      (\<exists>a port. ParseAddressAndPort os over s = Some (a, port) \<and> e = ep_of_address a port)"
    by (auto simp: ParseSocketAddress_udp_def split: option.splits)
  then show ?thesis unfolding parse_iff by blast
qed

text \<open>
  C30. What \<open>ParseSocketAddress\<close> accepts: exactly the strings of the form \<open>host:digits\<close> with a host asio takes
  for an address, where what \<open>sscanf\<close> stores for the digits is from 0 to 65535; the endpoint has that
  address and that port. For digits that name an \<open>int\<close> this is their value. For others C leaves it
  open; as glibc reads them, the low 32 bits of any number below \<open>2^63\<close> count, so that numbers far beyond
  65535 are accepted as ports.
\<close>

theorem parse_socket_address:
  "(ParseSocketAddress_udp os over s = Some e \<longleftrightarrow>
     (\<exists>h p a port. s = h @ '':'' @ p \<and> p \<noteq> [] \<and> list_all is_digit p \<and> make_address os h = (a, None) \<and>
        port = (if digits_value p < 2147483648 then int (digits_value p) else over p) \<and>
        0 \<le> port \<and> port \<le> 65535 \<and> e = ep_of_address a (of_int port))) \<and>
   (ParseSocketAddress_udp os glibc_int s = Some e \<longleftrightarrow>
     (\<exists>h p a. s = h @ '':'' @ p \<and> p \<noteq> [] \<and> list_all is_digit p \<and> make_address os h = (a, None) \<and>
        digits_value p < 9223372036854775808 \<and> digits_value p mod 4294967296 \<le> 65535 \<and>
        e = ep_of_address a (of_nat (digits_value p mod 4294967296))))"
  (is "?general \<and> (?l \<longleftrightarrow> ?r)")
proof
  show ?general unfolding parse_udp_iff sscanf_d_def by blast
  show "?l \<longleftrightarrow> ?r"
  proof
    assume ?l
    then obtain h p a where q: "s = h @ '':'' @ p" "p \<noteq> []" "list_all is_digit p" "make_address os h = (a, None)"
      "0 \<le> sscanf_d glibc_int p" "sscanf_d glibc_int p \<le> 65535" "e = ep_of_address a (of_int (sscanf_d glibc_int p))"
      unfolding parse_udp_iff by blast
    then have "digits_value p < 9223372036854775808" "digits_value p mod 4294967296 \<le> 65535"
      using glibc_port(1) [of p] by blast+
    then show ?r using q glibc_port(2) [of p] by (intro exI [of _ h] exI [of _ p] exI [of _ a]) simp
  next
    assume ?r
    then obtain h p a where q: "s = h @ '':'' @ p" "p \<noteq> []" "list_all is_digit p" "make_address os h = (a, None)"
      "digits_value p < 9223372036854775808" "digits_value p mod 4294967296 \<le> 65535"
      "e = ep_of_address a (of_nat (digits_value p mod 4294967296))" by blast
    then show ?l unfolding parse_udp_iff using glibc_port [of p]
      by (intro exI [of _ h] exI [of _ p] exI [of _ a]) simp
  qed
qed

definition loopback_os :: os_text where
  \<comment> \<open>a system that knows one numeric address\<close>
  "loopback_os =
     \<lparr>os_pton = (\<lambda>f s. if f = AF_INET \<and> s = ''127.0.0.1'' then (1, [127, 0, 0, 1], None)
                       else (0, [], None)),
      os_ntop = (\<lambda>f b. if f = AF_INET then (Some ''127.0.0.1'', None) else (None, None)),
      os_nametoindex = (\<lambda>_. 0), os_indextoname = (\<lambda>_. None), os_print_uint = (\<lambda>_. ''0'')\<rparr>"

lemma loopback_parse:
  "make_address loopback_os ''127.0.0.1'' = (Ipv4 (Address_v4 127 0 0 1), None)"
  by (simp add: make_address_def make_address_v6_def make_address_v4_def inet_pton_def loopback_os_def
      strchr_def c_str_def v4_of_bytes_def)

theorem parse_socket_address_witness:
  "ParseSocketAddress_udp loopback_os glibc_int ''127.0.0.1:8888'' =
     Some (ep_of_address (Ipv4 (Address_v4 127 0 0 1)) 8888) \<and>
   ParseSocketAddress_udp loopback_os glibc_int ''127.0.0.1:4294967376'' =
     Some (ep_of_address (Ipv4 (Address_v4 127 0 0 1)) 80)"
proof -
  have "ParseSocketAddress_udp loopback_os glibc_int (''127.0.0.1'' @ '':'' @ p) =
      Some (ep_of_address (Ipv4 (Address_v4 127 0 0 1)) (of_nat (digits_value p mod 4294967296)))"
    if "p \<noteq> []" "list_all is_digit p" "digits_value p < 9223372036854775808" "digits_value p mod 4294967296 \<le> 65535" for p
    by (rule iffD2 [OF conjunct2 [OF parse_socket_address [where over = glibc_int]]])
      (use that loopback_parse in blast)
  from this [of "''8888''"] this [of "''4294967376''"] show ?thesis
    by (simp add: digits_value_def is_digit_def)
qed

end
