(* ===== verification/Flex_Accept.thy ===== *)
theory Flex_Accept
  imports Flex_Endpoint Address_Parser
begin

text \<open>
  The two programs around the forwarders: \<open>FlexServer.cpp\<close> and \<open>FlexClient.cpp\<close> (reading the
  configured addresses, opening the listening sockets, the accept loops) and the two \<open>main.cpp\<close>. The
  table \<open>forwarderMap_\<close> is a finite map on what \<open>operator<\<close> of endpoints distinguishes, address and port.
  The JSON library (a submodule that is not in the repository) and the file system are parameters.
\<close>

section \<open>Configuration\<close>

record server_config =
  kcpBindAddr :: string
  tcpProxyForAddr :: string
  server_logFile :: string

record client_config =
  tcpAcceptorAddr :: string
  kcpServerAddr :: string
  client_logFile :: string

definition server_defaults :: server_config where
  "server_defaults = \<lparr>kcpBindAddr = ''0.0.0.0:2022'', tcpProxyForAddr = ''127.0.0.1:8888'', server_logFile = ''''\<rparr>"

definition client_defaults :: client_config where
  "client_defaults = \<lparr>tcpAcceptorAddr = ''127.0.0.1:9007'', kcpServerAddr = ''138.2.76.165:9008'', client_logFile = ''''\<rparr>"

record init_env =
  \<comment> \<open>the answers of the socket calls\<close>
  i_open :: "errc option"
  i_reuse :: "errc option"
  i_bind :: "errc option"
  i_listen :: "errc option"

definition server_initialize ::
  "os_text \<Rightarrow> (string \<Rightarrow> int) \<Rightarrow> init_env \<Rightarrow> server_config \<Rightarrow> fault + (endpoint_data \<times> endpoint_data) option" where
  \<comment> \<open>the TCP and the UDP endpoint, or \<open>None\<close> where \<open>Initialize\<close> returns false\<close>
  "server_initialize os over env config =
     (case ParseSocketAddress_tcp os over (tcpProxyForAddr config) of
        None \<Rightarrow> Inr None
      | Some tcpSocketEndpoint \<Rightarrow>
          (case ParseSocketAddress_udp os over (kcpBindAddr config) of
             None \<Rightarrow> Inr None
           | Some ep \<Rightarrow>
               if i_open env \<noteq> None then Inr None
               else if i_reuse env \<noteq> None then Inl Uncaught
               else if i_bind env \<noteq> None then Inr None
               else Inr (Some (tcpSocketEndpoint, ep))))"

definition client_initialize ::
  "os_text \<Rightarrow> (string \<Rightarrow> int) \<Rightarrow> init_env \<Rightarrow> client_config \<Rightarrow> fault + (endpoint_data \<times> endpoint_data) option" where
  "client_initialize os over env config =
     (case ParseSocketAddress_udp os over (kcpServerAddr config) of
        None \<Rightarrow> Inr None
      | Some kcpSocketEndpoint \<Rightarrow>
          (case ParseSocketAddress_tcp os over (tcpAcceptorAddr config) of
             None \<Rightarrow> Inr None
           | Some ep \<Rightarrow>
               if i_open env \<noteq> None then Inr None
               else if i_reuse env \<noteq> None then Inl Uncaught
               else if i_bind env \<noteq> None then Inr None
               else if i_listen env \<noteq> None then Inr None
               else Inr (Some (kcpSocketEndpoint, ep))))"

section \<open>The accept loops\<close>

definition peer :: "endpoint_data \<Rightarrow> address \<times> u16" where
  "peer e = (ep_address e, ep_port e)"

record server =
  forwarderMap :: "address \<times> u16 \<rightharpoonup> forwarder"
  gIdCounter :: u32
  accepting :: bool

definition UdpAcceptCoroutine ::
  "bool \<Rightarrow> start_env \<Rightarrow> server \<Rightarrow> errc + (endpoint_data \<times> bytes) \<Rightarrow> memory \<Rightarrow> fault + server" where
  \<comment> \<open>one turn of the loop, with the outcome of \<open>async_receive_from\<close>\<close>
  "UdpAcceptCoroutine chk env s r alloc =
     (case r of
        Inl ec \<Rightarrow>
          if IsTryAgain ec then Inr s
          else if ec = operation_canceled then Inr (s\<lparr>accepting := False\<rparr>)
          else Inl AssertFail
      | Inr (remoteEndpoint, data) \<Rightarrow>
          (case forwarderMap s (peer remoteEndpoint) of
             None \<Rightarrow>
               let (newForwarder, n) = server_construct (gIdCounter s)
               in andThen (server_start env newForwarder) (\<lambda>(started, f).
                    if started then
                      andThen (OnUdpData chk f data alloc) (\<lambda>f.
                        Inr (s\<lparr>forwarderMap := (forwarderMap s)(peer remoteEndpoint \<mapsto> f), gIdCounter := n\<rparr>))
                    else andThen (server_destroy f) (\<lambda>_. Inr (s\<lparr>gIdCounter := n, accepting := False\<rparr>)))
           | Some sp \<Rightarrow>
               andThen (OnUdpData chk sp data alloc) (\<lambda>f.
                 Inr (s\<lparr>forwarderMap := (forwarderMap s)(peer remoteEndpoint \<mapsto> f)\<rparr>))))"

definition forwarder_deleter :: "server \<Rightarrow> address \<times> u16 \<Rightarrow> forwarder \<Rightarrow> fault + server" where
  \<comment> \<open>runs when the last coroutine of a forwarder has returned\<close>
  "forwarder_deleter s remoteEndpoint p =
     (let s = s\<lparr>forwarderMap := (forwarderMap s)(remoteEndpoint := None)\<rparr>
      in andThen (server_destroy p) (\<lambda>_. Inr s))"

definition TcpAcceptCoroutine ::
  "start_env \<Rightarrow> u32 \<Rightarrow> errc + unit \<Rightarrow> fault + (bool \<times> u32 \<times> forwarder option)" where
  \<comment> \<open>one turn: does the loop go on, the next id, the forwarder that now runs\<close>
  "TcpAcceptCoroutine env g r =
     (case r of
        Inl ec \<Rightarrow>
          if IsTryAgain ec then Inr (True, g, None)
          else if ec = operation_canceled then Inr (False, g, None)
          else Inl AssertFail
      | Inr _ \<Rightarrow>
          let (spClient, n) = client_construct g
          in andThen (client_start env spClient) (\<lambda>(started, f).
               if started then Inr (True, n, Some f)
               else andThen (client_destroy f) (\<lambda>_. Inr (True, n, None))))"

section \<open>main\<close>

definition server_main ::
  "nat \<Rightarrow> string \<Rightarrow> (string \<Rightarrow> bytes option) \<Rightarrow> (bytes \<Rightarrow> nat) \<Rightarrow> (server_config \<Rightarrow> bytes \<Rightarrow> bool \<times> server_config) \<Rightarrow>
   (server_config \<Rightarrow> fault + 'e option) \<Rightarrow> fault + int" where
  \<comment> \<open>the exit status; \<open>deserialize\<close> and \<open>initialize\<close> are the library's and the server's\<close>
  "server_main argc argv1 files count deserialize initialize =
     (let config = server_defaults;
          run = (\<lambda>config. andThen (initialize config) (\<lambda>r. Inr (if r = None then 1 else 0)))
      in if argc = 2 then
           let (loaded, content) = LoadFileContent files count [] argv1
           in if \<not> loaded then Inr 1
              else let (ok, config) = deserialize config content
                   in if \<not> ok then Inr 1 else run config
         else run config)"

definition client_main ::
  "nat \<Rightarrow> string \<Rightarrow> (string \<Rightarrow> bytes option) \<Rightarrow> (bytes \<Rightarrow> nat) \<Rightarrow> (client_config \<Rightarrow> bytes \<Rightarrow> bool \<times> client_config) \<Rightarrow>
   (client_config \<Rightarrow> fault + 'e option) \<Rightarrow> fault + int" where
  "client_main argc argv1 files count deserialize initialize =
     (let config = client_defaults;
          run = (\<lambda>config. andThen (initialize config) (\<lambda>r. Inr (if r = None then 1 else 0)))
      in if argc = 2 then
           let (loaded, content) = LoadFileContent files count [] argv1
           in if \<not> loaded then Inr 1
              else let (ok, config) = deserialize config content
                   in if \<not> ok then Inr 1 else run config
         else run config)"

section \<open>Who gets a datagram\<close>

definition server_inv :: "server \<Rightarrow> bool" where
  "server_inv s = (\<forall>p f. forwarderMap s p = Some f \<longrightarrow>
     (\<exists>k. kcpCb f = Some k \<and> kcb_ok k) \<and> isKcpAlive f \<noteq> None)"

definition room :: "server \<Rightarrow> address \<times> u16 \<Rightarrow> nat \<Rightarrow> bool" where
  "room s p n = (\<forall>f k. forwarderMap s p = Some f \<and> kcpCb f = Some k \<longrightarrow> acks_fit k n)"

lemma OnUdpData_total:
  assumes "kcpCb f = Some k" "kcb_ok k" "acks_fit k (length buf)"
  shows "\<exists>k'. OnUdpData chk f buf plenty = Inr (f\<lparr>isKcpAlive := Some True, kcpCb := Some k'\<rparr>) \<and> kcb_ok k'"
proof (cases "frame_in chk buf")
  case None
  then have "OnUdpData chk f buf plenty = Inr (f\<lparr>isKcpAlive := Some True\<rparr>)" by (simp add: OnUdpData_feed feed_kcp_def)
  then show ?thesis using assms(1,2) by (intro exI [of _ k]) simp
next
  case (Some p)
  then have l: "length p \<le> length buf" by (auto simp: frame_in_def split: if_splits)
  obtain n k' where "ikcp_input k (Some p) (int (length p)) plenty = Inr (n, k')" "kcb_ok k'"
    using input_ok [OF assms(2,3) l, of plenty] by auto
  then show ?thesis using assms(1) Some by (intro exI [of _ k']) (simp add: OnUdpData_feed feed_kcp_def)
qed

lemma server_inv_update:
  assumes "server_inv s" "kcpCb f = Some k" "kcb_ok k" "isKcpAlive f \<noteq> None"
  shows "server_inv (s\<lparr>forwarderMap := (forwarderMap s)(p \<mapsto> f)\<rparr>)"
    "server_inv (s\<lparr>forwarderMap := (forwarderMap s)(p \<mapsto> f), gIdCounter := n\<rparr>)"
  using assms unfolding server_inv_def by (auto simp del: split_paired_All)

lemma small_acks: "n \<le> 4096 \<Longrightarrow> acks_fit (session_kcp cv) n"
  by (simp add: acks_fit_def session_fields)

text \<open>
  C10. Datagrams reach the right forwarder. Where the socket calls and allocations succeed, a datagram
  (of at most the 4096 bytes of the buffer) is fed to the forwarder of its sender, which is made first
  if the sender is new; no other forwarder changes, the loop goes on, and the
  table keeps its invariant: every forwarder in it has a sound control block and a set watchdog flag.
\<close>

theorem accept_routes:
  assumes "server_inv s" "room s (peer e) (length d)" "length d \<le> 4096"
    and "on_open env = None" "on_reuse env = None" "on_bind env = None" "on_connect env = None"
    and "\<forall>i. kcp_alloc env i"
  shows "\<exists>s' f f'. UdpAcceptCoroutine chk env s (Inr (e, d)) plenty = Inr s' \<and> server_inv s' \<and>
    accepting s' = accepting s \<and> (\<forall>p. p \<noteq> peer e \<longrightarrow> forwarderMap s' p = forwarderMap s p) \<and>
    forwarderMap s' (peer e) = Some f' \<and> OnUdpData chk f d plenty = Inr f' \<and>
    (forwarderMap s (peer e) = Some f \<or>
     forwarderMap s (peer e) = None \<and> server_start env (fst (server_construct (gIdCounter s))) = Inr (True, f))"
proof (cases "forwarderMap s (peer e)")
  case (Some f)
  then obtain k where k: "kcpCb f = Some k" "kcb_ok k" "isKcpAlive f \<noteq> None"
    using assms(1) Some unfolding server_inv_def by blast
  have fit: "acks_fit k (length d)" using assms(2) Some k(1) unfolding room_def by blast
  obtain k' where o: "OnUdpData chk f d plenty = Inr (f\<lparr>isKcpAlive := Some True, kcpCb := Some k'\<rparr>)" "kcb_ok k'"
    using OnUdpData_total [OF k(1,2) fit] by blast
  let ?f = "f\<lparr>isKcpAlive := Some True, kcpCb := Some k'\<rparr>"
  have "UdpAcceptCoroutine chk env s (Inr (e, d)) plenty = Inr (s\<lparr>forwarderMap := (forwarderMap s)(peer e \<mapsto> ?f)\<rparr>)"
    using Some o by (simp add: UdpAcceptCoroutine_def)
  moreover have "server_inv (s\<lparr>forwarderMap := (forwarderMap s)(peer e \<mapsto> ?f)\<rparr>)"
    by (rule server_inv_update(1) [OF assms(1) _ o(2)]) simp_all
  ultimately show ?thesis using Some o(1)
    by (intro exI [of _ "s\<lparr>forwarderMap := (forwarderMap s)(peer e \<mapsto> ?f)\<rparr>"] exI [of _ f] exI [of _ ?f]) simp
next
  case None
  obtain f where f: "server_start env (fst (server_construct (gIdCounter s))) = Inr (True, f)"
    using assms(4-8) by (auto simp: server_start_def server_create_kcp_def ikcp_create_def Let_def)
  have k: "kcpCb f = Some (session_kcp 0x5a3331fd)" using server_started [OF f] by simp
  obtain k' where o: "OnUdpData chk f d plenty = Inr (f\<lparr>isKcpAlive := Some True, kcpCb := Some k'\<rparr>)" "kcb_ok k'"
    using OnUdpData_total [OF k session_kcb_ok small_acks [OF assms(3)]] by blast
  let ?f = "f\<lparr>isKcpAlive := Some True, kcpCb := Some k'\<rparr>" and ?n = "gIdCounter s + 1"
  have "UdpAcceptCoroutine chk env s (Inr (e, d)) plenty =
      Inr (s\<lparr>forwarderMap := (forwarderMap s)(peer e \<mapsto> ?f), gIdCounter := ?n\<rparr>)"
    using None o f by (simp add: UdpAcceptCoroutine_def server_construct_def)
  moreover have "server_inv (s\<lparr>forwarderMap := (forwarderMap s)(peer e \<mapsto> ?f), gIdCounter := ?n\<rparr>)"
    by (rule server_inv_update(2) [OF assms(1) _ o(2)]) simp_all
  ultimately show ?thesis using None o(1) f
    by (intro exI [of _ "s\<lparr>forwarderMap := (forwarderMap s)(peer e \<mapsto> ?f), gIdCounter := ?n\<rparr>"]
        exI [of _ f] exI [of _ ?f]) simp
qed

theorem accept_routes_witness:
  "\<exists>s'. UdpAcceptCoroutine True calm \<lparr>forwarderMap = Map.empty, gIdCounter = 0, accepting = True\<rparr>
     (Inr (ep_default, [1])) plenty = Inr s' \<and> server_inv s' \<and> accepting s'"
proof -
  let ?s = "\<lparr>forwarderMap = Map.empty, gIdCounter = 0, accepting = True\<rparr>"
  have "server_inv ?s" "room ?s (peer ep_default) (length [1 :: u8])"
    by (simp_all add: server_inv_def room_def)
  from accept_routes [OF this, of calm True] show ?thesis by (auto simp: calm_def)
qed
end
