(* ===== verification/Flex_Proxy.thy ===== *)
theory Flex_Proxy
  imports Flex_Endpoint
begin

text \<open>
  The whole tunnel, one direction of it: the bytes one user writes into his TCP connection come out of
  the other user's connection. Side A is the forwarder that reads them, side B the one that writes
  them (either may be the client's). Both run the coroutines of \<open>Flex_Endpoint\<close>; the network carries
  A's frames to B with loss, repetition and reordering, and may bring A anything. The two forwarders
  are one session: neither is replaced by another one.
\<close>

section \<open>What an event does to the control block\<close>

definition pending :: "kcp_pc \<Rightarrow> bytes" where
  \<comment> \<open>taken from KCP, not yet written to TCP\<close>
  "pending c = (case c of Kcp_write d _ \<Rightarrow> d | Kcp_retry d _ \<Rightarrow> d | _ \<Rightarrow> [])"

definition after_recv :: "int \<Rightarrow> bytes \<Rightarrow> u32 \<Rightarrow> kcp_pc" where
  "after_recv n out now = (if n \<le> 0 then Kcp_sleep now else Kcp_write out now)"

inductive kcp_act :: "bool \<Rightarrow> event \<Rightarrow> kcpcb \<Rightarrow> kcp_pc \<Rightarrow> bytes list \<Rightarrow> kcpcb \<Rightarrow> kcp_pc \<Rightarrow> bool"
  for chk where
  idle: "\<forall>d alloc. ev \<noteq> Tcp_event (Inr d) alloc \<Longrightarrow> \<forall>n. ev \<noteq> Write_event (Inr n) \<Longrightarrow>
    (\<forall>ec. ev = Write_event (Inl ec) \<longrightarrow> IsTryAgain ec) \<and> pending c' = pending c \<and> (c = Kcp_done \<longrightarrow> c' = Kcp_done) \<or>
    (\<exists>ec d now. ev = Write_event (Inl ec) \<and> \<not> IsTryAgain ec \<and> c = Kcp_write d now \<and> c' = Kcp_done) \<Longrightarrow>
    kcp_act chk ev k c [] k c'"
| send: "ikcp_send k d (int (length d)) alloc = Inr (r, k') \<Longrightarrow>
    kcp_act chk (Tcp_event (Inr d) alloc) k c [] k' c"
| tick: "ev = Kcp_begin now \<and> c = Kcp_start \<or> (\<exists>old. ev = Wake_event (Inr ()) now \<and> c = Kcp_sleep old) \<Longrightarrow>
    ikcp_update k now = Inr (k1, pkts) \<Longrightarrow> ikcp_recv k1 (Some 16384) 16384 = Inr (n, out, k') \<Longrightarrow>
    set frames \<subseteq> frame_out chk ` set pkts \<Longrightarrow> kcp_act chk ev k c frames k' (after_recv n out now)"
| drain: "ikcp_recv k (Some 16384) 16384 = Inr (n, out, k') \<Longrightarrow>
    kcp_act chk (Write_event (Inr m)) k (Kcp_write d now) [] k' (after_recv n out now)"
| feed: "ev = Udp_event (Inr buf) alloc \<or> ev = Direct buf alloc \<Longrightarrow> frame_in chk buf = Some q \<Longrightarrow>
    ikcp_input k (Some q) (int (length q)) alloc = Inr (r, k') \<Longrightarrow> kcp_act chk ev k c [] k' c"

lemma idle_same: "\<forall>d alloc. ev \<noteq> Tcp_event (Inr d) alloc \<Longrightarrow> \<forall>r. ev \<noteq> Write_event r \<Longrightarrow> kcp_act chk ev k c [] k c"
  by (rule kcp_act.idle) auto

lemma loop_frames: "tcp_loop f = Inr (f', tc) \<Longrightarrow> f' = f" "udp_loop f = Inr (f', uc) \<Longrightarrow> f' = f"
  "dog_loop f = Inr (f', dc) \<Longrightarrow> f' = f"
  by (auto simp: tcp_loop_def udp_loop_def dog_loop_def andThen_Inr)

lemma drain_kcp:
  assumes "kcp_drain f now = Inr (f', c)" "kcpCb f = Some k"
  shows "\<exists>n out k'. ikcp_recv k (Some 16384) 16384 = Inr (n, out, k') \<and> kcpCb f' = Some k' \<and> c = after_recv n out now"
  using assms by (auto simp: kcp_drain_def andThen_Inr after_recv_def)

lemma loop_kcp:
  assumes "kcp_loop chk f now = Inr (f', c, fs)" "kcpCb f = Some k"
  shows "c = Kcp_done \<and> fs = [] \<and> f' = f \<or>
    (\<exists>k1 pkts n out k'. ikcp_update k now = Inr (k1, pkts) \<and>
       ikcp_recv k1 (Some 16384) 16384 = Inr (n, out, k') \<and> kcpCb f' = Some k' \<and>
       c = after_recv n out now \<and> set fs \<subseteq> frame_out chk ` set pkts)"
proof -
  obtain r where r: "isRunning f = Some r" using assms(1) by (auto simp: kcp_loop_def get_def split: option.splits)
  show ?thesis
  proof (cases r)
    case False
    then show ?thesis using assms r by (simp add: kcp_loop_def)
  next
    case True
    then obtain k1 pkts where u: "ikcp_update k now = Inr (k1, pkts)"
      "kcp_drain (f\<lparr>kcpCb := Some k1\<rparr>) now = Inr (f', c)" "fs = concat (map (kcp_output chk f) pkts)"
      using assms r by (auto simp: kcp_loop_def andThen_Inr)
    have "set fs \<subseteq> frame_out chk ` set pkts" unfolding u(3) by (auto simp: kcp_output_def split: if_splits)
    then show ?thesis using u(1) drain_kcp [OF u(2), of k1] by auto
  qed
qed

lemma feed_kcp_act:
  assumes "feed_kcp chk f buf alloc = Inr f'" "kcpCb f = Some k"
  shows "frame_in chk buf = None \<and> f' = f \<or>
    (\<exists>q r k'. frame_in chk buf = Some q \<and> ikcp_input k (Some q) (int (length q)) alloc = Inr (r, k') \<and> kcpCb f' = Some k')"
  using assms by (auto simp: feed_kcp_def andThen_Inr split: option.splits)

lemma Stop_kcp [simp]: "kcpCb (Stop f) = kcpCb f"
  by (simp add: Stop_def)

text \<open>One coroutine at a time; then any event.\<close>

lemma tick_act:
  assumes "kcp_loop chk f now = Inr (f', c', fs)" "kcpCb f = Some k"
    and ev: "ev = Kcp_begin now \<and> c = Kcp_start \<or> (\<exists>old. ev = Wake_event (Inr ()) now \<and> c = Kcp_sleep old)"
  shows "\<exists>k'. kcpCb f' = Some k' \<and> kcp_act chk ev k c fs k' c'"
  using loop_kcp [OF assms(1,2)]
proof (elim disjE exE conjE)
  assume "c' = Kcp_done" "fs = []" "f' = f"
  then show ?thesis using assms(2) ev by (auto intro!: kcp_act.idle simp: pending_def)
next
  fix k1 pkts n out k'
  assume "ikcp_update k now = Inr (k1, pkts)" "ikcp_recv k1 (Some 16384) 16384 = Inr (n, out, k')"
    "kcpCb f' = Some k'" "c' = after_recv n out now" "set fs \<subseteq> frame_out chk ` set pkts"
  then show ?thesis using kcp_act.tick [OF ev, of k k1 pkts n out k' fs chk] by simp
qed

lemma tcp_act:
  assumes "tcp_to_kcp alloc f r = Inr (f', tc)" "kcpCb f = Some k"
  shows "\<exists>k'. kcpCb f' = Some k' \<and> kcp_act chk (Tcp_event r alloc) k c [] k' c"
proof (cases r)
  case (Inl ec)
  then have "kcpCb f' = Some k" using assms by (auto simp: tcp_to_kcp_def dest!: loop_frames split: if_splits)
  then show ?thesis using idle_same [of "Tcp_event r alloc" chk k c] Inl by simp
next
  case (Inr d)
  then obtain x k' where x: "ikcp_send k d (int (length d)) alloc = Inr (x, k')" "kcpCb f' = Some k'"
    using assms by (auto simp: tcp_to_kcp_def andThen_Inr dest!: loop_frames)
  then show ?thesis using kcp_act.send [OF x(1)] Inr by simp
qed

lemma write_act:
  assumes "kcp_written f d now r = Inr (f', c')" "kcpCb f = Some k"
  shows "\<exists>k'. kcpCb f' = Some k' \<and> kcp_act chk (Write_event r) k (Kcp_write d now) [] k' c'"
proof (cases r)
  case (Inl ec)
  then show ?thesis using assms
    by (auto simp: kcp_written_def AsyncWrite_def pending_def intro!: kcp_act.idle split: if_splits)
next
  case (Inr m)
  then have "kcp_drain f now = Inr (f', c')" using assms(1) by (simp add: kcp_written_def AsyncWrite_def)
  from drain_kcp [OF this assms(2)] show ?thesis using Inr by (auto intro!: kcp_act.drain)
qed

lemma feed_act:
  assumes "feed_kcp chk f buf alloc = Inr f'" "kcpCb f = Some k"
    and ev: "ev = Udp_event (Inr buf) alloc \<or> ev = Direct buf alloc"
  shows "\<exists>k'. kcpCb f' = Some k' \<and> kcp_act chk ev k c [] k' c"
proof -
  have "kcp_act chk ev k c [] k c" using ev by (intro idle_same) auto
  then show ?thesis using feed_kcp_act [OF assms(1,2)] assms(2) kcp_act.feed [OF ev] by blast
qed

lemma udp_act:
  assumes "udp_to_kcp chk f r alloc = Inr (f', uc)" "kcpCb f = Some k"
  shows "\<exists>k'. kcpCb f' = Some k' \<and> kcp_act chk (Udp_event r alloc) k c [] k' c"
proof (cases r)
  case (Inl ec)
  then have "kcpCb f' = Some k" using assms by (auto simp: udp_to_kcp_def dest!: loop_frames split: if_splits)
  then show ?thesis using idle_same [of "Udp_event r alloc" chk k c] by simp
next
  case (Inr buf)
  then have "feed_kcp chk (f\<lparr>isKcpAlive := Some True\<rparr>) buf alloc = Inr f'"
    using assms(1) by (auto simp: udp_to_kcp_def andThen_Inr dest!: loop_frames)
  from feed_act [OF this] show ?thesis using assms(2) Inr by simp
qed

lemma ep_effect:
  assumes "ep_step chk e ev = Some (Inr (e', fs))" "kcpCb (fw e) = Some k"
  shows "\<exists>k'. kcpCb (fw e') = Some k' \<and> kcp_act chk ev k (kcp_c e) fs k' (kcp_c e')"
proof (cases ev)
  case (Tcp_event r alloc)
  then show ?thesis using assms tcp_act
    by (fastforce simp: ep_step_def with_tcp_def andThen_Inr split: if_splits)
next
  case (Kcp_begin now)
  then show ?thesis using assms tick_act [of chk "fw e" now]
    by (fastforce simp: ep_step_def with_kcp_def andThen_Inr split: if_splits)
next
  case (Write_event r)
  then show ?thesis using assms write_act
    by (fastforce simp: ep_step_def with_kcp_def andThen_Inr split: kcp_pc.splits)
next
  case (Retry_event r)
  then show ?thesis using assms
    by (auto simp: ep_step_def pending_def intro!: kcp_act.idle split: kcp_pc.splits)
next
  case (Wake_event r now)
  then obtain f c old where s: "kcp_loop chk (fw e) now = Inr (f, c, fs)" "e' = e\<lparr>fw := f, kcp_c := c\<rparr>"
    "kcp_c e = Kcp_sleep old" "r = Inr ()"
    using assms(1)
    by (auto simp: ep_step_def with_kcp_def kcp_woken_def AsyncWait_def andThen_Inr split: kcp_pc.splits sum.splits)
  then show ?thesis using tick_act [OF s(1) assms(2), of ev] Wake_event by simp
next
  case (Udp_event r alloc)
  then show ?thesis using assms udp_act
    by (fastforce simp: ep_step_def with_udp_def andThen_Inr split: if_splits)
next
  case (Direct buf alloc)
  then obtain f where s: "feed_kcp chk ((fw e)\<lparr>isKcpAlive := Some True\<rparr>) buf alloc = Inr f" "e' = e\<lparr>fw := f\<rparr>" "fs = []"
    using assms(1) by (auto simp: ep_step_def OnUdpData_feed andThen_Inr)
  from feed_act [OF s(1)] show ?thesis using s(2,3) assms(2) Direct by simp
qed (use assms idle_same [of ev chk k "kcp_c e"] in
  \<open>auto simp: ep_step_def with_tcp_def with_udp_def with_dog_def server_watchdog_def andThen_Inr dest!: loop_frames split: if_splits\<close>)

section \<open>The tunnel\<close>

record tunnel =
  side_A :: endpoint
  side_B :: endpoint
  frames :: "bytes set"
  tcp_in :: bytes
  tcp_out :: bytes

definition reads :: "event \<Rightarrow> bytes" where
  "reads ev = (case ev of Tcp_event (Inr d) _ \<Rightarrow> d | _ \<Rightarrow> [])"

definition sane :: "event \<Rightarrow> bool" where
  \<comment> \<open>a read fills at most the buffer and is not empty; memory does not run out\<close>
  "sane ev = (case ev of Tcp_event (Inr d) alloc \<Rightarrow> d \<noteq> [] \<and> length d \<le> 8192 \<and> alloc = (\<lambda>_. True) | _ \<Rightarrow> True)"

definition arrives :: "event \<Rightarrow> bytes set" where
  "arrives ev = (case ev of Udp_event (Inr buf) _ \<Rightarrow> {buf} | Direct buf _ \<Rightarrow> {buf} | _ \<Rightarrow> {})"

definition writes :: "kcp_pc \<Rightarrow> event \<Rightarrow> nat \<Rightarrow> bytes" where
  \<comment> \<open>what an \<open>AsyncWrite\<close> put on the connection: all of it, nothing (it asks to be repeated), or a part of
      it before the connection broke\<close>
  "writes c ev n =
     (case c of
        Kcp_write d _ \<Rightarrow>
          (case ev of
             Write_event (Inr _) \<Rightarrow> d
           | Write_event (Inl ec) \<Rightarrow> if IsTryAgain ec then [] else take n d
           | _ \<Rightarrow> [])
      | _ \<Rightarrow> [])"

inductive tunnel_step :: "bool \<Rightarrow> tunnel \<Rightarrow> tunnel \<Rightarrow> bool" for chk where
  at_A: "ep_step chk (side_A t) ev = Some (Inr (a, out)) \<Longrightarrow>
    (\<And>k. kcpCb (fw (side_A t)) = Some k \<Longrightarrow> fits k ev) \<Longrightarrow> sane ev \<Longrightarrow>
    tunnel_step chk t (t\<lparr>side_A := a, frames := frames t \<union> set out, tcp_in := tcp_in t @ reads ev\<rparr>)"
| at_B: "ep_step chk (side_B t) ev = Some (Inr (b, out)) \<Longrightarrow>
    (\<And>k. kcpCb (fw (side_B t)) = Some k \<Longrightarrow> fits k ev) \<Longrightarrow> arrives ev \<subseteq> frames t \<Longrightarrow>
    tunnel_step chk t (t\<lparr>side_B := b, tcp_out := tcp_out t @ writes (kcp_c (side_B t)) ev n\<rparr>)"
| connect_A: "tunnel_step chk t (t\<lparr>side_A := (side_A t)\<lparr>fw := snd (server_connect (fw (side_A t)) opened r)\<rparr>\<rparr>)"
| connect_B: "tunnel_step chk t (t\<lparr>side_B := (side_B t)\<lparr>fw := snd (server_connect (fw (side_B t)) opened r)\<rparr>\<rparr>)"

definition fresh :: "endpoint \<Rightarrow> bool" where
  "fresh e = (kcpCb (fw e) = Some (session_kcp 0x5a3331fd) \<and> tcp_c e = Tcp_start \<and> kcp_c e = Kcp_start \<and> udp_c e = Udp_start)"

inductive tunnel_reach :: "bool \<Rightarrow> tunnel \<Rightarrow> bool" for chk where
  start: "fresh a \<Longrightarrow> fresh b \<Longrightarrow>
    tunnel_reach chk \<lparr>side_A = a, side_B = b, frames = {}, tcp_in = [], tcp_out = []\<rparr>"
| step: "tunnel_reach chk t \<Longrightarrow> tunnel_step chk t t' \<Longrightarrow> tunnel_reach chk t'"

section \<open>It is a run of the two control blocks over the network\<close>

definition full_frags :: "net \<Rightarrow> bool" where
  "full_frags n = (\<forall>f \<in> set (n_frags n). \<forall>x \<in> set f. snd x \<noteq> [])"

definition a_rel :: "bool \<Rightarrow> tunnel \<Rightarrow> net \<Rightarrow> bool" where
  "a_rel chk t n =
     (kcpCb (fw (side_A t)) = Some (side_a n) \<and> mss (side_a n) = 1376 \<and> full_frags n \<and>
      concat (n_sent n) = tcp_in t \<and> (\<forall>b \<in> frames t. \<exists>q \<in> n_wire n. q \<noteq> [] \<and> b = frame_out chk q))"

definition b_rel :: "tunnel \<Rightarrow> net \<Rightarrow> bool" where
  "b_rel t n =
     (kcpCb (fw (side_B t)) = Some (side_b n) \<and>
      (concat (n_got n) = tcp_out t @ pending (kcp_c (side_B t)) \<or>
       kcp_c (side_B t) = Kcp_done \<and> (\<exists>rest. concat (n_got n) = tcp_out t @ rest)))"

definition steps_to :: "net \<Rightarrow> net \<Rightarrow> bool" where
  "steps_to = net_step\<^sup>*\<^sup>*"

lemma steps_to_reach: "steps_to n n' \<Longrightarrow> net_reach cv n \<Longrightarrow> net_reach cv n'"
  unfolding steps_to_def by (induction rule: rtranclp_induct) (auto intro: net_reach.step)

lemma steps_one: "net_step n n' \<Longrightarrow> steps_to n n'"
  by (simp add: steps_to_def)

lemma steps_two: "net_step n n1 \<Longrightarrow> net_step n1 n' \<Longrightarrow> steps_to n n'"
  unfolding steps_to_def by (meson r_into_rtranclp rtranclp.rtrancl_into_rtrancl)

lemma steps_refl: "steps_to n n"
  by (simp add: steps_to_def)

lemma session_mss: "mss (session_kcp cv) = 1376"
  by (simp add: session_kcp_def kcp_setup_def ikcp_nodelay_def ikcp_wndsize_def ikcp_setoutput_def Let_def)

lemma recv_zero:
  assumes "kcp_inv k" "first_size (rcv_queue k) < 2147483648"
    and "ikcp_recv k (Some 16384) 16384 = Inr (0, out, k')"
  shows "out = []"
  using ikcp_recv_cases [of k 16384 "Some 16384"] assms
  by (auto simp: first_size_def split: if_splits)

lemma chunks_full: "0 < m \<Longrightarrow> xs \<noteq> [] \<Longrightarrow> d \<in> set (chunks m xs) \<Longrightarrow> d \<noteq> []"
proof (induction m xs rule: chunks.induct)
  case (1 m xs)
  then show ?case by (auto simp: chunks.simps [of m xs] split: if_splits)
qed

lemma send_accepted:
  assumes "kcp_inv k" "stream k = 0" "mss k = 1376" "d \<noteq> []" "length d \<le> 8192"
    and "ikcp_send k d (int (length d)) (\<lambda>_. True) = Inr (r, k')"
  shows "r = 0 \<and> mss k' = 1376 \<and> (\<exists>fs. k' = queued k fs \<and> (\<forall>x \<in> set fs. s_data x \<noteq> []))"
proof -
  have u: "unat (mss k) = 1376" using assms(3) by simp
  note i = mss_int [of k, unfolded u, simplified]
  have few: "length (chunks 1376 d) < 128" using chunks_few [of 1376 d] assms(5) by simp
  have s: "ikcp_send k d (int (length d)) (\<lambda>_. True) = Inr (0, queued k (fragments False (chunks 1376 d)))"
    using assms(2,5) i few send_rest_spec [of k 1376 d "\<lambda>_. True" 0]
    by (simp add: ikcp_send_def queued_def)
  have "s_data x \<noteq> []" if "x \<in> set (fragments False (chunks 1376 d))" for x
  proof -
    have "s_data x \<in> set (map s_data (fragments False (chunks 1376 d)))"
      unfolding set_map using that by (rule imageI)
    then show ?thesis unfolding fragments_data using chunks_full [of 1376 d] assms(4) by simp
  qed
  then have "\<forall>x \<in> set (fragments False (chunks 1376 d)). s_data x \<noteq> []" by blast
  moreover have "r = 0" "k' = queued k (fragments False (chunks 1376 d))" using s assms(6) by simp_all
  moreover have "mss k' = 1376" using \<open>k' = queued k _\<close> assms(3) by (simp add: queued_def)
  ultimately show ?thesis by blast
qed

definition a_steps :: "bool \<Rightarrow> bytes list \<Rightarrow> bytes \<Rightarrow> net \<Rightarrow> kcpcb \<Rightarrow> net \<Rightarrow> bool" where
  \<comment> \<open>what side A's part of an event amounts to in the network\<close>
  "a_steps chk out d n k n' =
     (steps_to n n' \<and> side_a n' = k \<and> mss k = 1376 \<and> full_frags n' \<and> concat (n_sent n') = concat (n_sent n) @ d \<and>
      n_wire n \<subseteq> n_wire n' \<and> (\<forall>b \<in> set out. \<exists>q \<in> n_wire n'. q \<noteq> [] \<and> b = frame_out chk q) \<and>
      side_b n' = side_b n \<and> n_got n' = n_got n)"

lemma sim_send:
  assumes "net_inv cv n" "mss (side_a n) = 1376" "full_frags n" "d \<noteq> []" "length d \<le> 8192"
    and "ikcp_send (side_a n) d (int (length d)) (\<lambda>_. True) = Inr (r, k)"
  shows "\<exists>n'. a_steps chk [] d n k n'"
proof -
  note I = net_invD [OF assms(1)]
  have st: "stream (side_a n) = 0" using I(5) by (simp add: sender_ok_def)
  obtain fs where s: "r = 0" "mss k = 1376" "k = queued (side_a n) fs" "\<forall>x \<in> set fs. s_data x \<noteq> []"
    using send_accepted [OF I(1) st assms(2,4-6)] by blast
  let ?n = "n\<lparr>side_a := k, n_sent := n_sent n @ [d], n_frags := n_frags n @ [map fd fs]\<rparr>"
  have "net_step n ?n"
    using net_step.send_a [of n d r k] assms(5,6) s(1,3) by (simp add: queued_def)
  moreover have "full_frags ?n" using assms(3) s(4) by (auto simp: full_frags_def fd_def)
  ultimately show ?thesis using s(2)
    by (intro exI [of _ ?n]) (simp add: a_steps_def steps_one)
qed

lemma sends_less_mss: "sends_less k k' \<Longrightarrow> mss k' = mss k"
  by (simp add: sends_less_def)

lemma sim_recv_a:
  assumes "net_inv cv n" "mss (side_a n) = 1376" "full_frags n"
    and "ikcp_recv (side_a n) (Some 16384) 16384 = Inr (r, out, k)"
  shows "\<exists>n'. a_steps chk [] [] n k n'"
proof -
  note I = net_invD [OF assms(1)]
  have "mss k = 1376" using recv_sends_less [OF I(1) assms(4)] assms(2) sends_less_mss [of "side_a n" k] by simp
  moreover have "net_step n (n\<lparr>side_a := k\<rparr>)" using net_step.recv_a [OF assms(4)] by simp
  ultimately show ?thesis using assms(3)
    by (intro exI [of _ "n\<lparr>side_a := k\<rparr>"]) (simp add: a_steps_def steps_one full_frags_def)
qed

lemma sim_input_a:
  assumes "net_inv cv n" "mss (side_a n) = 1376" "full_frags n" "acks_fit (side_a n) (length q)"
    and "ikcp_input (side_a n) (Some q) (int (length q)) alloc = Inr (r, k)"
  shows "\<exists>n'. a_steps chk [] [] n k n'"
proof -
  have "mss k = 1376" using input_sends_less [OF assms(5)] assms(2) sends_less_mss [of "side_a n" k] by simp
  moreover have "net_step n (n\<lparr>side_a := k\<rparr>)" using net_step.input_a [OF assms(5,4)] by simp
  ultimately show ?thesis using assms(3)
    by (intro exI [of _ "n\<lparr>side_a := k\<rparr>"]) (simp add: a_steps_def steps_one full_frags_def)
qed

lemma update_mss:
  assumes "ikcp_update k now = Inr (k', pkts)" "kcp_inv k" "output_set k" "unat (ackcount k) < 2147483648"
  shows "mss k' = mss k"
proof -
  let ?k = "snd (update_timer k now)"
  have "mss ?k = mss k" by (simp add: update_timer_def Let_def)
  moreover have "k' = ?k \<or> k' = flushed ?k"
    using assms ikcp_flush_spec [OF timer_inv [OF assms(2)], of now] by (auto simp: ikcp_update_alt split: if_splits)
  ultimately show ?thesis by (auto simp: flushed_fields)
qed

lemma sim_tick_a:
  assumes "net_inv cv n" "mss (side_a n) = 1376" "full_frags n" "unat (ackcount (side_a n)) < 2147483648"
    and "ikcp_update (side_a n) now = Inr (k1, pkts)" "ikcp_recv k1 (Some 16384) 16384 = Inr (r, out, k)"
    and "set fs \<subseteq> frame_out chk ` set pkts"
  shows "\<exists>n'. a_steps chk fs [] n k n'"
proof -
  note I = net_invD [OF assms(1)]
  have os: "output_set (side_a n)" using I(5) by (simp add: sender_ok_def)
  define n1 where "n1 = n\<lparr>side_a := k1, n_wire := n_wire n \<union> set pkts,
      n_hist := n_hist n @ map fd (take (length (snd_queue (side_a n)) - length (snd_queue k1)) (snd_queue (side_a n)))\<rparr>"
  have s1: "net_step n n1" unfolding n1_def by (rule net_step.update_a [OF assms(5,4)])
  have i1: "net_inv cv n1" by (rule net_step_inv [OF s1 assms(1)])
  have m1: "mss (side_a n1) = 1376" using update_mss [OF assms(5) I(1) os assms(4)] assms(2) by (simp add: n1_def)
  have f1: "full_frags n1" using assms(3) by (simp add: n1_def full_frags_def)
  obtain n' where n': "a_steps chk [] [] n1 k n'"
    using sim_recv_a [OF i1 m1 f1, of r out k chk] assms(6) by (auto simp: n1_def)
  have "q \<noteq> []" if "q \<in> set pkts" for q
  proof -
    have "\<forall>p \<in> set pkts. 24 \<le> length p"
      using ikcp_update_total [OF I(1) os assms(4), of now] assms(5) by auto
    then show ?thesis using that by fastforce
  qed
  then have "\<forall>b \<in> set fs. \<exists>q \<in> n_wire n1. q \<noteq> [] \<and> b = frame_out chk q"
    using assms(7) by (force simp: n1_def)
  moreover have "n_wire n1 \<subseteq> n_wire n'" using n' by (simp add: a_steps_def)
  ultimately have "\<forall>b \<in> set fs. \<exists>q \<in> n_wire n'. q \<noteq> [] \<and> b = frame_out chk q" by blast
  moreover have "steps_to n n'" using s1 n' unfolding a_steps_def steps_to_def
    by (meson converse_rtranclp_into_rtranclp)
  ultimately show ?thesis using n' unfolding a_steps_def n1_def by auto
qed

lemma sim_A:
  assumes "net_inv cv n" "mss (side_a n) = 1376" "full_frags n" "kcp_act chk ev (side_a n) c out k c'"
    and "fits (side_a n) ev" "sane ev"
  shows "\<exists>n'. a_steps chk out (reads ev) n k n'"
  using assms(4)
proof (cases rule: kcp_act.cases)
  case idle
  then have "reads ev = []" by (auto simp: reads_def split: event.split sum.split)
  then show ?thesis using assms(2,3) idle by (intro exI [of _ n]) (simp add: a_steps_def steps_refl)
next
  case (send d alloc r)
  then have s: "d \<noteq> []" "length d \<le> 8192" "alloc = (\<lambda>_. True)" "reads ev = d" using assms(6)
    by (simp_all add: sane_def reads_def)
  show ?thesis using sim_send [OF assms(1-3) s(1,2)] send s(3,4) by auto
next
  case (tick now k1 pkts r o2)
  then have "unat (ackcount (side_a n)) < 2147483648" "reads ev = []" using assms(5)
    by (auto simp: fits_def reads_def)
  then show ?thesis using sim_tick_a [OF assms(1-3)] tick by metis
next
  case (drain r o2 m d now)
  then show ?thesis using sim_recv_a [OF assms(1-3)] by (simp add: reads_def)
next
  case (feed buf alloc q r)
  have "length q \<le> length buf"
    using \<open>frame_in chk buf = Some q\<close> by (auto simp: frame_in_def split: if_splits)
  moreover note ev = \<open>ev = Udp_event (Inr buf) alloc \<or> ev = Direct buf alloc\<close>
  then have "acks_fit (side_a n) (length buf)" using assms(5) by (auto simp: fits_def)
  ultimately have "acks_fit (side_a n) (length q)" by (simp add: acks_fit_def)
  moreover have "reads ev = []" using ev by (auto simp: reads_def)
  ultimately show ?thesis using sim_input_a [OF assms(1-3)] feed by metis
qed

definition b_steps :: "bytes \<Rightarrow> net \<Rightarrow> kcpcb \<Rightarrow> net \<Rightarrow> bool" where
  "b_steps g n k n' =
     (steps_to n n' \<and> side_b n' = k \<and> side_a n' = side_a n \<and> n_sent n' = n_sent n \<and> n_frags n' = n_frags n \<and>
      n_wire n' = n_wire n \<and> concat (n_got n') = concat (n_got n) @ g)"

lemma b_idle: "b_steps [] n (side_b n) n"
  by (simp add: b_steps_def steps_refl)

lemma sim_recv_b:
  assumes "kcp_inv (side_b n)" "first_size (rcv_queue (side_b n)) < 2147483648"
    and "ikcp_recv (side_b n) (Some 16384) 16384 = Inr (r, out, k)"
  shows "\<exists>n'. b_steps (pending (after_recv r out now)) n k n'"
proof -
  let ?n = "n\<lparr>side_b := k, n_got := (if r < 0 then n_got n else n_got n @ [out])\<rparr>"
  have "net_step n ?n" by (rule net_step.recv_b [OF assms(3)]) simp
  moreover have "r = 0 \<Longrightarrow> out = []" using recv_zero [OF assms(1,2)] assms(3) by blast
  then have "concat (n_got ?n) = concat (n_got n) @ pending (after_recv r out now)"
    by (auto simp: after_recv_def pending_def)
  ultimately show ?thesis by (intro exI [of _ ?n]) (simp add: b_steps_def steps_one)
qed

lemma sim_step_b: "net_step n (n\<lparr>side_b := k\<rparr>) \<Longrightarrow> \<exists>n'. b_steps [] n k n'"
  by (intro exI [of _ "n\<lparr>side_b := k\<rparr>"]) (simp add: b_steps_def steps_one)

lemma sim_tick_b:
  assumes "net_inv cv n" "first_size (rcv_queue (side_b n)) < 2147483648" "unat (ackcount (side_b n)) < 2147483648"
    and "ikcp_update (side_b n) now = Inr (k1, pkts)" "ikcp_recv k1 (Some 16384) 16384 = Inr (r, out, k)"
  shows "\<exists>n'. b_steps (pending (after_recv r out now)) n k n'"
proof -
  note I = net_invD [OF assms(1)]
  let ?n = "n\<lparr>side_b := k1\<rparr>"
  have s: "net_step n ?n" by (rule net_step.update_b [OF assms(4,3)])
  have i: "kcp_inv (side_b ?n)" using net_invD(2) [OF net_step_inv [OF s assms(1)]] by simp
  have q: "rcv_queue k1 = rcv_queue (side_b n)"
    using update_receives [OF assms(4) I(2,3) assms(3)] by (simp add: receives_same_def receiver_of_def)
  obtain n' where "b_steps (pending (after_recv r out now)) ?n k n'"
    using sim_recv_b [OF i] assms(2,5) q by auto
  then show ?thesis using s unfolding b_steps_def steps_to_def
    by (auto intro: converse_rtranclp_into_rtranclp)
qed

lemma sim_B:
  assumes "net_inv cv n" "kcp_act chk ev (side_b n) c out k c'" "fits (side_b n) ev"
    and "\<forall>b \<in> arrives ev. \<exists>q \<in> n_wire n. q \<noteq> [] \<and> b = frame_out chk q"
  shows "\<exists>n' g. b_steps g n k n' \<and>
    (pending c @ g = writes c ev m @ pending c' \<or>
     c' = Kcp_done \<and> g = [] \<and> (\<exists>rest. pending c = writes c ev m @ rest)) \<and>
    (c = Kcp_done \<longrightarrow> c' = Kcp_done)"
  using assms(2)
proof (cases rule: kcp_act.cases)
  case idle
  then have "pending c = writes c ev m @ pending c' \<and> (c = Kcp_done \<longrightarrow> c' = Kcp_done) \<or>
      c' = Kcp_done \<and> (\<exists>rest. pending c = writes c ev m @ rest) \<and> c \<noteq> Kcp_done"
    by (auto simp: writes_def pending_def split: kcp_pc.splits event.splits sum.splits)
      (metis append_take_drop_id)+
  then show ?thesis using b_idle idle by (metis append.right_neutral)
next
  case (send d alloc r)
  then have "length d < 2147483648" "writes c ev m = []" using assms(3)
    by (auto simp: fits_def writes_def split: kcp_pc.split)
  then have "\<exists>n'. b_steps [] n k n'" using sim_step_b [OF net_step.send_b] send by blast
  then show ?thesis using send \<open>writes c ev m = []\<close> by auto
next
  case (tick now k1 pkts r o2)
  have f: "first_size (rcv_queue (side_b n)) < 2147483648" "unat (ackcount (side_b n)) < 2147483648"
    "pending c = []" "writes c ev m = []" "c \<noteq> Kcp_done"
    using tick(2) assms(3) by (auto simp: fits_def pending_def writes_def)
  then show ?thesis using sim_tick_b [OF assms(1) f(1,2)] tick by (metis append_Nil)
next
  case (drain r o2 l d now)
  have "first_size (rcv_queue (side_b n)) < 2147483648" using assms(3) by (simp add: fits_def)
  then obtain n' where "b_steps (pending (after_recv r o2 now)) n k n'"
    using sim_recv_b [OF net_invD(2) [OF assms(1)]] drain by blast
  then show ?thesis using drain by (auto simp: pending_def writes_def)
next
  case (feed buf alloc q r)
  have ev: "ev = Udp_event (Inr buf) alloc \<or> ev = Direct buf alloc" by fact
  then obtain p where p: "p \<in> n_wire n" "p \<noteq> []" "buf = frame_out chk p"
    using assms(4) by (auto simp: arrives_def)
  then have "q = p" using frame_roundtrip [of p chk] \<open>frame_in chk buf = Some q\<close> by simp
  have "length p \<le> length buf" using p(3) by (simp add: frame_out_def Let_def)
  moreover have "acks_fit (side_b n) (length buf)" using ev assms(3) by (auto simp: fits_def)
  ultimately have "acks_fit (side_b n) (length p)" by (simp add: acks_fit_def)
  then have "\<exists>n'. b_steps [] n k n'" using sim_step_b [OF net_step.input_b [OF p(1)]] feed \<open>q = p\<close> by blast
  moreover have "writes c ev m = []" using ev by (auto simp: writes_def split: kcp_pc.split)
  ultimately show ?thesis using feed by auto
qed

lemma server_connect_kcp: "kcpCb (snd (server_connect f opened r)) = kcpCb f"
  by (simp add: server_connect_def Let_def)

lemma at_A_sim:
  assumes "net_reach 0x5a3331fd n" "a_rel chk t n" "b_rel t n" "ep_step chk (side_A t) ev = Some (Inr (a, out))"
    "\<And>k. kcpCb (fw (side_A t)) = Some k \<Longrightarrow> fits k ev" "sane ev"
    and t': "t' = t\<lparr>side_A := a, frames := frames t \<union> set out, tcp_in := tcp_in t @ reads ev\<rparr>"
  shows "\<exists>n. net_reach 0x5a3331fd n \<and> a_rel chk t' n \<and> b_rel t' n"
proof -
  have A: "kcpCb (fw (side_A t)) = Some (side_a n)" "mss (side_a n) = 1376" "full_frags n"
    "concat (n_sent n) = tcp_in t" "\<forall>b \<in> frames t. \<exists>q \<in> n_wire n. q \<noteq> [] \<and> b = frame_out chk q"
    using assms(2) by (simp_all add: a_rel_def)
  obtain k where k: "kcpCb (fw a) = Some k" "kcp_act chk ev (side_a n) (kcp_c (side_A t)) out k (kcp_c a)"
    using ep_effect [OF assms(4) A(1)] by blast
  obtain n' where n': "a_steps chk out (reads ev) n k n'"
    using sim_A [OF net_reach_inv [OF assms(1)] A(2,3) k(2) assms(5) [OF A(1)] assms(6)] by blast
  have "net_reach 0x5a3331fd n'" using n' assms(1) steps_to_reach by (auto simp: a_steps_def)
  moreover have "\<exists>q \<in> n_wire n'. q \<noteq> [] \<and> b = frame_out chk q" if "b \<in> frames t \<union> set out" for b
    using that A(5) n' unfolding a_steps_def by (elim UnE) blast+
  then have "a_rel chk t' n'" using n' k(1) A(4) t' by (simp add: a_rel_def a_steps_def)
  moreover have "b_rel t' n'" using n' assms(3) t' by (simp add: b_rel_def a_steps_def)
  ultimately show ?thesis by blast
qed

lemma at_B_sim:
  assumes "net_reach 0x5a3331fd n" "a_rel chk t n" "b_rel t n" "ep_step chk (side_B t) ev = Some (Inr (b, out))"
    "\<And>k. kcpCb (fw (side_B t)) = Some k \<Longrightarrow> fits k ev" "arrives ev \<subseteq> frames t"
    and t': "t' = t\<lparr>side_B := b, tcp_out := tcp_out t @ writes (kcp_c (side_B t)) ev m\<rparr>"
  shows "\<exists>n. net_reach 0x5a3331fd n \<and> a_rel chk t' n \<and> b_rel t' n"
proof -
  let ?c = "kcp_c (side_B t)"
  have B: "kcpCb (fw (side_B t)) = Some (side_b n)" using assms(3) by (simp add: b_rel_def)
  obtain k where k: "kcpCb (fw b) = Some k" "kcp_act chk ev (side_b n) ?c out k (kcp_c b)"
    using ep_effect [OF assms(4) B] by blast
  have ar: "\<forall>b \<in> arrives ev. \<exists>q \<in> n_wire n. q \<noteq> [] \<and> b = frame_out chk q" using assms(2,6) by (auto simp: a_rel_def)
  obtain n' g where g: "b_steps g n k n'"
    "pending ?c @ g = writes ?c ev m @ pending (kcp_c b) \<or>
     kcp_c b = Kcp_done \<and> g = [] \<and> (\<exists>rest. pending ?c = writes ?c ev m @ rest)"
    "?c = Kcp_done \<longrightarrow> kcp_c b = Kcp_done"
    using sim_B [OF net_reach_inv [OF assms(1)] k(2) assms(5) [OF B] ar] by blast
  have s: "steps_to n n'" "side_b n' = k" "side_a n' = side_a n" "n_sent n' = n_sent n" "n_frags n' = n_frags n"
    "n_wire n' = n_wire n" "concat (n_got n') = concat (n_got n) @ g" using g(1) by (simp_all add: b_steps_def)
  have w: "writes Kcp_done ev m = []" "pending Kcp_done = []" by (simp_all add: writes_def pending_def)
  from assms(3) consider "concat (n_got n) = tcp_out t @ pending ?c"
    | rest where "?c = Kcp_done" "concat (n_got n) = tcp_out t @ rest" unfolding b_rel_def by blast
  then have "b_rel t' n'"
    by cases (use g(2,3) s(2,7) k(1) t' w in \<open>auto simp: b_rel_def\<close>)
  moreover have "a_rel chk t' n'" using assms(2) s t' by (simp add: a_rel_def full_frags_def)
  moreover have "net_reach 0x5a3331fd n'" using s(1) assms(1) by (rule steps_to_reach)
  ultimately show ?thesis by blast
qed

lemma tunnel_sim:
  "tunnel_reach chk t \<Longrightarrow> \<exists>n. net_reach 0x5a3331fd n \<and> a_rel chk t n \<and> b_rel t n"
proof (induction rule: tunnel_reach.induct)
  case (start a b)
  then have "a_rel chk \<lparr>side_A = a, side_B = b, frames = {}, tcp_in = [], tcp_out = []\<rparr> (net_start 0x5a3331fd)"
    "b_rel \<lparr>side_A = a, side_B = b, frames = {}, tcp_in = [], tcp_out = []\<rparr> (net_start 0x5a3331fd)"
    by (simp_all add: a_rel_def b_rel_def fresh_def net_start_def session_mss full_frags_def pending_def)
  then show ?case using net_reach.start by blast
next
  case (step t t')
  then obtain n where n: "net_reach 0x5a3331fd n" "a_rel chk t n" "b_rel t n" by blast
  show ?case using step(2)
  proof (cases rule: tunnel_step.cases)
    case (at_A ev a out)
    show ?thesis by (rule at_A_sim [OF n at_A(2,3,4,1)])
  next
    case (at_B ev b out m)
    show ?thesis by (rule at_B_sim [OF n at_B(2,3,4,1)])
  next
    case (connect_A opened r)
    then show ?thesis using n by (intro exI [of _ n]) (simp add: a_rel_def b_rel_def server_connect_kcp)
  next
    case (connect_B opened r)
    then show ?thesis using n by (intro exI [of _ n]) (simp add: a_rel_def b_rel_def server_connect_kcp)
  qed
qed

lemma full_length:
  assumes "\<forall>f \<in> set frs. \<forall>x \<in> set f. snd x \<noteq> []"
  shows "length (concat frs) \<le> length (concat (map msg_of frs))"
proof -
  have "length f \<le> length (msg_of f)" if "\<forall>x \<in> set f. snd x \<noteq> []" for f
    using that
  proof (induction f)
    case (Cons x f)
    then have "0 < length (snd x)" "length f \<le> length (msg_of f)" by simp_all
    then show ?case unfolding msg_of_def list.map concat.simps length_append list.size by linarith
  qed simp
  then show ?thesis using assms by (induction frs) (auto simp: add_mono)
qed

text \<open>
  C1. The tunnel is transparent within a session. Take one forwarder at each end, from the making of
  their control blocks on, a network that loses, repeats and reorders the frames the reading end sent
  to the other (and may bring the reading end anything), and any order of the events at both ends.
  Then the bytes written so far to the TCP connection at one end are a prefix of the bytes read so far
  from the TCP connection at the other end: none is lost, repeated, reordered or altered on the way.
  The conditions: the two forwarders stay the ones they are (a server forwarder that the watchdog has
  replaced begins a new session under the same conversation number, see \<open>sessions_mix\<close> below); the
  allocations of \<open>ikcp_send\<close> at the reading end succeed (what it cannot queue is dropped silently);
  the sizes of \<open>fits\<close>; the first 4 GiB of the connection; and that TCP accepts or
  refuses each write as a whole (which C9 derives for the sockets).
\<close>

theorem tunnel_transparent:
  assumes "tunnel_reach chk t" "length (tcp_in t) < 4294967296"
  shows "\<exists>rest. tcp_in t = tcp_out t @ rest"
proof -
  obtain n where n: "net_reach 0x5a3331fd n" "a_rel chk t n" "b_rel t n" using tunnel_sim [OF assms(1)] by blast
  note I = net_invD [OF net_reach_inv [OF n(1)]]
  have S: "n_hist n @ map fd (snd_queue (side_a n)) = concat (n_frags n)" "map msg_of (n_frags n) = n_sent n"
    using I(5) by (simp_all add: sender_ok_def)
  have "length (n_hist n) \<le> length (concat (n_frags n))" using arg_cong [OF S(1), of length] by simp
  also have "\<dots> \<le> length (concat (n_sent n))"
    using full_length [of "n_frags n"] n(2) S(2) by (simp add: a_rel_def full_frags_def)
  also have "\<dots> < 4294967296" using assms(2) n(2) by (simp add: a_rel_def)
  finally have "receiver_ok (n_hist n) (n_frags n) (n_got n) (receiver_of (side_b n))" by (rule I(7))
  then obtain j where "n_got n = map msg_of (take j (n_frags n))" unfolding receiver_ok_def by blast
  then have "n_got n = take j (n_sent n)" using S(2) by (simp flip: take_map)
  then have "concat (n_sent n) = concat (n_got n) @ concat (drop j (n_sent n))"
    by (metis append_take_drop_id concat_append)
  moreover obtain r where "concat (n_got n) = tcp_out t @ r" using n(3) unfolding b_rel_def by blast
  ultimately have "tcp_in t = tcp_out t @ (r @ concat (drop j (n_sent n)))" using n(2) by (simp add: a_rel_def)
  then show ?thesis by blast
qed

text \<open>
  A run in which bytes come out at the other end: A reads them, its protocol coroutine sends a frame,
  B is handed the frame, its protocol coroutine takes the message out and writes it. First what
  the two control blocks compute, then the events.
\<close>

definition get_run :: "fault + kcpcb \<times> kcpcb \<times> bytes \<times> kcpcb \<times> kcpcb" where
  "get_run =
     andThen (ikcp_send (session_kcp 0x5a3331fd) [71, 69, 84] 3 (\<lambda>_. True)) (\<lambda>(_, a).
     andThen (ikcp_update a 0) (\<lambda>(a', ps).
     andThen (ikcp_input (session_kcp 0x5a3331fd) (Some (hd ps)) (int (length (hd ps))) plenty) (\<lambda>(_, b).
     andThen (ikcp_update b 0) (\<lambda>(b', _).
       if length ps = 1 then Inr (a, a', hd ps, b, b') else Inl AssertFail))))"

definition get_good :: "kcpcb \<times> kcpcb \<times> bytes \<times> kcpcb \<times> kcpcb \<Rightarrow> bool" where
  "get_good x = (case x of (a, a', p, b, b') \<Rightarrow>
     rcv_queue a = [] \<and> ackcount a = 0 \<and> rcv_queue a' = [] \<and> length p = 27 \<and>
     ackcount b = 1 \<and> map fd (rcv_queue b) = [(0, [71, 69, 84])] \<and> map fd (rcv_queue b') = [(0, [71, 69, 84])] \<and> rcv_buf b' = [])"

lemma get_run_good: "(case get_run of Inl _ \<Rightarrow> False | Inr x \<Rightarrow> get_good x)"
  by code_simp

lemma recv_nothing: "rcv_queue k = [] \<Longrightarrow> ikcp_recv k (Some 16384) 16384 = Inr (-1, [], k)"
  by (simp add: ikcp_recv_def)

lemma recv_only:
  assumes "kcp_inv k" "map fd (rcv_queue k) = [(0, [71, 69, 84])]" "rcv_buf k = []"
  shows "\<exists>k'. ikcp_recv k (Some 16384) 16384 = Inr (3, [71, 69, 84], k') \<and> rcv_queue k' = []"
proof -
  obtain s where q: "rcv_queue k = [s]" "s_frg s = 0" "s_data s = [71, 69, 84]"
    using assms(2) by (auto simp: fd_def)
  then obtain k' where r: "ikcp_recv k (Some 16384) 16384 = Inr (3, [71, 69, 84], k')"
    using ikcp_recv_cases [OF assms(1), of 16384 "Some 16384"] by (auto simp: first_size_def msg_complete_def)
  then have "rcv_queue k' = []"
    using recv_effect [OF kcp_inv_parts(3) [OF assms(1)] r] q assms(3)
    by (auto simp: recv_refill_def recv_left_def Let_def)
  then show ?thesis using r by blast
qed

lemma kcp_loop_run:
  assumes "isRunning f = Some True" "kcpCb f = Some k" "udp_open f" "ikcp_update k now = Inr (k1, pkts)"
    and "ikcp_recv k1 (Some 16384) 16384 = Inr (n, out, k2)"
  shows "kcp_loop chk f now = Inr (f\<lparr>kcpCb := Some k2\<rparr>, after_recv n out now, map (frame_out chk) pkts)"
proof -
  have "concat (map (kcp_output chk f) pkts) = map (frame_out chk) pkts"
    using assms(3) by (induction pkts) (simp_all add: kcp_output_def)
  then show ?thesis using assms by (simp add: kcp_loop_def kcp_drain_def after_recv_def)
qed

lemma reach_A:
  assumes "tunnel_reach chk t" "ep_step chk (side_A t) ev = Some (Inr (a, out))" "sane ev"
    and "kcpCb (fw (side_A t)) = Some k" "fits k ev"
  shows "tunnel_reach chk (t\<lparr>side_A := a, frames := frames t \<union> set out, tcp_in := tcp_in t @ reads ev\<rparr>)"
  by (rule tunnel_reach.step [OF assms(1)], rule tunnel_step.at_A [OF assms(2) _ assms(3)])
    (use assms(4,5) in simp)

lemma reach_B:
  assumes "tunnel_reach chk t" "ep_step chk (side_B t) ev = Some (Inr (b, out))" "arrives ev \<subseteq> frames t"
    and "kcpCb (fw (side_B t)) = Some k" "fits k ev"
  shows "tunnel_reach chk (t\<lparr>side_B := b, tcp_out := tcp_out t @ writes (kcp_c (side_B t)) ev m\<rparr>)"
  by (rule tunnel_reach.step [OF assms(1)], rule tunnel_step.at_B [OF assms(2) _ assms(3)])
    (use assms(4,5) in simp)

lemma get_states:
  obtains ka ka' p kb kb' kc r1 r2 x where
    "ikcp_send (session_kcp 0x5a3331fd) [71, 69, 84] 3 (\<lambda>_. True) = Inr (r1, ka)" "ikcp_update ka 0 = Inr (ka', [p])"
    "ikcp_input (session_kcp 0x5a3331fd) (Some p) (int (length p)) plenty = Inr (r2, kb)"
    "ikcp_update kb 0 = Inr (kb', x)" "ikcp_recv kb' (Some 16384) 16384 = Inr (3, [71, 69, 84], kc)"
    "rcv_queue ka = []" "ackcount ka = 0" "rcv_queue ka' = []" "length p = 27" "ackcount kb = 1"
    "map fd (rcv_queue kb) = [(0, [71, 69, 84])]" "rcv_queue kc = []"
proof -
  obtain ka ka' p kb kb' where g: "get_run = Inr (ka, ka', p, kb, kb')" "get_good (ka, ka', p, kb, kb')"
    using get_run_good by (auto split: sum.splits)
  obtain r1 r2 x where s: "ikcp_send (session_kcp 0x5a3331fd) [71, 69, 84] 3 (\<lambda>_. True) = Inr (r1, ka)"
    "ikcp_update ka 0 = Inr (ka', [p])"
    "ikcp_input (session_kcp 0x5a3331fd) (Some p) (int (length p)) plenty = Inr (r2, kb)"
    "ikcp_update kb 0 = Inr (kb', x)"
    using g(1) unfolding get_run_def by (auto simp: andThen_Inr length_Suc_conv split: if_splits)
  have q: "rcv_queue ka = []" "ackcount ka = 0" "rcv_queue ka' = []" "length p = 27" "ackcount kb = 1"
    "map fd (rcv_queue kb) = [(0, [71, 69, 84])]" "map fd (rcv_queue kb') = [(0, [71, 69, 84])]" "rcv_buf kb' = []"
    using g(2) by (simp_all add: get_good_def)
  have "kcb_ok kb" using input_ok [OF session_kcb_ok [of "0x5a3331fd"], of 27 p plenty] s(3) q(4)
    by (auto simp: acks_fit_def session_fields)
  then have "kcp_inv kb'" using update_ok [of kb 0] q(5) s(4) by (auto simp: kcb_ok_def)
  from recv_only [OF this q(7,8)] obtain kc where
    kc: "ikcp_recv kb' (Some 16384) 16384 = Inr (3, [71, 69, 84], kc)" "rcv_queue kc = []" by blast
  show ?thesis by (rule that [OF s kc(1) q(1-6) kc(2)])
qed

lemma get_reach: "\<exists>t. tunnel_reach True t \<and> tcp_in t = [71, 69, 84] \<and> tcp_out t = [71, 69, 84]"
proof -
  let ?k = "session_kcp 0x5a3331fd" and ?get = "[71, 69, 84] :: bytes"
  obtain ka ka' p kb kb' kc r1 r2 x where s: "ikcp_send ?k ?get 3 (\<lambda>_. True) = Inr (r1, ka)"
    "ikcp_update ka 0 = Inr (ka', [p])" "ikcp_input ?k (Some p) (int (length p)) plenty = Inr (r2, kb)"
    "ikcp_update kb 0 = Inr (kb', x)" "ikcp_recv kb' (Some 16384) 16384 = Inr (3, ?get, kc)"
    and q: "rcv_queue ka = []" "ackcount ka = 0" "rcv_queue ka' = []" "length p = 27" "ackcount kb = 1"
    "map fd (rcv_queue kb) = [(0, ?get)]" "rcv_queue kc = []" by (rule get_states)
  define f0 where "f0 = fw calm_client"
  have f0: "isRunning f0 = Some True" "udp_open f0" "kcpCb f0 = Some ?k"
    by (simp_all add: f0_def calm_client_def spawned_def)
  let ?a1 = "calm_client\<lparr>tcp_c := Tcp_receive\<rparr>"
  let ?a2 = "?a1\<lparr>fw := f0\<lparr>kcpCb := Some ka\<rparr>\<rparr>"
  let ?a3 = "?a1\<lparr>fw := f0\<lparr>kcpCb := Some ka'\<rparr>, kcp_c := Kcp_sleep 0\<rparr>"
  let ?b1 = "calm_client\<lparr>udp_c := Udp_receive\<rparr>" and ?f = "f0\<lparr>isKcpAlive := Some True\<rparr>"
  let ?b2 = "?b1\<lparr>fw := ?f\<lparr>kcpCb := Some kb\<rparr>\<rparr>"
  let ?b3 = "?b1\<lparr>fw := ?f\<lparr>kcpCb := Some kc\<rparr>, kcp_c := Kcp_write ?get 0\<rparr>"
  let ?b4 = "?b1\<lparr>fw := ?f\<lparr>kcpCb := Some kc\<rparr>, kcp_c := Kcp_sleep 0\<rparr>"
  let ?read = "Tcp_event (Inr ?get) (\<lambda>_. True)" and ?deliver = "Udp_event (Inr (frame_out True p)) plenty"
  have calm_fw: "fw calm_client = f0" "tcp_c calm_client = Tcp_start" "kcp_c calm_client = Kcp_start"
    "udp_c calm_client = Udp_start" by (simp_all add: f0_def) (simp_all add: calm_client_def spawned_def)
  have a: "ep_step True calm_client Tcp_begin = Some (Inr (?a1, []))"
    "ep_step True ?a1 ?read = Some (Inr (?a2, []))"
    "ep_step True ?a2 (Kcp_begin 0) = Some (Inr (?a3, [frame_out True p]))"
    using s(1) kcp_loop_run [OF _ _ _ s(2) recv_nothing [OF q(3)], of "f0\<lparr>kcpCb := Some ka\<rparr>"]
    by (simp_all add: ep_step_def with_tcp_def with_kcp_def tcp_loop_def tcp_to_kcp_def calm_fw f0 after_recv_def)
  have "frame_in True (frame_out True p) = Some p" by (rule frame_roundtrip) (use q(4) in auto)
  then have b: "ep_step True calm_client Udp_begin = Some (Inr (?b1, []))"
    "ep_step True ?b1 ?deliver = Some (Inr (?b2, []))"
    "\<exists>out. ep_step True ?b2 (Kcp_begin 0) = Some (Inr (?b3, out))"
    "ep_step True ?b3 (Write_event (Inr 3)) = Some (Inr (?b4, []))"
    using s(3) kcp_loop_run [OF _ _ _ s(4,5), of "?f\<lparr>kcpCb := Some kb\<rparr>"] recv_nothing [OF q(7)]
    by (simp_all add: ep_step_def with_udp_def with_kcp_def udp_loop_def udp_to_kcp_def feed_kcp_def kcp_written_def
        kcp_drain_def AsyncWrite_def calm_fw f0 after_recv_def)
  have fit: "fits ?k Tcp_begin" "fits ?k ?read" "fits ka (Kcp_begin 0)" "fits ?k Udp_begin" "fits ?k ?deliver"
    "fits kb (Kcp_begin 0)" "fits kc (Write_event (Inr 3))"
    using q by (auto simp: fits_def session_fields first_size_def acks_fit_def frame_out_def Let_def fd_def)
  define t where "t = \<lparr>side_A = calm_client, side_B = calm_client, frames = {}, tcp_in = [], tcp_out = []\<rparr>"
  have "fresh calm_client" by (simp add: fresh_def calm_fw f0)
  then have "tunnel_reach True t" unfolding t_def by (intro tunnel_reach.start)
  from reach_A [OF this, of Tcp_begin ?a1 "[]"] a(1) fit(1)
  have "tunnel_reach True (t\<lparr>side_A := ?a1\<rparr>)" by (simp add: t_def sane_def reads_def calm_fw f0)
  from reach_A [OF this, of ?read ?a2 "[]"] a(2) fit(2)
  have "tunnel_reach True (t\<lparr>side_A := ?a2, tcp_in := ?get\<rparr>)" by (simp add: t_def sane_def reads_def calm_fw f0)
  from reach_A [OF this, of "Kcp_begin 0" ?a3 "[frame_out True p]"] a(3) fit(3)
  have "tunnel_reach True (t\<lparr>side_A := ?a3, frames := {frame_out True p}, tcp_in := ?get\<rparr>)"
    (is "tunnel_reach True ?t") by (simp add: t_def sane_def reads_def)
  from reach_B [OF this, of Udp_begin ?b1 "[]"] b(1) fit(4)
  have "tunnel_reach True (?t\<lparr>side_B := ?b1\<rparr>)"
    by (simp add: t_def arrives_def writes_def calm_fw f0)
  from reach_B [OF this, of ?deliver ?b2 "[]"] b(2) fit(5)
  have "tunnel_reach True (?t\<lparr>side_B := ?b2\<rparr>)" by (simp add: t_def arrives_def writes_def calm_fw f0)
  from reach_B [OF this, of "Kcp_begin 0" ?b3] b(3) fit(6)
  have "tunnel_reach True (?t\<lparr>side_B := ?b3\<rparr>)" by (auto simp: t_def arrives_def writes_def calm_fw f0)
  from reach_B [OF this, of "Write_event (Inr 3)" ?b4 "[]"] b(4) fit(7)
  have "tunnel_reach True (?t\<lparr>side_B := ?b4, tcp_out := ?get\<rparr>)" by (simp add: t_def arrives_def writes_def)
  then show ?thesis by (intro exI [of _ "?t\<lparr>side_B := ?b4, tcp_out := ?get\<rparr>"]) simp
qed

theorem tunnel_transparent_witness:
  "\<exists>t. tunnel_reach True t \<and> tcp_in t = [71, 69, 84] \<and> tcp_out t = [71, 69, 84] \<and>
     (\<exists>rest. tcp_in t = tcp_out t @ rest)"
proof -
  obtain t where t: "tunnel_reach True t" "tcp_in t = [71, 69, 84]" "tcp_out t = [71, 69, 84]"
    using get_reach by blast
  have "\<exists>rest. tcp_in t = tcp_out t @ rest" by (rule tunnel_transparent [OF t(1)]) (simp add: t(2))
  then show ?thesis using t by blast
qed

section \<open>Two sessions\<close>

text \<open>
  What the theorem does not cover. The watchdog of the server removes a forwarder that heard nothing for
  5 seconds, and the next datagram of the same client makes a new one, with a new control block
  of the same conversation number. Here a client that has received \<open>A\<close> from the
  first session is handed the two segments of a second one, \<open>X\<close> and \<open>Y\<close>: the first is taken for a
  repetition and dropped, the second continues the old stream.
\<close>

fun send_all :: "kcpcb \<Rightarrow> bytes list \<Rightarrow> fault + kcpcb" where
  "send_all k [] = Inr k"
| "send_all k (m # ms) = andThen (ikcp_send k m (int (length m)) (\<lambda>_. True)) (\<lambda>(_, k). send_all k ms)"

definition session_sends :: "bytes list \<Rightarrow> fault + bytes list" where
  \<comment> \<open>the datagrams in which a new session sends these messages\<close>
  "session_sends ms =
     andThen (send_all (session_kcp 0x5a3331fd) ms) (\<lambda>k. andThen (ikcp_update k 0) (\<lambda>(_, pkts). Inr pkts))"

definition takes :: "kcpcb \<Rightarrow> bytes \<Rightarrow> fault + bytes \<times> kcpcb" where
  \<comment> \<open>a datagram is input, then a message is taken\<close>
  "takes k p =
     andThen (ikcp_input k (Some p) (int (length p)) plenty) (\<lambda>(_, k).
     andThen (ikcp_recv k (Some 8) 8) (\<lambda>(_, out, k). Inr (out, k)))"

definition first_session :: bytes where
  "first_session = [253, 49, 51, 90, 81, 0, 0, 4, 0, 0, 0, 0, 0, 0, 0, 0, 0, 0, 0, 0, 1, 0, 0, 0, 65]"

definition second_session :: bytes where
  "second_session =
     [253, 49, 51, 90, 81, 0, 0, 4, 0, 0, 0, 0, 0, 0, 0, 0, 0, 0, 0, 0, 1, 0, 0, 0, 88,
      253, 49, 51, 90, 81, 0, 0, 4, 0, 0, 0, 0, 1, 0, 0, 0, 0, 0, 0, 0, 1, 0, 0, 0, 89]"

lemma sessions_send:
  "session_sends [[65]] = Inr [first_session]" "session_sends [[88], [89]] = Inr [second_session]"
  by code_simp+

lemma sessions_mix:
  "andThen (takes (session_kcp 0x5a3331fd) first_session) (\<lambda>(m, k).
   andThen (takes k second_session) (\<lambda>(m', _). Inr (m, m'))) = Inr ([65], [89])"
  by code_simp

end
