(* ===== verification/Asio_Chrono.thy ===== *)
theory Asio_Chrono
  imports Kcp_Prelude
begin

text \<open>
  The arithmetic on \<open>std::chrono\<close> times in asio's timers (\<open>detail/chrono_time_traits.hpp\<close>). Times and
  durations are 64-bit counts of clock ticks; a signed overflow is undefined behaviour in C++, so
  every arithmetic step goes through \<open>tick\<close>, which is \<open>None\<close> where the result does not fit. That the
  functions never give \<open>None\<close> is part of what is proved.
\<close>

definition tick_max :: int where "tick_max = 9223372036854775807"
definition tick_min :: int where "tick_min = - 9223372036854775808"

definition tick :: "int \<Rightarrow> int option" where
  "tick x = (if tick_min \<le> x \<and> x \<le> tick_max then Some x else None)"

definition in_ticks :: "int \<Rightarrow> bool" where
  "in_ticks x = (tick_min \<le> x \<and> x \<le> tick_max)"

definition saturate :: "int \<Rightarrow> int" where
  \<comment> \<open>the nearest number that fits\<close>
  "saturate x = max tick_min (min tick_max x)"

section \<open>Adding and subtracting\<close>

definition time_add :: "int \<Rightarrow> int \<Rightarrow> int option" where
  "time_add t d =
     (let epoch = 0 in
      if t \<ge> epoch then
        Option.bind (tick (tick_max - t)) (\<lambda>room. if room < d then Some tick_max else tick (t + d))
      else
        Option.bind (tick (t - tick_min)) (\<lambda>x.
        Option.bind (tick (- x)) (\<lambda>room. if room > d then Some tick_min else tick (t + d))))"

definition time_subtract :: "int \<Rightarrow> int \<Rightarrow> int option" where
  "time_subtract t1 t2 =
     (let epoch = 0 in
      if t1 \<ge> epoch then
        if t2 \<ge> epoch then tick (t1 - t2)
        else if t2 = tick_min then Some tick_max
        else Option.bind (tick (tick_max - t1)) (\<lambda>room. Option.bind (tick (epoch - t2)) (\<lambda>back.
          if room < back then Some tick_max else tick (t1 - t2)))
      else
        if t2 < epoch then tick (t1 - t2)
        else if t1 = tick_min then Some tick_min
        else Option.bind (tick (tick_max - t2)) (\<lambda>room. Option.bind (tick (epoch - t1)) (\<lambda>back.
          if room < back then Some tick_min
          else Option.bind (tick (t2 - t1)) (\<lambda>x. tick (- x)))))"

definition time_less_than :: "int \<Rightarrow> int \<Rightarrow> bool" where
  "time_less_than t1 t2 = (t1 < t2)"

definition to_wait_duration :: "int \<Rightarrow> int" where
  "to_wait_duration d = d"

section \<open>Durations in other units\<close>

fun gcd_value :: "nat \<Rightarrow> nat \<Rightarrow> nat" where
  \<comment> \<open>the template \<open>gcd\<close>\<close>
  "gcd_value v1 v2 = (if v2 = 0 then v1 else gcd_value v2 (v1 mod v2))"

declare gcd_value.simps [simp del]

definition posix_duration_cast :: "nat \<Rightarrow> nat \<Rightarrow> nat \<Rightarrow> nat \<Rightarrow> int \<Rightarrow> int option" where
  \<comment> \<open>the period of the clock, the unit \<open>Num/Den\<close>, and the ticks\<close>
  "posix_duration_cast period_num period_den Num Den ticks =
     (let num1 = period_num div gcd_value period_num Num;
          num2 = Num div gcd_value period_num Num;
          den1 = period_den div gcd_value period_den Den;
          den2 = Den div gcd_value period_den Den;
          num = num1 * den2;
          den = num2 * den1
      in if num = 1 \<and> den = 1 then Some ticks
         else if num \<noteq> 1 \<and> den = 1 then tick (ticks * int num)
         else if num = 1 \<and> period_den \<noteq> 1 then Some (cdiv ticks (int den))
         else Option.bind (tick (ticks * int num)) (\<lambda>x. Some (cdiv x (int den))))"

definition total_seconds :: "nat \<Rightarrow> nat \<Rightarrow> int \<Rightarrow> int option" where
  "total_seconds pn pd ticks = posix_duration_cast pn pd 1 1 ticks"

definition total_milliseconds :: "nat \<Rightarrow> nat \<Rightarrow> int \<Rightarrow> int option" where
  "total_milliseconds pn pd ticks = posix_duration_cast pn pd 1 1000 ticks"

definition total_microseconds :: "nat \<Rightarrow> nat \<Rightarrow> int \<Rightarrow> int option" where
  "total_microseconds pn pd ticks = posix_duration_cast pn pd 1 1000000 ticks"

section \<open>Correctness\<close>

lemmas tick_defs = tick_def tick_max_def tick_min_def in_ticks_def saturate_def

lemma gcd_value_gcd: "gcd_value a b = gcd a b"
proof (induction a b rule: gcd_value.induct)
  case (1 v1 v2)
  then show ?case by (subst gcd_value.simps) (auto simp: gcd_red_nat [of v1 v2])
qed

lemma time_add_saturates: "in_ticks t \<Longrightarrow> in_ticks d \<Longrightarrow> time_add t d = Some (saturate (t + d))"
  unfolding time_add_def Let_def tick_defs by (auto simp: max_def min_def)

lemma time_subtract_saturates:
  "in_ticks t1 \<Longrightarrow> in_ticks t2 \<Longrightarrow> time_subtract t1 t2 = Some (saturate (t1 - t2))"
  unfolding time_subtract_def Let_def tick_defs by (auto simp: max_def min_def)

text \<open>\<open>steady_clock\<close> counts nanoseconds.\<close>

lemma nano_cast:
  "total_milliseconds 1 1000000000 ticks = Some (cdiv ticks 1000000)"
  "total_microseconds 1 1000000000 ticks = Some (cdiv ticks 1000)"
  "total_seconds 1 1000000000 ticks = Some (cdiv ticks 1000000000)"
proof -
  have g: "gcd (1000000000 :: nat) 1000 = 1000" "gcd (1000000000 :: nat) 1000000 = 1000000"
    by (simp_all add: gcd_non_0_nat)
  show "total_milliseconds 1 1000000000 ticks = Some (cdiv ticks 1000000)"
    "total_microseconds 1 1000000000 ticks = Some (cdiv ticks 1000)"
    "total_seconds 1 1000000000 ticks = Some (cdiv ticks 1000000000)"
    by (simp_all add: total_milliseconds_def total_microseconds_def total_seconds_def
        posix_duration_cast_def gcd_value_gcd g)
qed

text \<open>
  Timer arithmetic saturates. Adding a duration to a time and subtracting two times
  never overflow a 64-bit count, and the result is the exact sum or difference where that fits and the
  nearest representable value where it does not; with a nanosecond clock the conversions to
  milliseconds and microseconds truncate towards zero.
\<close>

theorem timer_arithmetic_saturates:
  assumes "in_ticks t" "in_ticks d"
  shows "time_add t d = Some (saturate (t + d)) \<and> time_subtract t d = Some (saturate (t - d)) \<and>
    total_milliseconds 1 1000000000 t = Some (cdiv t 1000000) \<and>
    total_microseconds 1 1000000000 t = Some (cdiv t 1000)"
  using time_add_saturates [OF assms] time_subtract_saturates [OF assms] nano_cast by simp

theorem timer_arithmetic_saturates_witness:
  "time_add 9223372036854775807 5 = Some 9223372036854775807 \<and>
   total_milliseconds 1 1000000000 9223372036854775807 = Some 9223372036854"
  using timer_arithmetic_saturates [of 9223372036854775807 5] by (simp add: tick_defs cdiv_def)

end
