(* ===== verification/Asio_Timer.thy ===== *)
theory Asio_Timer
  imports Flex_Utils Asio_Chrono "HOL-Library.Multiset"
begin

text \<open>
  The queue of timers behind \<open>asio::steady_timer\<close> (\<open>detail/timer_queue.hpp\<close>): a binary heap of
  deadlines, every timer knowing its index in it, and a doubly linked list of the active timers. A
  timer is the address of its \<open>per_timer_data\<close>; the operations waiting on it are a list, which
  \<open>Op_Queue\<close> justifies. The last sections prove the heap and the list correct;
  \<open>Asio_Timer_Spec\<close> states what each operation does.
\<close>

section \<open>State\<close>

type_synonym timer = nat

record wait_op =
  op_id :: nat
  op_ec :: "errc option"
  cancellation_key :: nat

record per_timer_data =
  op_list :: "wait_op list"
  heap_index :: nat
  t_next :: "timer option"
  t_prev :: "timer option"

record timer_queue =
  timers :: "timer option"
  heap :: "(int \<times> timer) list"   \<comment> \<open>time and timer\<close>
  tdata :: "timer \<Rightarrow> per_timer_data"

definition no_index :: nat where
  \<comment> \<open>the maximum of \<open>size_t\<close>\<close>
  "no_index = 18446744073709551615"

definition per_timer_init :: per_timer_data where
  "per_timer_init = \<lparr>op_list = [], heap_index = no_index, t_next = None, t_prev = None\<rparr>"

definition tq_init :: timer_queue where
  "tq_init = \<lparr>timers = None, heap = [], tdata = (\<lambda>_. per_timer_init)\<rparr>"

definition upd :: "timer \<Rightarrow> (per_timer_data \<Rightarrow> per_timer_data) \<Rightarrow> timer_queue \<Rightarrow> timer_queue" where
  "upd t f q = q\<lparr>tdata := (tdata q)(t := f (tdata q t))\<rparr>"

definition tq_empty :: "timer_queue \<Rightarrow> bool" where
  "tq_empty q = (timers q = None)"

definition is_positive_infinity :: "int \<Rightarrow> bool" where
  \<comment> \<open>of a \<open>std::chrono\<close> time\<close>
  "is_positive_infinity time = False"

section \<open>The heap\<close>

definition swap_heap :: "timer_queue \<Rightarrow> nat \<Rightarrow> nat \<Rightarrow> timer_queue" where
  "swap_heap q index1 index2 =
     (let tmp = heap q ! index1;
          h = (heap q)[index1 := heap q ! index2];
          h = h[index2 := tmp];
          q = q\<lparr>heap := h\<rparr>;
          q = upd (snd (h ! index1)) (\<lambda>d. d\<lparr>heap_index := index1\<rparr>) q
      in upd (snd (h ! index2)) (\<lambda>d. d\<lparr>heap_index := index2\<rparr>) q)"

lemma length_swap [simp]: "length (heap (swap_heap q i j)) = length (heap q)"
  by (simp add: swap_heap_def Let_def upd_def)

function up_heap :: "timer_queue \<Rightarrow> nat \<Rightarrow> timer_queue" where
  "up_heap q index =
     (if index > 0 then
        let parent = (index - 1) div 2
        in if \<not> fst (heap q ! index) < fst (heap q ! parent) then q
           else up_heap (swap_heap q index parent) parent
      else q)"
  by pat_completeness auto
termination by (relation "measure snd") auto

definition min_child :: "timer_queue \<Rightarrow> nat \<Rightarrow> nat" where
  "min_child q child =
     (if child + 1 = length (heap q) \<or> fst (heap q ! child) < fst (heap q ! (child + 1))
      then child else child + 1)"

function down_heap :: "timer_queue \<Rightarrow> nat \<Rightarrow> timer_queue" where
  "down_heap q index =
     (let child = index * 2 + 1
      in if child < length (heap q) then
           let m = min_child q child
           in if fst (heap q ! index) < fst (heap q ! m) then q
              else down_heap (swap_heap q index m) m
         else q)"
  by pat_completeness auto
termination
  by (relation "measure (\<lambda>(q, index). length (heap q) - index)") (auto simp: min_child_def)

section \<open>Timers\<close>

definition unlink_timer :: "timer \<Rightarrow> timer_queue \<Rightarrow> timer_queue" where
  "unlink_timer t q =
     (let q = (if timers q = Some t then q\<lparr>timers := t_next (tdata q t)\<rparr> else q);
          q = (case t_prev (tdata q t) of Some p \<Rightarrow> upd p (\<lambda>d. d\<lparr>t_next := t_next (tdata q t)\<rparr>) q | None \<Rightarrow> q);
          q = (case t_next (tdata q t) of Some n \<Rightarrow> upd n (\<lambda>d. d\<lparr>t_prev := t_prev (tdata q t)\<rparr>) q | None \<Rightarrow> q)
      in upd t (\<lambda>d. d\<lparr>t_next := None, t_prev := None\<rparr>) q)"

definition heap_remove :: "timer \<Rightarrow> timer_queue \<Rightarrow> timer_queue" where
  "heap_remove t q =
     (let index = heap_index (tdata q t)
      in if heap q \<noteq> [] \<and> index < length (heap q) then
           if index = length (heap q) - 1 then
             let q = upd t (\<lambda>d. d\<lparr>heap_index := no_index\<rparr>) q
             in q\<lparr>heap := butlast (heap q)\<rparr>
           else
             let q = swap_heap q index (length (heap q) - 1);
                 q = upd t (\<lambda>d. d\<lparr>heap_index := no_index\<rparr>) q;
                 q = q\<lparr>heap := butlast (heap q)\<rparr>
             in if index > 0 \<and> fst (heap q ! index) < fst (heap q ! ((index - 1) div 2))
                then up_heap q index else down_heap q index
         else q)"

definition remove_timer :: "timer \<Rightarrow> timer_queue \<Rightarrow> timer_queue" where
  "remove_timer t q = unlink_timer t (heap_remove t q)"

definition link_timer :: "timer \<Rightarrow> timer_queue \<Rightarrow> timer_queue" where
  "link_timer t q =
     (let old = timers q;
          q = upd t (\<lambda>d. d\<lparr>t_next := old, t_prev := None\<rparr>) q;
          q = (case old of Some u \<Rightarrow> upd u (\<lambda>d. d\<lparr>t_prev := Some t\<rparr>) q | None \<Rightarrow> q)
      in q\<lparr>timers := Some t\<rparr>)"

definition enqueue_timer :: "int \<Rightarrow> timer \<Rightarrow> wait_op \<Rightarrow> timer_queue \<Rightarrow> bool \<times> timer_queue" where
  "enqueue_timer time t op q =
     (let q = (if t_prev (tdata q t) = None \<and> timers q \<noteq> Some t then
                 link_timer t
                   (if is_positive_infinity time then upd t (\<lambda>d. d\<lparr>heap_index := no_index\<rparr>) q
                    else let q = upd t (\<lambda>d. d\<lparr>heap_index := length (heap q)\<rparr>) q;
                             q = q\<lparr>heap := heap q @ [(time, t)]\<rparr>
                         in up_heap q (length (heap q) - 1))
               else q);
          q = upd t (\<lambda>d. d\<lparr>op_list := op_list d @ [op]\<rparr>) q
      in (heap_index (tdata q t) = 0 \<and> op_id (hd (op_list (tdata q t))) = op_id op, q))"

definition to_msec :: "int \<Rightarrow> int \<Rightarrow> int \<Rightarrow> int" where
  \<comment> \<open>of a duration with its \<open>ticks()\<close> and \<open>total_milliseconds()\<close>\<close>
  "to_msec ticks msec max_duration =
     (if ticks \<le> 0 then 0 else if msec = 0 then 1 else if msec > max_duration then max_duration else msec)"

definition to_usec :: "int \<Rightarrow> int \<Rightarrow> int \<Rightarrow> int" where
  "to_usec ticks usec max_duration =
     (if ticks \<le> 0 then 0 else if usec = 0 then 1 else if usec > max_duration then max_duration else usec)"

definition wait_duration_msec :: "int \<Rightarrow> int \<Rightarrow> timer_queue \<Rightarrow> int option" where
  \<comment> \<open>\<open>now\<close> is what the clock says; it counts nanoseconds\<close>
  "wait_duration_msec now max_duration q =
     (if heap q = [] then Some max_duration
      else Option.bind (time_subtract (fst (heap q ! 0)) now) (\<lambda>d.
           Option.bind (total_milliseconds 1 1000000000 (to_wait_duration d)) (\<lambda>msec.
             Some (to_msec (to_wait_duration d) msec max_duration))))"

definition wait_duration_usec :: "int \<Rightarrow> int \<Rightarrow> timer_queue \<Rightarrow> int option" where
  "wait_duration_usec now max_duration q =
     (if heap q = [] then Some max_duration
      else Option.bind (time_subtract (fst (heap q ! 0)) now) (\<lambda>d.
           Option.bind (total_microseconds 1 1000000000 (to_wait_duration d)) (\<lambda>usec.
             Some (to_usec (to_wait_duration d) usec max_duration))))"

partial_function (option) ready_loop ::
  "int \<Rightarrow> wait_op list \<Rightarrow> timer_queue \<Rightarrow> (wait_op list \<times> timer_queue) option" where
  [code]: "ready_loop now ops q =
     (if heap q \<noteq> [] \<and> \<not> now < fst (heap q ! 0) then
        let t = snd (heap q ! 0);
            ops = ops @ map (\<lambda>op. op\<lparr>op_ec := None\<rparr>) (op_list (tdata q t));
            q = upd t (\<lambda>d. d\<lparr>op_list := []\<rparr>) q
        in ready_loop now ops (remove_timer t q)
      else Some (ops, q))"

definition get_ready_timers ::
  "int \<Rightarrow> wait_op list \<Rightarrow> timer_queue \<Rightarrow> (wait_op list \<times> timer_queue) option" where
  "get_ready_timers now ops q = (if heap q \<noteq> [] then ready_loop now ops q else Some (ops, q))"

partial_function (option) all_loop ::
  "wait_op list \<Rightarrow> timer_queue \<Rightarrow> (wait_op list \<times> timer_queue) option" where
  [code]: "all_loop ops q =
     (case timers q of
        None \<Rightarrow> Some (ops, q)
      | Some t \<Rightarrow>
          let q = q\<lparr>timers := t_next (tdata q t)\<rparr>;
              ops = ops @ op_list (tdata q t);
              q = upd t (\<lambda>d. d\<lparr>op_list := [], t_next := None, t_prev := None\<rparr>) q
          in all_loop ops q)"

definition get_all_timers :: "wait_op list \<Rightarrow> timer_queue \<Rightarrow> (wait_op list \<times> timer_queue) option" where
  "get_all_timers ops q = map_option (\<lambda>(ops, q). (ops, q\<lparr>heap := []\<rparr>)) (all_loop ops q)"

definition aborted :: "wait_op \<Rightarrow> wait_op" where
  "aborted op = op\<lparr>op_ec := Some operation_canceled\<rparr>"

definition cancel_timer :: "timer \<Rightarrow> wait_op list \<Rightarrow> nat \<Rightarrow> timer_queue \<Rightarrow> nat \<times> wait_op list \<times> timer_queue" where
  \<comment> \<open>the loop takes the first \<open>max_cancelled\<close> operations, or all there are\<close>
  "cancel_timer t ops max_cancelled q =
     (if t_prev (tdata q t) \<noteq> None \<or> timers q = Some t then
        let waiting = op_list (tdata q t);
            num_cancelled = min max_cancelled (length waiting);
            ops = ops @ map aborted (take num_cancelled waiting);
            q = upd t (\<lambda>d. d\<lparr>op_list := drop num_cancelled waiting\<rparr>) q
        in (num_cancelled, ops, if op_list (tdata q t) = [] then remove_timer t q else q)
      else (0, ops, q))"

definition cancel_timer_by_key :: "timer \<Rightarrow> wait_op list \<Rightarrow> nat \<Rightarrow> timer_queue \<Rightarrow> wait_op list \<times> timer_queue" where
  "cancel_timer_by_key t ops key q =
     (if t_prev (tdata q t) \<noteq> None \<or> timers q = Some t then
        let waiting = op_list (tdata q t);
            ops = ops @ map aborted (filter (\<lambda>op. cancellation_key op = key) waiting);
            other_ops = filter (\<lambda>op. cancellation_key op \<noteq> key) waiting;
            q = upd t (\<lambda>d. d\<lparr>op_list := other_ops\<rparr>) q
        in (ops, if op_list (tdata q t) = [] then remove_timer t q else q)
      else (ops, q))"

definition move_entry :: "timer \<Rightarrow> timer \<Rightarrow> timer_queue \<Rightarrow> timer_queue" where
  \<comment> \<open>the operations and the place in the heap\<close>
  "move_entry target source q =
     (let moved = op_list (tdata q source);
          q = upd target (\<lambda>d. d\<lparr>op_list := op_list d @ moved\<rparr>) q;
          q = upd source (\<lambda>d. d\<lparr>op_list := []\<rparr>) q;
          index = heap_index (tdata q source);
          q = upd target (\<lambda>d. d\<lparr>heap_index := index\<rparr>) q;
          q = upd source (\<lambda>d. d\<lparr>heap_index := no_index\<rparr>) q
      in if index < length (heap q)
         then q\<lparr>heap := (heap q)[index := (fst (heap q ! index), target)]\<rparr> else q)"

definition move_links :: "timer \<Rightarrow> timer \<Rightarrow> timer_queue \<Rightarrow> timer_queue" where
  \<comment> \<open>the place in the list of active timers\<close>
  "move_links target source q =
     (let q = (if timers q = Some source then q\<lparr>timers := Some target\<rparr> else q);
          q = (case t_prev (tdata q source) of Some p \<Rightarrow> upd p (\<lambda>d. d\<lparr>t_next := Some target\<rparr>) q | None \<Rightarrow> q);
          q = (case t_next (tdata q source) of Some n \<Rightarrow> upd n (\<lambda>d. d\<lparr>t_prev := Some target\<rparr>) q | None \<Rightarrow> q);
          from = tdata q source;
          q = upd target (\<lambda>d. d\<lparr>t_next := t_next from, t_prev := t_prev from\<rparr>) q
      in upd source (\<lambda>d. d\<lparr>t_next := None, t_prev := None\<rparr>) q)"

definition move_timer :: "timer \<Rightarrow> timer \<Rightarrow> timer_queue \<Rightarrow> timer_queue" where
  \<comment> \<open>\<open>target\<close> is another timer than \<open>source\<close>\<close>
  "move_timer target source q = move_links target source (move_entry target source q)"

section \<open>Sets of queues\<close>

text \<open>
  \<open>timer_queue_set\<close> links the queues of all clocks in a list; a queue is named by its address. The clock is
  read anew for each queue: \<open>now p\<close> is what it says for the queue at \<open>p\<close>.
\<close>

type_synonym timer_queue_set = "(nat \<times> timer_queue) list"

definition tqs_insert :: "nat \<Rightarrow> timer_queue \<Rightarrow> timer_queue_set \<Rightarrow> timer_queue_set" where
  "tqs_insert p q s = (p, q) # s"

fun tqs_erase :: "nat \<Rightarrow> timer_queue_set \<Rightarrow> timer_queue_set" where
  "tqs_erase p [] = []"
| "tqs_erase p ((p', q) # s) = (if p = p' then s else (p', q) # tqs_erase p s)"

fun tqs_all_empty :: "timer_queue_set \<Rightarrow> bool" where
  "tqs_all_empty [] = True"
| "tqs_all_empty ((p, q) # s) = (if \<not> tq_empty q then False else tqs_all_empty s)"

fun tqs_wait_msec :: "(nat \<Rightarrow> int) \<Rightarrow> int \<Rightarrow> timer_queue_set \<Rightarrow> int option" where
  "tqs_wait_msec now min_duration [] = Some min_duration"
| "tqs_wait_msec now min_duration ((p, q) # s) =
     Option.bind (wait_duration_msec (now p) min_duration q) (\<lambda>d. tqs_wait_msec now d s)"

fun tqs_wait_usec :: "(nat \<Rightarrow> int) \<Rightarrow> int \<Rightarrow> timer_queue_set \<Rightarrow> int option" where
  "tqs_wait_usec now min_duration [] = Some min_duration"
| "tqs_wait_usec now min_duration ((p, q) # s) =
     Option.bind (wait_duration_usec (now p) min_duration q) (\<lambda>d. tqs_wait_usec now d s)"

fun tqs_get_ready ::
  "(nat \<Rightarrow> int) \<Rightarrow> wait_op list \<Rightarrow> timer_queue_set \<Rightarrow> (wait_op list \<times> timer_queue_set) option" where
  "tqs_get_ready now ops [] = Some (ops, [])"
| "tqs_get_ready now ops ((p, q) # s) =
     Option.bind (get_ready_timers (now p) ops q) (\<lambda>(ops, q).
     map_option (\<lambda>(ops, s). (ops, (p, q) # s)) (tqs_get_ready now ops s))"

fun tqs_get_all :: "wait_op list \<Rightarrow> timer_queue_set \<Rightarrow> (wait_op list \<times> timer_queue_set) option" where
  "tqs_get_all ops [] = Some (ops, [])"
| "tqs_get_all ops ((p, q) # s) =
     Option.bind (get_all_timers ops q) (\<lambda>(ops, q).
     map_option (\<lambda>(ops, s). (ops, (p, q) # s)) (tqs_get_all ops s))"

section \<open>The heap is a heap\<close>

text \<open>First on lists of entries: the order, the two ways it is broken in one place, and one step of repair.\<close>

definition heap_ok :: "(int \<times> timer) list \<Rightarrow> bool" where
  "heap_ok h = (\<forall>i < length h. 0 < i \<longrightarrow> fst (h ! ((i - 1) div 2)) \<le> fst (h ! i))"

definition up_ok :: "(int \<times> timer) list \<Rightarrow> nat \<Rightarrow> bool" where
  \<comment> \<open>only the entry at \<open>k\<close> may be earlier than its parent\<close>
  "up_ok h k = (\<forall>i < length h. 0 < i \<longrightarrow>
     (i \<noteq> k \<longrightarrow> fst (h ! ((i - 1) div 2)) \<le> fst (h ! i)) \<and>
     ((i - 1) div 2 = k \<and> 0 < k \<longrightarrow> fst (h ! ((k - 1) div 2)) \<le> fst (h ! i)))"

definition down_ok :: "(int \<times> timer) list \<Rightarrow> nat \<Rightarrow> bool" where
  \<comment> \<open>only the entry at \<open>k\<close> may be later than its children\<close>
  "down_ok h k = (\<forall>i < length h. 0 < i \<longrightarrow>
     ((i - 1) div 2 \<noteq> k \<longrightarrow> fst (h ! ((i - 1) div 2)) \<le> fst (h ! i)) \<and>
     ((i - 1) div 2 = k \<and> 0 < k \<longrightarrow> fst (h ! ((k - 1) div 2)) \<le> fst (h ! i)))"

definition swapped :: "'a list \<Rightarrow> nat \<Rightarrow> nat \<Rightarrow> 'a list" where
  "swapped h i j = h[i := h ! j, j := h ! i]"

lemma swapped_nth: "i < length h \<Longrightarrow> j < length h \<Longrightarrow> m < length h \<Longrightarrow>
    swapped h i j ! m = (if m = j then h ! i else if m = i then h ! j else h ! m)"
  by (simp add: swapped_def nth_list_update)

lemma length_swapped [simp]: "length (swapped h i j) = length h"
  by (simp add: swapped_def)

lemma mset_swapped: "i < length h \<Longrightarrow> j < length h \<Longrightarrow> mset (swapped h i j) = mset h"
  by (simp add: swapped_def mset_swap)

lemma parent_less: "0 < i \<Longrightarrow> (i - Suc 0) div 2 < i"
  by simp

lemma up_ok_heap: "up_ok h k \<Longrightarrow> (0 < k \<Longrightarrow> k < length h \<Longrightarrow> fst (h ! ((k - 1) div 2)) \<le> fst (h ! k)) \<Longrightarrow> heap_ok h"
  unfolding up_ok_def heap_ok_def by blast

lemma up_step:
  assumes "up_ok h k" "0 < k" "k < length h" "fst (h ! k) < fst (h ! ((k - 1) div 2))"
  shows "up_ok (swapped h k ((k - 1) div 2)) ((k - 1) div 2)"
proof -
  let ?p = "(k - 1) div 2" and ?h = "swapped h k ((k - 1) div 2)"
  have p: "?p < k" "?p < length h" using assms(2,3) by auto
  note n = swapped_nth [OF assms(3) p(2)]
  have up: "i < length h \<Longrightarrow> 0 < i \<Longrightarrow> i \<noteq> k \<Longrightarrow> fst (h ! ((i - 1) div 2)) \<le> fst (h ! i)" for i
    using assms(1) unfolding up_ok_def by blast
  have over: "i < length h \<Longrightarrow> 0 < i \<Longrightarrow> (i - 1) div 2 = k \<Longrightarrow> fst (h ! ?p) \<le> fst (h ! i)" for i
    using assms(1,2) unfolding up_ok_def by blast
  have main: "fst (?h ! ((i - 1) div 2)) \<le> fst (?h ! i)" if i: "i < length h" "0 < i" "i \<noteq> ?p" for i
  proof -
    have q: "(i - 1) div 2 < length h" using i by auto
    consider "i = k" | "i \<noteq> k" "(i - 1) div 2 = ?p" | "i \<noteq> k" "(i - 1) div 2 = k"
      | "i \<noteq> k" "(i - 1) div 2 \<noteq> ?p" "(i - 1) div 2 \<noteq> k" by blast
    then show ?thesis
    proof cases
      case 1
      then show ?thesis using n [OF i(1)] n [OF q] p assms(4) by simp
    next
      case 2
      then show ?thesis using n [OF i(1)] n [OF q] p i assms(4) up [OF i(1,2) 2(1)] by simp
    next
      case 3
      then show ?thesis using n [OF i(1)] n [OF q] p i over [OF i(1,2) 3(2)] by simp
    next
      case 4
      then show ?thesis using n [OF i(1)] n [OF q] i up [OF i(1,2) 4(1)] by simp
    qed
  qed
  have over': "fst (?h ! ((?p - 1) div 2)) \<le> fst (?h ! i)" if i: "i < length h" "0 < i" "(i - 1) div 2 = ?p" "0 < ?p" for i
  proof -
    have g: "(?p - 1) div 2 < ?p" using i(4) by auto
    have q: "(?p - 1) div 2 < length h" using g p by linarith
    have pi: "?p < i" using i(2,3) by auto
    have gp: "fst (h ! ((?p - 1) div 2)) \<le> fst (h ! ?p)" using up [OF p(2) i(4)] p by simp
    have lhs: "?h ! ((?p - 1) div 2) = h ! ((?p - 1) div 2)" using n [OF q] g p by simp
    show ?thesis
    proof (cases "i = k")
      case True
      then show ?thesis using n [OF i(1)] gp p lhs by simp
    next
      case False
      then have "?h ! i = h ! i" using n [OF i(1)] pi by simp
      then show ?thesis using up [OF i(1,2) False] i(3) gp lhs by simp
    qed
  qed
  show ?thesis unfolding up_ok_def length_swapped using main over' by blast
qed

lemma down_step:
  assumes "down_ok h k" "k < length h" "m < length h" "0 < m" "(m - 1) div 2 = k" "\<not> fst (h ! k) < fst (h ! m)"
    and "\<And>i. i < length h \<Longrightarrow> 0 < i \<Longrightarrow> (i - 1) div 2 = k \<Longrightarrow> fst (h ! m) \<le> fst (h ! i)"
  shows "down_ok (swapped h k m) m"
proof -
  let ?h = "swapped h k m"
  have k: "k < m" using assms(4,5) by auto
  note n = swapped_nth [OF assms(2,3)]
  have dn: "i < length h \<Longrightarrow> 0 < i \<Longrightarrow> (i - 1) div 2 \<noteq> k \<Longrightarrow> fst (h ! ((i - 1) div 2)) \<le> fst (h ! i)" for i
    using assms(1) unfolding down_ok_def by blast
  have over: "i < length h \<Longrightarrow> 0 < i \<Longrightarrow> (i - 1) div 2 = k \<Longrightarrow> 0 < k \<Longrightarrow> fst (h ! ((k - 1) div 2)) \<le> fst (h ! i)" for i
    using assms(1) unfolding down_ok_def by blast
  have main: "fst (?h ! ((i - 1) div 2)) \<le> fst (?h ! i)" if i: "i < length h" "0 < i" "(i - 1) div 2 \<noteq> m" for i
  proof -
    have q: "(i - 1) div 2 < length h" using i by auto
    consider "i = m" | "i \<noteq> m" "(i - 1) div 2 = k" | "i = k" | "i \<noteq> m" "i \<noteq> k" "(i - 1) div 2 \<noteq> k" by blast
    then show ?thesis
    proof cases
      case 1
      then show ?thesis using n [OF i(1)] n [OF q] assms(5,6) k by simp
    next
      case 2
      have "i \<noteq> k" using i(2) 2(2) by auto
      then show ?thesis using n [OF i(1)] n [OF q] 2 k assms(7) [OF i(1,2) 2(2)] by simp
    next
      case 3
      have "0 < k" "(k - 1) div 2 \<noteq> k" "(k - 1) div 2 \<noteq> m" using 3 i k by auto
      then show ?thesis using n [OF i(1)] n [OF q] 3 k over [OF assms(3,4,5)] by simp
    next
      case 4
      then show ?thesis using n [OF i(1)] n [OF q] i dn [OF i(1,2) 4(3)] by simp
    qed
  qed
  have over': "fst (?h ! ((m - 1) div 2)) \<le> fst (?h ! i)" if i: "i < length h" "0 < i" "(i - 1) div 2 = m" for i
  proof -
    have "i \<noteq> m" "i \<noteq> k" using i k by auto
    then show ?thesis using n [OF i(1)] n [OF assms(2)] dn [OF i(1,2)] i(3) k assms(5) by simp
  qed
  show ?thesis unfolding down_ok_def length_swapped using main over' by blast
qed

lemma heap_first: "heap_ok h \<Longrightarrow> i < length h \<Longrightarrow> fst (h ! 0) \<le> fst (h ! i)"
proof (induction i rule: less_induct)
  case (less i)
  show ?case
  proof (cases "i = 0")
    case False
    then have "(i - 1) div 2 < i" by auto
    moreover have "fst (h ! ((i - 1) div 2)) \<le> fst (h ! i)" using less.prems False unfolding heap_ok_def by blast
    ultimately show ?thesis using less.IH [of "(i - 1) div 2"] less.prems by force
  qed simp
qed

lemma heap_ok_snoc: "heap_ok h \<Longrightarrow> up_ok (h @ [e]) (length h)"
  unfolding heap_ok_def up_ok_def by (auto simp: nth_append)

lemma heap_ok_butlast: "heap_ok h \<Longrightarrow> heap_ok (butlast h)"
proof -
  have "(i - 1) div 2 < length h - 1" if "i < length h - 1" for i using that by auto
  then show "heap_ok h \<Longrightarrow> heap_ok (butlast h)"
    unfolding heap_ok_def by (auto simp: nth_butlast)
qed

text \<open>Taking the entry at \<open>k\<close> out by putting the last one in its place.\<close>

lemma replace_by_last:
  assumes "heap_ok h" "k < length h - 1"
  defines "h' \<equiv> butlast (swapped h k (length h - 1))"
  shows "0 < k \<Longrightarrow> fst (h' ! k) < fst (h' ! ((k - 1) div 2)) \<Longrightarrow> up_ok h' k"
    and "\<not> (0 < k \<and> fst (h' ! k) < fst (h' ! ((k - 1) div 2))) \<Longrightarrow> down_ok h' k"
proof -
  have l: "length h' = length h - 1" "k < length h" "length h - 1 < length h"
    unfolding h'_def using assms(2) by auto
  have n: "h' ! i = (if i = k then h ! (length h - 1) else h ! i)" if "i < length h'" for i
  proof -
    have i: "i < length h" "i \<noteq> length h - 1" using that l(1) by linarith+
    have "h' ! i = swapped h k (length h - 1) ! i" unfolding h'_def using that l(1) by (simp add: nth_butlast)
    then show ?thesis using swapped_nth [OF l(2,3) i(1)] i(2) by simp
  qed
  have ord: "fst (h ! ((i - 1) div 2)) \<le> fst (h ! i)" if "i < length h'" "0 < i" for i
    using assms(1) that l unfolding heap_ok_def by simp
  have q: "(i - 1) div 2 < length h'" "(i - 1) div 2 < i" if "i < length h'" "0 < i" for i using that by auto
  have kl: "k < length h'" using l(1) assms(2) by simp
  have grand: "fst (h' ! ((k - 1) div 2)) \<le> fst (h' ! i)" if i: "i < length h'" "0 < i" "(i - 1) div 2 = k" "0 < k" for i
  proof -
    have "i \<noteq> k" "(k - 1) div 2 \<noteq> k" using i by auto
    then show ?thesis using n [OF i(1)] n [OF q(1) [OF kl i(4)]] ord [OF i(1,2)] ord [OF kl i(4)] i(3) by simp
  qed
  show "up_ok h' k" if a: "0 < k" "fst (h' ! k) < fst (h' ! ((k - 1) div 2))"
    unfolding up_ok_def
  proof (intro allI impI conjI)
    fix i assume i: "i < length h'" "0 < i" "i \<noteq> k"
    show "fst (h' ! ((i - 1) div 2)) \<le> fst (h' ! i)"
    proof (cases "(i - 1) div 2 = k")
      case True
      then show ?thesis using grand [OF i(1,2) True a(1)] a(2) by simp
    next
      case False
      then show ?thesis using n [OF i(1)] n [OF q(1) [OF i(1,2)]] i(3) ord [OF i(1,2)] by simp
    qed
  qed (use grand in blast)
  show "down_ok h' k" if a: "\<not> (0 < k \<and> fst (h' ! k) < fst (h' ! ((k - 1) div 2)))"
    unfolding down_ok_def
  proof (intro allI impI conjI)
    fix i assume i: "i < length h'" "0 < i" "(i - 1) div 2 \<noteq> k"
    show "fst (h' ! ((i - 1) div 2)) \<le> fst (h' ! i)"
    proof (cases "i = k")
      case True
      then show ?thesis using a i(2) by simp
    next
      case False
      then show ?thesis using n [OF i(1)] n [OF q(1) [OF i(1,2)]] i(3) ord [OF i(1,2)] by simp
    qed
  qed (use grand in blast)
qed

text \<open>Then on the queue, whose timers know their index.\<close>

definition indexed :: "timer_queue \<Rightarrow> bool" where
  "indexed q = (\<forall>i < length (heap q). heap_index (tdata q (snd (heap q ! i))) = i)"

definition shuffled :: "timer_queue \<Rightarrow> timer_queue \<Rightarrow> bool" where
  \<comment> \<open>the entries of the heap in another order, and nothing else changed\<close>
  "shuffled q q' =
     (timers q' = timers q \<and> mset (heap q') = mset (heap q) \<and>
      (\<forall>t. op_list (tdata q' t) = op_list (tdata q t) \<and> t_next (tdata q' t) = t_next (tdata q t) \<and>
           t_prev (tdata q' t) = t_prev (tdata q t) \<and>
           (t \<notin> snd ` set (heap q) \<longrightarrow> heap_index (tdata q' t) = heap_index (tdata q t))))"

lemma shuffled_refl: "shuffled q q"
  by (simp add: shuffled_def)

lemma shuffled_trans: "shuffled q q1 \<Longrightarrow> shuffled q1 q2 \<Longrightarrow> shuffled q q2"
  unfolding shuffled_def by (metis mset_eq_setD)

lemma indexed_inj:
  "indexed q \<Longrightarrow> i < length (heap q) \<Longrightarrow> j < length (heap q) \<Longrightarrow> snd (heap q ! i) = snd (heap q ! j) \<Longrightarrow> i = j"
  unfolding indexed_def by metis

lemma indexed_distinct: "indexed q \<Longrightarrow> distinct (map snd (heap q))"
  by (simp add: distinct_conv_nth) (metis indexed_inj)

lemma swap_heap_eq:
  assumes "i < length (heap q)" "j < length (heap q)"
  shows "heap (swap_heap q i j) = swapped (heap q) i j"
    and "timers (swap_heap q i j) = timers q"
    and "tdata (swap_heap q i j) =
      (tdata q)(snd (swapped (heap q) i j ! i) := (tdata q (snd (swapped (heap q) i j ! i)))\<lparr>heap_index := i\<rparr>,
                snd (heap q ! i) := ((tdata q)(snd (swapped (heap q) i j ! i) :=
                   (tdata q (snd (swapped (heap q) i j ! i)))\<lparr>heap_index := i\<rparr>)) (snd (heap q ! i))\<lparr>heap_index := j\<rparr>)"
  using assms swapped_nth [OF assms assms(2)]
  by (simp_all add: swap_heap_def Let_def upd_def swapped_def)

lemma swap_spec:
  assumes "indexed q" "i < length (heap q)" "j < length (heap q)"
  shows "indexed (swap_heap q i j)" "shuffled q (swap_heap q i j)" "heap (swap_heap q i j) = swapped (heap q) i j"
proof -
  note e = swap_heap_eq [OF assms(2,3)]
  note n = swapped_nth [OF assms(2,3)]
  show "heap (swap_heap q i j) = swapped (heap q) i j" by (rule e)
  show "indexed (swap_heap q i j)"
    unfolding indexed_def
  proof (intro allI impI)
    fix m assume "m < length (heap (swap_heap q i j))"
    then have m: "m < length (heap q)" by simp
    show "heap_index (tdata (swap_heap q i j) (snd (heap (swap_heap q i j) ! m))) = m"
    proof (cases "m = j")
      case True
      then show ?thesis using n [OF m] by (simp add: e)
    next
      case False
      have x: "snd (swapped (heap q) i j ! m) \<noteq> snd (heap q ! i)"
        using n [OF m] False indexed_inj [OF assms(1,2)] m assms(3) by (metis (full_types))
      show ?thesis
      proof (cases "m = i")
        case True
        then show ?thesis using x by (simp add: e)
      next
        case mi: False
        have "snd (heap q ! m) \<noteq> snd (swapped (heap q) i j ! i)"
          using n [OF assms(2)] indexed_inj [OF assms(1) m] assms(2,3) False mi by (metis (full_types))
        then show ?thesis using x n [OF m] False mi assms(1) m by (simp add: e indexed_def)
      qed
    qed
  qed
  have "snd (swapped (heap q) i j ! i) \<in> snd ` set (heap q)" "snd (heap q ! i) \<in> snd ` set (heap q)"
    using n [OF assms(2)] assms(2,3) by simp_all
  then show "shuffled q (swap_heap q i j)"
    unfolding shuffled_def e(1,2,3) using mset_swapped [OF assms(2,3)] by auto
qed

declare up_heap.simps [simp del] down_heap.simps [simp del]

lemma up_heap_spec:
  "indexed q \<Longrightarrow> up_ok (heap q) k \<Longrightarrow> k < length (heap q) \<Longrightarrow>
   indexed (up_heap q k) \<and> heap_ok (heap (up_heap q k)) \<and> shuffled q (up_heap q k)"
proof (induction q k rule: up_heap.induct)
  case (1 q k)
  show ?case
  proof (cases "0 < k \<and> fst (heap q ! k) < fst (heap q ! ((k - 1) div 2))")
    case False
    then have "up_heap q k = q" by (subst up_heap.simps) (auto simp: Let_def)
    moreover have "heap_ok (heap q)" by (rule up_ok_heap [OF 1(3)]) (use False in auto)
    ultimately show ?thesis using 1(2) shuffled_refl by simp
  next
    case True
    let ?p = "(k - 1) div 2"
    have e: "up_heap q k = up_heap (swap_heap q k ?p) ?p" using True by (subst up_heap.simps) (simp add: Let_def)
    have p: "?p < length (heap q)" using 1(4) True by auto
    note s = swap_spec [OF 1(2,4) p]
    have "up_ok (heap (swap_heap q k ?p)) ?p" using up_step [OF 1(3) _ 1(4)] True s(3) by simp
    then show ?thesis
      using 1(1) [OF _ refl _ s(1)] True p s(2) shuffled_trans unfolding e by simp
  qed
qed

lemma min_child_spec:
  assumes "k * 2 + 1 < length (heap q)"
  defines "m \<equiv> min_child q (k * 2 + 1)"
  shows "m < length (heap q)" "0 < m" "(m - 1) div 2 = k"
    "i < length (heap q) \<Longrightarrow> 0 < i \<Longrightarrow> (i - 1) div 2 = k \<Longrightarrow> fst (heap q ! m) \<le> fst (heap q ! i)"
proof -
  show "m < length (heap q)" "0 < m" "(m - 1) div 2 = k"
    using assms(1) unfolding m_def min_child_def by (auto split: if_splits)
  show "fst (heap q ! m) \<le> fst (heap q ! i)" if i: "i < length (heap q)" "0 < i" "(i - 1) div 2 = k"
  proof -
    have "i = k * 2 + 1 \<or> i = k * 2 + 2" using i by auto
    then show ?thesis using i(1) unfolding m_def min_child_def by auto
  qed
qed

lemma down_ok_heap:
  assumes "down_ok h k" "\<And>i. i < length h \<Longrightarrow> 0 < i \<Longrightarrow> (i - 1) div 2 = k \<Longrightarrow> fst (h ! k) \<le> fst (h ! i)"
  shows "heap_ok h"
  using assms unfolding down_ok_def heap_ok_def by metis

lemma down_heap_spec:
  "indexed q \<Longrightarrow> down_ok (heap q) k \<Longrightarrow> k < length (heap q) \<Longrightarrow>
   indexed (down_heap q k) \<and> heap_ok (heap (down_heap q k)) \<and> shuffled q (down_heap q k)"
proof (induction q k rule: down_heap.induct)
  case (1 q k)
  let ?m = "min_child q (k * 2 + 1)"
  consider "\<not> k * 2 + 1 < length (heap q)" | "k * 2 + 1 < length (heap q)" "fst (heap q ! k) < fst (heap q ! ?m)"
    | "k * 2 + 1 < length (heap q)" "\<not> fst (heap q ! k) < fst (heap q ! ?m)" by blast
  then show ?case
  proof cases
    case 1
    then have "down_heap q k = q" by (subst down_heap.simps) (simp add: Let_def)
    moreover have "heap_ok (heap q)" by (rule down_ok_heap [OF \<open>down_ok (heap q) k\<close>]) (use 1 in auto)
    ultimately show ?thesis using \<open>indexed q\<close> shuffled_refl by simp
  next
    case 2
    then have "down_heap q k = q" by (subst down_heap.simps) (simp add: Let_def)
    moreover have "heap_ok (heap q)"
      by (rule down_ok_heap [OF \<open>down_ok (heap q) k\<close>]) (use min_child_spec(4) [OF 2(1)] 2(2) in force)
    ultimately show ?thesis using \<open>indexed q\<close> shuffled_refl by simp
  next
    case 3
    then have e: "down_heap q k = down_heap (swap_heap q k ?m) ?m" by (subst down_heap.simps) (simp add: Let_def)
    note m = min_child_spec [OF 3(1)]
    note s = swap_spec [OF \<open>indexed q\<close> \<open>k < length (heap q)\<close> m(1)]
    have d: "down_ok (heap (swap_heap q k ?m)) ?m"
      unfolding s(3) by (rule down_step [OF \<open>down_ok (heap q) k\<close> \<open>k < length (heap q)\<close> m(1-3) 3(2)]) (rule m(4))
    have "indexed (down_heap (swap_heap q k ?m) ?m) \<and> heap_ok (heap (down_heap (swap_heap q k ?m) ?m)) \<and>
        shuffled (swap_heap q k ?m) (down_heap (swap_heap q k ?m) ?m)"
      by (rule 1(1) [OF refl 3(1) refl 3(2) s(1) d]) (use m(1) in simp)
    then show ?thesis using s(2) shuffled_trans unfolding e by blast
  qed
qed

definition dropped :: "timer \<Rightarrow> timer_queue \<Rightarrow> timer_queue \<Rightarrow> bool" where
  \<comment> \<open>the entry of the timer taken out of the heap, and nothing else changed\<close>
  "dropped t q q' =
     (timers q' = timers q \<and> set (heap q') = {e \<in> set (heap q). snd e \<noteq> t} \<and>
      length (heap q') = length (heap q) - 1 \<and>
      (\<forall>u. op_list (tdata q' u) = op_list (tdata q u) \<and> t_next (tdata q' u) = t_next (tdata q u) \<and>
           t_prev (tdata q' u) = t_prev (tdata q u) \<and>
           (u \<notin> snd ` set (heap q) \<longrightarrow> heap_index (tdata q' u) = heap_index (tdata q u))))"

lemma set_butlast_distinct:
  "distinct (map snd h) \<Longrightarrow> h \<noteq> [] \<Longrightarrow> set (butlast h) = {e \<in> set h. snd e \<noteq> snd (last h)}"
  by (induction h rule: rev_induct) (auto simp: rev_image_eqI)

lemma indexed_butlast:
  assumes "indexed q" "heap q \<noteq> []" "snd (last (heap q)) = t"
  shows "indexed ((upd t (\<lambda>d. d\<lparr>heap_index := no_index\<rparr>) q)\<lparr>heap := butlast (heap q)\<rparr>)"
proof -
  have "snd (heap q ! i) \<noteq> t" if "i < length (heap q) - 1" for i
    using indexed_inj [OF assms(1), of i "length (heap q) - 1"] that assms(2,3)
    by (auto simp: last_conv_nth)
  then show ?thesis using assms(1) by (auto simp: indexed_def upd_def nth_butlast)
qed

lemma drop_last:
  assumes "indexed q" "heap q \<noteq> []" "snd (last (heap q)) = t"
  defines "q' \<equiv> (upd t (\<lambda>d. d\<lparr>heap_index := no_index\<rparr>) q)\<lparr>heap := butlast (heap q)\<rparr>"
  shows "indexed q'" "dropped t q q'"
proof -
  show "indexed q'" unfolding q'_def by (rule indexed_butlast [OF assms(1-3)])
  have t: "t \<in> snd ` set (heap q)" using assms(2,3) last_in_set by force
  show "dropped t q q'"
    using set_butlast_distinct [OF indexed_distinct [OF assms(1)] assms(2)] t
    unfolding dropped_def q'_def assms(3) by (auto simp: upd_def)
qed

lemma dropped_shuffled:
  \<comment> \<open>an entry dropped between two rearrangements\<close>
  assumes s: "shuffled q qs" and d: "dropped t qs qd" and r: "shuffled qd q'"
  shows "dropped t q q'"
proof -
  have a: "set (heap qs) = set (heap q)" "length (heap qs) = length (heap q)"
    "set (heap q') = set (heap qd)" "length (heap q') = length (heap qd)"
    using s r by (auto simp: shuffled_def dest: mset_eq_setD mset_eq_length)
  have c: "set (heap qd) = {e \<in> set (heap q). snd e \<noteq> t}" "length (heap qd) = length (heap q) - 1"
    using d a unfolding dropped_def by simp_all
  show ?thesis
    unfolding dropped_def
  proof (intro conjI allI impI)
    show "set (heap q') = {e \<in> set (heap q). snd e \<noteq> t}" "length (heap q') = length (heap q) - 1" using a(3,4) c by simp_all
    show "timers q' = timers q" using s d r unfolding dropped_def shuffled_def by simp
    fix u
    show "op_list (tdata q' u) = op_list (tdata q u)" "t_next (tdata q' u) = t_next (tdata q u)"
      "t_prev (tdata q' u) = t_prev (tdata q u)" using s d r unfolding dropped_def shuffled_def by simp_all
    assume u: "u \<notin> snd ` set (heap q)"
    then have "u \<notin> snd ` set (heap qd)" using c(1) by auto
    then have "heap_index (tdata q' u) = heap_index (tdata qd u)" using r unfolding shuffled_def by blast
    also have "\<dots> = heap_index (tdata qs u)" using d u a(1) unfolding dropped_def by simp
    also have "\<dots> = heap_index (tdata q u)" using s u unfolding shuffled_def by blast
    finally show "heap_index (tdata q' u) = heap_index (tdata q u)" .
  qed
qed

lemma heap_remove_spec:
  assumes "indexed q" "heap_ok (heap q)" "(d, t) \<in> set (heap q)"
  shows "indexed (heap_remove t q) \<and> heap_ok (heap (heap_remove t q)) \<and> dropped t q (heap_remove t q)"
proof -
  let ?n = "length (heap q) - 1"
  obtain k where k: "k < length (heap q)" "heap q ! k = (d, t)" using assms(3) by (metis in_set_conv_nth)
  have i: "heap_index (tdata q t) = k" using assms(1) k unfolding indexed_def by (metis snd_conv)
  have n0: "heap q \<noteq> []" using k(1) by auto
  show ?thesis
  proof (cases "k = ?n")
    case True
    let ?q = "(upd t (\<lambda>d. d\<lparr>heap_index := no_index\<rparr>) q)\<lparr>heap := butlast (heap q)\<rparr>"
    have "heap_remove t q = ?q" using True i k(1) n0 by (simp add: heap_remove_def Let_def upd_def)
    moreover have "snd (last (heap q)) = t" using True k(2) n0 by (simp add: last_conv_nth)
    ultimately show ?thesis using drop_last [OF assms(1) n0] heap_ok_butlast [OF assms(2)] by simp
  next
    case False
    then have kl: "k < ?n" "?n < length (heap q)" using k(1) by linarith+
    let ?s = "swap_heap q k ?n"
    let ?q = "(upd t (\<lambda>d. d\<lparr>heap_index := no_index\<rparr>) ?s)\<lparr>heap := butlast (heap ?s)\<rparr>"
    note s = swap_spec [OF assms(1) k(1) kl(2)]
    have ne: "heap ?s \<noteq> []" using n0 by (metis length_swap length_0_conv)
    have last: "snd (last (heap ?s)) = t"
      using swapped_nth [OF k(1) kl(2) kl(2)] k(2) ne s(3) by (simp add: last_conv_nth)
    note dr = drop_last [OF s(1) ne last]
    have e: "heap_remove t q = (if 0 < k \<and> fst (heap ?q ! k) < fst (heap ?q ! ((k - 1) div 2))
        then up_heap ?q k else down_heap ?q k)"
      using False i k(1) n0 by (simp add: heap_remove_def Let_def upd_def)
    have hq: "heap ?q = butlast (swapped (heap q) k ?n)" using s(3) by simp
    have kq: "k < length (heap ?q)" using kl by simp
    note r = replace_by_last [OF assms(2) kl(1)]
    have sh: "indexed (heap_remove t q) \<and> heap_ok (heap (heap_remove t q)) \<and> shuffled ?q (heap_remove t q)"
    proof (cases "0 < k \<and> fst (heap ?q ! k) < fst (heap ?q ! ((k - 1) div 2))")
      case True
      then have "up_ok (heap ?q) k" using r(1) unfolding hq by blast
      from up_heap_spec [OF dr(1) this kq] show ?thesis unfolding e using True by simp
    next
      case False
      then have "down_ok (heap ?q) k" using r(2) unfolding hq by blast
      from down_heap_spec [OF dr(1) this kq] show ?thesis unfolding e using False by presburger
    qed
    then show ?thesis using dropped_shuffled [OF s(2) dr(2)] by blast
  qed
qed

section \<open>The list of active timers\<close>

primrec dseg :: "(timer \<Rightarrow> per_timer_data) \<Rightarrow> timer option \<Rightarrow> timer option \<Rightarrow> timer list \<Rightarrow> timer option \<Rightarrow> timer option \<Rightarrow> bool" where
  \<comment> \<open>from the pointer \<open>p\<close> the nodes, whose first has the predecessor \<open>prev\<close>, up to the last node \<open>l\<close> and its successor \<open>n\<close>\<close>
  "dseg d prev p [] l n = (p = n \<and> l = prev)"
| "dseg d prev p (x # xs) l n = (p = Some x \<and> t_prev (d x) = prev \<and> dseg d (Some x) (t_next (d x)) xs l n)"

lemma dseg_append: "dseg d prev p (xs @ ys) l n \<longleftrightarrow> (\<exists>m k. dseg d prev p xs m k \<and> dseg d m k ys l n)"
  by (induction xs arbitrary: prev p) auto

lemma dseg_cong:
  "dseg d prev p xs l n \<Longrightarrow> (\<And>x. x \<in> set xs \<Longrightarrow> t_next (d' x) = t_next (d x) \<and> t_prev (d' x) = t_prev (d x)) \<Longrightarrow>
   dseg d' prev p xs l n"
  by (induction xs arbitrary: prev p) auto

lemma dseg_last: "dseg d prev p xs l n \<Longrightarrow> l = (if xs = [] then prev else Some (last xs))"
  by (induction xs arbitrary: prev p) auto

lemma dseg_set_next:
  assumes "dseg d prev p xs l n" "distinct xs"
    and "\<And>x. x \<in> set xs \<Longrightarrow> t_prev (d' x) = t_prev (d x) \<and>
      t_next (d' x) = (if Some x = l then n' else t_next (d x))" "xs \<noteq> []"
  shows "dseg d' prev p xs l n'"
  using assms
proof (induction xs arbitrary: prev p)
  case (Cons x xs)
  show ?case
  proof (cases "xs = []")
    case False
    have "Some x \<noteq> l" using dseg_last [of d "Some x" "t_next (d x)" xs l n] Cons.prems(1,2) False by auto
    then show ?thesis using Cons.IH [of "Some x" "t_next (d x)"] Cons.prems False by simp
  qed (use Cons.prems in simp)
qed simp

lemma dseg_set_prev:
  assumes "dseg d prev p xs l n" "distinct xs" "xs \<noteq> []"
    and "\<And>x. x \<in> set xs \<Longrightarrow> t_next (d' x) = t_next (d x) \<and>
      t_prev (d' x) = (if Some x = p then prev' else t_prev (d x))"
  shows "dseg d' prev' p xs l n"
proof -
  obtain x ys where x: "xs = x # ys" using assms(3) by (cases xs) auto
  have "dseg d' (Some x) (t_next (d x)) ys l n"
    by (rule dseg_cong [of d]) (use assms x in auto)
  then show ?thesis using assms x by simp
qed

definition tq_links :: "timer_queue \<Rightarrow> timer list \<Rightarrow> bool" where
  "tq_links q act =
     ((\<exists>l. dseg (tdata q) None (timers q) act l None) \<and> distinct act \<and>
      (\<forall>t. t \<notin> set act \<longrightarrow> t_prev (tdata q t) = None))"

lemma unlink_links:
  assumes "tq_links q act" "t \<in> set act"
  shows "tq_links (unlink_timer t q) (remove1 t act)"
proof -
  obtain xs ys where a: "act = xs @ t # ys" "t \<notin> set xs" using assms(2) by (meson split_list_first)
  have dis: "distinct xs" "distinct ys" "t \<notin> set ys" "set xs \<inter> set ys = {}"
    using assms(1) a unfolding tq_links_def by auto
  obtain l m where s: "dseg (tdata q) None (timers q) xs m (Some t)" "t_prev (tdata q t) = m"
      "dseg (tdata q) (Some t) (t_next (tdata q t)) ys l None"
    using assms(1) a(1) unfolding tq_links_def by (auto simp: dseg_append)
  let ?d = "tdata (unlink_timer t q)" and ?n = "t_next (tdata q t)"
  have m: "m = (if xs = [] then None else Some (last xs))" by (rule dseg_last [OF s(1)])
  have n: "?n = (if ys = [] then None else Some (hd ys))" using s(3) by (cases ys) auto
  have fs: "timers q = (if xs = [] then Some t else Some (hd xs))" using s(1) by (cases xs) auto
  have d: "?d u = (if u = t then (tdata q t)\<lparr>t_next := None, t_prev := None\<rparr>
      else if Some u = m then (tdata q u)\<lparr>t_next := ?n\<rparr>
      else if Some u = ?n then (tdata q u)\<lparr>t_prev := m\<rparr> else tdata q u)" for u
  proof -
    have "m \<noteq> Some t" "?n \<noteq> Some t" using m n a(2) dis(3) last_in_set [of xs] hd_in_set [of ys] by auto
    moreover have "last xs \<noteq> hd ys" if "xs \<noteq> []" "ys \<noteq> []"
      using that dis(4) by (metis disjoint_iff last_in_set hd_in_set)
    then have "m \<noteq> ?n \<or> m = None" using m n by auto
    ultimately show ?thesis
      by (cases m; cases ?n) (auto simp: unlink_timer_def Let_def upd_def s(2))
  qed
  have tm: "timers (unlink_timer t q) = (if xs = [] then ?n else timers q)"
    using fs a(2) hd_in_set [of xs]
    by (auto simp: unlink_timer_def Let_def upd_def split: option.split)
  have "\<exists>l. dseg ?d None (timers (unlink_timer t q)) (xs @ ys) l None"
  proof -
    have left: "dseg ?d None (timers (unlink_timer t q)) xs m ?n"
    proof (cases "xs = []")
      case False
      have "dseg ?d None (timers q) xs m ?n"
        by (rule dseg_set_next [OF s(1) dis(1) _ False]) (use d n dis(3,4) a(2) in \<open>auto simp: disjoint_iff\<close>)
      then show ?thesis using tm False by simp
    qed (use tm m in simp)
    have right: "dseg ?d m ?n ys l None" if "ys \<noteq> []"
      by (rule dseg_set_prev [OF s(3) dis(2) that]) (use d m a(2) dis(3,4) in \<open>auto simp: disjoint_iff\<close>)
    show ?thesis
    proof (cases "ys = []")
      case True
      then show ?thesis using left n by auto
    next
      case False
      then show ?thesis using left right unfolding dseg_append by blast
    qed
  qed
  moreover have "t_prev (?d u) = None" if "u \<notin> set (xs @ ys)" for u
  proof -
    have "u \<noteq> t \<Longrightarrow> t_prev (tdata q u) = None" using assms(1) that a(1) unfolding tq_links_def by auto
    moreover have "Some u \<noteq> m" "Some u \<noteq> ?n" using m n that last_in_set [of xs] hd_in_set [of ys] by auto
    ultimately show ?thesis using d by simp
  qed
  ultimately show ?thesis using a dis by (simp add: tq_links_def remove1_append)
qed

end
