(* ===== verification/Asio_Timer_Spec.thy ===== *)
theory Asio_Timer_Spec
  imports Asio_Timer
begin

text \<open>
  What each operation of the timer queue does to the set of alarms and the waiting operations, for
  queues that satisfy the invariant \<open>tq_inv\<close>. The locale \<open>alarm_queue\<close> is the interface a waiting
  coroutine relies on; it is interpreted on the code's operations.
\<close>

section \<open>What the operations do\<close>

definition alarms :: "timer_queue \<Rightarrow> (int \<times> timer) set" where
  "alarms q = set (heap q)"

definition waiting :: "timer_queue \<Rightarrow> timer \<Rightarrow> wait_op list" where
  "waiting q = (\<lambda>t. op_list (tdata q t))"

definition tq_heap :: "timer_queue \<Rightarrow> timer list \<Rightarrow> bool" where
  "tq_heap q act = (indexed q \<and> heap_ok (heap q) \<and> snd ` alarms q = set act)"

definition tq_inv :: "timer_queue \<Rightarrow> timer list \<Rightarrow> bool" where
  \<comment> \<open>the active timers are the ones in the list, the ones in the heap and the ones with waiting operations\<close>
  "tq_inv q act = (tq_links q act \<and> tq_heap q act \<and> (\<forall>t. waiting q t \<noteq> [] \<longleftrightarrow> t \<in> set act))"

definition tq_ok :: "timer_queue \<Rightarrow> bool" where
  "tq_ok q = (\<exists>act. tq_inv q act)"

lemma tq_init_ok: "tq_ok tq_init"
  unfolding tq_ok_def
  by (rule exI [of _ "[]"])
    (simp add: tq_inv_def tq_links_def tq_heap_def indexed_def heap_ok_def alarms_def waiting_def tq_init_def per_timer_init_def)

lemma active_iff:
  assumes "tq_links q act"
  shows "t \<in> set act \<longleftrightarrow> t_prev (tdata q t) \<noteq> None \<or> timers q = Some t"
proof -
  obtain l where s: "dseg (tdata q) None (timers q) act l None" using assms unfolding tq_links_def by blast
  show ?thesis
  proof
    assume "t \<in> set act"
    then obtain xs ys where a: "act = xs @ t # ys" by (auto dest: split_list)
    then obtain m where m: "dseg (tdata q) None (timers q) xs m (Some t)" "t_prev (tdata q t) = m"
      using s by (auto simp: dseg_append)
    then show "t_prev (tdata q t) \<noteq> None \<or> timers q = Some t"
      using dseg_last [OF m(1)] by (cases "xs = []") auto
  next
    assume "t_prev (tdata q t) \<noteq> None \<or> timers q = Some t"
    then show "t \<in> set act" using assms s unfolding tq_links_def by (cases act) auto
  qed
qed

lemma alarm_unique: "indexed q \<Longrightarrow> (d, t) \<in> alarms q \<Longrightarrow> (d', t) \<in> alarms q \<Longrightarrow> d = d'"
  unfolding alarms_def using indexed_distinct [of q] by (metis distinct_map inj_onD snd_conv prod.inject)

lemma links_frame:
  assumes "tq_links q act" "timers q' = timers q"
    and "\<And>u. t_next (tdata q' u) = t_next (tdata q u) \<and> t_prev (tdata q' u) = t_prev (tdata q u)"
  shows "tq_links q' act"
  using assms dseg_cong [of "tdata q" None "timers q" act _ None "tdata q'"] unfolding tq_links_def by metis

lemma unlink_frame:
  "heap (unlink_timer t q) = heap q"
  "op_list (tdata (unlink_timer t q) u) = op_list (tdata q u)"
  "heap_index (tdata (unlink_timer t q) u) = heap_index (tdata q u)"
  by (simp_all add: unlink_timer_def Let_def upd_def split: option.split)

lemma remove_timer_spec:
  assumes "tq_links q act" "tq_heap q act" "t \<in> set act"
  defines "q' \<equiv> remove_timer t q"
  shows "tq_links q' (remove1 t act) \<and> tq_heap q' (remove1 t act) \<and> waiting q' = waiting q \<and>
    alarms q' = {e \<in> alarms q. snd e \<noteq> t} \<and> length (heap q') = length (heap q) - 1"
proof -
  obtain d where d: "(d, t) \<in> set (heap q)" using assms(2,3) unfolding tq_heap_def alarms_def by force
  have h: "indexed (heap_remove t q)" "heap_ok (heap (heap_remove t q))" "dropped t q (heap_remove t q)"
    using heap_remove_spec [OF _ _ d] assms(2) unfolding tq_heap_def by auto
  have "tq_links (heap_remove t q) act" by (rule links_frame [OF assms(1)]) (use h(3) in \<open>simp_all add: dropped_def\<close>)
  then have l: "tq_links q' (remove1 t act)" unfolding q'_def remove_timer_def using assms(3) by (rule unlink_links)
  have dis: "distinct act" using assms(1) by (simp add: tq_links_def)
  have a: "alarms q' = {e \<in> alarms q. snd e \<noteq> t}"
    using h(3) by (simp add: alarms_def q'_def remove_timer_def unlink_frame dropped_def)
  have "snd ` alarms q' = set (remove1 t act)"
    using a assms(2) dis unfolding tq_heap_def by (auto simp: set_remove1_eq)
  moreover have "indexed q'" using h(1) by (simp add: indexed_def q'_def remove_timer_def unlink_frame)
  moreover have "heap_ok (heap q')" using h(2) by (simp add: q'_def remove_timer_def unlink_frame)
  moreover have "waiting q' = waiting q"
    using h(3) by (simp add: waiting_def q'_def remove_timer_def unlink_frame dropped_def)
  moreover have "length (heap q') = length (heap q) - 1"
    using h(3) by (simp add: q'_def remove_timer_def unlink_frame dropped_def)
  ultimately show ?thesis using l a by (simp add: tq_heap_def)
qed

lemma link_timer_spec:
  assumes "tq_links q act" "t \<notin> set act"
  shows "tq_links (link_timer t q) (t # act)" "heap (link_timer t q) = heap q"
    "op_list (tdata (link_timer t q) u) = op_list (tdata q u)"
    "heap_index (tdata (link_timer t q) u) = heap_index (tdata q u)"
proof -
  show "heap (link_timer t q) = heap q" "op_list (tdata (link_timer t q) u) = op_list (tdata q u)"
    "heap_index (tdata (link_timer t q) u) = heap_index (tdata q u)"
    by (simp_all add: link_timer_def Let_def upd_def split: option.split)
  obtain l where s: "dseg (tdata q) None (timers q) act l None" using assms(1) unfolding tq_links_def by blast
  have hd: "timers q = (if act = [] then None else Some (hd act))" using s by (cases act) auto
  let ?d = "tdata (link_timer t q)"
  have d: "?d u = (if Some u = timers q then (tdata q u)\<lparr>t_prev := Some t\<rparr>
      else if u = t then (tdata q t)\<lparr>t_next := timers q, t_prev := None\<rparr> else tdata q u)" for u
  proof -
    have "timers q \<noteq> Some t" using hd assms(2) hd_in_set [of act] by auto
    then show ?thesis by (cases "timers q") (auto simp: link_timer_def Let_def upd_def)
  qed
  have "\<exists>l. dseg ?d (Some t) (timers q) act l None"
  proof (cases "act = []")
    case False
    have "dseg ?d (Some t) (timers q) act l None"
      by (rule dseg_set_prev [OF s _ False]) (use d assms in \<open>auto simp: tq_links_def\<close>)
    then show ?thesis by blast
  qed (use hd in simp)
  moreover have "timers q \<noteq> Some t" using hd assms(2) hd_in_set [of act] by auto
  moreover have "t_prev (?d u) = None" if "u \<notin> set act" "u \<noteq> t" for u
    using that d hd assms(1) hd_in_set [of act] by (auto simp: tq_links_def)
  ultimately show "tq_links (link_timer t q) (t # act)"
    using assms d unfolding tq_links_def by (auto simp: link_timer_def Let_def)
qed

lemma up_heap_root:
  "indexed q \<Longrightarrow> 0 < k \<Longrightarrow> k < length (heap q) \<Longrightarrow> snd (heap (up_heap q k) ! 0) = snd (heap q ! k) \<Longrightarrow>
   fst (heap q ! k) < fst (heap q ! 0)"
proof (induction q k rule: up_heap.induct)
  case (1 q k)
  let ?p = "(k - 1) div 2"
  show ?case
  proof (cases "fst (heap q ! k) < fst (heap q ! ?p)")
    case False
    then have "up_heap q k = q" by (subst up_heap.simps) (auto simp: Let_def)
    then show ?thesis using 1 indexed_inj [of q 0 k] by fastforce
  next
    case True
    have p: "?p < length (heap q)" "?p < k" using "1.prems"(2,3) by auto
    note s = swap_spec [OF "1.prems"(1,3) p(1)]
    have e: "up_heap q k = up_heap (swap_heap q k ?p) ?p"
      using True "1.prems"(2) by (subst up_heap.simps) (simp add: Let_def)
    note n = swapped_nth [OF "1.prems"(3) p(1)]
    show ?thesis
    proof (cases "?p = 0")
      case False
      have v: "heap (swap_heap q k ?p) ! ?p = heap q ! k" "heap (swap_heap q k ?p) ! 0 = heap q ! 0"
        using n [OF p(1)] n [of 0] False p "1.prems"(3) s(3) by (cases "heap q"; force)+
      have "fst (heap (swap_heap q k ?p) ! ?p) < fst (heap (swap_heap q k ?p) ! 0)"
      proof (rule "1.IH" [OF "1.prems"(2) refl _ s(1)])
        show "\<not> \<not> fst (heap q ! k) < fst (heap q ! ?p)" using True by blast
        show "0 < ?p" using False by blast
        show "?p < length (heap (swap_heap q k ?p))" using p(1) by simp
        show "snd (heap (up_heap (swap_heap q k ?p) ?p) ! 0) = snd (heap (swap_heap q k ?p) ! ?p)"
          using "1.prems"(4) unfolding e v(1) .
      qed
      then show ?thesis using v by simp
    qed (use True in simp)
  qed
qed

lemma earliest_iff:
  \<comment> \<open>a new alarm is at the root of the heap if and only if it is before all others\<close>
  assumes a: "alarms q' = insert (time, t) (alarms q)" and ok: "heap_ok (heap q)" "heap_ok (heap q')"
    and root: "snd (heap q' ! 0) = t \<Longrightarrow> heap q \<noteq> [] \<Longrightarrow> time < fst (heap q ! 0)"
  shows "snd (heap q' ! 0) = t \<longleftrightarrow> (\<forall>e \<in> alarms q. time < fst e)"
proof
  assume r: "snd (heap q' ! 0) = t"
  show "\<forall>e \<in> alarms q. time < fst e"
  proof
    fix e assume "e \<in> alarms q"
    then obtain i where i: "i < length (heap q)" "heap q ! i = e" unfolding alarms_def by (metis in_set_conv_nth)
    then have "time < fst (heap q ! 0)" using root [OF r] by force
    also have "\<dots> \<le> fst e" using heap_first [OF ok(1) i(1)] i(2) by simp
    finally show "time < fst e" .
  qed
next
  assume all: "\<forall>e \<in> alarms q. time < fst e"
  obtain k where k: "k < length (heap q')" "heap q' ! k = (time, t)"
    using a unfolding alarms_def by (metis in_set_conv_nth insertI1)
  have "fst (heap q' ! 0) \<le> time" using heap_first [OF ok(2) k(1)] k(2) by simp
  moreover have "heap q' ! 0 \<in> alarms q'" unfolding alarms_def using k(1) by (intro nth_mem) auto
  then have "heap q' ! 0 \<in> insert (time, t) (alarms q)" unfolding a .
  ultimately show "snd (heap q' ! 0) = t" using all by force
qed

lemma enqueue_inactive:
  assumes "tq_inv q act" "t \<notin> set act" "enqueue_timer time t op q = (r, q')"
  shows "tq_inv q' (t # act)" "alarms q' = insert (time, t) (alarms q)" "waiting q' = (waiting q)(t := [op])"
    "r \<longleftrightarrow> (\<forall>e \<in> alarms q. time < fst e)"
proof -
  have L: "tq_links q act" and H: "tq_heap q act" and W: "\<And>u. waiting q u \<noteq> [] \<longleftrightarrow> u \<in> set act"
    using assms(1) by (simp_all add: tq_inv_def)
  let ?n = "length (heap q)"
  define q1 where "q1 = (upd t (\<lambda>d. d\<lparr>heap_index := ?n\<rparr>) q)\<lparr>heap := heap q @ [(time, t)]\<rparr>"
  define q2 where "q2 = up_heap q1 ?n"
  define q3 where "q3 = link_timer t q2"
  have t: "t_prev (tdata q t) = None" "timers q \<noteq> Some t" using active_iff [OF L] assms(2) by auto
  have q1: "length (heap q1) = Suc ?n" "heap q1 ! ?n = (time, t)" "heap q1 = heap q @ [(time, t)]"
    by (simp_all add: q1_def)
  have q': "q' = upd t (\<lambda>d. d\<lparr>op_list := op_list d @ [op]\<rparr>) q3"
    and r: "r \<longleftrightarrow> heap_index (tdata q' t) = 0 \<and> op_id (hd (op_list (tdata q' t))) = op_id op"
    using assms(3) t
    by (auto simp: enqueue_timer_def is_positive_infinity_def Let_def q1_def q2_def q3_def upd_def)
  have new: "t \<notin> snd ` set (heap q)" using H assms(2) by (simp add: tq_heap_def alarms_def)
  have i1: "indexed q1"
    using H new unfolding q1_def tq_heap_def indexed_def by (auto simp: upd_def nth_append image_iff)
  have u1: "up_ok (heap q1) ?n" unfolding q1(3) using H by (intro heap_ok_snoc) (simp add: tq_heap_def)
  from up_heap_spec [OF i1 u1]
  have q2: "indexed q2" "heap_ok (heap q2)" "shuffled q1 q2" using q1 by (simp_all add: q2_def)
  have "tq_links q1 act" by (rule links_frame [OF L]) (simp_all add: q1_def upd_def)
  then have L2: "tq_links q2 act" by (rule links_frame) (use q2(3) in \<open>simp_all add: shuffled_def\<close>)
  note q3 = link_timer_spec [OF L2 assms(2), folded q3_def]
  have h': "heap q' = heap q2" by (simp add: q' upd_def q3)
  have x': "heap_index (tdata q' u) = heap_index (tdata q2 u)" for u by (simp add: q' upd_def q3)
  have wt: "op_list (tdata q t) = []" using W [of t] assms(2) by (simp add: waiting_def)
  have o': "op_list (tdata q' u) = (if u = t then [op] else op_list (tdata q u))" for u
  proof -
    have "op_list (tdata q2 u) = op_list (tdata q u)" for u using q2(3) by (simp add: shuffled_def q1_def upd_def)
    then show ?thesis using wt by (simp add: q' upd_def q3)
  qed
  show a': "alarms q' = insert (time, t) (alarms q)"
  proof -
    have "set (heap q2) = set (heap q1)" using q2(3) unfolding shuffled_def by (metis mset_eq_setD)
    then show ?thesis unfolding alarms_def h' q1(3) by auto
  qed
  show "waiting q' = (waiting q)(t := [op])" by (rule ext) (simp add: waiting_def o')
  have L': "tq_links q' (t # act)" by (rule links_frame [OF q3(1)]) (simp_all add: q' upd_def)
  have H': "tq_heap q' (t # act)"
    using q2(1,2) H unfolding tq_heap_def a' by (auto simp: indexed_def h' x')
  show "tq_inv q' (t # act)"
    using L' H' W by (auto simp: tq_inv_def waiting_def o')
  have I': "indexed q'" "heap_ok (heap q')" using H' by (simp_all add: tq_heap_def)
  have r0: "r \<longleftrightarrow> snd (heap q' ! 0) = t"
  proof -
    obtain k where k: "k < length (heap q')" "heap q' ! k = (time, t)"
      using a' unfolding alarms_def by (metis in_set_conv_nth insertI1)
    then have "heap_index (tdata q' t) = k" using I'(1) unfolding indexed_def by (metis snd_conv)
    moreover have "k = 0 \<longleftrightarrow> snd (heap q' ! 0) = t" using k indexed_inj [OF I'(1) k(1), of 0] by force
    ultimately show ?thesis using r o' by simp
  qed
  have "time < fst (heap q ! 0)" if "snd (heap q' ! 0) = t" "heap q \<noteq> []"
  proof -
    have "fst (heap q1 ! ?n) < fst (heap q1 ! 0)"
      by (rule up_heap_root [OF i1]) (use that q1(1,2) h' q2_def in simp_all)
    then show ?thesis using q1(2,3) that(2) by (simp add: nth_append)
  qed
  from earliest_iff [OF a' _ I'(2) this] H show "r \<longleftrightarrow> (\<forall>e \<in> alarms q. time < fst e)"
    unfolding r0 by (simp add: tq_heap_def)
qed

lemma upd_ops_parts:
  assumes "tq_inv q act"
  shows "tq_links (upd t (\<lambda>d. d\<lparr>op_list := w\<rparr>) q) act" "tq_heap (upd t (\<lambda>d. d\<lparr>op_list := w\<rparr>) q) act"
    "waiting (upd t (\<lambda>d. d\<lparr>op_list := w\<rparr>) q) = (waiting q)(t := w)"
    "alarms (upd t (\<lambda>d. d\<lparr>op_list := w\<rparr>) q) = alarms q"
    "heap (upd t (\<lambda>d. d\<lparr>op_list := w\<rparr>) q) = heap q"
proof -
  have L: "tq_links q act" and H: "tq_heap q act" using assms by (simp_all add: tq_inv_def)
  show "tq_links (upd t (\<lambda>d. d\<lparr>op_list := w\<rparr>) q) act"
    by (rule links_frame [OF L]) (simp_all add: upd_def)
  show "tq_heap (upd t (\<lambda>d. d\<lparr>op_list := w\<rparr>) q) act"
    using H by (auto simp: tq_heap_def indexed_def alarms_def upd_def)
qed (auto simp: waiting_def alarms_def upd_def)

definition set_waiting :: "timer \<Rightarrow> wait_op list \<Rightarrow> timer_queue \<Rightarrow> timer_queue" where
  \<comment> \<open>how every operation ends that takes operations off a timer\<close>
  "set_waiting t w q =
     (let q = upd t (\<lambda>d. d\<lparr>op_list := w\<rparr>) q
      in if op_list (tdata q t) = [] then remove_timer t q else q)"

lemma set_waiting_spec:
  fixes w
  assumes "tq_inv q act" "t \<in> set act"
  defines "q' \<equiv> set_waiting t w q"
  shows "tq_inv q' (if w = [] then remove1 t act else act)" "waiting q' = (waiting q)(t := w)"
    "alarms q' = {e \<in> alarms q. snd e = t \<longrightarrow> w \<noteq> []}"
    "length (heap q') = length (heap q) - (if w = [] then 1 else 0)"
proof -
  note p = upd_ops_parts [OF assms(1), of t w]
  have W: "\<And>u. waiting q u \<noteq> [] \<longleftrightarrow> u \<in> set act" and dis: "distinct act"
    using assms(1) by (simp_all add: tq_inv_def tq_links_def)
  have t: "op_list (tdata (upd t (\<lambda>d. d\<lparr>op_list := w\<rparr>) q) t) = w" by (simp add: upd_def)
  note r = remove_timer_spec [OF p(1,2) assms(2)]
  have q': "q' = (if w = [] then remove_timer t (upd t (\<lambda>d. d\<lparr>op_list := w\<rparr>) q) else upd t (\<lambda>d. d\<lparr>op_list := w\<rparr>) q)"
    unfolding q'_def set_waiting_def using t by (simp add: Let_def)
  show "waiting q' = (waiting q)(t := w)" unfolding q' using r p(3) by (cases "w = []") simp_all
  then show "tq_inv q' (if w = [] then remove1 t act else act)"
    using r p W dis assms(2) unfolding q' by (auto simp: tq_inv_def)
  show "alarms q' = {e \<in> alarms q. snd e = t \<longrightarrow> w \<noteq> []}"
    unfolding q' using r p(4) by (cases "w = []") auto
  show "length (heap q') = length (heap q) - (if w = [] then 1 else 0)"
    unfolding q' using r p(5) by (cases "w = []") simp_all
qed

lemma cancel_active:
  assumes "tq_inv q act"
  shows "cancel_timer t ops mx q =
    (let n = min mx (length (waiting q t))
     in (n, ops @ map aborted (take n (waiting q t)), if t \<in> set act then set_waiting t (drop n (waiting q t)) q else q))"
    "cancel_timer_by_key t ops key q =
      (ops @ map aborted (filter (\<lambda>op. cancellation_key op = key) (waiting q t)),
       if t \<in> set act then set_waiting t (filter (\<lambda>op. cancellation_key op \<noteq> key) (waiting q t)) q else q)"
proof -
  have L: "tq_links q act" and W: "waiting q t \<noteq> [] \<longleftrightarrow> t \<in> set act" using assms by (simp_all add: tq_inv_def)
  note a = active_iff [OF L, of t]
  show "cancel_timer t ops mx q =
    (let n = min mx (length (waiting q t))
     in (n, ops @ map aborted (take n (waiting q t)), if t \<in> set act then set_waiting t (drop n (waiting q t)) q else q))"
    unfolding cancel_timer_def a [symmetric]
    by (cases "t \<in> set act") (use W in \<open>simp_all add: set_waiting_def waiting_def Let_def\<close>)
  show "cancel_timer_by_key t ops key q =
      (ops @ map aborted (filter (\<lambda>op. cancellation_key op = key) (waiting q t)),
       if t \<in> set act then set_waiting t (filter (\<lambda>op. cancellation_key op \<noteq> key) (waiting q t)) q else q)"
    unfolding cancel_timer_by_key_def a [symmetric]
    by (cases "t \<in> set act") (use W in \<open>simp_all add: set_waiting_def waiting_def Let_def\<close>)
qed

lemma remaining_spec:
  assumes "tq_ok q" "q' = (if waiting q t \<noteq> [] then set_waiting t w q else q)" "waiting q t = [] \<Longrightarrow> w = []"
  shows "tq_ok q' \<and> waiting q' = (waiting q)(t := w) \<and> alarms q' = {e \<in> alarms q. snd e = t \<longrightarrow> w \<noteq> []}"
proof -
  obtain act where i: "tq_inv q act" using assms(1) unfolding tq_ok_def by blast
  have W: "waiting q t \<noteq> [] \<longleftrightarrow> t \<in> set act" and A: "snd ` alarms q = set act"
    using i by (simp_all add: tq_inv_def tq_heap_def)
  show ?thesis
  proof (cases "t \<in> set act")
    case True
    then show ?thesis using set_waiting_spec [OF i True, of w] W assms(2) unfolding tq_ok_def by auto
  next
    case False
    then have "q' = q" "w = []" "\<forall>e \<in> alarms q. snd e \<noteq> t" using assms(2,3) W A by auto
    then show ?thesis using assms(1) False W by (auto simp: fun_upd_idem)
  qed
qed

section \<open>Expiry\<close>

lemma first_alarm:
  assumes "tq_inv q act" "heap q \<noteq> []"
  shows "heap q ! 0 \<in> alarms q" "snd (heap q ! 0) \<in> set act" "e \<in> alarms q \<Longrightarrow> fst (heap q ! 0) \<le> fst e"
proof -
  have H: "tq_heap q act" using assms(1) by (simp add: tq_inv_def)
  show "heap q ! 0 \<in> alarms q" using assms(2) by (simp add: alarms_def)
  then show "snd (heap q ! 0) \<in> set act" using H by (auto simp: tq_heap_def)
  assume "e \<in> alarms q"
  then obtain i where "i < length (heap q)" "heap q ! i = e" unfolding alarms_def by (metis in_set_conv_nth)
  then show "fst (heap q ! 0) \<le> fst e" using heap_first [of "heap q" i] H by (auto simp: tq_heap_def)
qed

definition expired :: "wait_op \<Rightarrow> wait_op" where
  "expired op = op\<lparr>op_ec := None\<rparr>"

lemma ready_loop_spec:
  "tq_inv q act \<Longrightarrow>
   \<exists>es q'. ready_loop now ops q = Some (ops @ concat (map (\<lambda>e. map expired (waiting q (snd e))) es), q') \<and>
     sorted (map fst es) \<and> distinct (map snd es) \<and> set es = {e \<in> alarms q. fst e \<le> now} \<and>
     tq_ok q' \<and> alarms q' = {e \<in> alarms q. now < fst e} \<and>
     (\<forall>u. waiting q' u = (if u \<in> snd ` set es then [] else waiting q u))"
proof (induction "length (heap q)" arbitrary: q act ops)
  case 0
  then have "heap q = []" by simp
  then show ?case using "0.prems"
    by (intro exI [of _ "[]"] exI [of _ q]) (auto simp: ready_loop.simps alarms_def tq_ok_def)
next
  case (Suc n)
  then have ne: "heap q \<noteq> []" by auto
  define e where "e = heap q ! 0"
  define t where "t = snd e"
  note f = first_alarm [OF Suc.prems ne, folded e_def]
  show ?case
  proof (cases "now < fst e")
    case True
    have "\<not> fst a \<le> now" if "a \<in> alarms q" for a using f(3) [OF that] True by simp
    then show ?thesis using Suc.prems True
      by (intro exI [of _ "[]"] exI [of _ q]) (auto simp: ready_loop.simps e_def tq_ok_def not_le)
  next
    case False
    have ta: "t \<in> set act" using f(2) by (simp add: t_def)
    define q1 where "q1 = set_waiting t [] q"
    note s = set_waiting_spec [OF Suc.prems ta, of "[]", folded q1_def]
    have step: "ready_loop now ops q = ready_loop now (ops @ map expired (waiting q t)) q1"
      using ne False
      by (subst ready_loop.simps)
        (simp add: Let_def e_def t_def q1_def set_waiting_def waiting_def upd_def expired_def [abs_def])
    have I: "tq_inv q1 (remove1 t act)" and l: "n = length (heap q1)" using s(1,4) Suc(2) by simp_all
    obtain es q' where es:
      "ready_loop now (ops @ map expired (waiting q t)) q1 =
        Some ((ops @ map expired (waiting q t)) @ concat (map (\<lambda>e. map expired (waiting q1 (snd e))) es), q')"
      "sorted (map fst es)" "distinct (map snd es)" "set es = {e \<in> alarms q1. fst e \<le> now}"
      "tq_ok q'" "alarms q' = {e \<in> alarms q1. now < fst e}"
      "\<And>u. waiting q' u = (if u \<in> snd ` set es then [] else waiting q1 u)"
      using Suc(1) [OF l I] by blast
    have a1: "alarms q1 = alarms q - {e}"
      using s(3) f(1) alarm_unique [of q "fst e" t] Suc.prems
      by (auto simp: t_def tq_inv_def tq_heap_def) (metis alarm_unique prod.collapse)
    have tn: "t \<notin> snd ` set es" using es(4) s(3) by auto
    have w: "waiting q1 (snd x) = waiting q (snd x)" if "x \<in> set es" for x
      using s(2) tn that by (auto simp: image_iff)
    have c: "map (\<lambda>e. map expired (waiting q1 (snd e))) es = map (\<lambda>e. map expired (waiting q (snd e))) es"
      using w by simp
    show ?thesis
    proof (intro exI [of _ "e # es"] exI [of _ q'] conjI allI)
      show "ready_loop now ops q = Some (ops @ concat (map (\<lambda>e. map expired (waiting q (snd e))) (e # es)), q')"
        using step es(1) c by (simp add: t_def)
      show "sorted (map fst (e # es))" using es(2,4) f(3) a1 by auto
      show "distinct (map snd (e # es))" using es(3) tn by (simp add: t_def)
      show "set (e # es) = {e \<in> alarms q. fst e \<le> now}"
        unfolding list.set es(4) a1 using f(1) False by (auto simp del: split_paired_All)
      show "alarms q' = {e \<in> alarms q. now < fst e}"
        unfolding es(6) a1 using False by (auto simp del: split_paired_All)
      show "waiting q' u = (if u \<in> snd ` set (e # es) then [] else waiting q u)" for u
        unfolding es(7) s(2) by (simp add: t_def)
    qed (rule es(5))
  qed
qed

section \<open>Emptying the queue and moving a timer\<close>

lemma all_loop_spec:
  "dseg (tdata q) prev (timers q) act l None \<Longrightarrow> distinct act \<Longrightarrow>
   \<exists>q'. all_loop ops q = Some (ops @ concat (map (waiting q) act), q') \<and> timers q' = None \<and> heap q' = heap q \<and>
     (\<forall>u. tdata q' u = (if u \<in> set act then (tdata q u)\<lparr>op_list := [], t_next := None, t_prev := None\<rparr> else tdata q u))"
proof (induction act arbitrary: prev q ops)
  case Nil
  then show ?case by (subst all_loop.simps) simp
next
  case (Cons t act)
  define q1 where "q1 = upd t (\<lambda>d. d\<lparr>op_list := [], t_next := None, t_prev := None\<rparr>) (q\<lparr>timers := t_next (tdata q t)\<rparr>)"
  have "dseg (tdata q) (Some t) (t_next (tdata q t)) act l None" "t \<notin> set act" "distinct act" "timers q = Some t"
    using Cons.prems by simp_all
  moreover from this have "dseg (tdata q1) (Some t) (timers q1) act l None"
    by (auto simp: q1_def upd_def intro: dseg_cong [of "tdata q"])
  ultimately obtain q' where q':
    "all_loop (ops @ waiting q t) q1 = Some ((ops @ waiting q t) @ concat (map (waiting q1) act), q')"
    "timers q' = None" "heap q' = heap q1"
    "\<And>u. tdata q' u = (if u \<in> set act then (tdata q1 u)\<lparr>op_list := [], t_next := None, t_prev := None\<rparr> else tdata q1 u)"
    using Cons.IH [of q1 "Some t" "ops @ waiting q t"] by blast
  have e: "all_loop ops q = all_loop (ops @ waiting q t) q1"
    using \<open>timers q = Some t\<close> by (subst all_loop.simps) (simp add: q1_def waiting_def Let_def upd_def)
  have m: "map (waiting q1) act = map (waiting q) act"
    using \<open>t \<notin> set act\<close> by (auto simp: q1_def waiting_def upd_def)
  have h: "heap q1 = heap q"
    "tdata q1 u = (if u = t then (tdata q t)\<lparr>op_list := [], t_next := None, t_prev := None\<rparr> else tdata q u)" for u
    by (simp_all add: q1_def upd_def)
  show ?case
  proof (intro exI [of _ q'] conjI allI)
    show "all_loop ops q = Some (ops @ concat (map (waiting q) (t # act)), q')" unfolding e q'(1) m by simp
    show "tdata q' u = (if u \<in> set (t # act) then (tdata q u)\<lparr>op_list := [], t_next := None, t_prev := None\<rparr>
      else tdata q u)" for u unfolding q'(4) h(2) by simp
  qed (use q' h in simp_all)
qed

lemma get_all_spec:
  assumes "tq_inv q act"
  shows "\<exists>q'. get_all_timers ops q = Some (ops @ concat (map (waiting q) act), q') \<and> tq_inv q' [] \<and>
    alarms q' = {} \<and> waiting q' = (\<lambda>_. [])"
proof -
  obtain l where s: "dseg (tdata q) None (timers q) act l None" "distinct act"
    using assms unfolding tq_inv_def tq_links_def by blast
  obtain q' where q': "all_loop ops q = Some (ops @ concat (map (waiting q) act), q')" "timers q' = None"
    "\<And>u. tdata q' u = (if u \<in> set act then (tdata q u)\<lparr>op_list := [], t_next := None, t_prev := None\<rparr> else tdata q u)"
    using all_loop_spec [OF s] by blast
  have W: "op_list (tdata q u) = []" "t_prev (tdata q u) = None" if "u \<notin> set act" for u
    using assms that by (auto simp: tq_inv_def waiting_def tq_links_def)
  have "tq_inv (q'\<lparr>heap := []\<rparr>) []"
    using q'(2,3) W by (auto simp: tq_inv_def tq_links_def tq_heap_def indexed_def heap_ok_def alarms_def waiting_def)
  moreover have "waiting (q'\<lparr>heap := []\<rparr>) = (\<lambda>_. [])" using q'(3) W by (auto simp: waiting_def)
  ultimately show ?thesis using q'(1) by (simp add: get_all_timers_def alarms_def)
qed

lemma upd_tdata: "tdata (upd t f q) u = (if u = t then f (tdata q t) else tdata q u)"
  by (simp add: upd_def)

lemma move_entry_data:
  assumes "target \<noteq> source"
  shows "tdata (move_entry target source q) u =
     (if u = target then (tdata q target)\<lparr>op_list := op_list (tdata q target) @ op_list (tdata q source),
         heap_index := heap_index (tdata q source)\<rparr>
      else if u = source then (tdata q source)\<lparr>op_list := [], heap_index := no_index\<rparr>
      else tdata q u)"
    "timers (move_entry target source q) = timers q"
    "heap (move_entry target source q) =
      (let index = heap_index (tdata q source)
       in if index < length (heap q) then (heap q)[index := (fst (heap q ! index), target)] else heap q)"
  using assms by (auto simp: move_entry_def Let_def upd_def)

lemma move_links_data:
  assumes "target \<noteq> source" "t_prev (tdata q source) = p" "t_next (tdata q source) = n"
    and "p \<noteq> Some source" "p \<noteq> Some target" "n \<noteq> Some source" "n \<noteq> Some target" "p \<noteq> n \<or> p = None"
  shows "tdata (move_links target source q) u =
     (if u = target then (tdata q target)\<lparr>t_next := n, t_prev := p\<rparr>
      else if u = source then (tdata q source)\<lparr>t_next := None, t_prev := None\<rparr>
      else if Some u = p then (tdata q u)\<lparr>t_next := Some target\<rparr>
      else if Some u = n then (tdata q u)\<lparr>t_prev := Some target\<rparr> else tdata q u)"
proof -
  define q1 where "q1 = (if timers q = Some source then q\<lparr>timers := Some target\<rparr> else q)"
  define q2 where "q2 = (case p of Some p \<Rightarrow> upd p (\<lambda>d. d\<lparr>t_next := Some target\<rparr>) q1 | None \<Rightarrow> q1)"
  define q3 where "q3 = (case n of Some n \<Rightarrow> upd n (\<lambda>d. d\<lparr>t_prev := Some target\<rparr>) q2 | None \<Rightarrow> q2)"
  have q1: "tdata q1 = tdata q" by (simp add: q1_def)
  have q2: "tdata q2 u = (if Some u = p then (tdata q u)\<lparr>t_next := Some target\<rparr> else tdata q u)" for u
    by (cases p) (auto simp: q2_def q1 upd_tdata)
  have q3: "tdata q3 u = (if Some u = p then (tdata q u)\<lparr>t_next := Some target\<rparr>
      else if Some u = n then (tdata q u)\<lparr>t_prev := Some target\<rparr> else tdata q u)" for u
    using assms(8) by (cases n) (auto simp: q3_def q2 upd_tdata)
  have src: "tdata q3 source = tdata q source" "tdata q3 target = tdata q target"
    using q3 [of source] q3 [of target] assms(4-7) by auto
  have ptr: "t_next (tdata q2 source) = n" "t_prev (tdata q1 source) = p"
    using q2 [of source] assms(2-7) q1 by auto
  have "move_links target source q = upd source (\<lambda>d. d\<lparr>t_next := None, t_prev := None\<rparr>)
      (upd target (\<lambda>d. d\<lparr>t_next := n, t_prev := p\<rparr>) q3)"
    unfolding move_links_def Let_def q1_def [symmetric] ptr(2) q2_def [symmetric] ptr(1) q3_def [symmetric]
      src(1) assms(2,3) ..
  then show ?thesis using src q3 [of u] assms(1) by (auto simp: upd_tdata)
qed

lemma move_timer_data:
  assumes "target \<noteq> source" "t_prev (tdata q source) = p" "t_next (tdata q source) = n"
    and "p \<noteq> Some source" "p \<noteq> Some target" "n \<noteq> Some source" "n \<noteq> Some target" "p \<noteq> n \<or> p = None"
  shows "tdata (move_timer target source q) u =
     (if u = target then \<lparr>op_list = op_list (tdata q target) @ op_list (tdata q source),
         heap_index = heap_index (tdata q source), t_next = n, t_prev = p\<rparr>
      else if u = source then \<lparr>op_list = [], heap_index = no_index, t_next = None, t_prev = None\<rparr>
      else if Some u = p then (tdata q u)\<lparr>t_next := Some target\<rparr>
      else if Some u = n then (tdata q u)\<lparr>t_prev := Some target\<rparr> else tdata q u)"
proof -
  have e: "t_prev (tdata (move_entry target source q) source) = p" "t_next (tdata (move_entry target source q) source) = n"
    using move_entry_data(1) [OF assms(1), of q source] assms(1-3) by simp_all
  show ?thesis
    unfolding move_timer_def move_links_data [OF assms(1) e assms(4-8)] move_entry_data(1) [OF assms(1)]
    using assms(1) by simp
qed

lemma move_timer_rest:
  assumes "target \<noteq> source"
  shows "heap (move_timer target source q) =
     (let index = heap_index (tdata q source)
      in if index < length (heap q) then (heap q)[index := (fst (heap q ! index), target)] else heap q)"
    "timers (move_timer target source q) = (if timers q = Some source then Some target else timers q)"
proof -
  have "heap (move_links target source q) = heap q"
    "timers (move_links target source q) = (if timers q = Some source then Some target else timers q)" for q
    by (simp_all add: move_links_def Let_def upd_def split: option.split)
  then show "heap (move_timer target source q) =
     (let index = heap_index (tdata q source)
      in if index < length (heap q) then (heap q)[index := (fst (heap q ! index), target)] else heap q)"
    "timers (move_timer target source q) = (if timers q = Some source then Some target else timers q)"
    using move_entry_data(2,3) [OF assms, of q] by (simp_all add: move_timer_def)
qed

definition renamed :: "timer \<Rightarrow> timer \<Rightarrow> timer \<Rightarrow> timer" where
  "renamed target source u = (if u = source then target else u)"

lemma move_links_ok:
  assumes "tq_links q act" "source \<in> set act" "target \<notin> set act" "waiting q target = []"
  defines "q' \<equiv> move_timer target source q"
  shows "tq_links q' (map (renamed target source) act)"
    "waiting q' = (waiting q)(target := waiting q source, source := [])"
    "\<And>u. u \<noteq> target \<Longrightarrow> heap_index (tdata q' (renamed target source u)) = heap_index (tdata q u)"
proof -
  note L = assms(1)
  have ne: "target \<noteq> source" using assms(2,3) by auto
  obtain xs ys where a: "act = xs @ source # ys" "source \<notin> set xs" using assms(2) by (meson split_list_first)
  have dis: "distinct xs" "distinct ys" "source \<notin> set ys" "set xs \<inter> set ys = {}" "target \<notin> set xs" "target \<notin> set ys"
    using L a assms(3) unfolding tq_links_def by auto
  obtain l p where s: "dseg (tdata q) None (timers q) xs p (Some source)" "t_prev (tdata q source) = p"
      "dseg (tdata q) (Some source) (t_next (tdata q source)) ys l None"
    using L a(1) unfolding tq_links_def by (auto simp: dseg_append)
  let ?n = "t_next (tdata q source)"
  have p: "p = (if xs = [] then None else Some (last xs))" by (rule dseg_last [OF s(1)])
  have n: "?n = (if ys = [] then None else Some (hd ys))" using s(3) by (cases ys) auto
  have fs: "timers q = (if xs = [] then Some source else Some (hd xs))" using s(1) by (cases xs) auto
  have x: "xs \<noteq> [] \<Longrightarrow> last xs \<in> set xs" "xs \<noteq> [] \<Longrightarrow> hd xs \<in> set xs" "ys \<noteq> [] \<Longrightarrow> hd ys \<in> set ys" by simp_all
  have pn: "p \<noteq> Some source" "p \<noteq> Some target" "?n \<noteq> Some source" "?n \<noteq> Some target" "p \<noteq> ?n \<or> p = None"
    using p n a(2) dis(3-6) x by (metis disjoint_iff option.inject option.distinct(1))+
  note d = move_timer_data [OF ne s(2) refl pn(1,2,3,4,5), folded q'_def]
  have tm: "timers q' = (if xs = [] then Some target else timers q)"
    using fs a(2) x(2) by (auto simp: q'_def move_timer_rest [OF ne])
  have "\<forall>u. waiting q' u = ((waiting q)(target := waiting q source, source := [])) u"
    using d assms(4) ne by (simp add: waiting_def)
  then show "waiting q' = (waiting q)(target := waiting q source, source := [])" by blast
  show "u \<noteq> target \<Longrightarrow> heap_index (tdata q' (renamed target source u)) = heap_index (tdata q u)" for u
    using d by (simp add: renamed_def)
  have "\<exists>l. dseg (tdata q') None (timers q') (xs @ target # ys) l None"
  proof -
    have left: "dseg (tdata q') None (timers q') xs p (Some target)"
    proof (cases "xs = []")
      case False
      have "dseg (tdata q') None (timers q) xs p (Some target)"
        by (rule dseg_set_next [OF s(1) dis(1) _ False]) (use d n dis a(2) x(3) in \<open>auto simp: disjoint_iff\<close>)
      then show ?thesis using tm False by simp
    qed (use tm p in simp)
    have right: "dseg (tdata q') (Some target) ?n ys l None" if "ys \<noteq> []"
      by (rule dseg_set_prev [OF s(3) dis(2) that]) (use d p a(2) dis x(1) in \<open>auto simp: disjoint_iff\<close>)
    have "t_prev (tdata q' target) = p" "t_next (tdata q' target) = ?n" using d by simp_all
    then show ?thesis using left right n by (cases "ys = []") (auto simp: dseg_append)
  qed
  moreover have ren: "map (renamed target source) act = xs @ target # ys"
    using a(1,2) dis(3) by (auto simp: renamed_def intro!: map_idI)
  moreover have "t_prev (tdata q' u) = None" if "u \<notin> set (xs @ target # ys)" for u
  proof -
    have "u \<noteq> source \<Longrightarrow> t_prev (tdata q u) = None" using L that a(1) unfolding tq_links_def by auto
    moreover have "Some u \<noteq> ?n" using that n x(3) by auto
    ultimately show ?thesis using d that by auto
  qed
  ultimately show "tq_links q' (map (renamed target source) act)" using dis by (simp add: tq_links_def)
qed

lemma move_heap_ok:
  assumes "tq_heap q act" "source \<in> set act" "target \<notin> set act"
    and index: "\<And>u. u \<noteq> target \<Longrightarrow> heap_index (tdata (move_timer target source q) (renamed target source u)) = heap_index (tdata q u)"
  defines "q' \<equiv> move_timer target source q"
  shows "tq_heap q' (map (renamed target source) act)"
    "alarms q' = (\<lambda>e. (fst e, renamed target source (snd e))) ` alarms q"
proof -
  note H = assms(1)
  have ne: "target \<noteq> source" using assms(2,3) by auto
  obtain dl where "(dl, source) \<in> set (heap q)" using H assms(2) unfolding tq_heap_def alarms_def by force
  then obtain k where k: "k < length (heap q)" "heap q ! k = (dl, source)" by (metis in_set_conv_nth)
  have I: "indexed q" "heap_ok (heap q)" using H by (simp_all add: tq_heap_def)
  have ki: "heap_index (tdata q source) = k" using I(1) k unfolding indexed_def by (metis snd_conv)
  have h: "heap q' = map (\<lambda>e. (fst e, renamed target source (snd e))) (heap q)"
  proof (rule nth_equalityI)
    fix i assume "i < length (heap q')"
    then have i: "i < length (heap q)" using k(1) ki by (simp add: q'_def move_timer_rest [OF ne] Let_def)
    have "i = k \<or> snd (heap q ! i) \<noteq> source" using indexed_inj [OF I(1) i k(1)] k(2) by auto
    then show "heap q' ! i = map (\<lambda>e. (fst e, renamed target source (snd e))) (heap q) ! i"
      using i k ki by (auto simp: q'_def move_timer_rest [OF ne] Let_def renamed_def nth_list_update)
  qed (use k(1) ki in \<open>simp add: q'_def move_timer_rest [OF ne] Let_def\<close>)
  then show a': "alarms q' = (\<lambda>e. (fst e, renamed target source (snd e))) ` alarms q" by (simp add: alarms_def)
  have "indexed q'"
    unfolding indexed_def
  proof (intro allI impI)
    fix i assume "i < length (heap q')"
    then have i: "i < length (heap q)" by (simp add: h)
    have "snd (heap q ! i) \<in> set act" using H i unfolding tq_heap_def alarms_def by force
    then have "snd (heap q ! i) \<noteq> target" using assms(3) by auto
    then have "heap_index (tdata q' (renamed target source (snd (heap q ! i)))) = heap_index (tdata q (snd (heap q ! i)))"
      using index by (simp add: q'_def)
    then show "heap_index (tdata q' (snd (heap q' ! i))) = i" using I(1) i by (simp add: h indexed_def)
  qed
  moreover have "heap_ok (heap q')" using I(2) unfolding h heap_ok_def by (auto simp: less_imp_diff_less)
  moreover have "snd ` alarms q' = set (map (renamed target source) act)"
    using H unfolding a' tq_heap_def by (force simp: image_image)
  ultimately show "tq_heap q' (map (renamed target source) act)" by (simp add: tq_heap_def)
qed

lemma move_spec:
  assumes "tq_inv q act" "source \<in> set act" "target \<notin> set act"
  defines "q' \<equiv> move_timer target source q"
  shows "tq_inv q' (map (renamed target source) act)"
    "alarms q' = (\<lambda>e. (fst e, renamed target source (snd e))) ` alarms q"
    "waiting q' = (waiting q)(target := waiting q source, source := [])"
proof -
  have L: "tq_links q act" and H: "tq_heap q act" and W: "\<And>u. waiting q u \<noteq> [] \<longleftrightarrow> u \<in> set act"
    using assms(1) by (simp_all add: tq_inv_def)
  have ne: "target \<noteq> source" and "waiting q target = []" using assms(2,3) W [of target] by auto
  note l = move_links_ok [OF L assms(2,3) this(2), folded q'_def]
  note h = move_heap_ok [OF H assms(2,3) l(3) [unfolded q'_def], folded q'_def]
  show "alarms q' = (\<lambda>e. (fst e, renamed target source (snd e))) ` alarms q" by (rule h(2))
  show w': "waiting q' = (waiting q)(target := waiting q source, source := [])" by (rule l(2))
  have "set (map (renamed target source) act) = insert target (set act - {source})"
    using assms(2,3) by (auto simp: renamed_def)
  then have "waiting q' u \<noteq> [] \<longleftrightarrow> u \<in> set (map (renamed target source) act)" for u
    using W [of u] W [of source] assms(2) ne unfolding w' by (simp del: set_map)
  then show "tq_inv q' (map (renamed target source) act)" using l(1) h(1) by (simp add: tq_inv_def)
qed

section \<open>The interface of a waiting coroutine\<close>

locale alarm_queue =
  fixes good :: "'q \<Rightarrow> bool"
    and due :: "'q \<Rightarrow> (int \<times> 't) set"
    and pend :: "'q \<Rightarrow> 't \<Rightarrow> 'op list"
    and arm :: "int \<Rightarrow> 't \<Rightarrow> 'op \<Rightarrow> 'q \<Rightarrow> 'q"
    and fire :: "int \<Rightarrow> 'q \<Rightarrow> ('op list \<times> 'q) option"
    and fired :: "'op \<Rightarrow> 'op"
  assumes arm_law: "good q \<Longrightarrow> pend q t = [] \<Longrightarrow>
      good (arm d t op q) \<and> due (arm d t op q) = insert (d, t) (due q) \<and> pend (arm d t op q) = (pend q)(t := [op])"
    and fire_law: "good q \<Longrightarrow>
      \<exists>out q'. fire now q = Some (out, q') \<and> good q' \<and> due q' = {e \<in> due q. now < fst e} \<and>
        (\<forall>t. pend q' t = (if \<exists>d \<le> now. (d, t) \<in> due q then [] else pend q t)) \<and>
        set out = {fired op | op d t. (d, t) \<in> due q \<and> d \<le> now \<and> op \<in> set (pend q t)}"
    and idle_law: "good q \<Longrightarrow> pend q t = [] \<Longrightarrow> (d, t) \<notin> due q"
begin

lemma not_before:
  assumes "good q" "pend q t = []" "now < d"
  shows "\<exists>out q'. fire now (arm d t op q) = Some (out, q') \<and> good q' \<and> (d, t) \<in> due q' \<and> pend q' t = [op]"
proof -
  note a = arm_law [OF assms(1,2), of d op]
  obtain out q' where f: "fire now (arm d t op q) = Some (out, q')" "good q'"
    "due q' = {e \<in> due (arm d t op q). now < fst e}"
    "pend q' t = (if \<exists>d' \<le> now. (d', t) \<in> due (arm d t op q) then [] else pend (arm d t op q) t)"
    using fire_law [of "arm d t op q" now] a by blast
  have "\<not> (\<exists>d' \<le> now. (d', t) \<in> due (arm d t op q))" using a idle_law [OF assms(1,2)] assms(3) by auto
  then show ?thesis using f a assms(3) by auto
qed

lemma when_due:
  assumes "good q" "(d, t) \<in> due q" "pend q t = [op]" "d \<le> now"
  shows "\<exists>out q'. fire now q = Some (out, q') \<and> good q' \<and> fired op \<in> set out \<and> pend q' t = []"
proof -
  obtain out q' where f: "fire now q = Some (out, q')" "good q'"
    "pend q' t = (if \<exists>d' \<le> now. (d', t) \<in> due q then [] else pend q t)"
    "set out = {fired op | op d t. (d, t) \<in> due q \<and> d \<le> now \<and> op \<in> set (pend q t)}"
    using fire_law [OF assms(1), of now] by blast
  have "op \<in> set (pend q t)" using assms(3) by simp
  then have "fired op \<in> set out" unfolding f(4) using assms(2,4) by blast
  then show ?thesis using f assms(2,4) by auto
qed

lemma armed_fires:
  \<comment> \<open>looked at too early and then in time\<close>
  assumes "good q" "pend q t = []" "early < d" "d \<le> late"
  shows "\<exists>out1 q1 out2 q2. fire early (arm d t op q) = Some (out1, q1) \<and> pend q1 t = [op] \<and>
    fire late q1 = Some (out2, q2) \<and> fired op \<in> set out2 \<and> pend q2 t = [] \<and> good q2"
proof -
  obtain out1 q1 where 1: "fire early (arm d t op q) = Some (out1, q1)" "good q1" "(d, t) \<in> due q1" "pend q1 t = [op]"
    using not_before [OF assms(1-3)] by blast
  obtain out2 q2 where "fire late q1 = Some (out2, q2)" "good q2" "fired op \<in> set out2" "pend q2 t = []"
    using when_due [OF 1(2-4) assms(4)] by blast
  then show ?thesis using 1 by blast
qed

end

lemma get_ready_spec:
  assumes "tq_ok q"
  shows "\<exists>es q'. get_ready_timers now ops q = Some (ops @ concat (map (\<lambda>e. map expired (waiting q (snd e))) es), q') \<and>
     sorted (map fst es) \<and> distinct (map snd es) \<and> set es = {e \<in> alarms q. fst e \<le> now} \<and>
     tq_ok q' \<and> alarms q' = {e \<in> alarms q. now < fst e} \<and>
     (\<forall>u. waiting q' u = (if u \<in> snd ` set es then [] else waiting q u))"
proof -
  obtain act where i: "tq_inv q act" using assms unfolding tq_ok_def by blast
  show ?thesis
  proof (cases "heap q = []")
    case True
    then show ?thesis using assms
      by (intro exI [of _ "[]"] exI [of _ q]) (auto simp: get_ready_timers_def alarms_def)
  qed (use ready_loop_spec [OF i] in \<open>simp add: get_ready_timers_def\<close>)
qed

lemma enqueue_idle:
  assumes "tq_ok q" "waiting q t = []"
  shows "tq_ok (snd (enqueue_timer time t op q)) \<and>
    alarms (snd (enqueue_timer time t op q)) = insert (time, t) (alarms q) \<and>
    waiting (snd (enqueue_timer time t op q)) = (waiting q)(t := [op]) \<and>
    (fst (enqueue_timer time t op q) \<longleftrightarrow> (\<forall>e \<in> alarms q. time < fst e))"
proof -
  obtain act where i: "tq_inv q act" using assms(1) unfolding tq_ok_def by blast
  then have n: "t \<notin> set act" using assms(2) by (auto simp: tq_inv_def)
  show ?thesis
    using enqueue_inactive [OF i n, of time op "fst (enqueue_timer time t op q)" "snd (enqueue_timer time t op q)"]
    unfolding tq_ok_def by auto
qed

interpretation timer: alarm_queue tq_ok alarms waiting "\<lambda>d t op q. snd (enqueue_timer d t op q)"
  "\<lambda>now. get_ready_timers now []" expired
proof unfold_locales
  fix q :: timer_queue and t d and op :: wait_op
  assume "tq_ok q" "waiting q t = []"
  then show "tq_ok (snd (enqueue_timer d t op q)) \<and> alarms (snd (enqueue_timer d t op q)) = insert (d, t) (alarms q) \<and>
      waiting (snd (enqueue_timer d t op q)) = (waiting q)(t := [op])" using enqueue_idle by blast
next
  fix q :: timer_queue and now
  assume "tq_ok q"
  from get_ready_spec [OF this, of now "[]"] obtain es q' where
    f: "get_ready_timers now [] q = Some (concat (map (\<lambda>e. map expired (waiting q (snd e))) es), q')"
      "set es = {e \<in> alarms q. fst e \<le> now}" "tq_ok q'" "alarms q' = {e \<in> alarms q. now < fst e}"
      "\<And>u. waiting q' u = (if u \<in> snd ` set es then [] else waiting q u)" by auto
  have "t \<in> snd ` set es \<longleftrightarrow> (\<exists>d \<le> now. (d, t) \<in> alarms q)" for t unfolding f(2) by force
  moreover have "set (concat (map (\<lambda>e. map expired (waiting q (snd e))) es)) =
      {expired op | op d t. (d, t) \<in> alarms q \<and> d \<le> now \<and> op \<in> set (waiting q t)}"
    unfolding set_concat set_map f(2) by force
  ultimately show "\<exists>out q'. get_ready_timers now [] q = Some (out, q') \<and> tq_ok q' \<and> alarms q' = {e \<in> alarms q. now < fst e} \<and>
      (\<forall>t. waiting q' t = (if \<exists>d \<le> now. (d, t) \<in> alarms q then [] else waiting q t)) \<and>
      set out = {expired op | op d t. (d, t) \<in> alarms q \<and> d \<le> now \<and> op \<in> set (waiting q t)}"
    using f by (intro exI [of _ "concat (map (\<lambda>e. map expired (waiting q (snd e))) es)"] exI [of _ q']) simp
next
  fix q :: timer_queue and t d
  assume "tq_ok q" "waiting q t = []"
  then show "(d, t) \<notin> alarms q" unfolding tq_ok_def tq_inv_def tq_heap_def by force
qed

section \<open>The operations\<close>

lemma enqueue_active_queue:
  assumes "tq_ok q" "waiting q t \<noteq> []"
  shows "tq_ok (snd (enqueue_timer time t op q)) \<and> alarms (snd (enqueue_timer time t op q)) = alarms q \<and>
    waiting (snd (enqueue_timer time t op q)) = (waiting q)(t := waiting q t @ [op]) \<and>
    fst (enqueue_timer time t op q) = (heap_index (tdata q t) = 0 \<and> op_id (hd (waiting q t)) = op_id op)"
proof -
  obtain act where i: "tq_inv q act" using assms(1) unfolding tq_ok_def by blast
  then have L: "tq_links q act" and W: "\<And>u. waiting q u \<noteq> [] \<longleftrightarrow> u \<in> set act" by (auto simp: tq_inv_def)
  have t: "t \<in> set act" using W assms(2) by blast
  have e: "snd (enqueue_timer time t op q) = upd t (\<lambda>d. d\<lparr>op_list := waiting q t @ [op]\<rparr>) q"
    using active_iff [OF L, of t] t by (auto simp: enqueue_timer_def Let_def waiting_def upd_def)
  have "fst (enqueue_timer time t op q) = (heap_index (tdata q t) = 0 \<and> op_id (hd (waiting q t)) = op_id op)"
    using active_iff [OF L, of t] t assms(2) by (auto simp: enqueue_timer_def Let_def waiting_def upd_def)
  moreover note p = upd_ops_parts [OF i, of t "waiting q t @ [op]"]
  have "tq_inv (upd t (\<lambda>d. d\<lparr>op_list := waiting q t @ [op]\<rparr>) q) act"
    using p W t by (auto simp: tq_inv_def)
  ultimately show ?thesis unfolding e tq_ok_def using p by blast
qed

lemma enqueue_active:
  assumes "tq_ok q" "waiting q t \<noteq> []" "op_id op \<notin> op_id ` set (waiting q t)"
  shows "tq_ok (snd (enqueue_timer time t op q)) \<and> alarms (snd (enqueue_timer time t op q)) = alarms q \<and>
    waiting (snd (enqueue_timer time t op q)) = (waiting q)(t := waiting q t @ [op]) \<and>
    \<not> fst (enqueue_timer time t op q)"
proof -
  have "op_id (hd (waiting q t)) \<noteq> op_id op" using assms(2,3) by (metis hd_in_set image_eqI)
  then show ?thesis using enqueue_active_queue [OF assms(1,2)] by blast
qed

text \<open>
  Adding a timer. \<open>enqueue_timer\<close> keeps the queue well formed; an idle timer gets its deadline and the
  operation, a timer that is already active only the operation, behind those it has; and the result
  says whether the event loop must look again: exactly when the deadline is new and earlier
  than every other.
\<close>

theorem timer_enqueue:
  assumes "tq_ok q" "enqueue_timer time t op q = (r, q')" "op_id op \<notin> op_id ` set (waiting q t)"
  shows "tq_ok q' \<and> waiting q' = (waiting q)(t := waiting q t @ [op]) \<and>
    alarms q' = (if waiting q t = [] then insert (time, t) (alarms q) else alarms q) \<and>
    (r \<longleftrightarrow> waiting q t = [] \<and> (\<forall>e \<in> alarms q. time < fst e))"
  using enqueue_idle [OF assms(1), of t time op] enqueue_active [OF assms(1) _ assms(3), of time] assms(2)
  by (cases "waiting q t = []") simp_all

definition one_op :: wait_op where
  "one_op = \<lparr>op_id = 1, op_ec = None, cancellation_key = 0\<rparr>"

definition one_timer :: timer_queue where
  "one_timer = snd (enqueue_timer 5 7 one_op tq_init)"

lemma init_parts: "alarms tq_init = {}" "waiting tq_init t = []"
  by (simp_all add: alarms_def waiting_def tq_init_def per_timer_init_def)

lemma one_timer_facts: "tq_ok one_timer" "alarms one_timer = {(5, 7)}" "waiting one_timer = (\<lambda>t. if t = 7 then [one_op] else [])"
  using enqueue_idle [OF tq_init_ok init_parts(2), of 5 7 one_op] init_parts
  by (auto simp: one_timer_def fun_eq_iff)

theorem timer_enqueue_witness:
  "fst (enqueue_timer 3 8 one_op one_timer) \<and>
   alarms (snd (enqueue_timer 3 8 one_op one_timer)) = {(3, 8), (5, 7)}"
proof -
  obtain r q' where e: "enqueue_timer 3 8 one_op one_timer = (r, q')" by force
  then show ?thesis using timer_enqueue [OF one_timer_facts(1) e] one_timer_facts(2,3) by simp
qed

text \<open>
  C33. Timers fire when they are due. \<open>get_ready_timers\<close> returns; it hands out, in order of their
  deadlines and with a clear error code, the operations of exactly the timers whose deadline is
  not in the future; these leave the queue and every other timer stays as it is.
\<close>

theorem timers_expire:
  assumes "tq_ok q"
  shows "\<exists>es q'. get_ready_timers now ops q = Some (ops @ concat (map (\<lambda>e. map expired (waiting q (snd e))) es), q') \<and>
     sorted (map fst es) \<and> distinct (map snd es) \<and> set es = {e \<in> alarms q. fst e \<le> now} \<and>
     tq_ok q' \<and> alarms q' = {e \<in> alarms q. now < fst e} \<and>
     (\<forall>u. waiting q' u = (if u \<in> snd ` set es then [] else waiting q u))"
  using assms by (rule get_ready_spec)

theorem timers_expire_witness:
  "\<exists>q'. get_ready_timers 6 [] one_timer = Some ([one_op], q') \<and> alarms q' = {}"
proof -
  obtain es q' where es: "get_ready_timers 6 [] one_timer =
      Some ([] @ concat (map (\<lambda>e. map expired (waiting one_timer (snd e))) es), q')"
    "distinct (map snd es)" "set es = {e \<in> alarms one_timer. fst e \<le> 6}"
    "alarms q' = {e \<in> alarms one_timer. 6 < fst e}"
    using timers_expire [OF one_timer_facts(1), of 6 "[]"] by blast
  have "set es = {(5, 7)}" "distinct es" using es(2,3) one_timer_facts(2) by (auto simp: distinct_map)
  moreover from this have "length es = 1" using distinct_card [of es] by simp
  ultimately have "es = [(5, 7)]" by (cases es) simp_all
  then have "get_ready_timers 6 [] one_timer = Some ([one_op], q')"
    using es(1) one_timer_facts(3) by (simp add: expired_def one_op_def)
  moreover have "alarms q' = {}" unfolding es(4) one_timer_facts(2) by auto
  ultimately show ?thesis by blast
qed

lemma cancel_spec:
  assumes "tq_ok q"
  shows "(case cancel_timer t ops mx q of (n, out, q') \<Rightarrow>
      n = min mx (length (waiting q t)) \<and> out = ops @ map aborted (take mx (waiting q t)) \<and> tq_ok q' \<and>
      waiting q' = (waiting q)(t := drop mx (waiting q t)) \<and>
      alarms q' = {e \<in> alarms q. snd e \<noteq> t \<or> mx < length (waiting q t)}) \<and>
    (case cancel_timer_by_key t ops key q of (out, q') \<Rightarrow>
      out = ops @ map aborted (filter (\<lambda>op. cancellation_key op = key) (waiting q t)) \<and> tq_ok q' \<and>
      waiting q' = (waiting q)(t := filter (\<lambda>op. cancellation_key op \<noteq> key) (waiting q t)) \<and>
      alarms q' = {e \<in> alarms q. snd e \<noteq> t \<or> (\<exists>op \<in> set (waiting q t). cancellation_key op \<noteq> key)})"
proof -
  obtain act where i: "tq_inv q act" using assms(1) unfolding tq_ok_def by blast
  then have W: "waiting q t \<noteq> [] \<longleftrightarrow> t \<in> set act" by (auto simp: tq_inv_def)
  let ?n = "min mx (length (waiting q t))"
  have td: "take ?n (waiting q t) = take mx (waiting q t)" "drop ?n (waiting q t) = drop mx (waiting q t)"
    by (simp_all add: min_def)
  note c = cancel_active [OF i, of t ops, folded W]
  let ?d = "drop mx (waiting q t)" and ?f = "filter (\<lambda>op. cancellation_key op \<noteq> key) (waiting q t)"
  let ?q1 = "if waiting q t \<noteq> [] then set_waiting t ?d q else q"
  let ?q2 = "if waiting q t \<noteq> [] then set_waiting t ?f q else q"
  have 1: "tq_ok ?q1 \<and> waiting ?q1 = (waiting q)(t := ?d) \<and> alarms ?q1 = {e \<in> alarms q. snd e = t \<longrightarrow> ?d \<noteq> []}"
    by (rule remaining_spec [OF assms refl]) simp
  have 2: "tq_ok ?q2 \<and> waiting ?q2 = (waiting q)(t := ?f) \<and> alarms ?q2 = {e \<in> alarms q. snd e = t \<longrightarrow> ?f \<noteq> []}"
    by (rule remaining_spec [OF assms refl]) simp
  have "{e \<in> alarms q. snd e = t \<longrightarrow> ?d \<noteq> []} = {e \<in> alarms q. snd e \<noteq> t \<or> mx < length (waiting q t)}"
    by (auto simp: not_le)
  moreover have "{e \<in> alarms q. snd e = t \<longrightarrow> ?f \<noteq> []} =
      {e \<in> alarms q. snd e \<noteq> t \<or> (\<exists>op \<in> set (waiting q t). cancellation_key op \<noteq> key)}"
    by (auto simp: filter_empty_conv)
  ultimately show ?thesis unfolding c Let_def td prod.case using 1 2 by metis
qed

text \<open>
  Cancelling. \<open>cancel_timer\<close> and \<open>cancel_timer_by_key\<close> hand out, marked as aborted, the first
  operations of the timer up to the limit, and those with the given key; the others keep
  waiting in their order, a timer left without any loses its deadline, and no other timer changes.
\<close>

theorem timer_cancel:
  assumes "tq_ok q"
  shows "(case cancel_timer t ops mx q of (n, out, q') \<Rightarrow>
      n = min mx (length (waiting q t)) \<and> out = ops @ map aborted (take mx (waiting q t)) \<and> tq_ok q' \<and>
      waiting q' = (waiting q)(t := drop mx (waiting q t)) \<and>
      alarms q' = {e \<in> alarms q. snd e \<noteq> t \<or> mx < length (waiting q t)}) \<and>
    (case cancel_timer_by_key t ops key q of (out, q') \<Rightarrow>
      out = ops @ map aborted (filter (\<lambda>op. cancellation_key op = key) (waiting q t)) \<and> tq_ok q' \<and>
      waiting q' = (waiting q)(t := filter (\<lambda>op. cancellation_key op \<noteq> key) (waiting q t)) \<and>
      alarms q' = {e \<in> alarms q. snd e \<noteq> t \<or> (\<exists>op \<in> set (waiting q t). cancellation_key op \<noteq> key)})"
  using assms by (rule cancel_spec)

theorem timer_cancel_witness:
  "fst (cancel_timer 7 [] 3 one_timer) = 1 \<and> alarms (snd (snd (cancel_timer 7 [] 3 one_timer))) = {}"
  using timer_cancel [OF one_timer_facts(1), where t = 7 and ops = "[]" and mx = 3] one_timer_facts(2,3)
  by (simp add: split_beta)

text \<open>
  Moving a timer and emptying the queue. \<open>move_timer\<close> gives the deadline and the waiting operations of
  an active timer to an idle one, which takes its place; \<open>get_all_timers\<close> returns, hands out all
  waiting operations of all timers, each timer's in their order, and leaves the queue empty.
\<close>

theorem timer_move_and_clear:
  assumes "tq_ok q" "waiting q source \<noteq> []" "waiting q target = []"
  shows "tq_ok (move_timer target source q) \<and>
    alarms (move_timer target source q) = (\<lambda>e. (fst e, if snd e = source then target else snd e)) ` alarms q \<and>
    waiting (move_timer target source q) = (waiting q)(target := waiting q source, source := []) \<and>
    (\<exists>act q'. get_all_timers ops q = Some (ops @ concat (map (waiting q) act), q') \<and> distinct act \<and>
      set act = {t. waiting q t \<noteq> []} \<and> tq_ok q' \<and> alarms q' = {} \<and> waiting q' = (\<lambda>_. []))"
proof -
  obtain act where i: "tq_inv q act" using assms(1) unfolding tq_ok_def by blast
  then have W: "\<And>t. waiting q t \<noteq> [] \<longleftrightarrow> t \<in> set act" and d: "distinct act" by (auto simp: tq_inv_def tq_links_def)
  have s: "source \<in> set act" "target \<notin> set act" using W assms(2,3) by auto
  have a: "set act = {t. waiting q t \<noteq> []}" using W by auto
  note m = move_spec [OF i s, unfolded renamed_def]
  obtain q' where q': "get_all_timers ops q = Some (ops @ concat (map (waiting q) act), q')" "tq_inv q' []"
    "alarms q' = {}" "waiting q' = (\<lambda>_. [])" using get_all_spec [OF i] by blast
  have "tq_ok q'" "tq_ok (move_timer target source q)" unfolding tq_ok_def using q'(2) m(1) by blast+
  then show ?thesis using m(2,3) q' d a by blast
qed

theorem timer_move_and_clear_witness:
  "alarms (move_timer 9 7 one_timer) = {(5, 9)}"
  using timer_move_and_clear [OF one_timer_facts(1), of 7 9 "[]"] one_timer_facts(2,3) by simp

text \<open>
  C34. A coroutine waiting on a timer is resumed once and on time. An idle timer that is armed is still
  waiting after any look at the queue before its deadline, and the first look at or after it hands
  its operation out with success and leaves the timer idle again.
\<close>

theorem steady_timer_fires:
  assumes "tq_ok q" "waiting q t = []" "early < d" "d \<le> late"
  shows "\<exists>out1 q1 out2 q2. get_ready_timers early [] (snd (enqueue_timer d t op q)) = Some (out1, q1) \<and>
    waiting q1 t = [op] \<and> get_ready_timers late [] q1 = Some (out2, q2) \<and>
    expired op \<in> set out2 \<and> waiting q2 t = [] \<and> tq_ok q2"
  by (rule timer.armed_fires [OF assms])

theorem steady_timer_fires_witness:
  "\<exists>out1 q1. get_ready_timers 2 [] (snd (enqueue_timer 3 8 one_op one_timer)) = Some (out1, q1) \<and> waiting q1 8 = [one_op]"
  using steady_timer_fires [OF one_timer_facts(1), of 8 2 3 4 one_op] one_timer_facts(3) by auto

section \<open>How long the event loop may sleep\<close>

lemma to_msec_bounds:
  assumes "0 \<le> mx"
  shows "0 \<le> to_msec d (cdiv d 1000000) mx" "to_msec d (cdiv d 1000000) mx \<le> max 1 mx"
    "to_msec d (cdiv d 1000000) mx * 1000000 \<le> max 1000000 d"
    "to_msec d (cdiv d 1000000) mx = 0 \<Longrightarrow> 0 < mx \<Longrightarrow> d \<le> 0"
proof -
  have "0 < d \<Longrightarrow> cdiv d 1000000 = d div 1000000" by (simp add: cdiv_nonneg)
  then show "0 \<le> to_msec d (cdiv d 1000000) mx" "to_msec d (cdiv d 1000000) mx \<le> max 1 mx"
    "to_msec d (cdiv d 1000000) mx * 1000000 \<le> max 1000000 d"
    "to_msec d (cdiv d 1000000) mx = 0 \<Longrightarrow> 0 < mx \<Longrightarrow> d \<le> 0"
    using assms by (auto simp: to_msec_def split: if_splits)
qed

lemma wait_msec_step:
  assumes "tq_ok q" "in_ticks now" "\<forall>e \<in> alarms q. in_ticks (fst e)" "0 \<le> cur"
  shows "\<exists>r. wait_duration_msec now cur q = Some r \<and> 0 \<le> r \<and> r \<le> max 1 cur \<and>
    (\<forall>e \<in> alarms q. r * 1000000 \<le> max 1000000 (fst e - now)) \<and>
    (r = 0 \<longrightarrow> cur = 0 \<or> (\<exists>e \<in> alarms q. fst e \<le> now)) \<and>
    ((\<exists>e \<in> alarms q. fst e \<le> now) \<longrightarrow> r = 0)"
proof (cases "heap q = []")
  case True
  then show ?thesis using assms(4) by (simp add: wait_duration_msec_def alarms_def)
next
  case False
  obtain act where i: "tq_inv q act" using assms(1) unfolding tq_ok_def by blast
  note f = first_alarm [OF i False]
  define d where "d = saturate (fst (heap q ! 0) - now)"
  have w: "wait_duration_msec now cur q = Some (to_msec d (cdiv d 1000000) cur)"
    using False time_subtract_saturates [of "fst (heap q ! 0)" now] assms(2,3) f(1) nano_cast(1)
    by (simp add: wait_duration_msec_def d_def to_wait_duration_def)
  have d: "d \<le> fst (heap q ! 0) - now \<or> d < 0" "d \<le> 0 \<Longrightarrow> fst (heap q ! 0) \<le> now"
    by (auto simp: d_def tick_defs)
  note b = to_msec_bounds [OF assms(4), of d]
  have "to_msec d (cdiv d 1000000) cur * 1000000 \<le> max 1000000 (fst e - now)" if "e \<in> alarms q" for e
    using b(3) d(1) f(3) [OF that] by linarith
  moreover have "to_msec d (cdiv d 1000000) cur = 0" if "e \<in> alarms q" "fst e \<le> now" for e
  proof -
    have "fst (heap q ! 0) \<le> now" using f(3) [OF that(1)] that(2) by linarith
    then have "d \<le> 0" by (auto simp: d_def tick_defs)
    then show ?thesis by (simp add: to_msec_def)
  qed
  ultimately show ?thesis
    using w b d(2) f(1) assms(4) by (intro exI [of _ "to_msec d (cdiv d 1000000) cur"]) (force simp del: split_paired_All)
qed

lemma wait_msec_all:
  "\<forall>(p, q) \<in> set s. tq_ok q \<and> in_ticks (now p) \<and> (\<forall>e \<in> alarms q. in_ticks (fst e)) \<Longrightarrow> 0 \<le> cur \<Longrightarrow>
   \<exists>r. tqs_wait_msec now cur s = Some r \<and> 0 \<le> r \<and> r \<le> max 1 cur \<and>
    (\<forall>(p, q) \<in> set s. \<forall>e \<in> alarms q. r * 1000000 \<le> max 1000000 (fst e - now p)) \<and>
    (r = 0 \<longrightarrow> cur = 0 \<or> (\<exists>(p, q) \<in> set s. \<exists>e \<in> alarms q. fst e \<le> now p))"
proof (induction s arbitrary: cur)
  case (Cons x s)
  obtain p q where x: "x = (p, q)" by force
  obtain m where m: "wait_duration_msec (now p) cur q = Some m" "0 \<le> m" "m \<le> max 1 cur"
    "\<forall>e \<in> alarms q. m * 1000000 \<le> max 1000000 (fst e - now p)"
    "m = 0 \<longrightarrow> cur = 0 \<or> (\<exists>e \<in> alarms q. fst e \<le> now p)"
    using wait_msec_step [of q "now p" cur] Cons.prems x by auto
  obtain r where r: "tqs_wait_msec now m s = Some r" "0 \<le> r" "r \<le> max 1 m"
    "\<forall>(p, q) \<in> set s. \<forall>e \<in> alarms q. r * 1000000 \<le> max 1000000 (fst e - now p)"
    "r = 0 \<longrightarrow> m = 0 \<or> (\<exists>(p, q) \<in> set s. \<exists>e \<in> alarms q. fst e \<le> now p)"
  proof -
    have "\<forall>(p, q) \<in> set s. tq_ok q \<and> in_ticks (now p) \<and> (\<forall>e \<in> alarms q. in_ticks (fst e))"
      using Cons.prems(1) by simp
    from Cons.IH [OF this m(2)] that show ?thesis by blast
  qed
  have "r * 1000000 \<le> max 1000000 (fst e - now p)" if "e \<in> alarms q" for e
    using m(4) that r(3) by (cases "m \<le> 1") force+
  moreover have "r \<le> max 1 cur" using r(3) m(3) by linarith
  moreover have "tqs_wait_msec now cur (x # s) = Some r" using m(1) r(1) by (simp add: x)
  moreover have "r = 0 \<longrightarrow> cur = 0 \<or> (\<exists>(p, q) \<in> set (x # s). \<exists>e \<in> alarms q. fst e \<le> now p)"
    using r(5) m(5) x by auto
  ultimately show ?case using r(2,4) x by (intro exI [of _ r]) auto
qed simp

text \<open>
  C35. How far the event loop sleeps. The time that the queues of all clocks together allow
  (\<open>timer_queue_set::wait_duration_msec\<close>) is within the limit asked for and reaches past no deadline of
  any of them by a millisecond or more. It is zero only where a timer is due; where one is due it is
  at most one millisecond, and zero if there is but one queue (a later queue whose first deadline is less than a
  millisecond away turns a zero into a one). The computation does not overflow.
\<close>

theorem wait_duration_bounds:
  assumes "\<forall>(p, q) \<in> set s. tq_ok q \<and> in_ticks (now p) \<and> (\<forall>e \<in> alarms q. in_ticks (fst e))" "0 < limit"
  shows "\<exists>r. tqs_wait_msec now limit s = Some r \<and> 0 \<le> r \<and> r \<le> limit \<and>
    (\<forall>(p, q) \<in> set s. \<forall>e \<in> alarms q. r * 1000000 \<le> max 1000000 (fst e - now p)) \<and>
    (r = 0 \<longrightarrow> (\<exists>(p, q) \<in> set s. \<exists>e \<in> alarms q. fst e \<le> now p)) \<and>
    ((\<exists>(p, q) \<in> set s. \<exists>e \<in> alarms q. fst e \<le> now p) \<longrightarrow> r \<le> 1 \<and> (length s = 1 \<longrightarrow> r = 0))"
proof -
  have l: "0 \<le> limit" "max 1 limit = limit" "limit \<noteq> 0" using assms(2) by linarith+
  obtain r where r: "tqs_wait_msec now limit s = Some r" "0 \<le> r" "r \<le> limit"
    "\<forall>(p, q) \<in> set s. \<forall>e \<in> alarms q. r * 1000000 \<le> max 1000000 (fst e - now p)"
    "r = 0 \<longrightarrow> (\<exists>(p, q) \<in> set s. \<exists>e \<in> alarms q. fst e \<le> now p)"
    using wait_msec_all [OF assms(1) l(1)] unfolding l(2) using l(3) by blast
  have "r \<le> 1 \<and> (length s = 1 \<longrightarrow> r = 0)" if d: "(p, q) \<in> set s" "e \<in> alarms q" "fst e \<le> now p" for p q e
  proof
    have "r * 1000000 \<le> max 1000000 (fst e - now p)" using r(4) d by blast
    then show "r \<le> 1" using d(3) by linarith
    show "length s = 1 \<longrightarrow> r = 0"
    proof
      assume "length s = 1"
      then have s: "s = [(p, q)]" using d(1) by (auto simp: length_Suc_conv)
      then show "r = 0" using wait_msec_step [of q "now p" limit] assms(1) l(1) r(1) d(2,3)
        by (auto simp del: split_paired_All)
    qed
  qed
  then show ?thesis using r by blast
qed

theorem wait_duration_bounds_witness:
  "\<exists>r. tqs_wait_msec (\<lambda>_. 1) 100 [(1, one_timer)] = Some r \<and> r * 1000000 \<le> 1000000"
proof -
  have "\<forall>(p, q) \<in> set [(1, one_timer)]. tq_ok q \<and> in_ticks ((\<lambda>_. 1) p) \<and> (\<forall>e \<in> alarms q. in_ticks (fst e))"
    using one_timer_facts(1,2) by (simp add: in_ticks_def tick_min_def tick_max_def)
  from wait_duration_bounds [OF this, of 100] show ?thesis using one_timer_facts(2) by auto
qed

end
