(* ===== verification/Asio_Scheduler.thy ===== *)
theory Asio_Scheduler
  imports Kcp_Prelude
begin

text \<open>
  The scheduler behind an \<open>io_context\<close> (\<open>detail/impl/scheduler.ipp\<close>), for a program that calls it from one
  thread, as FlexProxy does. The mutex is then never contended and no other thread waits on the event, so
  \<open>maybe_unlock_and_signal_one\<close> is false and a wait never returns: a function that would wait is \<open>None\<close>.
  The operations have a type \<open>'o\<close>; what completing one does, and what the task (the reactor) does,
  are arguments: they act on a state \<open>'w\<close> of their own and on the scheduler. Handlers do not throw.
\<close>

unbundle bit_operations_syntax

section \<open>State\<close>

datatype 'o item = Task | Op 'o  \<comment> \<open>\<open>task_operation_\<close> marks the place of the task in the queue\<close>

record 'o thread_info =
  private_op_queue :: "'o list"
  private_outstanding_work :: int

record 'o scheduler =
  one_thread :: bool
  task_set :: bool                      \<comment> \<open>\<open>task_\<close> is not null\<close>
  task_interrupted :: bool
  interrupts :: nat                     \<comment> \<open>how often the task was interrupted\<close>
  outstanding_work :: int
  ready :: "'o item list"               \<comment> \<open>\<open>op_queue_\<close>\<close>
  stopped :: bool
  shut :: bool                          \<comment> \<open>\<open>shutdown_\<close>\<close>
  contexts :: "'o thread_info list"     \<comment> \<open>the calls of \<open>run\<close> and its kin on the thread's call stack, innermost first\<close>

definition CONCURRENCY_HINT_ID :: u32 where "CONCURRENCY_HINT_ID = 0xA5100000"
definition CONCURRENCY_HINT_ID_MASK :: u32 where "CONCURRENCY_HINT_ID_MASK = 0xFFFF0000"
definition LOCKING_SCHEDULER :: u32 where "LOCKING_SCHEDULER = 1"
definition LOCKING_REACTOR_IO :: u32 where "LOCKING_REACTOR_IO = 4"

definition is_locking :: "u32 \<Rightarrow> u32 \<Rightarrow> bool" where
  "is_locking facility hint =
     ((hint AND (CONCURRENCY_HINT_ID_MASK OR facility)) XOR CONCURRENCY_HINT_ID \<noteq> 0)"

definition scheduler_init :: "u32 \<Rightarrow> 'o scheduler" where
  \<comment> \<open>without a thread of its own, as an \<open>io_context\<close> makes it\<close>
  "scheduler_init concurrency_hint =
     \<lparr>one_thread = (concurrency_hint = 1 \<or> \<not> is_locking LOCKING_SCHEDULER concurrency_hint
        \<or> \<not> is_locking LOCKING_REACTOR_IO concurrency_hint),
      task_set = False, task_interrupted = True, interrupts = 0, outstanding_work = 0, ready = [],
      stopped = False, shut = False, contexts = []\<rparr>"

section \<open>Waking and stopping\<close>

definition interrupt_task :: "'o scheduler \<Rightarrow> 'o scheduler" where
  "interrupt_task s =
     (if \<not> task_interrupted s \<and> task_set s
      then s\<lparr>task_interrupted := True, interrupts := Suc (interrupts s)\<rparr> else s)"

definition wake_one_thread_and_unlock :: "'o scheduler \<Rightarrow> 'o scheduler" where
  "wake_one_thread_and_unlock s = interrupt_task s"

definition stop_all_threads :: "'o scheduler \<Rightarrow> 'o scheduler" where
  "stop_all_threads s = interrupt_task (s\<lparr>stopped := True\<rparr>)"

definition stop :: "'o scheduler \<Rightarrow> 'o scheduler" where
  "stop s = stop_all_threads s"

definition restart :: "'o scheduler \<Rightarrow> 'o scheduler" where
  "restart s = s\<lparr>stopped := False\<rparr>"

definition work_started :: "'o scheduler \<Rightarrow> 'o scheduler" where
  "work_started s = s\<lparr>outstanding_work := outstanding_work s + 1\<rparr>"

definition work_finished :: "'o scheduler \<Rightarrow> 'o scheduler" where
  "work_finished s =
     (let s = s\<lparr>outstanding_work := outstanding_work s - 1\<rparr>
      in if outstanding_work s = 0 then stop s else s)"

definition init_task :: "'o scheduler \<Rightarrow> 'o scheduler" where
  "init_task s =
     (if \<not> shut s \<and> \<not> task_set s
      then wake_one_thread_and_unlock (s\<lparr>task_set := True, ready := ready s @ [Task]\<rparr>) else s)"

section \<open>Handing operations over\<close>

fun can_dispatch :: "'o scheduler \<Rightarrow> bool" where
  "can_dispatch s = (contexts s \<noteq> [])"

definition on_context :: "('o thread_info \<Rightarrow> 'o thread_info) \<Rightarrow> 'o scheduler \<Rightarrow> 'o scheduler" where
  \<comment> \<open>a change of the innermost \<open>thread_info\<close>\<close>
  "on_context f s = (case contexts s of [] \<Rightarrow> s | t # ts \<Rightarrow> s\<lparr>contexts := f t # ts\<rparr>)"

definition compensating_work_started :: "'o scheduler \<Rightarrow> 'o scheduler option" where
  \<comment> \<open>\<open>None\<close>: a null pointer is dereferenced outside \<open>run\<close>\<close>
  "compensating_work_started s =
     (if contexts s = [] then None
      else Some (on_context (\<lambda>t. t\<lparr>private_outstanding_work := private_outstanding_work t + 1\<rparr>) s))"

definition post_immediate_completion :: "'o \<Rightarrow> bool \<Rightarrow> 'o scheduler \<Rightarrow> 'o scheduler" where
  "post_immediate_completion op is_continuation s =
     (if (one_thread s \<or> is_continuation) \<and> contexts s \<noteq> [] then
        on_context (\<lambda>t. t\<lparr>private_outstanding_work := private_outstanding_work t + 1,
                          private_op_queue := private_op_queue t @ [op]\<rparr>) s
      else
        let s = work_started s
        in wake_one_thread_and_unlock (s\<lparr>ready := ready s @ [Op op]\<rparr>))"

definition post_immediate_completions :: "nat \<Rightarrow> 'o list \<Rightarrow> bool \<Rightarrow> 'o scheduler \<Rightarrow> 'o scheduler" where
  "post_immediate_completions n ops is_continuation s =
     (if (one_thread s \<or> is_continuation) \<and> contexts s \<noteq> [] then
        on_context (\<lambda>t. t\<lparr>private_outstanding_work := private_outstanding_work t + int n,
                          private_op_queue := private_op_queue t @ ops\<rparr>) s
      else
        let s = s\<lparr>outstanding_work := outstanding_work s + int n\<rparr>
        in wake_one_thread_and_unlock (s\<lparr>ready := ready s @ map Op ops\<rparr>))"

definition post_deferred_completion :: "'o \<Rightarrow> 'o scheduler \<Rightarrow> 'o scheduler" where
  "post_deferred_completion op s =
     (if one_thread s \<and> contexts s \<noteq> [] then
        on_context (\<lambda>t. t\<lparr>private_op_queue := private_op_queue t @ [op]\<rparr>) s
      else wake_one_thread_and_unlock (s\<lparr>ready := ready s @ [Op op]\<rparr>))"

definition post_deferred_completions :: "'o list \<Rightarrow> 'o scheduler \<Rightarrow> 'o scheduler" where
  "post_deferred_completions ops s =
     (if ops \<noteq> [] then
        if one_thread s \<and> contexts s \<noteq> [] then
          on_context (\<lambda>t. t\<lparr>private_op_queue := private_op_queue t @ ops\<rparr>) s
        else wake_one_thread_and_unlock (s\<lparr>ready := ready s @ map Op ops\<rparr>)
      else s)"

definition do_dispatch :: "'o \<Rightarrow> 'o scheduler \<Rightarrow> 'o scheduler" where
  "do_dispatch op s =
     (let s = work_started s in wake_one_thread_and_unlock (s\<lparr>ready := ready s @ [Op op]\<rparr>))"

definition abandon_operations :: "'o list \<Rightarrow> 'o list" where
  \<comment> \<open>the operations it destroys\<close>
  "abandon_operations ops = ops"

definition scheduler_shutdown :: "'o scheduler \<Rightarrow> 'o list \<times> 'o scheduler" where
  \<comment> \<open>the destroyed operations, and the scheduler\<close>
  "scheduler_shutdown s =
     (let s = s\<lparr>shut := True\<rparr>
      in (concat (map (\<lambda>i. case i of Task \<Rightarrow> [] | Op op \<Rightarrow> [op]) (ready s)), s\<lparr>ready := [], task_set := False\<rparr>))"

section \<open>Running\<close>

definition task_cleanup :: "'o scheduler \<Rightarrow> 'o scheduler" where
  "task_cleanup s =
     (let t = hd (contexts s);
          s = (if private_outstanding_work t > 0
               then s\<lparr>outstanding_work := outstanding_work s + private_outstanding_work t\<rparr> else s);
          s = s\<lparr>task_interrupted := True, ready := ready s @ map Op (private_op_queue t) @ [Task]\<rparr>
      in on_context (\<lambda>t. t\<lparr>private_outstanding_work := 0, private_op_queue := []\<rparr>) s)"

definition work_cleanup :: "'o scheduler \<Rightarrow> 'o scheduler" where
  "work_cleanup s =
     (let t = hd (contexts s);
          s = (if private_outstanding_work t > 1
               then s\<lparr>outstanding_work := outstanding_work s + (private_outstanding_work t - 1)\<rparr>
               else if private_outstanding_work t < 1 then work_finished s else s);
          s = s\<lparr>ready := ready s @ map Op (private_op_queue t)\<rparr>
      in on_context (\<lambda>t. t\<lparr>private_outstanding_work := 0, private_op_queue := []\<rparr>) s)"

type_synonym ('o, 'w) completion = "'o \<Rightarrow> 'w \<times> 'o scheduler \<Rightarrow> ('w \<times> 'o scheduler) option"
type_synonym ('o, 'w) task_run = "int \<Rightarrow> 'w \<times> 'o scheduler \<Rightarrow> ('w \<times> 'o scheduler) option"

definition complete_op :: "('o, 'w) completion \<Rightarrow> 'o \<Rightarrow> 'w \<Rightarrow> 'o scheduler \<Rightarrow> (nat \<times> 'w \<times> 'o scheduler) option" where
  \<comment> \<open>how the three functions below end with an operation they have taken from the queue\<close>
  "complete_op complete op w s =
     (let more_handlers = (ready s \<noteq> []);
          s = (if more_handlers \<and> \<not> one_thread s then wake_one_thread_and_unlock s else s)
      in Option.bind (complete op (w, s)) (\<lambda>(w, s). Some (1, w, work_cleanup s)))"

definition run_task :: "('o, 'w) task_run \<Rightarrow> int \<Rightarrow> 'w \<Rightarrow> 'o scheduler \<Rightarrow> ('w \<times> 'o scheduler) option" where
  \<comment> \<open>the task, with the scheduler whose queue it was taken from\<close>
  "run_task task usec w s = Option.bind (task usec (w, s)) (\<lambda>(w, s). Some (w, task_cleanup s))"

partial_function (option) do_run_one ::
  "('o, 'w) completion \<Rightarrow> ('o, 'w) task_run \<Rightarrow> 'w \<Rightarrow> 'o scheduler \<Rightarrow> (nat \<times> 'w \<times> 'o scheduler) option" where
  [code]: "do_run_one complete task w s =
     (if \<not> stopped s then
        case ready s of
          [] \<Rightarrow> None
        | Task # q \<Rightarrow>
            let more_handlers = (q \<noteq> []);
                s = s\<lparr>ready := q, task_interrupted := more_handlers\<rparr>
            in Option.bind (run_task task (if more_handlers then 0 else -1) w s) (\<lambda>(w, s).
                 do_run_one complete task w s)
        | Op op # q \<Rightarrow> complete_op complete op w (s\<lparr>ready := q\<rparr>)
      else Some (0, w, s))"

definition do_wait_one ::
  "('o, 'w) completion \<Rightarrow> ('o, 'w) task_run \<Rightarrow> int \<Rightarrow> 'w \<Rightarrow> 'o scheduler \<Rightarrow> (nat \<times> 'w \<times> 'o scheduler) option" where
  \<comment> \<open>the wait for \<open>usec\<close> on an empty queue ends with the queue as it was\<close>
  "do_wait_one complete task usec w s =
     (if stopped s then Some (0, w, s)
      else case ready s of
          [] \<Rightarrow> Some (0, w, s)
        | Task # q \<Rightarrow>
            let more_handlers = (q \<noteq> []);
                s = s\<lparr>ready := q, task_interrupted := more_handlers\<rparr>
            in Option.bind (run_task task (if more_handlers then 0 else usec) w s) (\<lambda>(w, s).
                 case ready s of
                   Op op # q \<Rightarrow> complete_op complete op w (s\<lparr>ready := q\<rparr>)
                 | _ \<Rightarrow> Some (0, w, s))
        | Op op # q \<Rightarrow> complete_op complete op w (s\<lparr>ready := q\<rparr>))"

definition do_poll_one ::
  "('o, 'w) completion \<Rightarrow> ('o, 'w) task_run \<Rightarrow> 'w \<Rightarrow> 'o scheduler \<Rightarrow> (nat \<times> 'w \<times> 'o scheduler) option" where
  "do_poll_one complete task w s =
     (if stopped s then Some (0, w, s)
      else case ready s of
          [] \<Rightarrow> Some (0, w, s)
        | Task # q \<Rightarrow>
            Option.bind (run_task task 0 w (s\<lparr>ready := q\<rparr>)) (\<lambda>(w, s).
              case ready s of
                Op op # q \<Rightarrow> complete_op complete op w (s\<lparr>ready := q\<rparr>)
              | _ \<Rightarrow> Some (0, w, s))
        | Op op # q \<Rightarrow> complete_op complete op w (s\<lparr>ready := q\<rparr>))"

definition size_max :: nat where "size_max = 18446744073709551615"

partial_function (option) repeat_one ::
  "('w \<Rightarrow> 'o scheduler \<Rightarrow> (nat \<times> 'w \<times> 'o scheduler) option) \<Rightarrow> nat \<Rightarrow> 'w \<Rightarrow> 'o scheduler \<Rightarrow> (nat \<times> 'w \<times> 'o scheduler) option" where
  \<comment> \<open>the loop of \<open>run\<close> and \<open>poll\<close>\<close>
  [code]: "repeat_one one n w s =
     Option.bind (one w s) (\<lambda>(r, w, s).
       if r = 0 then Some (n, w, s) else repeat_one one (if n \<noteq> size_max then n + 1 else n) w s)"

definition inside ::
  "('w \<Rightarrow> 'o scheduler \<Rightarrow> (nat \<times> 'w \<times> 'o scheduler) option) \<Rightarrow> 'w \<Rightarrow> 'o scheduler \<Rightarrow> (nat \<times> 'w \<times> 'o scheduler) option" where
  \<comment> \<open>the frame of the five functions: nothing to do without work, else a context around the body\<close>
  "inside body w s =
     (if outstanding_work s = 0 then Some (0, w, stop s)
      else
        let s = s\<lparr>contexts := \<lparr>private_op_queue = [], private_outstanding_work = 0\<rparr> # contexts s\<rparr>
        in Option.bind (body w s) (\<lambda>(n, w, s). Some (n, w, s\<lparr>contexts := tl (contexts s)\<rparr>)))"

definition flush_outer :: "'o scheduler \<Rightarrow> 'o scheduler" where
  \<comment> \<open>for nested calls: the private queue of the next outer context\<close>
  "flush_outer s =
     (case contexts s of
        t # outer # ts \<Rightarrow>
          if one_thread s then
            s\<lparr>ready := ready s @ map Op (private_op_queue outer), contexts := t # outer\<lparr>private_op_queue := []\<rparr> # ts\<rparr>
          else s
      | _ \<Rightarrow> s)"

definition scheduler_run ::
  "('o, 'w) completion \<Rightarrow> ('o, 'w) task_run \<Rightarrow> 'w \<Rightarrow> 'o scheduler \<Rightarrow> (nat \<times> 'w \<times> 'o scheduler) option" where
  "scheduler_run complete task w s = inside (repeat_one (do_run_one complete task) 0) w s"

definition scheduler_run_one ::
  "('o, 'w) completion \<Rightarrow> ('o, 'w) task_run \<Rightarrow> 'w \<Rightarrow> 'o scheduler \<Rightarrow> (nat \<times> 'w \<times> 'o scheduler) option" where
  "scheduler_run_one complete task w s = inside (do_run_one complete task) w s"

definition scheduler_wait_one ::
  "('o, 'w) completion \<Rightarrow> ('o, 'w) task_run \<Rightarrow> int \<Rightarrow> 'w \<Rightarrow> 'o scheduler \<Rightarrow> (nat \<times> 'w \<times> 'o scheduler) option" where
  "scheduler_wait_one complete task usec w s = inside (do_wait_one complete task usec) w s"

definition scheduler_poll ::
  "('o, 'w) completion \<Rightarrow> ('o, 'w) task_run \<Rightarrow> 'w \<Rightarrow> 'o scheduler \<Rightarrow> (nat \<times> 'w \<times> 'o scheduler) option" where
  "scheduler_poll complete task w s =
     inside (\<lambda>w s. repeat_one (do_poll_one complete task) 0 w (flush_outer s)) w s"

definition scheduler_poll_one ::
  "('o, 'w) completion \<Rightarrow> ('o, 'w) task_run \<Rightarrow> 'w \<Rightarrow> 'o scheduler \<Rightarrow> (nat \<times> 'w \<times> 'o scheduler) option" where
  "scheduler_poll_one complete task w s = inside (\<lambda>w s. do_poll_one complete task w (flush_outer s)) w s"

section \<open>Rules for the loops\<close>

lemma do_run_one_rule:
  assumes run: "do_run_one c t w s = Some (n, w', s')" and start: "P w s"
    and halt: "\<And>w s. \<lbrakk>P w s; stopped s\<rbrakk> \<Longrightarrow> Q 0 w s"
    and task: "\<And>w s q w' s'. \<lbrakk>P w s; \<not> stopped s; ready s = Task # q;
      run_task t (if q \<noteq> [] then 0 else -1) w (s\<lparr>ready := q, task_interrupted := q \<noteq> []\<rparr>) = Some (w', s')\<rbrakk> \<Longrightarrow> P w' s'"
    and op: "\<And>w s op q n w' s'. \<lbrakk>P w s; \<not> stopped s; ready s = Op op # q;
      complete_op c op w (s\<lparr>ready := q\<rparr>) = Some (n, w', s')\<rbrakk> \<Longrightarrow> Q n w' s'"
  shows "Q n w' s'"
proof -
  let ?R = "\<lambda>c' t' w s nws. c' = c \<longrightarrow> t' = t \<longrightarrow> P w s \<longrightarrow> (case nws of (n, w', s') \<Rightarrow> Q n w' s')"
  have "?R c t w s (n, w', s')"
  proof (rule do_run_one.raw_induct [of ?R, OF _ run], intro impI)
    fix rec c' t' w s nws
    assume ind: "\<And>c t w s nws. rec c t w s = Some nws \<Longrightarrow> ?R c t w s nws"
      and body: "(if \<not> stopped s then
        case ready s of
          [] \<Rightarrow> None
        | Task # q \<Rightarrow>
            let more_handlers = (q \<noteq> []);
                s = s\<lparr>ready := q, task_interrupted := more_handlers\<rparr>
            in Option.bind (run_task t' (if more_handlers then 0 else -1) w s) (\<lambda>(w, s). rec c' t' w s)
        | Op op # q \<Rightarrow> complete_op c' op w (s\<lparr>ready := q\<rparr>)
      else Some (0, w, s)) = Some nws"
      and args: "c' = c" "t' = t" and st: "P w s"
    obtain n w' s' where n: "nws = (n, w', s')" by (cases nws)
    have "Q n w' s'"
    proof (cases "stopped s")
      case True
      then show ?thesis using body n halt st by auto
    next
      case False
      show ?thesis
      proof (cases "ready s")
        case (Cons it q)
        show ?thesis
        proof (cases it)
          case Task
          obtain w1 s1 where r: "run_task t' (if q \<noteq> [] then 0 else -1) w (s\<lparr>ready := q, task_interrupted := q \<noteq> []\<rparr>) = Some (w1, s1)"
            "rec c' t' w1 s1 = Some nws"
            using body False Cons Task by (auto simp: Let_def bind_eq_Some_conv)
          have "P w1 s1" using task [OF st False _ r(1) [unfolded args]] Cons Task by simp
          then show ?thesis using ind [OF r(2)] args n by simp
        next
          case (Op o1)
          then have "complete_op c o1 w (s\<lparr>ready := q\<rparr>) = Some (n, w', s')"
            using body args False Cons n by (simp add: Let_def)
          from op [OF st False _ this] show ?thesis using Cons Op by simp
        qed
      qed (use body False in simp)
    qed
    then show "case nws of (n, w', s') \<Rightarrow> Q n w' s'" using n by simp
  qed
  then show ?thesis using start by simp
qed

lemma repeat_one_rule:
  assumes run: "repeat_one one k w s = Some (n, w', s')" and start: "P w s"
    and more: "\<And>w s m w' s'. \<lbrakk>P w s; one w s = Some (m, w', s'); m \<noteq> 0\<rbrakk> \<Longrightarrow> P w' s'"
    and last: "\<And>w s w' s'. \<lbrakk>P w s; one w s = Some (0, w', s')\<rbrakk> \<Longrightarrow> Q w' s'"
  shows "Q w' s'"
proof -
  let ?R = "\<lambda>one' (k :: nat) w s nws. one' = one \<longrightarrow> P w s \<longrightarrow> (case nws of (n, w', s') \<Rightarrow> Q w' s')"
  have "?R one k w s (n, w', s')"
  proof (rule repeat_one.raw_induct [of ?R, OF _ run], intro impI)
    fix rec one' k w s nws
    assume ind: "\<And>one k w s nws. rec one k w s = Some nws \<Longrightarrow> ?R one k w s nws"
      and body: "Option.bind (one' w s) (\<lambda>(r, w, s).
       if r = 0 then Some (k, w, s) else rec one' (if k \<noteq> size_max then k + 1 else k) w s) = Some nws"
      and one: "one' = one" and st: "P w s"
    obtain m w1 s1 where m: "one w s = Some (m, w1, s1)"
      using body one by (auto simp: bind_eq_Some_conv)
    show "case nws of (n, w', s') \<Rightarrow> Q w' s'"
    proof (cases "m = 0")
      case True
      then show ?thesis using m body one last [OF st] by auto
    next
      case False
      then have "rec one' (if k \<noteq> size_max then k + 1 else k) w1 s1 = Some nws" using m body one by auto
      from ind [OF this] one more [OF st m False] show ?thesis by simp
    qed
  qed
  then show ?thesis using start by simp
qed

lemma do_run_one_task:
  "\<not> stopped s \<Longrightarrow> ready s = Task # q \<Longrightarrow> do_run_one c t w s =
     Option.bind (run_task t (if q \<noteq> [] then 0 else -1) w (s\<lparr>ready := q, task_interrupted := q \<noteq> []\<rparr>))
       (\<lambda>(w, s). do_run_one c t w s)"
  by (subst do_run_one.simps) (simp add: Let_def)

lemma do_run_one_op:
  "\<not> stopped s \<Longrightarrow> ready s = Op op # q \<Longrightarrow> do_run_one c t w s = complete_op c op w (s\<lparr>ready := q\<rparr>)"
  by (subst do_run_one.simps) simp

lemma do_run_one_stopped: "stopped s \<Longrightarrow> do_run_one c t w s = Some (0, w, s)"
  by (subst do_run_one.simps) simp

end
