(* ===== verification/Asio_Reactor.thy ===== *)
theory Asio_Reactor
  imports Asio_Scheduler Asio_Timer
begin

text \<open>
  The reactor (\<open>detail/impl/epoll_reactor.ipp\<close>, \<open>.hpp\<close>, \<open>detail/object_pool.hpp\<close>): the states of
  registered descriptors with their queues of operations, the timer queues, and the call of \<open>epoll_wait\<close> that
  turns events into operations for the scheduler. Its environment is part of its state: what performing an operation
  gives, what \<open>epoll_ctl\<close> answers (both numbered by call), the clock of each timer queue (by reading) and
  the events that the coming calls of \<open>epoll_wait\<close> return; when there are none left the call waits
  (\<open>None\<close>). A descriptor state is named by a number; the mutexes are left out, the program has one thread.
\<close>

section \<open>Operations\<close>

record reactor_op =
  rop_id :: nat
  rop_ec :: "errc option"
  rop_key :: nat
  rop_bytes :: nat

datatype status = Not_done | Done | Done_and_exhausted

datatype oper =
    Handler nat             \<comment> \<open>a posted handler\<close>
  | Io reactor_op
  | Wait wait_op
  | Descriptor nat u32      \<comment> \<open>the operation that a \<open>descriptor_state\<close> is, with its \<open>task_result_\<close>\<close>

section \<open>The pool of descriptor states\<close>

record pool =
  live_list :: "nat list"
  free_list :: "nat list"
  created :: nat            \<comment> \<open>the objects made by \<open>new\<close> are numbered\<close>

definition pool_init :: pool where
  "pool_init = \<lparr>live_list = [], free_list = [], created = 0\<rparr>"

definition pool_first :: "pool \<Rightarrow> nat option" where
  "pool_first p = (case live_list p of [] \<Rightarrow> None | x # _ \<Rightarrow> Some x)"

definition pool_alloc :: "pool \<Rightarrow> nat \<times> pool" where
  "pool_alloc p =
     (case free_list p of
        x # xs \<Rightarrow> (x, p\<lparr>free_list := xs, live_list := x # live_list p\<rparr>)
      | [] \<Rightarrow> (created p, p\<lparr>created := Suc (created p), live_list := created p # live_list p\<rparr>))"

definition pool_free :: "nat \<Rightarrow> pool \<Rightarrow> pool" where
  "pool_free x p = p\<lparr>live_list := remove1 x (live_list p), free_list := x # free_list p\<rparr>"

section \<open>State\<close>

definition read_op :: nat where "read_op = 0"
definition write_op :: nat where "write_op = 1"
definition connect_op :: nat where "connect_op = 1"
definition except_op :: nat where "except_op = 2"
definition max_ops :: nat where "max_ops = 3"

definition EPOLLIN :: u32 where "EPOLLIN = 1"
definition EPOLLPRI :: u32 where "EPOLLPRI = 2"
definition EPOLLOUT :: u32 where "EPOLLOUT = 4"
definition EPOLLERR :: u32 where "EPOLLERR = 8"
definition EPOLLHUP :: u32 where "EPOLLHUP = 16"
definition EPOLLET :: u32 where "EPOLLET = 0x80000000"

record descriptor_state =
  descriptor :: int
  registered_events :: u32
  rq :: "nat \<Rightarrow> reactor_op list"           \<comment> \<open>\<open>op_queue_\<close>, by type\<close>
  try_speculative :: "nat \<Rightarrow> bool"
  d_shutdown :: bool

datatype event = Interrupter | Timer_fd | Ready nat u32

record reactor =
  r_shutdown :: bool
  registered :: pool
  dstate :: "nat \<Rightarrow> descriptor_state"
  timer_queues :: timer_queue_set
  has_timer_fd :: bool
  timer_setting :: "(int \<times> int \<times> bool) option"   \<comment> \<open>the last \<open>timerfd_settime\<close>: seconds, nanoseconds, absolute\<close>
  epoll_timeout :: int                            \<comment> \<open>of the last \<open>epoll_wait\<close>\<close>
  performs :: "nat \<Rightarrow> status \<times> errc option \<times> nat"
  perform_calls :: nat
  ctls :: "nat \<Rightarrow> errc option"
  ctl_calls :: nat
  clock :: "nat \<Rightarrow> nat \<Rightarrow> int"
  clock_readings :: nat
  polls :: "event list list"

type_synonym loop = "reactor \<times> oper scheduler"

definition perform :: "reactor_op \<Rightarrow> reactor \<Rightarrow> status \<times> reactor_op \<times> reactor" where
  \<comment> \<open>performing an operation may set its error code and its count\<close>
  "perform op r =
     (let (st, ec, n) = performs r (perform_calls r)
      in (st, op\<lparr>rop_ec := ec, rop_bytes := n\<rparr>, r\<lparr>perform_calls := Suc (perform_calls r)\<rparr>))"

definition epoll_ctl :: "reactor \<Rightarrow> errc option \<times> reactor" where
  "epoll_ctl r = (ctls r (ctl_calls r), r\<lparr>ctl_calls := Suc (ctl_calls r)\<rparr>)"

definition set_state :: "nat \<Rightarrow> (descriptor_state \<Rightarrow> descriptor_state) \<Rightarrow> reactor \<Rightarrow> reactor" where
  "set_state d f r = r\<lparr>dstate := (dstate r)(d := f (dstate r d))\<rparr>"

section \<open>Descriptors\<close>

definition fresh_state :: "int \<Rightarrow> descriptor_state \<Rightarrow> descriptor_state" where
  \<comment> \<open>the queues stay as the pool keeps them\<close>
  "fresh_state fd st = st\<lparr>descriptor := fd, d_shutdown := False, try_speculative := (\<lambda>_. True),
     registered_events := EPOLLIN OR EPOLLERR OR EPOLLHUP OR EPOLLPRI OR EPOLLET\<rparr>"

definition register_descriptor :: "int \<Rightarrow> reactor \<Rightarrow> errc option \<times> nat \<times> reactor" where
  \<comment> \<open>the returned error and the descriptor's state\<close>
  "register_descriptor fd r =
     (let (d, p) = pool_alloc (registered r);
          r = set_state d (fresh_state fd) (r\<lparr>registered := p\<rparr>);
          (result, r) = epoll_ctl r
      in case result of
           Some e \<Rightarrow> if e = operation_not_permitted then (None, d, set_state d (\<lambda>st. st\<lparr>registered_events := 0\<rparr>) r)
                     else (Some e, d, r)
         | None \<Rightarrow> (None, d, r))"

definition register_internal_descriptor :: "nat \<Rightarrow> int \<Rightarrow> reactor_op \<Rightarrow> reactor \<Rightarrow> errc option \<times> nat \<times> reactor" where
  "register_internal_descriptor op_type fd op r =
     (let (d, p) = pool_alloc (registered r);
          r = set_state d (\<lambda>st. fresh_state fd (st\<lparr>rq := (rq st)(op_type := rq st op_type @ [op])\<rparr>)) (r\<lparr>registered := p\<rparr>);
          (result, r) = epoll_ctl r
      in (result, d, r))"

definition move_descriptor :: "nat option \<Rightarrow> nat option \<times> nat option" where
  \<comment> \<open>the target's and the source's pointer\<close>
  "move_descriptor source = (source, None)"

definition enqueue_op :: "nat \<Rightarrow> nat \<Rightarrow> reactor_op \<Rightarrow> loop \<Rightarrow> loop" where
  "enqueue_op op_type d op l =
     (let (r, s) = l
      in (set_state d (\<lambda>st. st\<lparr>rq := (rq st)(op_type := rq st op_type @ [op])\<rparr>) r, work_started s))"

definition complete_now :: "reactor_op \<Rightarrow> bool \<Rightarrow> loop \<Rightarrow> loop" where
  "complete_now op is_continuation l = (fst l, post_immediate_completion (Io op) is_continuation (snd l))"

definition wait_for_events :: "nat \<Rightarrow> nat \<Rightarrow> reactor_op \<Rightarrow> bool \<Rightarrow> loop \<Rightarrow> loop" where
  \<comment> \<open>an operation that cannot be performed at once\<close>
  "wait_for_events op_type d op is_continuation l =
     (let (r, s) = l
      in if registered_events (dstate r d) = 0
         then complete_now (op\<lparr>rop_ec := Some operation_not_supported\<rparr>) is_continuation (r, s)
         else if op_type = write_op \<and> registered_events (dstate r d) AND EPOLLOUT = 0 then
           let (result, r) = epoll_ctl r
           in case result of
                None \<Rightarrow> enqueue_op op_type d op
                  (set_state d (\<lambda>st. st\<lparr>registered_events := registered_events st OR EPOLLOUT\<rparr>) r, s)
              | Some e \<Rightarrow> complete_now (op\<lparr>rop_ec := Some e\<rparr>) is_continuation (r, s)
         else enqueue_op op_type d op (r, s))"

definition start_op :: "nat \<Rightarrow> nat option \<Rightarrow> reactor_op \<Rightarrow> bool \<Rightarrow> bool \<Rightarrow> loop \<Rightarrow> loop" where
  "start_op op_type descriptor_data op is_continuation allow_speculative l =
     (let (r, s) = l
      in case descriptor_data of
           None \<Rightarrow> complete_now (op\<lparr>rop_ec := Some bad_descriptor\<rparr>) is_continuation (r, s)
         | Some d \<Rightarrow>
             if d_shutdown (dstate r d) then complete_now op is_continuation (r, s)
             else if rq (dstate r d) op_type \<noteq> [] then enqueue_op op_type d op (r, s)
             else if allow_speculative \<and> (op_type \<noteq> read_op \<or> rq (dstate r d) except_op = []) then
               if try_speculative (dstate r d) op_type then
                 let (st, op, r) = perform op r
                 in if st \<noteq> Not_done then
                      complete_now op is_continuation
                        (if st = Done_and_exhausted \<and> registered_events (dstate r d) \<noteq> 0
                         then set_state d (\<lambda>ds. ds\<lparr>try_speculative := (try_speculative ds)(op_type := False)\<rparr>) r
                         else r, s)
                    else wait_for_events op_type d op is_continuation (r, s)
               else wait_for_events op_type d op is_continuation (r, s)
             else if registered_events (dstate r d) = 0
             then complete_now (op\<lparr>rop_ec := Some operation_not_supported\<rparr>) is_continuation (r, s)
             else
               let r = (if op_type = write_op
                        then set_state d (\<lambda>ds. ds\<lparr>registered_events := registered_events ds OR EPOLLOUT\<rparr>) r else r)
               in enqueue_op op_type d op (snd (epoll_ctl r), s))"

definition op_aborted :: "reactor_op \<Rightarrow> reactor_op" where
  "op_aborted op = op\<lparr>rop_ec := Some operation_canceled\<rparr>"

definition take_all :: "(reactor_op \<Rightarrow> reactor_op) \<Rightarrow> nat \<Rightarrow> reactor \<Rightarrow> oper list \<times> reactor" where
  \<comment> \<open>all operations of a descriptor, type by type\<close>
  "take_all f d r =
     (map (\<lambda>op. Io (f op)) (concat (map (rq (dstate r d)) [0..<max_ops])),
      set_state d (\<lambda>st. st\<lparr>rq := (\<lambda>i. if i < max_ops then [] else rq st i)\<rparr>) r)"

definition cancel_ops :: "nat option \<Rightarrow> loop \<Rightarrow> loop" where
  "cancel_ops descriptor_data l =
     (case descriptor_data of None \<Rightarrow> l
      | Some d \<Rightarrow> let (r, s) = l; (ops, r) = take_all op_aborted d r in (r, post_deferred_completions ops s))"

definition cancel_ops_by_key :: "nat option \<Rightarrow> nat \<Rightarrow> nat \<Rightarrow> loop \<Rightarrow> loop" where
  "cancel_ops_by_key descriptor_data op_type key l =
     (case descriptor_data of None \<Rightarrow> l
      | Some d \<Rightarrow>
          let (r, s) = l;
              queue = rq (dstate r d) op_type;
              ops = map (\<lambda>op. Io (op_aborted op)) (filter (\<lambda>op. rop_key op = key) queue);
              other_ops = filter (\<lambda>op. rop_key op \<noteq> key) queue
          in (set_state d (\<lambda>st. st\<lparr>rq := (rq st)(op_type := other_ops)\<rparr>) r, post_deferred_completions ops s))"

definition deregister_descriptor :: "nat option \<Rightarrow> bool \<Rightarrow> loop \<Rightarrow> nat option \<times> loop" where
  "deregister_descriptor descriptor_data closing l =
     (case descriptor_data of None \<Rightarrow> (None, l)
      | Some d \<Rightarrow>
          let (r, s) = l
          in if \<not> d_shutdown (dstate r d) then
               let r = (if \<not> closing \<and> registered_events (dstate r d) \<noteq> 0 then snd (epoll_ctl r) else r);
                   (ops, r) = take_all op_aborted d r;
                   r = set_state d (\<lambda>st. st\<lparr>descriptor := -1, d_shutdown := True\<rparr>) r
               in (Some d, r, post_deferred_completions ops s)
             else (None, r, s))"

definition deregister_internal_descriptor :: "nat option \<Rightarrow> reactor \<Rightarrow> nat option \<times> oper list \<times> reactor" where
  \<comment> \<open>with the operations that are destroyed\<close>
  "deregister_internal_descriptor descriptor_data r =
     (case descriptor_data of None \<Rightarrow> (None, [], r)
      | Some d \<Rightarrow>
          if \<not> d_shutdown (dstate r d) then
            let r = snd (epoll_ctl r);
                (ops, r) = take_all id d r
            in (Some d, ops, set_state d (\<lambda>st. st\<lparr>descriptor := -1, d_shutdown := True\<rparr>) r)
          else (None, [], r))"

definition cleanup_descriptor_data :: "nat option \<Rightarrow> reactor \<Rightarrow> nat option \<times> reactor" where
  "cleanup_descriptor_data descriptor_data r =
     (case descriptor_data of None \<Rightarrow> (None, r) | Some d \<Rightarrow> (None, r\<lparr>registered := pool_free d (registered r)\<rparr>))"

section \<open>Timers\<close>

definition read_clock :: "reactor \<Rightarrow> (nat \<Rightarrow> int) \<times> reactor" where
  "read_clock r = (clock r (clock_readings r), r\<lparr>clock_readings := Suc (clock_readings r)\<rparr>)"

definition get_timeout_ms :: "int \<Rightarrow> reactor \<Rightarrow> (int \<times> reactor) option" where
  "get_timeout_ms msec r =
     (let max_msec = 5 * 60 * 1000;
          (now, r) = read_clock r
      in map_option (\<lambda>d. (d, r)) (tqs_wait_msec now (if msec < 0 \<or> max_msec < msec then max_msec else msec) (timer_queues r)))"

definition get_timeout_spec :: "reactor \<Rightarrow> ((int \<times> int \<times> bool) \<times> reactor) option" where
  "get_timeout_spec r =
     (let (now, r) = read_clock r
      in map_option (\<lambda>usec. ((cdiv usec 1000000, if usec \<noteq> 0 then (usec - cdiv usec 1000000 * 1000000) * 1000 else 1, usec = 0), r))
           (tqs_wait_usec now (5 * 60 * 1000 * 1000) (timer_queues r)))"

definition set_timer :: "reactor \<Rightarrow> reactor option" where
  "set_timer r = map_option (\<lambda>(ts, r). r\<lparr>timer_setting := Some ts\<rparr>) (get_timeout_spec r)"

definition reactor_interrupt :: "reactor \<Rightarrow> reactor" where
  \<comment> \<open>the registration of the interrupter is modified; the answer is ignored\<close>
  "reactor_interrupt r = snd (epoll_ctl r)"

definition update_timeout :: "reactor \<Rightarrow> reactor option" where
  "update_timeout r = (if has_timer_fd r then set_timer r else Some (reactor_interrupt r))"

definition do_add_timer_queue :: "nat \<Rightarrow> timer_queue \<Rightarrow> reactor \<Rightarrow> reactor" where
  "do_add_timer_queue p q r = r\<lparr>timer_queues := tqs_insert p q (timer_queues r)\<rparr>"

definition do_remove_timer_queue :: "nat \<Rightarrow> reactor \<Rightarrow> reactor" where
  "do_remove_timer_queue p r = r\<lparr>timer_queues := tqs_erase p (timer_queues r)\<rparr>"

definition queue_at :: "nat \<Rightarrow> reactor \<Rightarrow> timer_queue" where
  \<comment> \<open>the queue with this address\<close>
  "queue_at p r = (case map_of (timer_queues r) p of Some q \<Rightarrow> q | None \<Rightarrow> tq_init)"

definition put_queue :: "nat \<Rightarrow> timer_queue \<Rightarrow> reactor \<Rightarrow> reactor" where
  "put_queue p q r = r\<lparr>timer_queues := map (\<lambda>(p', q'). (p', if p' = p then q else q')) (timer_queues r)\<rparr>"

definition schedule_timer :: "nat \<Rightarrow> int \<Rightarrow> timer \<Rightarrow> wait_op \<Rightarrow> loop \<Rightarrow> loop option" where
  "schedule_timer p time t op l =
     (let (r, s) = l
      in if r_shutdown r then Some (r, post_immediate_completion (Wait op) False s)
         else
           let (earliest, q) = enqueue_timer time t op (queue_at p r);
               r = put_queue p q r;
               s = work_started s
           in if earliest then map_option (\<lambda>r. (r, s)) (update_timeout r) else Some (r, s))"

definition reactor_cancel_timer :: "nat \<Rightarrow> timer \<Rightarrow> nat \<Rightarrow> loop \<Rightarrow> nat \<times> loop" where
  "reactor_cancel_timer p t max_cancelled l =
     (let (r, s) = l;
          (n, ops, q) = cancel_timer t [] max_cancelled (queue_at p r)
      in (n, put_queue p q r, post_deferred_completions (map Wait ops) s))"

definition reactor_cancel_timer_by_key :: "nat \<Rightarrow> timer \<Rightarrow> nat \<Rightarrow> loop \<Rightarrow> loop" where
  "reactor_cancel_timer_by_key p t key l =
     (let (r, s) = l;
          (ops, q) = cancel_timer_by_key t [] key (queue_at p r)
      in (put_queue p q r, post_deferred_completions (map Wait ops) s))"

definition reactor_move_timer :: "nat \<Rightarrow> timer \<Rightarrow> timer \<Rightarrow> loop \<Rightarrow> loop" where
  "reactor_move_timer p target source l =
     (let (r, s) = l;
          (n, ops, q) = cancel_timer target [] size_max (queue_at p r)
      in (put_queue p (move_timer target source q) r, post_deferred_completions (map Wait ops) s))"

section \<open>Waiting for events\<close>

definition task_ops :: "oper scheduler \<Rightarrow> oper list" where
  \<comment> \<open>\<open>this_thread.private_op_queue\<close>, which the scheduler passes as \<open>ops\<close>\<close>
  "task_ops s = (case contexts s of [] \<Rightarrow> [] | t # _ \<Rightarrow> private_op_queue t)"

definition push_task_ops :: "(oper list \<Rightarrow> oper list) \<Rightarrow> oper scheduler \<Rightarrow> oper scheduler" where
  "push_task_ops f s = on_context (\<lambda>t. t\<lparr>private_op_queue := f (private_op_queue t)\<rparr>) s"

fun is_descriptor :: "nat \<Rightarrow> oper \<Rightarrow> bool" where
  "is_descriptor d (Descriptor d' _) = (d' = d)"
| "is_descriptor d _ = False"

fun add_ready_events :: "nat \<Rightarrow> u32 \<Rightarrow> oper \<Rightarrow> oper" where
  "add_ready_events d events (Descriptor d' ev) = Descriptor d' (if d' = d then ev OR events else ev)"
| "add_ready_events d events op = op"

definition dispatch_ready :: "nat \<Rightarrow> u32 \<Rightarrow> oper list \<Rightarrow> oper list" where
  \<comment> \<open>the state of a descriptor is in no other queue at this point, so \<open>is_enqueued\<close> asks about this one\<close>
  "dispatch_ready d events ops =
     (if \<not> list_ex (is_descriptor d) ops then ops @ [Descriptor d events]
      else map (add_ready_events d events) ops)"

fun dispatch_events :: "bool \<Rightarrow> event list \<Rightarrow> bool \<times> oper list \<Rightarrow> bool \<times> oper list" where
  \<comment> \<open>whether the timers are to be checked, and the queue of ready operations\<close>
  "dispatch_events timer_fd [] co = co"
| "dispatch_events timer_fd (Interrupter # evs) (check, ops) =
     dispatch_events timer_fd evs (if \<not> timer_fd then True else check, ops)"
| "dispatch_events timer_fd (Timer_fd # evs) (check, ops) = dispatch_events timer_fd evs (True, ops)"
| "dispatch_events timer_fd (Ready d events # evs) (check, ops) =
     dispatch_events timer_fd evs (check, dispatch_ready d events ops)"

definition poll_timeout :: "int \<Rightarrow> reactor \<Rightarrow> (int \<times> reactor) option" where
  "poll_timeout usec r =
     (if usec = 0 then Some (0, r)
      else let timeout = (if usec < 0 then -1 else cdiv (usec - 1) 1000 + 1)
           in if \<not> has_timer_fd r then get_timeout_ms timeout r else Some (timeout, r))"

definition ready_timers :: "reactor \<Rightarrow> (oper list \<times> reactor) option" where
  "ready_timers r =
     (let (now, r) = read_clock r
      in Option.bind (tqs_get_ready now [] (timer_queues r)) (\<lambda>(ops, qs).
           map_option (\<lambda>r. (map Wait ops, r))
             (if has_timer_fd r then set_timer (r\<lparr>timer_queues := qs\<rparr>) else Some (r\<lparr>timer_queues := qs\<rparr>))))"

definition reactor_run :: "int \<Rightarrow> loop \<Rightarrow> loop option" where
  "reactor_run usec l =
     (let (r, s) = l
      in Option.bind (poll_timeout usec r) (\<lambda>(timeout, r).
         case polls r of [] \<Rightarrow> None
         | events # rest \<Rightarrow>
             let r = r\<lparr>epoll_timeout := timeout, polls := rest\<rparr>;
                 (check_timers, ops) = dispatch_events (has_timer_fd r) events (\<not> has_timer_fd r, task_ops s)
             in if check_timers then
                  map_option (\<lambda>(timer_ops, r). (r, push_task_ops (\<lambda>_. ops @ timer_ops) s)) (ready_timers r)
                else Some (r, push_task_ops (\<lambda>_. ops) s)))"

section \<open>Performing operations\<close>

definition event_flag :: "nat \<Rightarrow> u32" where
  "event_flag j = (if j = read_op then EPOLLIN else if j = write_op then EPOLLOUT else EPOLLPRI)"

fun perform_queue :: "reactor_op list \<Rightarrow> reactor \<Rightarrow> reactor_op list \<times> reactor_op list \<times> bool \<times> reactor" where
  \<comment> \<open>the completed operations, the queue that is left, and whether the descriptor is exhausted\<close>
  "perform_queue [] r = ([], [], False, r)"
| "perform_queue (op # queue) r =
     (let (st, op, r) = perform op r
      in if st = Not_done then ([], op # queue, False, r)
         else if st = Done_and_exhausted then ([op], queue, True, r)
         else let (completed, queue, exhausted, r) = perform_queue queue r
              in (op # completed, queue, exhausted, r))"

definition perform_type :: "nat \<Rightarrow> u32 \<Rightarrow> nat \<Rightarrow> oper list \<times> reactor \<Rightarrow> oper list \<times> reactor" where
  "perform_type d events j pr =
     (let (ops, r) = pr
      in if events AND (event_flag j OR EPOLLERR OR EPOLLHUP) \<noteq> 0 then
           let r = set_state d (\<lambda>st. st\<lparr>try_speculative := (try_speculative st)(j := True)\<rparr>) r;
               (completed, queue, exhausted, r) = perform_queue (rq (dstate r d) j) r;
               r = set_state d (\<lambda>st. st\<lparr>rq := (rq st)(j := queue),
                     try_speculative := (if exhausted then (try_speculative st)(j := False) else try_speculative st)\<rparr>) r
           in (ops @ map Io completed, r)
         else (ops, r))"

definition perform_io :: "nat \<Rightarrow> u32 \<Rightarrow> loop \<Rightarrow> (oper option \<times> loop) option" where
  \<comment> \<open>the operation to complete at once; the others are posted\<close>
  "perform_io d events l =
     (let (r, s) = l;
          (ops, r) = fold (perform_type d events) [2, 1, 0] ([], r)
      in case ops of
           first_op # rest \<Rightarrow> Some (Some first_op, r, post_deferred_completions rest s)
         | [] \<Rightarrow> map_option (\<lambda>s. (None, r, s)) (compensating_work_started s))"

definition complete_oper :: "(oper \<Rightarrow> 'p \<times> loop \<Rightarrow> ('p \<times> loop) option) \<Rightarrow> oper \<Rightarrow> 'p \<times> loop \<Rightarrow> ('p \<times> loop) option" where
  \<comment> \<open>\<open>o->complete\<close>: a descriptor performs its operations and completes the first, the others call the user's
    handler, which is the argument and has a state of its own\<close>
  "complete_oper handler op pl =
     (case op of
        Descriptor d events \<Rightarrow>
          Option.bind (perform_io d events (snd pl)) (\<lambda>(first_op, l).
            case first_op of Some op \<Rightarrow> handler op (fst pl, l) | None \<Rightarrow> Some (fst pl, l))
      | _ \<Rightarrow> handler op pl)"

section \<open>Life of the reactor\<close>

definition arm_descriptors :: "reactor \<Rightarrow> reactor" where
  \<comment> \<open>the interrupter and the timer are added to the \<open>epoll\<close> set; the answers are ignored\<close>
  "arm_descriptors r = (let r = snd (epoll_ctl r) in if has_timer_fd r then snd (epoll_ctl r) else r)"

definition idle_state :: descriptor_state where
  \<comment> \<open>as the constructor leaves it, with its unset fields zero\<close>
  "idle_state = \<lparr>descriptor = 0, registered_events = 0, rq = (\<lambda>_. []), try_speculative = (\<lambda>_. False), d_shutdown = False\<rparr>"

definition reactor_init :: "reactor \<Rightarrow> reactor" where
  \<comment> \<open>the environment of the new reactor (whether there is a timer descriptor, and all answers) is that of \<open>env\<close>\<close>
  "reactor_init env =
     arm_descriptors (env\<lparr>r_shutdown := False, registered := pool_init, dstate := (\<lambda>_. idle_state),
       timer_queues := [], timer_setting := None, epoll_timeout := 0\<rparr>)"

fun reregister :: "nat list \<Rightarrow> reactor \<Rightarrow> errc option \<times> reactor" where
  \<comment> \<open>after a fork; an error is thrown\<close>
  "reregister [] r = (None, r)"
| "reregister (d # ds) r =
     (let (result, r) = epoll_ctl r in case result of Some e \<Rightarrow> (Some e, r) | None \<Rightarrow> reregister ds r)"

definition notify_fork_child :: "bool \<Rightarrow> reactor \<Rightarrow> (errc option \<times> reactor) option" where
  \<comment> \<open>the new timer descriptor may be missing\<close>
  "notify_fork_child timer_fd r =
     map_option (\<lambda>r. reregister (live_list (registered r)) r) (update_timeout (arm_descriptors (r\<lparr>has_timer_fd := timer_fd\<rparr>)))"

function shutdown_descriptors :: "oper list \<Rightarrow> reactor \<Rightarrow> oper list \<times> reactor" where
  "shutdown_descriptors ops r =
     (case pool_first (registered r) of
        None \<Rightarrow> (ops, r)
      | Some d \<Rightarrow>
          let (taken, r) = take_all id d r;
              r = set_state d (\<lambda>st. st\<lparr>d_shutdown := True\<rparr>) r
          in shutdown_descriptors (ops @ taken) (r\<lparr>registered := pool_free d (registered r)\<rparr>))"
  by pat_completeness auto
termination
  by (relation "measure (\<lambda>(ops, r). length (live_list (registered r)))")
    (auto simp: pool_first_def pool_free_def take_all_def set_state_def split: list.splits)

definition reactor_shutdown :: "reactor \<Rightarrow> (oper list \<times> reactor) option" where
  \<comment> \<open>with the operations that are destroyed\<close>
  "reactor_shutdown r =
     (let (ops, r) = shutdown_descriptors [] (r\<lparr>r_shutdown := True\<rparr>)
      in map_option (\<lambda>(timer_ops, qs). (abandon_operations (ops @ map Wait timer_ops), r\<lparr>timer_queues := qs\<rparr>))
           (tqs_get_all [] (timer_queues r)))"

end
