(* ===== verification/Asio_Loop.thy ===== *)
theory Asio_Loop
  imports Asio_Reactor Asio_Timer_Spec
begin

text \<open>
  The event loop as a whole: the scheduler with the reactor as its task, driven by a program whose
  handlers call the functions of both. The accounting: every operation that was started is in exactly one
  place until its handler has run, and the scheduler's count of outstanding work agrees with what there is to do.
\<close>

section \<open>A program\<close>

datatype act =
    Post nat bool
  | Dispatch nat
  | Start nat "nat option" reactor_op bool bool
  | Cancel "nat option"
  | Cancel_key "nat option" nat nat
  | Open_socket int
  | Close_socket nat bool
  | Timer_wait nat int timer wait_op
  | Timer_cancel nat timer nat
  | Timer_cancel_key nat timer nat
  | Work_start
  | Work_end
  | Stop_loop

record program =
  begun :: "nat list"            \<comment> \<open>the operations started, by their numbers\<close>
  ended :: "nat list"            \<comment> \<open>the handlers called, in their order\<close>
  guards :: nat                  \<comment> \<open>work guards held\<close>
  stop_asked :: bool
  script :: "act list list"      \<comment> \<open>what the coming handlers do\<close>

type_synonym world = "program \<times> loop"

definition live_ref :: "nat option \<Rightarrow> reactor \<Rightarrow> bool" where
  "live_ref d r = (case d of None \<Rightarrow> True | Some x \<Rightarrow> x \<in> set (live_list (registered r)))"

lemma live_ref_iff [simp]: "live_ref d r \<longleftrightarrow> (\<forall>x. d = Some x \<longrightarrow> x \<in> set (live_list (registered r)))"
  by (simp add: live_ref_def split: option.split)

fun legal :: "act \<Rightarrow> world \<Rightarrow> bool" where
  \<comment> \<open>the program names only sockets and timer queues that there are, and ends only work it started\<close>
  "legal (Start j d op c a) (g, r, s) = (j < max_ops \<and> live_ref d r)"
| "legal (Cancel d) (g, r, s) = live_ref d r"
| "legal (Cancel_key d j k) (g, r, s) = (j < max_ops \<and> live_ref d r)"
| "legal (Close_socket d c) (g, r, s) = (d \<in> set (live_list (registered r)) \<and> \<not> d_shutdown (dstate r d))"
| "legal (Timer_wait p d t op) (g, r, s) = (p \<in> fst ` set (timer_queues r))"
| "legal (Timer_cancel p t n) (g, r, s) = (p \<in> fst ` set (timer_queues r))"
| "legal (Timer_cancel_key p t k) (g, r, s) = (p \<in> fst ` set (timer_queues r))"
| "legal Work_end (g, r, s) = (0 < guards g)"
| "legal _ _ = True"

fun begins :: "act \<Rightarrow> nat list" where
  "begins (Post n c) = [n]"
| "begins (Dispatch n) = [n]"
| "begins (Start j d op c a) = [rop_id op]"
| "begins (Timer_wait p d t op) = [op_id op]"
| "begins _ = []"

fun act_loop :: "act \<Rightarrow> loop \<Rightarrow> loop option" where
  \<comment> \<open>the call of the library\<close>
  "act_loop (Post n c) (r, s) = Some (r, post_immediate_completion (Handler n) c s)"
| "act_loop (Dispatch n) (r, s) = Some (r, do_dispatch (Handler n) s)"
| "act_loop (Start j d op c a) l = Some (start_op j d op c a l)"
| "act_loop (Cancel d) l = Some (cancel_ops d l)"
| "act_loop (Cancel_key d j k) l = Some (cancel_ops_by_key d j k l)"
| "act_loop (Open_socket fd) (r, s) = (case register_descriptor fd r of (ec, d, r) \<Rightarrow> Some (r, s))"
| "act_loop (Close_socket d c) l =
     (case deregister_descriptor (Some d) c l of (data, r, s) \<Rightarrow> Some (snd (cleanup_descriptor_data data r), s))"
| "act_loop (Timer_wait p d t op) l = schedule_timer p d t op l"
| "act_loop (Timer_cancel p t n) l = Some (snd (reactor_cancel_timer p t n l))"
| "act_loop (Timer_cancel_key p t k) l = Some (reactor_cancel_timer_by_key p t k l)"
| "act_loop Work_start (r, s) = Some (r, work_started s)"
| "act_loop Work_end (r, s) = Some (r, work_finished s)"
| "act_loop Stop_loop (r, s) = Some (r, stop s)"

fun note_act :: "act \<Rightarrow> program \<Rightarrow> program" where
  "note_act Work_start g = g\<lparr>guards := guards g + 1\<rparr>"
| "note_act Work_end g = g\<lparr>guards := guards g - 1\<rparr>"
| "note_act Stop_loop g = g\<lparr>stop_asked := True\<rparr>"
| "note_act a g = g\<lparr>begun := begun g @ begins a\<rparr>"

definition do_act :: "act \<Rightarrow> world \<Rightarrow> world option" where
  "do_act a w =
     (if legal a w then map_option (\<lambda>l. (note_act a (fst w), l)) (act_loop a (snd w)) else None)"

fun do_acts :: "act list \<Rightarrow> world \<Rightarrow> world option" where
  "do_acts [] w = Some w"
| "do_acts (a # as) w = Option.bind (do_act a w) (do_acts as)"

fun oid :: "oper \<Rightarrow> nat list" where
  \<comment> \<open>the number of a user's operation\<close>
  "oid (Handler n) = [n]"
| "oid (Io op) = [rop_id op]"
| "oid (Wait op) = [op_id op]"
| "oid (Descriptor _ _) = []"

definition call_handler :: "oper \<Rightarrow> world \<Rightarrow> world option" where
  "call_handler op w =
     (let g = (fst w)\<lparr>ended := ended (fst w) @ oid op\<rparr>
      in case script g of
           [] \<Rightarrow> Some (g, snd w)
         | as # rest \<Rightarrow> do_acts as (g\<lparr>script := rest\<rparr>, snd w))"

definition loop_complete :: "oper \<Rightarrow> (program \<times> reactor) \<times> oper scheduler \<Rightarrow> ((program \<times> reactor) \<times> oper scheduler) option" where
  "loop_complete op ws =
     (case ws of ((g, r), s) \<Rightarrow>
        map_option (\<lambda>(g, r, s). ((g, r), s)) (complete_oper call_handler op (g, r, s)))"

definition loop_task :: "int \<Rightarrow> (program \<times> reactor) \<times> oper scheduler \<Rightarrow> ((program \<times> reactor) \<times> oper scheduler) option" where
  "loop_task usec ws =
     (case ws of ((g, r), s) \<Rightarrow> map_option (\<lambda>(r, s). ((g, r), s)) (reactor_run usec (r, s)))"

section \<open>Accounting\<close>

definition oids :: "oper list \<Rightarrow> nat list" where
  "oids ops = concat (map oid ops)"

primrec item_ops :: "'o item \<Rightarrow> 'o list" where
  "item_ops Task = []"
| "item_ops (Op op) = [op]"

definition ready_ops :: "'o scheduler \<Rightarrow> 'o list" where
  "ready_ops s = concat (map item_ops (ready s))"

definition private_ids :: "oper thread_info list \<Rightarrow> nat multiset" where
  "private_ids cs = (\<Sum>t\<leftarrow>cs. mset (oids (private_op_queue t)))"

definition queued :: "oper scheduler \<Rightarrow> nat multiset" where
  "queued s = mset (oids (ready_ops s)) + private_ids (contexts s)"

definition work :: "'o scheduler \<Rightarrow> int" where
  "work s = outstanding_work s + (\<Sum>t\<leftarrow>contexts s. private_outstanding_work t)"

definition timer_held :: "timer_queue \<Rightarrow> nat multiset" where
  "timer_held q = (\<Sum>t \<in> {t. waiting q t \<noteq> []}. mset (map op_id (waiting q t)))"

definition timers_held :: "timer_queue_set \<Rightarrow> nat multiset" where
  "timers_held qs = (\<Sum>pq\<leftarrow>qs. timer_held (snd pq))"

definition io_held :: "nat set \<Rightarrow> (nat \<Rightarrow> descriptor_state) \<Rightarrow> nat multiset" where
  "io_held ds st = (\<Sum>d \<in> ds. \<Sum>j < max_ops. mset (map rop_id (rq (st d) j)))"

definition held :: "reactor \<Rightarrow> nat multiset" where
  "held r = io_held (set (live_list (registered r))) (dstate r) + timers_held (timer_queues r)"

definition pending :: "loop \<Rightarrow> nat multiset" where
  "pending l = queued (snd l) + held (fst l)"

definition pool_ok :: "pool \<Rightarrow> bool" where
  "pool_ok p = (distinct (live_list p @ free_list p) \<and> (\<forall>d \<in> set (live_list p @ free_list p). d < created p))"

definition reactor_ok :: "reactor \<Rightarrow> bool" where
  "reactor_ok r =
     (pool_ok (registered r) \<and>
      (\<forall>d j. d \<notin> set (live_list (registered r)) \<or> max_ops \<le> j \<longrightarrow> rq (dstate r d) j = []) \<and>
      distinct (map fst (timer_queues r)) \<and> (\<forall>q \<in> snd ` set (timer_queues r). tq_ok q))"

definition contexts_ok :: "oper thread_info list \<Rightarrow> bool" where
  "contexts_ok cs = (\<forall>t \<in> set cs. 0 \<le> private_outstanding_work t
     \<and> private_outstanding_work t \<le> int (length (oids (private_op_queue t))))"

definition loop_ok :: "loop \<Rightarrow> bool" where
  "loop_ok l = (reactor_ok (fst l) \<and> contexts_ok (contexts (snd l)))"

definition effect :: "nat multiset \<Rightarrow> loop \<Rightarrow> loop \<Rightarrow> bool" where
  \<comment> \<open>what every call does: it adds the operations it starts, each with its work, and loses none\<close>
  "effect new l l' =
     (loop_ok l' \<and> pending l' = pending l + new \<and> work (snd l') = work (snd l) + int (size new) \<and>
      length (contexts (snd l')) = length (contexts (snd l)) \<and> stopped (snd l') = stopped (snd l))"

lemma effect_refl: "loop_ok l \<Longrightarrow> effect {#} l l"
  by (simp add: effect_def)

lemma effect_trans: "effect a l l' \<Longrightarrow> effect b l' l'' \<Longrightarrow> effect (a + b) l l''"
  by (simp add: effect_def)

lemma effect_ok: "effect a l l' \<Longrightarrow> loop_ok l'"
  by (simp add: effect_def)

lemma oids_simps [simp]:
  "oids [] = []" "oids (op # ops) = oid op @ oids ops" "oids (xs @ ys) = oids xs @ oids ys"
  by (simp_all add: oids_def)

lemma oids_map [simp]:
  "oids (map (\<lambda>op. Io (f op)) ios) = map (\<lambda>op. rop_id (f op)) ios"
  "oids (map Io ios) = map rop_id ios"
  by (induct ios) simp_all

lemma oids_waits [simp]: "oids (map Wait waits) = map op_id waits"
  by (induct waits) simp_all

lemma ready_ops_simps [simp]:
  "concat (map (item_ops \<circ> Op) ops) = ops"
  by (induct ops) simp_all

section \<open>The scheduler's calls\<close>

lemma interrupt_task_frame [simp]:
  "ready (interrupt_task s) = ready s" "contexts (interrupt_task s) = contexts s"
  "outstanding_work (interrupt_task s) = outstanding_work s" "stopped (interrupt_task s) = stopped s"
  "one_thread (interrupt_task s) = one_thread s" "task_set (interrupt_task s) = task_set s"
  by (simp_all add: interrupt_task_def)

lemma contexts_ok_simps [simp]:
  "contexts_ok []"
  "contexts_ok (t # ts) = (0 \<le> private_outstanding_work t
     \<and> private_outstanding_work t \<le> int (length (oids (private_op_queue t))) \<and> contexts_ok ts)"
  by (auto simp: contexts_ok_def)

lemma post_immediate_effect:
  assumes "loop_ok (r, s)" "oid op = [n]"
  shows "effect {#n#} (r, s) (r, post_immediate_completion op c s)"
  using assms
  by (cases "contexts s")
    (auto simp: effect_def loop_ok_def pending_def queued_def work_def post_immediate_completion_def
      on_context_def work_started_def wake_one_thread_and_unlock_def ready_ops_def private_ids_def Let_def)

lemma dispatch_effect:
  assumes "loop_ok (r, s)" "oid op = [n]"
  shows "effect {#n#} (r, s) (r, do_dispatch op s)"
  using assms
  by (auto simp: effect_def loop_ok_def pending_def queued_def work_def do_dispatch_def
      work_started_def wake_one_thread_and_unlock_def ready_ops_def private_ids_def Let_def)

lemma deferred_parts:
  assumes "contexts_ok (contexts s)"
  shows "queued (post_deferred_completions ops s) = queued s + mset (oids ops)"
    "work (post_deferred_completions ops s) = work s"
    "contexts_ok (contexts (post_deferred_completions ops s))"
    "length (contexts (post_deferred_completions ops s)) = length (contexts s)"
    "stopped (post_deferred_completions ops s) = stopped s"
proof -
  have "queued (post_deferred_completions ops s) = queued s + mset (oids ops) \<and>
    work (post_deferred_completions ops s) = work s \<and> contexts_ok (contexts (post_deferred_completions ops s)) \<and>
    length (contexts (post_deferred_completions ops s)) = length (contexts s) \<and>
    stopped (post_deferred_completions ops s) = stopped s"
    using assms
    by (cases "contexts s") (simp_all add: queued_def work_def post_deferred_completions_def
      on_context_def wake_one_thread_and_unlock_def ready_ops_def private_ids_def Let_def)
  then show "queued (post_deferred_completions ops s) = queued s + mset (oids ops)"
    "work (post_deferred_completions ops s) = work s"
    "contexts_ok (contexts (post_deferred_completions ops s))"
    "length (contexts (post_deferred_completions ops s)) = length (contexts s)"
    "stopped (post_deferred_completions ops s) = stopped s" by simp_all
qed

lemma deferred_effect:
  \<comment> \<open>operations that leave the reactor for the queue\<close>
  assumes "contexts_ok (contexts s)" "reactor_ok r'" "held r' + mset (oids ops) = held r"
  shows "effect {#} (r, s) (r', post_deferred_completions ops s)"
  using assms deferred_parts [OF assms(1), of ops]
  by (simp add: effect_def loop_ok_def pending_def ac_simps)

section \<open>What the reactor holds\<close>

lemma io_held_update:
  assumes "finite ds" "d \<in> ds" "j < max_ops"
  shows "io_held ds (st(d := x\<lparr>rq := (rq (st d))(j := w)\<rparr>)) + mset (map rop_id (rq (st d) j)) =
    io_held ds st + mset (map rop_id w)"
proof -
  let ?f = "\<lambda>st d. \<Sum>j < max_ops. mset (map rop_id (rq (st d) j))"
  let ?st = "st(d := x\<lparr>rq := (rq (st d))(j := w)\<rparr>)"
  have "?f ?st d = mset (map rop_id w) + (\<Sum>i \<in> {..<max_ops} - {j}. mset (map rop_id (rq (st d) i)))"
    using assms(3) by (subst sum.remove [of _ j]) auto
  moreover have "?f st d = mset (map rop_id (rq (st d) j)) + (\<Sum>i \<in> {..<max_ops} - {j}. mset (map rop_id (rq (st d) i)))"
    using assms(3) by (subst sum.remove [of _ j]) auto
  ultimately have "?f ?st d + mset (map rop_id (rq (st d) j)) = ?f st d + mset (map rop_id w)"
    by (simp add: ac_simps)
  moreover have "io_held ds ?st = ?f ?st d + (\<Sum>e \<in> ds - {d}. ?f st e)" "io_held ds st = ?f st d + (\<Sum>e \<in> ds - {d}. ?f st e)"
    unfolding io_held_def using assms(1,2) by (subst sum.remove [of _ d]; simp)+
  ultimately show ?thesis by (simp add: ac_simps)
qed

lemma io_held_cong:
  "(\<And>d j. d \<in> ds \<Longrightarrow> j < max_ops \<Longrightarrow> rq (st' d) j = rq (st d) j) \<Longrightarrow> io_held ds st' = io_held ds st"
  unfolding io_held_def by (intro sum.cong) auto

lemma timer_held_update:
  assumes "finite {t. waiting q t \<noteq> []}" "waiting q' = (waiting q)(t := w)"
  shows "timer_held q' + mset (map op_id (waiting q t)) = timer_held q + mset (map op_id w)"
proof -
  let ?A = "{t. waiting q t \<noteq> []}" and ?m = "\<lambda>q t. mset (map op_id (waiting q t))"
  have all: "timer_held p = (\<Sum>u \<in> insert t ?A. ?m p u)" if "\<And>u. u \<noteq> t \<Longrightarrow> waiting p u = waiting q u" for p
    unfolding timer_held_def
  proof (intro sum.mono_neutral_left)
    show "finite (insert t ?A)" using assms(1) by simp
    show "{u. waiting p u \<noteq> []} \<subseteq> insert t ?A" using that by auto
    show "\<forall>u \<in> insert t ?A - {u. waiting p u \<noteq> []}. mset (map op_id (waiting p u)) = {#}" by simp
  qed
  have "timer_held q' = ?m q' t + (\<Sum>u \<in> ?A - {t}. ?m q u)" "timer_held q = ?m q t + (\<Sum>u \<in> ?A - {t}. ?m q u)"
    using all [of q'] all [of q] assms by (simp_all add: sum.insert_remove)
  then show ?thesis using assms(2) by (simp add: ac_simps)
qed

lemma waiting_finite: "tq_ok q \<Longrightarrow> finite {t. waiting q t \<noteq> []}"
  unfolding tq_ok_def tq_inv_def by auto

lemma timers_held_simps [simp]:
  "timers_held [] = {#}" "timers_held (pq # qs) = timer_held (snd pq) + timers_held qs"
  by (simp_all add: timers_held_def)

lemma timers_held_put:
  "distinct (map fst qs) \<Longrightarrow> map_of qs p = Some q \<Longrightarrow>
   timers_held (map (\<lambda>(p', q'). (p', if p' = p then q1 else q')) qs) + timer_held q = timers_held qs + timer_held q1"
proof (induction qs)
  case (Cons x qs)
  show ?case
  proof (cases "fst x = p")
    case True
    then have "p \<notin> fst ` set qs" using Cons.prems(1) by auto
    then have "map (\<lambda>(p', q'). (p', if p' = p then q1 else q')) qs = qs" by (induct qs) auto
    then show ?thesis using True Cons.prems(2) by (cases x) (simp add: ac_simps)
  next
    case False
    then show ?thesis using Cons by (cases x) (simp add: ac_simps)
  qed
qed simp

section \<open>The reactor's calls\<close>

definition quiet :: "reactor \<Rightarrow> reactor \<Rightarrow> bool" where
  \<comment> \<open>no operation moves\<close>
  "quiet r r' = (registered r' = registered r \<and> timer_queues r' = timer_queues r \<and>
     (\<forall>d. rq (dstate r' d) = rq (dstate r d)))"

lemma quiet_refl [simp]: "quiet r r"
  by (simp add: quiet_def)

lemma quiet_trans: "quiet r r' \<Longrightarrow> quiet r' r'' \<Longrightarrow> quiet r r''"
  by (simp add: quiet_def)

lemma quiet_ctl [simp]: "quiet r (snd (epoll_ctl r))"
  by (simp add: quiet_def epoll_ctl_def)

lemma quiet_state: "(\<And>st. rq (f st) = rq st) \<Longrightarrow> quiet r (set_state d f r)"
  by (simp add: quiet_def set_state_def)

lemma quiet_perform: "perform op r = (st, op', r') \<Longrightarrow> quiet r r' \<and> rop_id op' = rop_id op \<and> dstate r' = dstate r"
  by (auto simp: perform_def quiet_def split: prod.splits)

lemma quiet_held: "quiet r r' \<Longrightarrow> held r' = held r"
  unfolding held_def quiet_def by (simp add: io_held_cong [of _ "dstate r'" "dstate r"])

lemma quiet_ok: "quiet r r' \<Longrightarrow> reactor_ok r \<Longrightarrow> reactor_ok r'"
  by (simp add: quiet_def reactor_ok_def)

lemma quiet_effect: "quiet r r' \<Longrightarrow> loop_ok (r, s) \<Longrightarrow> effect {#} (r, s) (r', s)"
  by (simp add: effect_def loop_ok_def pending_def quiet_held quiet_ok)

lemma after_quiet: "quiet r r' \<Longrightarrow> loop_ok (r, s) \<Longrightarrow> effect new (r', s) l \<Longrightarrow> effect new (r, s) l"
  using effect_trans [OF quiet_effect] by fastforce

lemma quiet_loop: "quiet r r' \<Longrightarrow> loop_ok (r, s) \<Longrightarrow> loop_ok (r', s)"
  by (simp add: loop_ok_def quiet_ok)

lemma live_finite [simp]: "finite (set (live_list p))"
  by simp

lemma requeue:
  assumes "reactor_ok r" "d \<in> set (live_list (registered r))" "j < max_ops"
    and "\<And>st. rq (f st) = (rq st)(j := w)"
  shows "held (set_state d f r) + mset (map rop_id (rq (dstate r d) j)) = held r + mset (map rop_id w)"
    and "reactor_ok (set_state d f r)"
proof -
  have "io_held (set (live_list (registered r))) ((dstate r)(d := f (dstate r d))) =
      io_held (set (live_list (registered r))) ((dstate r)(d := (dstate r d)\<lparr>rq := (rq (dstate r d))(j := w)\<rparr>))"
    by (rule io_held_cong) (simp add: assms(4))
  then have "io_held (set (live_list (registered r))) ((dstate r)(d := f (dstate r d)))
      + mset (map rop_id (rq (dstate r d) j)) =
    io_held (set (live_list (registered r))) (dstate r) + mset (map rop_id w)"
    using io_held_update [OF live_finite assms(2,3), where st = "dstate r" and x = "dstate r d" and w = w] by simp
  then show "held (set_state d f r) + mset (map rop_id (rq (dstate r d) j)) = held r + mset (map rop_id w)"
    by (simp add: held_def set_state_def ac_simps)
  show "reactor_ok (set_state d f r)"
    using assms by (auto simp: reactor_ok_def set_state_def)
qed

lemma enqueue_effect:
  assumes "loop_ok (r, s)" "d \<in> set (live_list (registered r))" "j < max_ops"
  shows "effect {#rop_id op#} (r, s) (enqueue_op j d op (r, s))"
proof -
  let ?r = "set_state d (\<lambda>st. st\<lparr>rq := (rq st)(j := rq st j @ [op])\<rparr>) r"
  have s: "?r = set_state d (\<lambda>st. st\<lparr>rq := (rq st)(j := rq (dstate r d) j @ [op])\<rparr>) r" by (simp add: set_state_def)
  have "reactor_ok r" using assms(1) by (simp add: loop_ok_def)
  note q = requeue [OF this assms(2,3), of "\<lambda>st. st\<lparr>rq := (rq st)(j := rq (dstate r d) j @ [op])\<rparr>"
      "rq (dstate r d) j @ [op]", simplified]
  have "held ?r = held r + {#rop_id op#}" using q(1) unfolding s by simp
  moreover have "reactor_ok ?r" using q(2) unfolding s by simp
  ultimately show ?thesis using assms(1)
    by (simp add: effect_def enqueue_op_def loop_ok_def pending_def work_def work_started_def queued_def ready_ops_def)
qed

lemma complete_now_effect:
  "loop_ok (r, s) \<Longrightarrow> rop_id op = n \<Longrightarrow> effect {#n#} (r, s) (complete_now op c (r, s))"
  by (simp add: complete_now_def post_immediate_effect)

lemma wait_for_events_effect:
  assumes "loop_ok (r, s)" "d \<in> set (live_list (registered r))" "j < max_ops"
  shows "effect {#rop_id op#} (r, s) (wait_for_events j d op c (r, s))"
proof -
  obtain res r1 where e: "epoll_ctl r = (res, r1)" by force
  then have q: "quiet r r1" by (metis quiet_ctl snd_conv)
  let ?r2 = "set_state d (\<lambda>st. st\<lparr>registered_events := registered_events st OR EPOLLOUT\<rparr>) r1"
  have q2: "quiet r ?r2" by (rule quiet_trans [OF q]) (rule quiet_state, simp)
  have "d \<in> set (live_list (registered ?r2))" using assms(2) q2 by (simp add: quiet_def)
  then have "effect {#rop_id op#} (r, s) (enqueue_op j d op (?r2, s))"
    by (intro after_quiet [OF q2 assms(1)] enqueue_effect quiet_loop [OF q2 assms(1)] assms(3))
  moreover have "effect {#rop_id op#} (r, s) (complete_now (op\<lparr>rop_ec := Some e\<rparr>) c (r1, s))" for e
    by (intro after_quiet [OF q assms(1)] complete_now_effect quiet_loop [OF q assms(1)]) simp
  ultimately show ?thesis
    using e enqueue_effect [OF assms] complete_now_effect [OF assms(1)]
    by (auto simp: wait_for_events_def Let_def split: option.split)
qed

lemma start_op_effect:
  assumes ok: "loop_ok (r, s)" and j: "j < max_ops" and d: "\<And>x. d = Some x \<Longrightarrow> x \<in> set (live_list (registered r))"
  shows "effect {#rop_id op#} (r, s) (start_op j d op c a (r, s))"
proof (cases d)
  case None
  then show ?thesis by (simp add: start_op_def complete_now_effect [OF ok])
next
  case (Some x)
  let ?ds = "dstate r x"
  have x: "x \<in> set (live_list (registered r))" using d Some by blast
  note now = complete_now_effect [OF ok] and wait = wait_for_events_effect [OF ok x j]
  obtain st op' r1 where p: "perform op r = (st, op', r1)" by (cases "perform op r") auto
  then have q: "quiet r r1" "rop_id op' = rop_id op" using quiet_perform by blast+
  let ?r2 = "set_state x (\<lambda>ds. ds\<lparr>try_speculative := (try_speculative ds)(j := False)\<rparr>) r1"
  have q2: "quiet r ?r2" by (rule quiet_trans [OF q(1)]) (rule quiet_state, simp)
  have finished: "effect {#rop_id op#} (r, s) (complete_now op' c (if b then ?r2 else r1, s))" for b
  proof -
    have "quiet r (if b then ?r2 else r1)" using q(1) q2 by simp
    from after_quiet [OF this ok complete_now_effect [OF quiet_loop [OF this ok]], of op' "rop_id op" c] q(2)
    show ?thesis by simp
  qed
  have wait1: "effect {#rop_id op#} (r, s) (wait_for_events j x op' c (r1, s))"
    using wait_for_events_effect [OF quiet_loop [OF q(1) ok] _ j, of x op' c] x q
    by (intro after_quiet [OF q(1) ok]) (simp add: quiet_def)
  let ?r3 = "if j = write_op then set_state x (\<lambda>ds. ds\<lparr>registered_events := registered_events ds OR EPOLLOUT\<rparr>) r else r"
  have q3: "quiet r (snd (epoll_ctl ?r3))"
  proof (rule quiet_trans)
    show "quiet r ?r3" by (cases "j = write_op") (simp_all add: quiet_state)
  qed simp
  have later: "effect {#rop_id op#} (r, s) (enqueue_op j x op (snd (epoll_ctl ?r3), s))"
    using enqueue_effect [OF quiet_loop [OF q3 ok] _ j, of x op] x q3
    by (intro after_quiet [OF q3 ok]) (simp add: quiet_def)
  show ?thesis
  proof (cases "d_shutdown ?ds \<or> rq ?ds j \<noteq> []")
    case True
    then show ?thesis using now enqueue_effect [OF ok x j] Some by (auto simp: start_op_def)
  next
    case idle: False
    show ?thesis
    proof (cases "a \<and> (j \<noteq> read_op \<or> rq ?ds except_op = [])")
      case True
      then show ?thesis using idle Some p finished [of "st = Done_and_exhausted \<and> registered_events (dstate r1 x) \<noteq> 0"] wait wait1
        by (auto simp: start_op_def)
    next
      case False
      then have "start_op j d op c a (r, s) =
        (if registered_events ?ds = 0 then complete_now (op\<lparr>rop_ec := Some operation_not_supported\<rparr>) c (r, s)
         else enqueue_op j x op (snd (epoll_ctl ?r3), s))"
        using idle unfolding start_op_def Some by (simp only: Let_def case_prod_conv option.case de_Morgan_disj simp_thms if_False)
      then show ?thesis using now later by simp
    qed
  qed
qed

lemma io_held_clear:
  assumes "finite ds" "d \<in> ds" "\<And>j. j < max_ops \<Longrightarrow> rq y j = []"
  shows "io_held ds (st(d := y)) + (\<Sum>j < max_ops. mset (map rop_id (rq (st d) j))) = io_held ds st"
proof -
  let ?f = "\<lambda>st d. \<Sum>j < max_ops. mset (map rop_id (rq (st d) j))"
  have "io_held ds (st(d := y)) = (\<Sum>e \<in> ds - {d}. ?f st e)"
    unfolding io_held_def using assms by (subst sum.remove [of _ d]) simp_all
  moreover have "io_held ds st = ?f st d + (\<Sum>e \<in> ds - {d}. ?f st e)"
    unfolding io_held_def using assms(1,2) by (subst sum.remove [of _ d]) simp_all
  ultimately show ?thesis by (simp add: ac_simps)
qed

lemma all_types: "mset (map rop_id (concat (map q [0..<max_ops]))) = (\<Sum>j < max_ops. mset (map rop_id (q j)))"
  by (simp add: max_ops_def upt_rec lessThan_nat_numeral lessThan_Suc ac_simps numeral_eq_Suc)

lemma take_all_parts:
  assumes "reactor_ok r" "d \<in> set (live_list (registered r))" "take_all f d r = (ops, r')" "\<And>op. rop_id (f op) = rop_id op"
  shows "held r' + mset (oids ops) = held r" "reactor_ok r'" "registered r' = registered r"
    "\<And>j. rq (dstate r' d) j = []"
proof -
  let ?g = "\<lambda>st. st\<lparr>rq := (\<lambda>i. if i < max_ops then [] else rq st i)\<rparr>"
  have r': "r' = set_state d ?g r" and ops: "ops = map (\<lambda>op. Io (f op)) (concat (map (rq (dstate r d)) [0..<max_ops]))"
    using assms(3) by (auto simp: take_all_def)
  have "mset (oids ops) = (\<Sum>j < max_ops. mset (map rop_id (rq (dstate r d) j)))"
    unfolding ops all_types [symmetric] by (simp only: oids_map assms(4))
  then show "held r' + mset (oids ops) = held r"
    using io_held_clear [OF live_finite assms(2), of "?g (dstate r d)" "dstate r"]
    by (simp add: r' held_def set_state_def ac_simps)
  show "reactor_ok r'" "registered r' = registered r"
    using assms(1) by (auto simp: r' reactor_ok_def set_state_def)
  show "rq (dstate r' d) j = []" for j
    using assms(1) by (simp add: r' set_state_def reactor_ok_def)
qed

lemma op_aborted_id [simp]: "rop_id (op_aborted op) = rop_id op"
  by (simp add: op_aborted_def)

lemma cancel_ops_effect:
  assumes "loop_ok (r, s)" "\<And>x. d = Some x \<Longrightarrow> x \<in> set (live_list (registered r))"
  shows "effect {#} (r, s) (cancel_ops d (r, s))"
proof (cases d)
  case None
  then show ?thesis using assms(1) by (simp add: cancel_ops_def effect_refl)
next
  case (Some x)
  obtain ops r' where t: "take_all op_aborted x r = (ops, r')" by force
  have "reactor_ok r" "contexts_ok (contexts s)" using assms(1) by (simp_all add: loop_ok_def)
  then show ?thesis
    using take_all_parts [OF _ _ t] assms(2) [OF Some] t Some by (simp add: cancel_ops_def deferred_effect)
qed

lemma cancel_key_effect:
  assumes "loop_ok (r, s)" "j < max_ops" "\<And>x. d = Some x \<Longrightarrow> x \<in> set (live_list (registered r))"
  shows "effect {#} (r, s) (cancel_ops_by_key d j k (r, s))"
proof (cases d)
  case None
  then show ?thesis using assms(1) by (simp add: cancel_ops_by_key_def effect_refl)
next
  case (Some x)
  let ?q = "rq (dstate r x) j"
  let ?w = "filter (\<lambda>op. rop_key op \<noteq> k) ?q" and ?c = "filter (\<lambda>op. rop_key op = k) ?q"
  let ?f = "\<lambda>st. st\<lparr>rq := (rq st)(j := ?w)\<rparr>"
  have ok: "reactor_ok r" "contexts_ok (contexts s)" using assms(1) by (simp_all add: loop_ok_def)
  have "mset (map rop_id q) = mset (map rop_id (filter (\<lambda>op. rop_key op = k) q))
      + mset (map rop_id (filter (\<lambda>op. rop_key op \<noteq> k) q))" for q :: "reactor_op list"
    by (induct q) simp_all
  note split = this [of ?q]
  note q = requeue [OF ok(1) assms(3) [OF Some] assms(2), of ?f ?w, simplified]
  have "held (set_state x ?f r) + mset (map rop_id ?c) = held r" using q(1) split by simp
  then show ?thesis
    using deferred_effect [OF ok(2) q(2), of "map (\<lambda>op. Io (op_aborted op)) ?c" r] Some
    by (simp add: cancel_ops_by_key_def Let_def)
qed

lemma pool_alloc_ok:
  assumes "pool_ok p" "pool_alloc p = (d, p')"
  shows "pool_ok p'" "d \<notin> set (live_list p)" "live_list p' = d # live_list p"
  using assms by (auto simp: pool_ok_def pool_alloc_def less_Suc_eq split: list.splits)

lemma pool_free_ok: "pool_ok p \<Longrightarrow> d \<in> set (live_list p) \<Longrightarrow> pool_ok (pool_free d p)"
  by (auto simp: pool_ok_def pool_free_def dest: in_set_remove1 [THEN iffD1, rotated])

lemma register_effect:
  assumes "loop_ok (r, s)" "register_descriptor fd r = (ec, d, r')"
  shows "effect {#} (r, s) (r', s)"
proof -
  obtain d0 p where a: "pool_alloc (registered r) = (d0, p)" by force
  let ?r = "set_state d0 (fresh_state fd) (r\<lparr>registered := p\<rparr>)"
  have ok: "reactor_ok r" using assms(1) by (simp add: loop_ok_def)
  then have "pool_ok (registered r)" by (simp add: reactor_ok_def)
  note p = pool_alloc_ok [OF this a]
  have e: "rq (dstate r d0) j = []" for j using ok p(2) by (simp add: reactor_ok_def)
  have rq: "rq (dstate ?r x) = rq (dstate r x)" for x by (simp add: set_state_def fresh_state_def)
  have "io_held (set (live_list p)) (dstate ?r) = io_held (set (live_list (registered r))) (dstate r)"
    using p(2,3) e by (simp add: io_held_def rq)
  then have h: "held ?r = held r" by (simp add: held_def set_state_def)
  have "reactor_ok ?r"
    using ok p rq by (simp add: reactor_ok_def) (simp add: set_state_def)
  then have "effect {#} (r, s) (?r, s)" using h assms(1) by (simp add: effect_def loop_ok_def pending_def)
  moreover have "quiet ?r r'"
  proof -
    obtain res r1 where c: "epoll_ctl ?r = (res, r1)" by force
    then have q: "quiet ?r r1" using quiet_ctl [of ?r] by simp
    have "quiet ?r (set_state d0 (\<lambda>st. st\<lparr>registered_events := 0\<rparr>) r1)"
      by (rule quiet_trans [OF q]) (rule quiet_state, simp)
    then show ?thesis
      using assms(2) a c q by (auto simp: register_descriptor_def Let_def split: option.splits if_splits)
  qed
  moreover have "loop_ok (?r, s)" using calculation(1) by (rule effect_ok)
  ultimately show ?thesis using effect_trans [of "{#}" "(r, s)" "(?r, s)" "{#}" "(r', s)"] quiet_effect by fastforce
qed

lemma free_held:
  assumes "reactor_ok r" "d \<in> set (live_list (registered r))" "\<And>j. rq (dstate r d) j = []"
  shows "held (r\<lparr>registered := pool_free d (registered r)\<rparr>) = held r"
    and "reactor_ok (r\<lparr>registered := pool_free d (registered r)\<rparr>)"
proof -
  let ?L = "live_list (registered r)"
  have dis: "distinct ?L" using assms(1) by (simp add: reactor_ok_def pool_ok_def)
  then have L: "set (live_list (pool_free d (registered r))) = set ?L - {d}" by (simp add: pool_free_def)
  have "io_held (set ?L - {d}) (dstate r) = io_held (set ?L) (dstate r)"
    unfolding io_held_def using assms(2,3) by (subst (2) sum.remove [of _ d]) simp_all
  then show "held (r\<lparr>registered := pool_free d (registered r)\<rparr>) = held r" by (simp add: held_def L)
  show "reactor_ok (r\<lparr>registered := pool_free d (registered r)\<rparr>)"
    using assms pool_free_ok by (auto simp: reactor_ok_def L)
qed

lemma close_effect:
  assumes ok: "loop_ok (r, s)" and d: "d \<in> set (live_list (registered r))" "\<not> d_shutdown (dstate r d)"
  shows "\<exists>l'. act_loop (Close_socket d c) (r, s) = Some l' \<and> effect {#} (r, s) l'"
proof -
  let ?r0 = "if \<not> c \<and> registered_events (dstate r d) \<noteq> 0 then snd (epoll_ctl r) else r"
  have q: "quiet r ?r0" by simp
  obtain ops r1 where t: "take_all op_aborted d ?r0 = (ops, r1)" by force
  let ?r2 = "set_state d (\<lambda>st. st\<lparr>descriptor := -1, d_shutdown := True\<rparr>) r1"
  let ?r3 = "?r2\<lparr>registered := pool_free d (registered ?r2)\<rparr>"
  have ok0: "reactor_ok ?r0" "contexts_ok (contexts s)" "d \<in> set (live_list (registered ?r0))"
    using ok d(1) q by (simp_all add: loop_ok_def quiet_ok [OF q] quiet_def)
  note a = take_all_parts [OF ok0(1,3) t op_aborted_id]
  have q2: "quiet r1 ?r2" by (rule quiet_state) simp
  have r2: "reactor_ok ?r2" "d \<in> set (live_list (registered ?r2))" "\<And>j. rq (dstate ?r2 d) j = []"
    using quiet_ok [OF q2 a(2)] a(3,4) ok0(3) q2 by (simp_all add: quiet_def)
  note f = free_held [OF r2]
  have "held ?r3 + mset (oids ops) = held r"
    using f(1) quiet_held [OF q2] quiet_held [OF q] a(1) by simp
  then have "effect {#} (r, s) (?r3, post_deferred_completions ops s)"
    by (rule deferred_effect [OF ok0(2) f(2)])
  moreover have "act_loop (Close_socket d c) (r, s) = Some (?r3, post_deferred_completions ops s)"
    using d(2) t by (simp add: deregister_descriptor_def cleanup_descriptor_data_def Let_def)
  ultimately show ?thesis by blast
qed

lemma queue_at_known:
  assumes "reactor_ok r" "p \<in> fst ` set (timer_queues r)"
  shows "map_of (timer_queues r) p = Some (queue_at p r)" "tq_ok (queue_at p r)"
proof -
  obtain q where "map_of (timer_queues r) p = Some q" using assms(2) by (metis map_of_eq_None_iff option.exhaust)
  moreover from map_of_SomeD [OF this] have "tq_ok q" using assms(1) by (force simp: reactor_ok_def)
  ultimately show "map_of (timer_queues r) p = Some (queue_at p r)" "tq_ok (queue_at p r)"
    by (simp_all add: queue_at_def)
qed

lemma put_queue_parts:
  assumes "reactor_ok r" "p \<in> fst ` set (timer_queues r)" "tq_ok q"
  shows "held (put_queue p q r) + timer_held (queue_at p r) = held r + timer_held q" "reactor_ok (put_queue p q r)"
proof -
  have dis: "distinct (map fst (timer_queues r))" using assms(1) by (simp add: reactor_ok_def)
  show "held (put_queue p q r) + timer_held (queue_at p r) = held r + timer_held q"
    using timers_held_put [OF dis queue_at_known(1) [OF assms(1,2)], of q]
    by (simp add: held_def put_queue_def ac_simps)
  have "map fst (timer_queues (put_queue p q r)) = map fst (timer_queues r)"
    by (auto simp: put_queue_def)
  then have "distinct (map fst (timer_queues (put_queue p q r)))" using dis by (simp only:)
  moreover have "\<forall>x \<in> snd ` set (timer_queues (put_queue p q r)). tq_ok x"
    using assms(1,3) by (auto simp: put_queue_def reactor_ok_def)
  moreover have "registered (put_queue p q r) = registered r" "dstate (put_queue p q r) = dstate r"
    by (simp_all add: put_queue_def)
  ultimately show "reactor_ok (put_queue p q r)"
    using assms(1) unfolding reactor_ok_def by (simp only:) blast
qed

lemma timer_leaves:
  \<comment> \<open>operations taken off a timer\<close>
  assumes "loop_ok (r, s)" "p \<in> fst ` set (timer_queues r)" "tq_ok q" "waiting q = (waiting (queue_at p r))(t := w)"
    and "mset (map op_id ops) + mset (map op_id w) = mset (map op_id (waiting (queue_at p r) t))"
  shows "effect {#} (r, s) (put_queue p q r, post_deferred_completions (map Wait ops) s)"
proof -
  have ok: "reactor_ok r" "contexts_ok (contexts s)" using assms(1) by (simp_all add: loop_ok_def)
  note k = queue_at_known [OF ok(1) assms(2)] and u = put_queue_parts [OF ok(1) assms(2,3)]
  have "timer_held q + mset (map op_id (waiting (queue_at p r) t)) = timer_held (queue_at p r) + mset (map op_id w)"
    by (rule timer_held_update [OF waiting_finite [OF k(2)] assms(4)])
  then have "timer_held q + mset (map op_id ops) = timer_held (queue_at p r)"
    unfolding assms(5) [symmetric] by simp
  then have "held (put_queue p q r) + mset (map op_id ops) + timer_held q = held r + timer_held q"
    using u(1) add.assoc add.commute by metis
  then have "held (put_queue p q r) + mset (oids (map Wait ops)) = held r" by simp
  then show ?thesis by (rule deferred_effect [OF ok(2) u(2)])
qed

lemma cancel_parts:
  assumes "tq_ok q" "cancel_timer t [] mx q = (n, ops, q')"
  shows "\<exists>w. tq_ok q' \<and> waiting q' = (waiting q)(t := w) \<and>
    mset (map op_id ops) + mset (map op_id w) = mset (map op_id (waiting q t))"
proof -
  obtain act where i: "tq_inv q act" using assms(1) unfolding tq_ok_def by blast
  then have W: "waiting q t \<noteq> [] \<longleftrightarrow> t \<in> set act" by (auto simp: tq_inv_def)
  let ?k = "min mx (length (waiting q t))"
  have c: "ops = map aborted (take ?k (waiting q t))"
    "q' = (if waiting q t \<noteq> [] then set_waiting t (drop ?k (waiting q t)) q else q)"
    using assms(2) cancel_active(1) [OF i, of t "[]" mx] W by (auto simp: Let_def)
  have "map op_id ops = map op_id (take ?k (waiting q t))" unfolding c(1) by (simp add: aborted_def)
  then have "mset (map op_id ops) + mset (map op_id (drop ?k (waiting q t))) = mset (map op_id (waiting q t))"
    by (metis append_take_drop_id map_append mset_append)
  then show ?thesis using remaining_spec [OF assms(1) c(2)] by auto
qed

lemma cancel_key_parts:
  assumes "tq_ok q" "cancel_timer_by_key t [] k q = (ops, q')"
  shows "\<exists>w. tq_ok q' \<and> waiting q' = (waiting q)(t := w) \<and>
    mset (map op_id ops) + mset (map op_id w) = mset (map op_id (waiting q t))"
proof -
  obtain act where i: "tq_inv q act" using assms(1) unfolding tq_ok_def by blast
  then have W: "waiting q t \<noteq> [] \<longleftrightarrow> t \<in> set act" by (auto simp: tq_inv_def)
  let ?w = "filter (\<lambda>op. cancellation_key op \<noteq> k) (waiting q t)"
  have c: "ops = map aborted (filter (\<lambda>op. cancellation_key op = k) (waiting q t))"
    "q' = (if waiting q t \<noteq> [] then set_waiting t ?w q else q)"
    using assms(2) cancel_active(2) [OF i, of t "[]" k] W by auto
  have "mset (map op_id (map aborted (filter (\<lambda>op. cancellation_key op = k) xs)))
      + mset (map op_id (filter (\<lambda>op. cancellation_key op \<noteq> k) xs)) = mset (map op_id xs)" for xs
    by (induct xs) (simp_all add: aborted_def)
  then show ?thesis using remaining_spec [OF assms(1) c(2)] unfolding c(1) by auto
qed

lemma set_timer_quiet: "set_timer r = Some r' \<Longrightarrow> quiet r r'"
  by (auto simp: set_timer_def get_timeout_spec_def read_clock_def quiet_def Let_def)

lemma update_timeout_quiet: "update_timeout r = Some r' \<Longrightarrow> quiet r r'"
  by (auto simp: update_timeout_def reactor_interrupt_def set_timer_quiet split: if_splits)

lemma enqueue_waiting:
  assumes "tq_ok q"
  shows "tq_ok (snd (enqueue_timer d t op q))"
    "waiting (snd (enqueue_timer d t op q)) = (waiting q)(t := waiting q t @ [op])"
  using enqueue_idle [OF assms, of t d op] enqueue_active_queue [OF assms, of t d op]
  by (cases "waiting q t = []"; simp)+

lemma schedule_effect:
  assumes ok: "loop_ok (r, s)" and p: "p \<in> fst ` set (timer_queues r)" and l: "schedule_timer p d t op (r, s) = Some l'"
  shows "effect {#op_id op#} (r, s) l'"
proof (cases "r_shutdown r")
  case True
  then show ?thesis using l post_immediate_effect [OF ok, of "Wait op"] by (auto simp: schedule_timer_def)
next
  case False
  let ?q = "queue_at p r" and ?q1 = "snd (enqueue_timer d t op (queue_at p r))"
  let ?r1 = "put_queue p ?q1 r"
  have r: "reactor_ok r" using ok by (simp add: loop_ok_def)
  note k = queue_at_known [OF r p]
  note w = enqueue_waiting [OF k(2), of d t op]
  note u = put_queue_parts [OF r p w(1)]
  have "timer_held ?q1 + mset (map op_id (waiting ?q t)) = timer_held ?q + mset (map op_id (waiting ?q t @ [op]))"
    by (rule timer_held_update [OF waiting_finite [OF k(2)] w(2)])
  then have "timer_held ?q1 = timer_held ?q + {#op_id op#}" by simp
  then have "held ?r1 + timer_held ?q = (held r + {#op_id op#}) + timer_held ?q"
    using u(1) add.assoc add.commute by metis
  then have "held ?r1 = held r + {#op_id op#}" by simp
  then have e: "effect {#op_id op#} (r, s) (?r1, work_started s)"
    using ok u(2) by (simp add: effect_def loop_ok_def pending_def work_def work_started_def queued_def ready_ops_def)
  show ?thesis
  proof (cases "fst (enqueue_timer d t op ?q)")
    case True
    then obtain r2 where r2: "update_timeout ?r1 = Some r2" "l' = (r2, work_started s)"
      using l False by (auto simp: schedule_timer_def Let_def split: prod.splits)
    show ?thesis
      using effect_trans [OF e quiet_effect [OF update_timeout_quiet [OF r2(1)] effect_ok [OF e]]] r2(2) by simp
  next
    case notfirst: False
    then have "l' = (?r1, work_started s)" using l False by (auto simp: schedule_timer_def Let_def split: prod.splits)
    then show ?thesis using e by simp
  qed
qed

lemma timer_cancel_effect:
  assumes "loop_ok (r, s)" "p \<in> fst ` set (timer_queues r)"
  shows "effect {#} (r, s) (snd (reactor_cancel_timer p t n (r, s)))"
    "effect {#} (r, s) (reactor_cancel_timer_by_key p t k (r, s))"
proof -
  have "reactor_ok r" using assms(1) by (simp add: loop_ok_def)
  note q = queue_at_known(2) [OF this assms(2)]
  obtain m ops q' where c: "cancel_timer t [] n (queue_at p r) = (m, ops, q')" by (metis surj_pair)
  show "effect {#} (r, s) (snd (reactor_cancel_timer p t n (r, s)))"
    using cancel_parts [OF q c] timer_leaves [OF assms] c by (auto simp: reactor_cancel_timer_def)
  obtain ops q' where c: "cancel_timer_by_key t [] k (queue_at p r) = (ops, q')" by (metis surj_pair)
  show "effect {#} (r, s) (reactor_cancel_timer_by_key p t k (r, s))"
    using cancel_key_parts [OF q c] timer_leaves [OF assms] c by (auto simp: reactor_cancel_timer_by_key_def)
qed

section \<open>Any call, and a handler\<close>

lemma act_effect:
  assumes "loop_ok l" "legal a (g, l)" "act_loop a l = Some l'" "a \<notin> {Work_start, Work_end, Stop_loop}"
  shows "effect (mset (begins a)) l l'"
proof -
  obtain r s where l: "l = (r, s)" by force
  note ok = assms(1) [unfolded l]
  show ?thesis
  proof (cases a)
    case (Open_socket fd)
    then show ?thesis using assms(3) register_effect [OF ok, of fd] by (auto simp: l split: prod.splits)
  next
    case (Close_socket d c)
    then show ?thesis using assms(2,3) close_effect [OF ok, of d c] by (auto simp: l)
  next
    case (Timer_cancel p t n)
    then have "p \<in> fst ` set (timer_queues r)" using assms(2) by (simp add: l)
    from timer_cancel_effect(1) [OF ok this] Timer_cancel assms(3) show ?thesis by (auto simp: l)
  next
    case (Timer_cancel_key p t k)
    then have "p \<in> fst ` set (timer_queues r)" using assms(2) by (simp add: l)
    from timer_cancel_effect(2) [OF ok this] Timer_cancel_key assms(3) show ?thesis by (auto simp: l)
  qed (use assms ok in \<open>auto simp: l post_immediate_effect dispatch_effect start_op_effect cancel_ops_effect
      cancel_key_effect schedule_effect\<close>)
qed

definition balance :: "nat \<Rightarrow> nat \<Rightarrow> world \<Rightarrow> bool" where
  \<comment> \<open>with the number of contexts and of handlers that are running\<close>
  "balance c ex w = (case w of (g, l) \<Rightarrow>
     loop_ok l \<and> mset (begun g) = mset (ended g) + pending l \<and>
     work (snd l) = int (size (pending l)) + int (guards g) + int ex \<and>
     length (contexts (snd l)) = c \<and>
     (stopped (snd l) \<longrightarrow> stop_asked g \<or> ex = 0 \<and> pending l = {#} \<and> guards g = 0))"

lemma balance_effect:
  assumes "balance c ex (g, l)" "effect (mset new) l l'" "ex \<noteq> 0 \<or> \<not> stopped (snd l) \<or> stop_asked g"
  shows "balance c ex (g\<lparr>begun := begun g @ new\<rparr>, l')"
  using assms by (auto simp: balance_def effect_def)

lemma private_bound:
  "contexts_ok cs \<Longrightarrow> (\<Sum>t\<leftarrow>cs. private_outstanding_work t) \<le> int (size (private_ids cs))"
  by (induct cs) (auto simp: private_ids_def)

lemma outstanding_bound:
  \<comment> \<open>the part of the work that is not counted in a context is at least the running handlers and the guards\<close>
  assumes "balance c ex (g, r, s)"
  shows "int (guards g) + int ex \<le> outstanding_work s"
proof -
  have "(\<Sum>t\<leftarrow>contexts s. private_outstanding_work t) \<le> int (size (private_ids (contexts s)))"
    using assms by (intro private_bound) (simp add: balance_def loop_ok_def)
  moreover have "size (private_ids (contexts s)) \<le> size (pending (r, s))" by (simp add: pending_def queued_def)
  ultimately show ?thesis using assms by (simp add: balance_def work_def)
qed

lemma do_act_balance:
  assumes "balance c ex w" "do_act a w = Some w'" "a = Work_end \<longrightarrow> ex \<noteq> 0" "ex \<noteq> 0 \<or> \<not> stopped (snd (snd w)) \<or> stop_asked (fst w)"
  shows "balance c ex w' \<and> (ex \<noteq> 0 \<or> \<not> stopped (snd (snd w')) \<or> stop_asked (fst w'))"
proof -
  obtain g r s where w: "w = (g, r, s)" by (metis surj_pair)
  have legal: "legal a (g, r, s)" using assms(2) by (auto simp: do_act_def w split: if_splits)
  then obtain l' where l': "act_loop a (r, s) = Some l'" "w' = (note_act a g, l')"
    using assms(2) by (auto simp: do_act_def w)
  note b = assms(1) [unfolded w]
  consider "a = Work_start" | "a = Work_end" | "a = Stop_loop" | "a \<notin> {Work_start, Work_end, Stop_loop}" by blast
  then show ?thesis
  proof cases
    case 1
    then show ?thesis using l' b assms(4)
      by (auto simp: w balance_def work_def work_started_def loop_ok_def pending_def queued_def ready_ops_def)
  next
    case 2
    then have g: "0 < guards g" using legal by simp
    moreover have "0 < ex" using assms(3) 2 by simp
    ultimately have "outstanding_work s - 1 \<noteq> 0" using outstanding_bound [OF b] by linarith
    then have "work_finished s = s\<lparr>outstanding_work := outstanding_work s - 1\<rparr>" by (simp add: work_finished_def)
    then show ?thesis using l' 2 b g assms(4)
      by (auto simp: w balance_def work_def loop_ok_def pending_def queued_def ready_ops_def)
  next
    case 3
    then show ?thesis using l' b
      by (auto simp: w balance_def work_def loop_ok_def pending_def queued_def ready_ops_def stop_def stop_all_threads_def)
  next
    case 4
    then have e: "effect (mset (begins a)) (r, s) l'"
      using act_effect [OF _ legal l'(1)] b by (simp add: balance_def)
    have n: "note_act a g = g\<lparr>begun := begun g @ begins a\<rparr>" using 4 by (cases a) simp_all
    have "stopped (snd l') = stopped s" using e by (simp add: effect_def)
    then show ?thesis using balance_effect [OF b e] assms(4) l'(2) by (auto simp: w n)
  qed
qed

lemma do_acts_balance:
  "balance c ex w \<Longrightarrow> do_acts as w = Some w' \<Longrightarrow> Work_end \<in> set as \<longrightarrow> ex \<noteq> 0 \<Longrightarrow>
   ex \<noteq> 0 \<or> \<not> stopped (snd (snd w)) \<or> stop_asked (fst w) \<Longrightarrow>
   balance c ex w' \<and> (ex \<noteq> 0 \<or> \<not> stopped (snd (snd w')) \<or> stop_asked (fst w'))"
proof (induction as arbitrary: w)
  case (Cons a as)
  obtain w1 where w1: "do_act a w = Some w1" "do_acts as w1 = Some w'"
    using Cons.prems(2) by (auto simp: bind_eq_Some_conv)
  have "a = Work_end \<longrightarrow> ex \<noteq> 0" using Cons.prems(3) by auto
  from do_act_balance [OF Cons.prems(1) w1(1) this Cons.prems(4)] Cons.IH [OF _ w1(2)] Cons.prems(3)
  show ?case by simp
qed simp

text \<open>The same books without the last line, which also a program keeps that ends its last work before \<open>run\<close>.\<close>

definition books :: "nat \<Rightarrow> world \<Rightarrow> bool" where
  "books c w = (case w of (g, l) \<Rightarrow>
     loop_ok l \<and> mset (begun g) = mset (ended g) + pending l \<and>
     work (snd l) = int (size (pending l)) + int (guards g) \<and> length (contexts (snd l)) = c)"

lemma books_balance: "books c w \<Longrightarrow> \<not> stopped (snd (snd w)) \<Longrightarrow> balance c 0 w"
  by (cases w) (simp add: books_def balance_def)

lemma do_act_books:
  assumes "books c w" "do_act a w = Some w'"
  shows "books c w'"
proof -
  obtain g r s where w: "w = (g, r, s)" by (metis surj_pair)
  have legal: "legal a (g, r, s)" using assms(2) by (auto simp: do_act_def w split: if_splits)
  then obtain l' where l': "act_loop a (r, s) = Some l'" "w' = (note_act a g, l')"
    using assms(2) by (auto simp: do_act_def w)
  note b = assms(1) [unfolded w]
  note defs = books_def work_def work_started_def work_finished_def loop_ok_def pending_def queued_def ready_ops_def
    stop_def stop_all_threads_def Let_def
  consider "a = Work_start" | "a = Work_end" | "a = Stop_loop" | "a \<notin> {Work_start, Work_end, Stop_loop}" by blast
  then show ?thesis
  proof cases
    case 4
    then have e: "effect (mset (begins a)) (r, s) l'"
      using act_effect [OF _ legal l'(1)] b by (simp add: books_def)
    have "note_act a g = g\<lparr>begun := begun g @ begins a\<rparr>" using 4 by (cases a) simp_all
    then show ?thesis using b e l'(2) by (auto simp: books_def effect_def)
  qed (use l' b legal in \<open>auto simp: defs\<close>)
qed

lemma do_acts_books: "books c w \<Longrightarrow> do_acts as w = Some w' \<Longrightarrow> books c w'"
  by (induction as arbitrary: w) (auto simp: bind_eq_Some_conv dest: do_act_books)

definition taken :: "nat \<Rightarrow> oper \<Rightarrow> world \<Rightarrow> bool" where
  \<comment> \<open>an operation of the user has been taken off and its handler is about to run\<close>
  "taken c op w = (case w of (g, l) \<Rightarrow>
     loop_ok l \<and> length (oid op) = 1 \<and> mset (begun g) = mset (ended g) + pending l + mset (oid op) \<and>
     work (snd l) = int (size (pending l)) + int (guards g) + 1 \<and>
     length (contexts (snd l)) = c \<and> (stopped (snd l) \<longrightarrow> stop_asked g))"

lemma call_handler_balance:
  assumes "taken c op w" "call_handler op w = Some w'"
  shows "balance c 1 w'"
proof -
  obtain g l where w: "w = (g, l)" by (cases w)
  let ?g = "g\<lparr>ended := ended g @ oid op\<rparr>"
  have b: "balance c 1 (?g, l)" using assms(1) by (auto simp: taken_def balance_def w)
  show ?thesis
  proof (cases "script ?g")
    case Nil
    then show ?thesis using assms(2) b by (simp add: call_handler_def w)
  next
    case (Cons as rest)
    then have "do_acts as (?g\<lparr>script := rest\<rparr>, l) = Some w'" using assms(2) by (simp add: call_handler_def w Let_def)
    moreover have "balance c 1 (?g\<lparr>script := rest\<rparr>, l)" using b by (simp add: balance_def)
    ultimately show ?thesis using do_acts_balance by blast
  qed
qed

section \<open>Performing a descriptor's operations\<close>

lemma perform_queue_parts:
  "perform_queue q r = (completed, rest, ex, r') \<Longrightarrow>
   mset (map rop_id completed) + mset (map rop_id rest) = mset (map rop_id q) \<and> quiet r r' \<and> dstate r' = dstate r"
proof (induction q arbitrary: r completed rest ex r')
  case (Cons op q)
  obtain st op' r1 where p: "perform op r = (st, op', r1)" by (metis surj_pair)
  note p' = quiet_perform [OF p]
  show ?case
  proof (cases "st = Not_done \<or> st = Done_and_exhausted")
    case True
    then show ?thesis using Cons.prems p p' by auto
  next
    case False
    obtain c2 q2 e2 r2 where q: "perform_queue q r1 = (c2, q2, e2, r2)" by (metis surj_pair)
    note i = Cons.IH [OF q]
    have e: "completed = op' # c2" "rest = q2" "r' = r2" using Cons.prems False p q by (auto split: if_splits)
    have "quiet r r2" using quiet_trans p' i by blast
    then show ?thesis using p' i unfolding e by simp
  qed
qed auto

lemma perform_type_parts:
  assumes "reactor_ok r" "j < max_ops" "perform_type d events j (ops, r) = (ops', r')"
  shows "held r' + mset (oids ops') = held r + mset (oids ops)" "reactor_ok r'" "\<exists>ios. ops' = ops @ map Io ios"
proof -
  let ?r1 = "set_state d (\<lambda>st. st\<lparr>try_speculative := (try_speculative st)(j := True)\<rparr>) r"
  obtain c q e r2 where p: "perform_queue (rq (dstate ?r1 d) j) ?r1 = (c, q, e, r2)"
    by (cases "perform_queue (rq (dstate ?r1 d) j) ?r1") auto
  let ?f = "\<lambda>st. st\<lparr>rq := (rq st)(j := q),
    try_speculative := (if e then (try_speculative st)(j := False) else try_speculative st)\<rparr>"
  let ?r3 = "set_state d ?f r2"
  note i = perform_queue_parts [OF p]
  have "quiet r ?r1" by (rule quiet_state) simp
  from quiet_trans [OF this] i have q2: "quiet r r2" by blast
  have r2: "reactor_ok r2" "held r2 = held r" using quiet_ok [OF q2 assms(1)] quiet_held [OF q2] by simp_all
  have same: "rq (dstate r2 d) j = rq (dstate r d) j" "rq (dstate ?r1 d) j = rq (dstate r d) j"
    "registered r2 = registered r" using q2 by (simp_all add: quiet_def set_state_def)
  have step: "held ?r3 + mset (map rop_id c) = held r \<and> reactor_ok ?r3"
  proof (cases "d \<in> set (live_list (registered r))")
    case True
    then have t: "d \<in> set (live_list (registered r2))" using same by simp
    have f: "\<And>st. rq (?f st) = (rq st)(j := q)" by simp
    from requeue(1) [OF r2(1) t assms(2), of ?f, OF f] i r2(2) same
    have "held ?r3 + (mset (map rop_id c) + mset (map rop_id q)) = held r + mset (map rop_id q)" by simp
    then show ?thesis using requeue(2) [OF r2(1) t assms(2), of ?f, OF f] by simp
  next
    case False
    then have none: "rq (dstate r d) j = []" "rq (dstate r2 d) j = []"
      using assms(1) same by (simp_all add: reactor_ok_def)
    then have "c = []" "q = []" using p same by simp_all
    moreover have "quiet r2 ?r3" using none \<open>q = []\<close> by (auto simp: quiet_def set_state_def fun_upd_idem)
    ultimately show ?thesis using quiet_held quiet_ok r2 by simp
  qed
  show "held r' + mset (oids ops') = held r + mset (oids ops)" "reactor_ok r'" "\<exists>ios. ops' = ops @ map Io ios"
    using assms(1,3) p step by (auto simp: perform_type_def Let_def ac_simps split: if_splits)
qed

lemma perform_all:
  assumes "reactor_ok r" "fold (perform_type d events) [2, 1, 0] ([], r) = (ops, r')"
  shows "held r' + mset (oids ops) = held r" "reactor_ok r'" "\<exists>ios. ops = map Io ios"
proof -
  obtain o2 r2 where p2: "perform_type d events 2 ([], r) = (o2, r2)" by force
  obtain o1 r1 where p1: "perform_type d events 1 (o2, r2) = (o1, r1)" by force
  have p0: "perform_type d events 0 (o1, r1) = (ops, r')" using assms(2) p2 p1 by simp
  have j: "2 < max_ops" "1 < max_ops" "0 < max_ops" by (simp_all add: max_ops_def)
  note a = perform_type_parts [OF assms(1) j(1) p2]
  note b = perform_type_parts [OF a(2) j(2) p1]
  note c = perform_type_parts [OF b(2) j(3) p0]
  show "held r' + mset (oids ops) = held r" "reactor_ok r'" using a(1) b(1) c by simp_all
  obtain x y z where "o2 = [] @ map Io x" "o1 = o2 @ map Io y" "ops = o1 @ map Io z" using a(3) b(3) c(3) by blast
  then have "ops = map Io (x @ y @ z)" by simp
  then show "\<exists>ios. ops = map Io ios" by blast
qed

lemma perform_io_some:
  assumes ok: "loop_ok (r, s)" and p: "perform_io d events (r, s) = Some (Some op, l')"
  shows "loop_ok l' \<and> length (oid op) = 1 \<and> pending l' + mset (oid op) = pending (r, s) \<and> work (snd l') = work s \<and>
    length (contexts (snd l')) = length (contexts s) \<and> stopped (snd l') = stopped s"
proof -
  obtain ops r1 where f: "fold (perform_type d events) [2, 1, 0] ([], r) = (ops, r1)" by force
  have "reactor_ok r" "contexts_ok (contexts s)" using ok by (simp_all add: loop_ok_def)
  note a = perform_all [OF this(1) f] and deferred = deferred_parts [OF this(2)]
  obtain rest where o: "ops = op # rest" "l' = (r1, post_deferred_completions rest s)"
    using p f by (auto simp: perform_io_def split: list.splits)
  obtain ios where "ops = map Io ios" using a(3) by blast
  then have "length (oid op) = 1" using o(1) by (cases ios) auto
  moreover have "pending l' + mset (oid op) = pending (r, s)"
    using a(1) deferred(1) [of rest] unfolding o by (simp add: pending_def ac_simps)
  ultimately show ?thesis using a(2) deferred [of rest] unfolding o(2) by (simp add: loop_ok_def)
qed

lemma perform_io_none:
  assumes ok: "loop_ok (r, s)" and p: "perform_io d events (r, s) = Some (None, l')"
  shows "reactor_ok (fst l') \<and> pending l' = pending (r, s) \<and> work (snd l') = work s + 1 \<and>
    length (contexts (snd l')) = length (contexts s) \<and> stopped (snd l') = stopped s \<and>
    (\<forall>t \<in> set (contexts (snd l')). 0 \<le> private_outstanding_work t)"
proof -
  obtain ops r1 where f: "fold (perform_type d events) [2, 1, 0] ([], r) = (ops, r1)" by force
  have c: "reactor_ok r" "contexts_ok (contexts s)" using ok by (simp_all add: loop_ok_def)
  note a = perform_all [OF c(1) f]
  obtain s1 where s1: "ops = []" "compensating_work_started s = Some s1" "l' = (r1, s1)"
    using p f by (auto simp: perform_io_def split: list.splits)
  obtain t ts where t: "contexts s = t # ts" using s1(2) by (cases "contexts s") (auto simp: compensating_work_started_def)
  have s1': "s1 = s\<lparr>contexts := t\<lparr>private_outstanding_work := private_outstanding_work t + 1\<rparr> # ts\<rparr>"
    using s1(2) t by (simp add: compensating_work_started_def on_context_def)
  show ?thesis using a c(2) t unfolding s1 s1'
    by (auto simp: pending_def queued_def work_def ready_ops_def private_ids_def contexts_ok_def)
qed

section \<open>The loop\<close>

lemma one_context: "length (contexts s) = 1 \<longleftrightarrow> (\<exists>t. contexts s = [t])"
  by (auto simp: length_Suc_conv)

lemma work_cleanup_parts:
  assumes "contexts s = [t]" "0 \<le> private_outstanding_work t"
  shows "queued (work_cleanup s) = queued s" "work (work_cleanup s) = work s - 1"
    "contexts_ok (contexts (work_cleanup s))" "length (contexts (work_cleanup s)) = 1"
    "stopped (work_cleanup s) \<longrightarrow> stopped s \<or> work (work_cleanup s) = 0"
  using assms
  by (auto simp: work_cleanup_def Let_def on_context_def work_finished_def stop_def stop_all_threads_def
      queued_def work_def ready_ops_def private_ids_def)

lemma task_cleanup_parts:
  assumes "contexts s = [t]" "0 \<le> private_outstanding_work t"
  shows "queued (task_cleanup s) = queued s" "work (task_cleanup s) = work s"
    "contexts_ok (contexts (task_cleanup s))" "length (contexts (task_cleanup s)) = 1"
    "stopped (task_cleanup s) = stopped s"
  using assms
  by (auto simp: task_cleanup_def Let_def on_context_def queued_def work_def ready_ops_def private_ids_def)

lemma dispatch_events_ids:
  "dispatch_events tf evs (ch, ops) = (ch', ops') \<Longrightarrow> oids ops' = oids ops"
proof (induction tf evs "(ch, ops)" arbitrary: ch ops rule: dispatch_events.induct)
  case (4 tf d events evs check ops)
  have "oids (map (add_ready_events d events) ops) = oids ops" for ops
  proof (induct ops)
    case (Cons op ops)
    then show ?case by (cases op) simp_all
  qed simp
  then have "oids (dispatch_ready d events ops) = oids ops" by (simp add: dispatch_ready_def)
  then show ?case using 4 by simp
qed auto

lemma timer_held_split:
  assumes "finite {t. waiting q t \<noteq> []}" "T \<subseteq> {t. waiting q t \<noteq> []}"
    and "\<And>u. waiting q' u = (if u \<in> T then [] else waiting q u)"
  shows "timer_held q' + (\<Sum>t \<in> T. mset (map op_id (waiting q t))) = timer_held q"
proof -
  have "{t. waiting q' t \<noteq> []} = {t. waiting q t \<noteq> []} - T" using assms(3) by auto
  then have "timer_held q' = (\<Sum>t \<in> {t. waiting q t \<noteq> []} - T. mset (map op_id (waiting q t)))"
    unfolding timer_held_def using assms(3) by (auto intro: sum.cong)
  then show ?thesis
    using sum.subset_diff [OF assms(2,1), of "\<lambda>t. mset (map op_id (waiting q t))"] by (simp add: timer_held_def)
qed

lemma get_ready_ids:
  assumes "tq_ok q"
  shows "\<exists>fired q'. get_ready_timers now ops q = Some (ops @ fired, q') \<and> tq_ok q' \<and>
    timer_held q' + mset (map op_id fired) = timer_held q"
proof -
  obtain es q' where g: "get_ready_timers now ops q = Some (ops @ concat (map (\<lambda>e. map expired (waiting q (snd e))) es), q')"
    "distinct (map snd es)" "set es = {e \<in> alarms q. fst e \<le> now}" "tq_ok q'"
    "\<And>u. waiting q' u = (if u \<in> snd ` set es then [] else waiting q u)"
    using get_ready_spec [OF assms, of now ops] by blast
  have sub: "snd ` set es \<subseteq> {t. waiting q t \<noteq> []}"
    using assms unfolding g(3) tq_ok_def tq_inv_def tq_heap_def by auto
  have same: "op_id \<circ> expired = op_id" by (simp add: fun_eq_iff expired_def)
  have "mset (map op_id (concat (map (\<lambda>e. map expired (waiting q (snd e))) xs))) =
      (\<Sum>e\<leftarrow>xs. mset (map op_id (waiting q (snd e))))" for xs :: "(int \<times> timer) list"
    by (induct xs) (simp_all add: multiset.map_comp same)
  also have "(\<Sum>e\<leftarrow>es. mset (map op_id (waiting q (snd e)))) = (\<Sum>t \<in> snd ` set es. mset (map op_id (waiting q t)))"
    using g(2) by (simp add: sum_list_distinct_conv_sum_set [symmetric] o_def flip: set_map)
  finally have "timer_held q' + mset (map op_id (concat (map (\<lambda>e. map expired (waiting q (snd e))) es))) = timer_held q"
    using timer_held_split [OF waiting_finite [OF assms] sub g(5)] by simp
  then show ?thesis using g(1,4) by blast
qed

lemma tqs_get_ready_ids:
  "\<forall>q \<in> snd ` set qs. tq_ok q \<Longrightarrow>
   \<exists>fired qs'. tqs_get_ready now ops qs = Some (ops @ fired, qs') \<and> map fst qs' = map fst qs \<and>
     (\<forall>q \<in> snd ` set qs'. tq_ok q) \<and> timers_held qs' + mset (map op_id fired) = timers_held qs"
proof (induction qs arbitrary: ops)
  case (Cons x qs)
  obtain p q where x: "x = (p, q)" by force
  have "tq_ok q" using Cons.prems x by simp
  from get_ready_ids [OF this, of "now p" ops] obtain f1 q' where
    1: "get_ready_timers (now p) ops q = Some (ops @ f1, q')" "tq_ok q'" "timer_held q' + mset (map op_id f1) = timer_held q"
    by blast
  from Cons.IH [of "ops @ f1"] Cons.prems obtain f2 qs' where
    2: "tqs_get_ready now (ops @ f1) qs = Some ((ops @ f1) @ f2, qs')" "map fst qs' = map fst qs"
    "\<forall>q \<in> snd ` set qs'. tq_ok q" "timers_held qs' + mset (map op_id f2) = timers_held qs" by auto
  have "timers_held ((p, q') # qs') + mset (map op_id (f1 @ f2)) = timers_held (x # qs)"
    using 1(3) 2(4) x by (simp add: ac_simps)
  then show ?case
    using 1 2 x by (intro exI [of _ "f1 @ f2"] exI [of _ "(p, q') # qs'"]) simp
qed simp

lemma ready_timers_parts:
  assumes "reactor_ok r" "ready_timers r = Some (ops, r')"
  shows "reactor_ok r'" "held r' + mset (oids ops) = held r"
proof -
  let ?r1 = "snd (read_clock r)" and ?now = "fst (read_clock r)"
  have r1: "timer_queues ?r1 = timer_queues r" "registered ?r1 = registered r" "dstate ?r1 = dstate r"
    by (simp_all add: read_clock_def)
  have "\<forall>q \<in> snd ` set (timer_queues r). tq_ok q" using assms(1) by (simp add: reactor_ok_def)
  from tqs_get_ready_ids [OF this, of ?now "[]"] obtain fired qs where
    f: "tqs_get_ready ?now [] (timer_queues r) = Some (fired, qs)" "map fst qs = map fst (timer_queues r)"
    "\<forall>q \<in> snd ` set qs. tq_ok q" "timers_held qs + mset (map op_id fired) = timers_held (timer_queues r)" by auto
  let ?r2 = "?r1\<lparr>timer_queues := qs\<rparr>"
  have ok: "reactor_ok ?r2" using assms(1) f(2,3) r1 by (simp add: reactor_ok_def)
  have h: "held ?r2 + mset (map op_id fired) = held r" using f(4) r1 by (simp add: held_def ac_simps)
  have "ops = map Wait fired \<and> quiet ?r2 r'"
    using assms(2) f(1) r1(1) by (auto simp: ready_timers_def split_beta Let_def set_timer_quiet split: if_splits)
  then show "reactor_ok r'" "held r' + mset (oids ops) = held r"
    using quiet_ok [OF _ ok] quiet_held [of ?r2 r'] h by auto
qed

lemma poll_timeout_quiet: "poll_timeout usec r = Some (timeout, r') \<Longrightarrow> quiet r r'"
  by (auto simp: poll_timeout_def get_timeout_ms_def read_clock_def quiet_def Let_def split: if_splits)

lemma push_task_effect:
  assumes "contexts s = [t]" "contexts_ok (contexts s)" "reactor_ok r'"
    and "held r' + mset (oids ops) = held r + mset (oids (private_op_queue t))"
    and "length (oids (private_op_queue t)) \<le> length (oids ops)"
  shows "effect {#} (r, s) (r', push_task_ops (\<lambda>_. ops) s)"
  using assms
  by (auto simp: effect_def loop_ok_def pending_def queued_def work_def push_task_ops_def on_context_def
      ready_ops_def private_ids_def ac_simps)

lemma reactor_run_effect:
  assumes ok: "loop_ok (r, s)" and t: "contexts s = [t]" and l: "reactor_run usec (r, s) = Some l'"
  shows "effect {#} (r, s) l'"
proof -
  obtain timeout r0 where p: "poll_timeout usec r = Some (timeout, r0)"
    using l by (auto simp: reactor_run_def bind_eq_Some_conv)
  note q = poll_timeout_quiet [OF p]
  obtain events rest where ev: "polls r0 = events # rest"
    using l p by (auto simp: reactor_run_def split: list.splits)
  let ?r1 = "r0\<lparr>epoll_timeout := timeout, polls := rest\<rparr>"
  have q1: "quiet r ?r1" by (rule quiet_trans [OF q]) (simp add: quiet_def)
  obtain check ops where d: "dispatch_events (has_timer_fd ?r1) events (\<not> has_timer_fd ?r1, private_op_queue t) = (check, ops)"
    by (cases "dispatch_events (has_timer_fd ?r1) events (\<not> has_timer_fd ?r1, private_op_queue t)") auto
  note ids = dispatch_events_ids [OF d]
  have r: "reactor_ok ?r1" "held ?r1 = held r" "contexts_ok (contexts s)"
    using ok quiet_ok [OF q1] quiet_held [OF q1] by (simp_all add: loop_ok_def)
  show ?thesis
  proof (cases check)
    case True
    obtain timer_ops r2 where rt: "ready_timers ?r1 = Some (timer_ops, r2)" "l' = (r2, push_task_ops (\<lambda>_. ops @ timer_ops) s)"
      using l p ev d t True by (auto simp: reactor_run_def task_ops_def Let_def)
    note a = ready_timers_parts [OF r(1) rt(1)]
    show ?thesis unfolding rt(2)
      by (rule push_task_effect [OF t r(3) a(1)]) (use a(2) r(2) ids in \<open>simp_all add: ac_simps\<close>)
  next
    case False
    then have "l' = (?r1, push_task_ops (\<lambda>_. ops) s)"
      using l p ev d t by (auto simp: reactor_run_def task_ops_def Let_def)
    then show ?thesis using push_task_effect [OF t r(3,1), of ops r] r(2) ids by simp
  qed
qed

lemma cleanup_balance:
  \<comment> \<open>what the end of an operation's completion leaves\<close>
  assumes h: "reactor_ok r'" "contexts s2 = [t]" "0 \<le> private_outstanding_work t" "mset (begun g') = mset (ended g') + pending (r', s2)"
      "work s2 = int (size (pending (r', s2))) + int (guards g') + 1" "stopped s2 \<longrightarrow> stop_asked g'"
  shows "balance 1 0 (g', r', work_cleanup s2)"
proof -
  note w = work_cleanup_parts [OF h(2,3)]
  have p: "pending (r', work_cleanup s2) = pending (r', s2)" by (simp add: pending_def w(1))
  have none: "pending (r', s2) = {#} \<and> guards g' = 0" if "work (work_cleanup s2) = 0"
  proof -
    have "int (size (pending (r', s2))) + int (guards g') = 0" using that w(2) h(5) by simp
    then have "size (pending (r', s2)) = 0" "guards g' = 0" by linarith+
    then show ?thesis by simp
  qed
  have "stopped (work_cleanup s2) \<longrightarrow> stop_asked g' \<or> pending (r', work_cleanup s2) = {#} \<and> guards g' = 0"
    unfolding p using w(5) h(6) none by blast
  moreover have "work (work_cleanup s2) = int (size (pending (r', work_cleanup s2))) + int (guards g')"
    unfolding p w(2) h(5) by simp
  ultimately show ?thesis using w(3,4) h(1,4) p by (simp add: balance_def loop_ok_def)
qed

lemma handled_balance:
  assumes t: "taken 1 op (g, l)" "call_handler op (g, l) = Some (g', r', s2)"
  shows "balance 1 0 (g', r', work_cleanup s2)"
proof -
  have b1: "balance 1 1 (g', r', s2)" by (rule call_handler_balance [OF t])
  then obtain t where t: "contexts s2 = [t]" by (auto simp: balance_def one_context length_Suc_conv)
  then show ?thesis using b1 by (intro cleanup_balance [OF _ t]) (simp_all add: balance_def loop_ok_def)
qed

lemma complete_balance:
  assumes b: "balance 1 0 (g, r, s)" and run: "\<not> stopped s" and q: "ready s = Op op # q"
    and c: "complete_op loop_complete op (g, r) (s\<lparr>ready := q\<rparr>) = Some (n, (g', r'), s')"
  shows "balance 1 0 (g', r', s') \<and> n = 1"
proof -
  let ?s0 = "s\<lparr>ready := q\<rparr>"
  let ?s1 = "if ready ?s0 \<noteq> [] \<and> \<not> one_thread ?s0 then wake_one_thread_and_unlock ?s0 else ?s0"
  obtain s2 where s2: "complete_oper call_handler op (g, r, ?s1) = Some (g', r', s2)" "s' = work_cleanup s2" "n = 1"
    using c by (auto simp: complete_op_def loop_complete_def bind_eq_Some_conv split: prod.splits)
  have ok: "loop_ok (r, ?s1)" "length (contexts ?s1) = 1" "\<not> stopped ?s1" "work ?s1 = work s"
    "pending (r, ?s1) + mset (oid op) = pending (r, s)"
    using b run q by (simp_all add: balance_def loop_ok_def wake_one_thread_and_unlock_def work_def pending_def
        queued_def ready_ops_def ac_simps)
  have B: "mset (begun g) = mset (ended g) + pending (r, s)" "work s = int (size (pending (r, s))) + int (guards g)"
    using b by (simp_all add: balance_def)
  have simple: "balance 1 0 (g', r', work_cleanup s2)" if "length (oid op) = 1" "call_handler op (g, r, ?s1) = Some (g', r', s2)"
  proof (rule handled_balance [OF _ that(2)])
    have "size (mset (oid op)) = 1" using that(1) by simp
    then have "size (pending (r, s)) = size (pending (r, ?s1)) + 1" using arg_cong [OF ok(5), of size] by simp
    then show "taken 1 op (g, r, ?s1)" using ok B that(1) by (simp add: taken_def ac_simps)
  qed
  show ?thesis
  proof (cases op)
    case (Descriptor d events)
    obtain first l2 where p: "perform_io d events (r, ?s1) = Some (first, l2)"
      using s2(1) Descriptor by (auto simp: complete_oper_def bind_eq_Some_conv)
    have none: "mset (oid op) = {#}" using Descriptor by simp
    show ?thesis
    proof (cases first)
      case None
      then have e: "g' = g" "l2 = (r', s2)" using s2(1) Descriptor p by (auto simp: complete_oper_def)
      note i = perform_io_none [OF ok(1) p [unfolded None]]
      obtain t where t: "contexts s2 = [t]" using i ok(2) unfolding e by (auto simp: length_Suc_conv)
      have pend: "pending (r', s2) = pending (r, s)" using i ok(5) none unfolding e by simp
      have "balance 1 0 (g', r', work_cleanup s2)"
      proof (rule cleanup_balance [OF _ t])
        show "reactor_ok r'" "0 \<le> private_outstanding_work t" using i t unfolding e by simp_all
        show "mset (begun g') = mset (ended g') + pending (r', s2)" using B(1) unfolding pend e(1) .
        show "work s2 = int (size (pending (r', s2))) + int (guards g') + 1"
          using i ok(4) B(2) unfolding pend e by simp
        show "stopped s2 \<longrightarrow> stop_asked g'" using i ok(3) unfolding e by simp
      qed
      then show ?thesis using s2 by simp
    next
      case (Some op')
      then have e: "call_handler op' (g, l2) = Some (g', r', s2)" using s2(1) Descriptor p by (auto simp: complete_oper_def)
      note i = perform_io_some [OF ok(1) p [unfolded Some]]
      have "size (mset (oid op')) = 1" using i by simp
      moreover have "pending l2 + mset (oid op') = pending (r, s)" using i ok(5) none by simp
      ultimately have "size (pending (r, s)) = size (pending l2) + 1" by (metis size_union)
      then have "taken 1 op' (g, l2)" using i ok B \<open>pending l2 + mset (oid op') = pending (r, s)\<close>
        by (auto simp: taken_def split_beta add.assoc)
      then show ?thesis using handled_balance [OF _ e] s2 by simp
    qed
  qed (use simple s2 in \<open>simp_all add: complete_oper_def\<close>)
qed

end
