(* ===== verification/Asio_Run.thy ===== *)
theory Asio_Run
  imports Asio_Loop
begin

text \<open>
  The calls of \<open>run\<close>: the scheduler's loop on the world of \<open>Asio_Loop\<close>. Every operation that was started
  is run once, and the loop ends for want of work only when nothing is left.
\<close>

definition loop_init :: "u32 \<Rightarrow> reactor \<Rightarrow> loop" where
  \<comment> \<open>an \<open>io_context\<close> whose reactor serves one timer queue\<close>
  "loop_init hint env =
     (do_add_timer_queue 0 tq_init (reactor_init env), init_task (scheduler_init hint))"

definition run_loop :: "world \<Rightarrow> (nat \<times> world) option" where
  "run_loop w =
     (case w of (g, r, s) \<Rightarrow>
        map_option (\<lambda>(n, (g, r), s). (n, g, r, s)) (scheduler_run loop_complete loop_task (g, r) s))"

definition program_init :: "act list list \<Rightarrow> program" where
  "program_init sc = \<lparr>begun = [], ended = [], guards = 0, stop_asked = False, script = sc\<rparr>"

section \<open>Accounts\<close>

lemma init_balance: "balance 0 0 (program_init sc, loop_init hint env)"
  and init_running: "\<not> stopped (snd (loop_init hint env))"
proof -
  have "contexts (snd (loop_init hint env)) = []" "ready_ops (snd (loop_init hint env)) = []"
    "outstanding_work (snd (loop_init hint env)) = 0" and run: "\<not> stopped (snd (loop_init hint env))"
    by (simp_all add: loop_init_def init_task_def scheduler_init_def wake_one_thread_and_unlock_def ready_ops_def)
  moreover have "reactor_ok (fst (loop_init hint env))" "held (fst (loop_init hint env)) = {#}"
    using tq_init_ok init_parts(2)
    by (simp_all add: loop_init_def reactor_init_def arm_descriptors_def epoll_ctl_def do_add_timer_queue_def tqs_insert_def
        reactor_ok_def pool_ok_def pool_init_def idle_state_def held_def io_held_def timer_held_def Let_def)
  ultimately show "balance 0 0 (program_init sc, loop_init hint env)"
    by (simp add: balance_def loop_ok_def pending_def queued_def private_ids_def work_def program_init_def)
  show "\<not> stopped (snd (loop_init hint env))" by (rule run)
qed

lemma task_balance:
  assumes b: "balance 1 0 (g, r, s)" and run: "\<not> stopped s" and q: "ready s = Task # q"
    and c: "run_task loop_task usec (g, r) (s\<lparr>ready := q, task_interrupted := i\<rparr>) = Some ((g', r'), s')"
  shows "balance 1 0 (g', r', s')"
proof -
  let ?s = "s\<lparr>ready := q, task_interrupted := i\<rparr>"
  obtain s2 where s2: "reactor_run usec (r, ?s) = Some (r', s2)" "s' = task_cleanup s2" "g' = g"
    using c by (auto simp: run_task_def loop_task_def bind_eq_Some_conv)
  have ok: "loop_ok (r, ?s)" "pending (r, ?s) = pending (r, s)" "work ?s = work s"
    using b q by (simp_all add: balance_def loop_ok_def pending_def queued_def ready_ops_def work_def)
  obtain t where t: "contexts ?s = [t]" using b by (auto simp: balance_def length_Suc_conv)
  note e = reactor_run_effect [OF ok(1) t s2(1)]
  obtain t' where t': "contexts s2 = [t']" using e t by (auto simp: effect_def length_Suc_conv)
  have "0 \<le> private_outstanding_work t'" using e t' by (simp add: effect_def loop_ok_def)
  note p = task_cleanup_parts [OF t' this]
  have "pending (r', s') = pending (r', s2)" unfolding s2 by (simp add: pending_def p)
  then show ?thesis using b e ok run p unfolding s2(2,3)
    by (simp add: balance_def effect_def loop_ok_def)
qed

definition blank :: "oper thread_info" where
  "blank = \<lparr>private_op_queue = [], private_outstanding_work = 0\<rparr>"

lemma cleanup_blank:
  \<comment> \<open>each step hands over what its context collected\<close>
  "length (contexts (work_cleanup s)) = 1 \<Longrightarrow> contexts (work_cleanup s) = [blank]"
  "length (contexts (task_cleanup s)) = 1 \<Longrightarrow> contexts (task_cleanup s) = [blank]"
  by (cases "contexts s"; auto simp: work_cleanup_def task_cleanup_def on_context_def work_finished_def stop_def
      stop_all_threads_def blank_def Let_def split: if_splits)+

lemma complete_blank:
  "complete_op c op w s = Some (n, w', s') \<Longrightarrow> length (contexts s') = 1 \<Longrightarrow> contexts s' = [blank]"
  by (auto simp: complete_op_def bind_eq_Some_conv cleanup_blank Let_def split: prod.splits)

definition settled :: "program \<times> reactor \<Rightarrow> oper scheduler \<Rightarrow> bool" where
  \<comment> \<open>between the steps of the loop\<close>
  "settled w s = (balance 1 0 (fst w, snd w, s) \<and> contexts s = [blank])"

lemma run_task_blank:
  "run_task t usec w s = Some (w', s') \<Longrightarrow> length (contexts s') = 1 \<Longrightarrow> contexts s' = [blank]"
  by (auto simp: run_task_def bind_eq_Some_conv cleanup_blank split: prod.splits)

lemma complete_settled:
  assumes st: "settled w s" and run: "\<not> stopped s" "ready s = Op op # q"
    and c: "complete_op loop_complete op w (s\<lparr>ready := q\<rparr>) = Some (n, w', s')"
  shows "settled w' s' \<and> n = 1"
proof -
  have "balance 1 0 (fst w', snd w', s') \<and> n = 1"
  proof (rule complete_balance [OF _ run])
    show "balance 1 0 (fst w, snd w, s)" using st by (simp add: settled_def)
    show "complete_op loop_complete op (fst w, snd w) (s\<lparr>ready := q\<rparr>) = Some (n, (fst w', snd w'), s')" using c by simp
  qed
  moreover have "length (contexts s') = 1" using calculation by (simp add: balance_def)
  ultimately show ?thesis using complete_blank [OF c] unfolding settled_def by blast
qed

lemma task_settled:
  assumes st: "settled w s" and run: "\<not> stopped s" "ready s = Task # q"
    and c: "run_task loop_task usec w (s\<lparr>ready := q, task_interrupted := i\<rparr>) = Some (w', s')"
  shows "settled w' s'"
proof -
  have b: "balance 1 0 (fst w', snd w', s')"
  proof (rule task_balance [OF _ run])
    show "balance 1 0 (fst w, snd w, s)" using st by (simp add: settled_def)
    show "run_task loop_task usec (fst w, snd w) (s\<lparr>ready := q, task_interrupted := i\<rparr>) = Some ((fst w', snd w'), s')"
      using c by simp
  qed
  then have "length (contexts s') = 1" by (simp add: balance_def)
  then show ?thesis using run_task_blank [OF c] b unfolding settled_def by blast
qed

lemma do_run_one_balance:
  assumes "do_run_one loop_complete loop_task w s = Some (n, w', s')" "settled w s"
  shows "settled w' s' \<and> (n = 0 \<longrightarrow> stopped s')"
  using assms
proof (rule do_run_one_rule)
  show "settled w' s'"
    if "settled w s" "\<not> stopped s" "ready s = Task # q"
      "run_task loop_task (if q \<noteq> [] then 0 else -1) w (s\<lparr>ready := q, task_interrupted := q \<noteq> []\<rparr>) = Some (w', s')"
    for w s q w' s' using that by (rule task_settled)
  show "settled w' s' \<and> (n = 0 \<longrightarrow> stopped s')"
    if "settled w s" "\<not> stopped s" "ready s = Op op # q" "complete_op loop_complete op w (s\<lparr>ready := q\<rparr>) = Some (n, w', s')"
    for w s op q n w' s' using complete_settled [OF that] by simp
qed simp

lemma repeat_one_balance:
  assumes "repeat_one (do_run_one loop_complete loop_task) k w s = Some (n, w', s')" "settled w s"
  shows "settled w' s' \<and> stopped s'"
  using assms by (rule repeat_one_rule) (use do_run_one_balance in blast)+

lemma run_balance:
  assumes "balance 0 0 (g, r, s)" "run_loop (g, r, s) = Some (n, g', r', s')"
  shows "mset (begun g') = mset (ended g') + pending (r', s')"
    "stop_asked g' \<or> pending (r', s') = {#} \<and> guards g' = 0" "stopped s'"
proof -
  have run: "scheduler_run loop_complete loop_task (g, r) s = Some (n, (g', r'), s')"
    using assms(2) by (auto simp: run_loop_def)
  have "mset (begun g') = mset (ended g') + pending (r', s') \<and>
    (stop_asked g' \<or> pending (r', s') = {#} \<and> guards g' = 0) \<and> stopped s'"
  proof (cases "outstanding_work s = 0")
    case True
    then have e: "g' = g" "r' = r" "s' = stop s" using run by (auto simp: scheduler_run_def inside_def)
    have "work s = 0" "contexts s = []" using assms(1) True by (auto simp: balance_def work_def)
    then have "int (size (pending (r, s))) + int (guards g) = 0" using assms(1) by (simp add: balance_def)
    then have "size (pending (r, s)) = 0" "guards g = 0" by linarith+
    moreover have "pending (r, stop s) = pending (r, s)"
      by (simp add: pending_def queued_def ready_ops_def stop_def stop_all_threads_def)
    ultimately show ?thesis using assms(1) unfolding e
      by (simp add: balance_def stop_def stop_all_threads_def)
  next
    case False
    let ?s = "s\<lparr>contexts := \<lparr>private_op_queue = [], private_outstanding_work = 0\<rparr> # contexts s\<rparr>"
    obtain s1 where s1: "repeat_one (do_run_one loop_complete loop_task) 0 (g, r) ?s = Some (n, (g', r'), s1)"
      "s' = s1\<lparr>contexts := tl (contexts s1)\<rparr>"
      using run False by (auto simp: scheduler_run_def inside_def Let_def bind_eq_Some_conv)
    have "contexts s = []" using assms(1) by (simp add: balance_def)
    then have st: "settled (g, r) ?s" unfolding settled_def blank_def
      using assms(1) by (simp add: balance_def loop_ok_def pending_def queued_def ready_ops_def
          private_ids_def work_def)
    have b: "balance 1 0 (g', r', s1)" "stopped s1" "contexts s1 = [blank]"
      using repeat_one_balance [OF s1(1) st] unfolding settled_def by simp_all
    have "pending (r', s') = pending (r', s1)"
      using b(3) unfolding s1(2) by (simp add: pending_def queued_def ready_ops_def private_ids_def blank_def)
    then show ?thesis using b(1,2) unfolding s1(2) by (auto simp: balance_def)
  qed
  then show "mset (begun g') = mset (ended g') + pending (r', s')"
    "stop_asked g' \<or> pending (r', s') = {#} \<and> guards g' = 0" "stopped s'" by simp_all
qed

section \<open>What a run achieves\<close>

lemma run_stopped:
  assumes "books 0 (g, r, s)" "stopped s" "run_loop (g, r, s) = Some (n, g', r', s')"
  shows "g' = g \<and> pending (r', s') = pending (r, s)"
proof -
  have "contexts s = []" using assms(1) by (simp add: books_def)
  then show ?thesis using assms(2,3)
    by (auto simp: run_loop_def scheduler_run_def inside_def do_run_one_stopped repeat_one.simps Let_def stop_def
        stop_all_threads_def pending_def queued_def ready_ops_def private_ids_def bind_eq_Some_conv split: if_splits)
qed

text \<open>
  C5. A program that starts operations and then calls \<open>run\<close>: when \<open>run\<close> returns, every operation that
  was started, before or by a handler, has had its handler called once, or is still pending; and none is
  pending, nor a work guard held, unless \<open>stop\<close> was called or the loop was already stopped when \<open>run\<close> was called.
  (The latter also happens without \<open>stop\<close>: a program that gives up its last work guard before \<open>run\<close>, while
  nothing is pending, stops the loop, and \<open>run\<close> then leaves pending what it starts afterwards.)
\<close>

theorem run_does_all_work:
  assumes "do_acts setup (program_init sc, loop_init hint env) = Some w"
    and "run_loop w = Some (n, g, r, s)"
  shows "mset (begun g) = mset (ended g) + pending (r, s) \<and>
    (\<not> stopped (snd (snd w)) \<and> \<not> stop_asked g \<longrightarrow>
       mset (begun g) = mset (ended g) \<and> pending (r, s) = {#} \<and> guards g = 0)"
proof -
  obtain g0 r0 s0 where w: "w = (g0, r0, s0)" by (metis surj_pair)
  have "books 0 (program_init sc, loop_init hint env)"
    using init_balance [of sc hint env] by (simp add: balance_def books_def)
  then have b: "books 0 (g0, r0, s0)" using do_acts_books assms(1) w by blast
  have run: "run_loop (g0, r0, s0) = Some (n, g, r, s)" using assms(2) w by simp
  show ?thesis
  proof (cases "stopped s0")
    case True
    then show ?thesis using run_stopped [OF b True run] b w by (simp add: books_def)
  next
    case False
    then have "balance 0 0 (g0, r0, s0)" using books_balance [OF b] by simp
    from run_balance(1,2) [OF this run] show ?thesis by auto
  qed
qed

definition sample_env :: reactor where
  "sample_env = \<lparr>r_shutdown = False, registered = pool_init, dstate = (\<lambda>_. idle_state), timer_queues = [],
     has_timer_fd = True, timer_setting = None, epoll_timeout = 0, performs = (\<lambda>_. (Done, None, 5)), perform_calls = 0,
     ctls = (\<lambda>_. None), ctl_calls = 0, clock = (\<lambda>k _. int k), clock_readings = 0,
     polls = [[Ready 0 EPOLLIN, Ready 0 EPOLLHUP], [], []]\<rparr>"

definition sample_op :: reactor_op where
  "sample_op = \<lparr>rop_id = 1, rop_ec = None, rop_key = 0, rop_bytes = 0\<rparr>"

definition sample_setup :: "act list" where
  \<comment> \<open>a socket, a read on it, and a posted handler\<close>
  "sample_setup = [Open_socket 7, Start read_op (Some 0) sample_op False False, Post 2 False]"

definition sample_script :: "act list list" where
  "sample_script = [[Post 3 False], [Dispatch 4]]"

definition sample_world :: "world option" where
  "sample_world = do_acts sample_setup (program_init sample_script, loop_init 1 sample_env)"

lemmas setup_simps = sample_setup_def sample_world_def sample_script_def sample_op_def do_act_def loop_init_def
  reactor_init_def arm_descriptors_def epoll_ctl_def sample_env_def pool_init_def do_add_timer_queue_def
  tqs_insert_def init_task_def scheduler_init_def Let_def is_locking_def LOCKING_SCHEDULER_def
  LOCKING_REACTOR_IO_def CONCURRENCY_HINT_ID_MASK_def CONCURRENCY_HINT_ID_def wake_one_thread_and_unlock_def
  interrupt_task_def program_init_def register_descriptor_def pool_alloc_def set_state_def fresh_state_def
  idle_state_def EPOLLIN_def EPOLLERR_def EPOLLHUP_def EPOLLPRI_def EPOLLET_def start_op_def max_ops_def
  read_op_def except_op_def write_op_def enqueue_op_def work_started_def post_immediate_completion_def
  on_context_def EPOLLOUT_def

lemmas run_simps = run_loop_def scheduler_run_def inside_def run_task_def loop_task_def reactor_run_def
  poll_timeout_def task_ops_def push_task_ops_def dispatch_ready_def task_cleanup_def complete_op_def
  loop_complete_def complete_oper_def perform_io_def perform_type_def perform_def event_flag_def
  post_deferred_completions_def call_handler_def work_cleanup_def work_finished_def stop_def
  stop_all_threads_def do_dispatch_def size_max_def compensating_work_started_def do_run_one_task do_run_one_op
  do_run_one_stopped repeat_one.simps

theorem run_does_all_work_witness:
  "\<exists>n g r s. Option.bind sample_world run_loop = Some (n, g, r, s) \<and> n = 4 \<and> ended g = [2, 1, 3, 4] \<and> pending (r, s) = {#}"
proof -
  obtain w where w: "sample_world = Some w" by (simp add: setup_simps)
  obtain n g r s where run: "run_loop w = Some (n, g, r, s)" "n = 4" "ended g = [2, 1, 3, 4]" "\<not> stop_asked g"
    using w by (auto simp: setup_simps run_simps)
  have "\<not> stopped (snd (snd w))" using w by (auto simp: setup_simps)
  then have "pending (r, s) = {#}"
    using run_does_all_work [OF w [unfolded sample_world_def] run(1)] run(4) by simp
  moreover have "Option.bind sample_world run_loop = Some (n, g, r, s)" unfolding w using run(1) by simp
  ultimately show ?thesis using run(2,3) by blast
qed

end
