(* ===== verification/Asio_Order.thy ===== *)
theory Asio_Order
  imports Asio_Run
begin

text \<open>
  The order of the scheduler's queue. What runs inside the loop only adds to the end of the queues, and only
  the task adds the operations of descriptors; so these are all in front of the task's mark when it is put
  back, and none is in a queue when the task runs again. This is what the reactor relies on when it asks whether a
  descriptor is in the queue it is filling.
\<close>

section \<open>What the loop's calls add\<close>

fun plain :: "oper \<Rightarrow> bool" where
  "plain (Descriptor _ _) = False"
| "plain _ = True"

abbreviation inner_queues :: "oper scheduler \<Rightarrow> oper list list" where
  "inner_queues s \<equiv> map private_op_queue (contexts s)"

fun add_inner :: "'a list \<Rightarrow> 'a list list \<Rightarrow> 'a list list" where
  "add_inner b [] = []"
| "add_inner b (p # ps) = (p @ b) # ps"

definition grows :: "oper scheduler \<Rightarrow> oper scheduler \<Rightarrow> bool" where
  "grows s s' = (\<exists>a b. list_all plain a \<and> list_all plain b \<and>
     ready s' = ready s @ map Op a \<and> inner_queues s' = add_inner b (inner_queues s))"

lemma add_inner_nil [simp]: "add_inner [] ps = ps"
  by (cases ps) simp_all

lemma add_inner_append [simp]: "add_inner c (add_inner b ps) = add_inner (b @ c) ps"
  by (cases ps) simp_all

lemma grows_trans:
  assumes "grows s s'" "grows s' s''"
  shows "grows s s''"
proof -
  obtain a b where 1: "list_all plain a" "list_all plain b" "ready s' = ready s @ map Op a" "inner_queues s' = add_inner b (inner_queues s)"
    using assms(1) unfolding grows_def by blast
  obtain c d where 2: "list_all plain c" "list_all plain d" "ready s'' = ready s' @ map Op c" "inner_queues s'' = add_inner d (inner_queues s')"
    using assms(2) unfolding grows_def by blast
  show ?thesis unfolding grows_def using 1 2 by (intro exI [of _ "a @ c"] exI [of _ "b @ d"]) simp
qed

lemma grows_same: "ready s' = ready s \<Longrightarrow> inner_queues s' = inner_queues s \<Longrightarrow> grows s s'"
  unfolding grows_def by (intro exI [of _ "[]"]) simp

lemma grows_ready:
  "list_all plain a \<Longrightarrow> ready s' = ready s @ map Op a \<Longrightarrow> inner_queues s' = inner_queues s \<Longrightarrow> grows s s'"
  unfolding grows_def by (intro exI [of _ a] exI [of _ "[]"]) simp

lemma grows_private:
  "list_all plain b \<Longrightarrow> ready s' = ready s \<Longrightarrow> inner_queues s' = add_inner b (inner_queues s) \<Longrightarrow> grows s s'"
  unfolding grows_def by (intro exI [of _ "[]"] exI [of _ b]) simp

lemma grows_on_context:
  "\<lbrakk>list_all plain b; \<And>t. private_op_queue (f t) = private_op_queue t @ b\<rbrakk> \<Longrightarrow> grows s (on_context f s)"
  by (rule grows_private [of b]) (auto simp: on_context_def split: list.splits)

lemma grows_scheduler [simp]:
  "plain op \<Longrightarrow> grows s (post_immediate_completion op c s)"
  "list_all plain ops \<Longrightarrow> grows s (post_deferred_completions ops s)"
  "plain op \<Longrightarrow> grows s (do_dispatch op s)"
  "grows s (work_started s)" "grows s (work_finished s)" "grows s (stop s)" "grows s s"
proof -
  show "grows s (post_immediate_completion op c s)" if "plain op"
    using that grows_on_context [of "[op]"]
    by (auto simp: post_immediate_completion_def Let_def work_started_def wake_one_thread_and_unlock_def
        intro!: grows_ready [of "[op]"])
  show "grows s (post_deferred_completions ops s)" if "list_all plain ops"
    using that grows_on_context [of ops]
    by (cases "ops = []")
      (auto simp: post_deferred_completions_def wake_one_thread_and_unlock_def grows_same intro!: grows_ready [of ops])
  show "grows s (do_dispatch op s)" if "plain op"
    using that by (auto simp: do_dispatch_def Let_def work_started_def wake_one_thread_and_unlock_def
        intro!: grows_ready [of "[op]"])
qed (auto simp: work_started_def work_finished_def stop_def stop_all_threads_def Let_def intro!: grows_same)

lemma plain_maps [simp]: "list_all plain (map Wait ws)" "list_all plain (map (\<lambda>op. Io (f op)) ios)" "list_all plain (map Io ios)"
  by (simp_all add: list_all_iff)

section \<open>The reactor's calls\<close>

lemma complete_now_grows [simp]: "grows s (snd (complete_now op c (r, s)))"
  by (simp add: complete_now_def)

lemma enqueue_grows [simp]: "grows s (snd (enqueue_op j d op (r, s)))"
  by (simp add: enqueue_op_def)

lemma wait_for_events_grows [simp]: "grows s (snd (wait_for_events j d op c (r, s)))"
  by (auto simp: wait_for_events_def Let_def split: prod.splits option.split)

lemma start_op_grows: "grows s (snd (start_op j d op c a (r, s)))"
  by (auto simp: start_op_def Let_def split: prod.splits option.split)

lemma cancel_grows:
  "grows s (snd (cancel_ops d (r, s)))" "grows s (snd (cancel_ops_by_key d j k (r, s)))"
  by (auto simp: cancel_ops_def cancel_ops_by_key_def take_all_def Let_def split: option.split)

lemma deregister_grows: "deregister_descriptor d c (r, s) = (data, r', s') \<Longrightarrow> grows s s'"
  by (auto simp: deregister_descriptor_def take_all_def Let_def split: option.splits if_splits)

lemma schedule_grows: "schedule_timer p d t op (r, s) = Some (r', s') \<Longrightarrow> grows s s'"
  by (auto simp: schedule_timer_def Let_def split: prod.splits if_splits)

lemma timer_cancel_grows:
  "grows s (snd (snd (reactor_cancel_timer p t n (r, s))))" "grows s (snd (reactor_cancel_timer_by_key p t k (r, s)))"
  by (auto simp: reactor_cancel_timer_def reactor_cancel_timer_by_key_def Let_def split: prod.splits)

lemma act_grows: "act_loop a (r, s) = Some (r', s') \<Longrightarrow> grows s s'"
proof (cases a)
  case (Start j d op c al)
  then show "act_loop a (r, s) = Some (r', s') \<Longrightarrow> grows s s'" using start_op_grows [of s j d op c al r] by auto
next
  case (Cancel d)
  then show "act_loop a (r, s) = Some (r', s') \<Longrightarrow> grows s s'" using cancel_grows(1) [of s d r] by auto
next
  case (Cancel_key d j k)
  then show "act_loop a (r, s) = Some (r', s') \<Longrightarrow> grows s s'" using cancel_grows(2) [of s d j k r] by auto
next
  case (Timer_cancel p t n)
  then show "act_loop a (r, s) = Some (r', s') \<Longrightarrow> grows s s'" using timer_cancel_grows(1) [of s p t n r] by auto
next
  case (Timer_cancel_key p t k)
  then show "act_loop a (r, s) = Some (r', s') \<Longrightarrow> grows s s'" using timer_cancel_grows(2) [of s p t k r] by auto
qed (auto split: prod.splits dest: deregister_grows schedule_grows)

lemma do_acts_grows:
  "do_acts as (g, r, s) = Some (g', r', s') \<Longrightarrow> grows s s' \<and> ended g' = ended g"
proof (induction as arbitrary: g r s)
  case (Cons a as)
  obtain g1 r1 s1 where a: "do_act a (g, r, s) = Some (g1, r1, s1)" "do_acts as (g1, r1, s1) = Some (g', r', s')"
    using Cons.prems by (auto simp: bind_eq_Some_conv)
  have "grows s s1" using a(1) by (auto simp: do_act_def act_grows split: if_splits)
  moreover have "ended (note_act a g) = ended g" by (cases a) simp_all
  then have "ended g1 = ended g" using a(1) by (auto simp: do_act_def split: if_splits)
  ultimately show ?case using Cons.IH [OF a(2)] grows_trans by auto
qed simp

lemma call_handler_grows:
  assumes "call_handler op (g, r, s) = Some (g', r', s')"
  shows "grows s s' \<and> ended g' = ended g @ oid op"
proof (cases "script g")
  case (Cons as rest)
  then have "do_acts as (g\<lparr>ended := ended g @ oid op, script := rest\<rparr>, r, s) = Some (g', r', s')"
    using assms by (simp add: call_handler_def Let_def)
  from do_acts_grows [OF this] show ?thesis by simp
qed (use assms in \<open>auto simp: call_handler_def Let_def\<close>)

lemma perform_types_io:
  "fold (perform_type d events) js (ops, r) = (ops', r') \<Longrightarrow> (\<exists>ios. ops = map Io ios) \<Longrightarrow> (\<exists>ios. ops' = map Io ios)"
proof (induction js arbitrary: ops r)
  case (Cons j js)
  obtain o1 r1 where 1: "perform_type d events j (ops, r) = (o1, r1)" by force
  have "\<exists>ios. o1 = map Io ios"
    using 1 Cons.prems(2) by (auto simp: perform_type_def Let_def simp flip: map_append split: prod.splits if_splits)
  then show ?case using Cons.IH [of o1 r1] Cons.prems(1) 1 by simp
qed auto

lemma perform_io_grows:
  assumes "perform_io d events (r, s) = Some (first, r', s')"
  shows "grows s s' \<and> (\<forall>op. first = Some op \<longrightarrow> plain op)"
proof -
  obtain ops r1 where f: "fold (perform_type d events) [2, 1, 0] ([], r) = (ops, r1)" by force
  obtain ios where ios: "ops = map Io ios" using perform_types_io [OF f] by auto
  show ?thesis
  proof (cases ios)
    case Nil
    then obtain t where "first = None" "compensating_work_started s = Some s'"
      using assms f ios by (auto simp: perform_io_def)
    then show ?thesis
      using grows_on_context [of "[]" "\<lambda>t. t\<lparr>private_outstanding_work := private_outstanding_work t + 1\<rparr>" s]
      by (auto simp: compensating_work_started_def split: if_splits)
  next
    case (Cons io rest)
    then have "first = Some (Io io)" "s' = post_deferred_completions (map Io rest) s"
      using assms f ios by (auto simp: perform_io_def)
    then show ?thesis by simp
  qed
qed

lemma loop_complete_grows:
  assumes "loop_complete op (w, s) = Some (w', s')"
  shows "grows s s' \<and> (plain op \<longrightarrow> ended (fst w') = ended (fst w) @ oid op)
    \<and> (\<exists>e. ended (fst w') = ended (fst w) @ e)"
proof -
  obtain g r g' r' where w: "w = (g, r)" "w' = (g', r')" by (cases w, cases w') auto
  have c: "complete_oper call_handler op (g, r, s) = Some (g', r', s')"
    using assms w by (auto simp: loop_complete_def)
  show ?thesis
  proof (cases op)
    case (Descriptor d events)
    then obtain first r1 s1 where p: "perform_io d events (r, s) = Some (first, r1, s1)"
      "(case first of None \<Rightarrow> Some (g, r1, s1) | Some op \<Rightarrow> call_handler op (g, r1, s1)) = Some (g', r', s')"
      using c by (auto simp: complete_oper_def bind_eq_Some_conv split: option.splits)
    show ?thesis using perform_io_grows [OF p(1)] p(2) call_handler_grows [of _ g r1 s1 g' r' s'] Descriptor w grows_trans
      by (cases first) auto
  qed (use c call_handler_grows [of op g r s g' r' s'] w in \<open>auto simp: complete_oper_def\<close>)
qed

section \<open>The queue\<close>

fun plain_item :: "oper item \<Rightarrow> bool" where
  "plain_item Task = False"
| "plain_item (Op op) = plain op"

fun descs :: "oper list \<Rightarrow> nat list" where
  "descs [] = []"
| "descs (Descriptor d _ # ops) = d # descs ops"
| "descs (_ # ops) = descs ops"

definition queue_ok :: "oper scheduler \<Rightarrow> bool" where
  \<comment> \<open>the task is queued once, behind every descriptor, and each descriptor is queued once\<close>
  "queue_ok s =
     (let before = takeWhile (\<lambda>i. i \<noteq> Task) (ready s); rest = dropWhile (\<lambda>i. i \<noteq> Task) (ready s)
      in rest \<noteq> [] \<and> list_all plain_item (tl rest) \<and> distinct (descs (concat (map item_ops before)))
         \<and> list_all (list_all plain) (inner_queues s))"

lemma plain_items: "list_all plain_item q \<Longrightarrow> \<exists>ys. q = map Op ys \<and> list_all plain ys"
proof (induction q)
  case (Cons i q)
  then obtain op ys where "i = Op op" "plain op" "q = map Op ys" "list_all plain ys" by (cases i) auto
  then have "i # q = map Op (op # ys) \<and> list_all plain (op # ys)" by simp
  then show ?case by (rule exI)
qed simp

lemma plain_items_map [simp]: "list_all plain_item (map Op ys) \<longleftrightarrow> list_all plain ys"
  by (induct ys) simp_all

lemma before_task [simp]:
  "takeWhile (\<lambda>i. i \<noteq> Task) (map Op xs @ Task # q) = map Op xs"
  "dropWhile (\<lambda>i. i \<noteq> Task) (map Op xs @ Task # q) = Task # q"
  by (induct xs) simp_all

lemma no_task: "\<forall>i \<in> set q. i \<noteq> Task \<Longrightarrow> \<exists>xs. q = map Op xs"
proof (induction q)
  case (Cons i q)
  then obtain op xs where "i = Op op" "q = map Op xs" by (cases i) auto
  then have "i # q = map Op (op # xs)" by simp
  then show ?case by (rule exI)
qed simp

lemma queue_okI:
  "ready s = map Op xs @ Task # map Op ys \<Longrightarrow> distinct (descs xs) \<Longrightarrow> list_all plain ys \<Longrightarrow>
   list_all (list_all plain) (inner_queues s) \<Longrightarrow> queue_ok s"
  by (simp add: queue_ok_def)

lemma queue_okE:
  assumes "queue_ok s"
  obtains xs ys where "ready s = map Op xs @ Task # map Op ys" "distinct (descs xs)" "list_all plain ys"
    "list_all (list_all plain) (inner_queues s)"
proof -
  let ?b = "takeWhile (\<lambda>i. i \<noteq> Task) (ready s)" and ?r = "dropWhile (\<lambda>i. i \<noteq> Task) (ready s)"
  obtain ys where r: "tl ?r = map Op ys" "list_all plain ys" "?r \<noteq> []"
    using assms plain_items unfolding queue_ok_def Let_def by blast
  have "hd ?r = Task" using hd_dropWhile [OF r(3)] by simp
  then have "?r = Task # map Op ys" using r by (metis list.collapse)
  moreover obtain xs where xs: "?b = map Op xs" using no_task [of ?b] set_takeWhileD by metis
  ultimately have "ready s = map Op xs @ Task # map Op ys" using takeWhile_dropWhile_id [of "\<lambda>i. i \<noteq> Task" "ready s"] by metis
  moreover have "concat (map item_ops (map Op xs)) = xs" by (induct xs) simp_all
  ultimately show thesis using that [of xs ys] assms r xs unfolding queue_ok_def Let_def by simp
qed

lemma descs_append [simp]: "descs (xs @ ys) = descs xs @ descs ys"
  by (induct xs rule: descs.induct) simp_all

lemma descs_plain [simp]: "list_all plain xs \<Longrightarrow> descs xs = []"
  by (induct xs rule: descs.induct) simp_all

lemma dispatch_ready_distinct: "distinct (descs ops) \<Longrightarrow> distinct (descs (dispatch_ready d events ops))"
proof -
  have "descs (map (add_ready_events d events) ops) = descs ops" by (induct ops rule: descs.induct) simp_all
  moreover have "list_ex (is_descriptor d) ops \<longleftrightarrow> d \<in> set (descs ops)" by (induct ops rule: descs.induct) auto
  ultimately show "distinct (descs ops) \<Longrightarrow> ?thesis" by (simp add: dispatch_ready_def)
qed

lemma dispatch_events_distinct:
  "dispatch_events tf evs (ch, ops) = (ch', ops') \<Longrightarrow> distinct (descs ops) \<Longrightarrow> distinct (descs ops')"
  by (induction tf evs "(ch, ops)" arbitrary: ch ops rule: dispatch_events.induct) (auto simp: dispatch_ready_distinct)

lemma descs_waits [simp]: "descs (map Wait ws) = []"
  by (induct ws) simp_all

lemma reactor_run_ops:
  assumes "reactor_run usec (r, s) = Some (r', s')" "distinct (descs (task_ops s))"
  shows "\<exists>ops. s' = push_task_ops (\<lambda>_. ops) s \<and> distinct (descs ops)"
proof -
  obtain timeout r1 where p1: "poll_timeout usec r = Some (timeout, r1)"
    using assms(1) by (auto simp: reactor_run_def bind_eq_Some_conv)
  obtain events rest where p2: "polls r1 = events # rest"
    using assms(1) p1 by (cases "polls r1") (auto simp: reactor_run_def)
  note p = p1 p2
  let ?r = "r1\<lparr>epoll_timeout := timeout, polls := rest\<rparr>"
  obtain check ops where d: "dispatch_events (has_timer_fd ?r) events (\<not> has_timer_fd ?r, task_ops s) = (check, ops)"
    by (cases "dispatch_events (has_timer_fd ?r) events (\<not> has_timer_fd ?r, task_ops s)") auto
  note dist = dispatch_events_distinct [OF d assms(2)]
  show ?thesis
  proof (cases check)
    case True
    then obtain timer_ops r2 where t: "ready_timers ?r = Some (timer_ops, r2)" "s' = push_task_ops (\<lambda>_. ops @ timer_ops) s"
      using assms(1) p d by (auto simp: reactor_run_def Let_def)
    obtain ws where "timer_ops = map Wait ws"
      using t(1) by (auto simp: ready_timers_def Let_def bind_eq_Some_conv split: prod.splits)
    then show ?thesis using t(2) dist by (intro exI [of _ "ops @ timer_ops"]) simp
  next
    case False
    then show ?thesis using assms(1) p d dist by (intro exI [of _ ops]) (auto simp: reactor_run_def Let_def)
  qed
qed

lemma task_step:
  assumes q: "queue_ok s" "contexts s \<noteq> []" "ready s = Task # q"
    and run: "run_task loop_task usec w (s\<lparr>ready := q, task_interrupted := i\<rparr>) = Some (w', s')"
  shows "queue_ok s' \<and> contexts s' \<noteq> [] \<and> fst w' = fst w \<and> stopped s' = stopped s \<and>
    (\<exists>new. ready s' = q @ map Op new @ [Task])"
proof -
  let ?s = "s\<lparr>ready := q, task_interrupted := i\<rparr>"
  obtain t ts where c: "contexts s = t # ts" using q(2) by (cases "contexts s") auto
  obtain xs ys where "ready s = map Op xs @ Task # map Op ys" "list_all plain ys" and inner: "list_all (list_all plain) (inner_queues s)"
    using q(1) by (rule queue_okE)
  then have ys: "q = map Op ys" "list_all plain ys" using q(3) by (cases xs; simp)+
  obtain r' s2 where s2: "reactor_run usec (snd w, ?s) = Some (r', s2)" "s' = task_cleanup s2" "fst w' = fst w"
    using run by (cases w) (auto simp: run_task_def loop_task_def bind_eq_Some_conv)
  have "distinct (descs (task_ops ?s))" using inner c by (simp add: task_ops_def)
  from reactor_run_ops [OF s2(1) this] obtain ops where ops: "s2 = push_task_ops (\<lambda>_. ops) ?s" "distinct (descs ops)" by blast
  have s': "ready s' = map Op (ys @ ops) @ [Task]" "inner_queues s' = [] # tl (inner_queues s)" "stopped s' = stopped s"
    using c ys unfolding s2(2) ops(1) by (simp_all add: task_cleanup_def push_task_ops_def on_context_def Let_def)
  have "queue_ok s'" using s' ops(2) ys inner c by (intro queue_okI [of s' "ys @ ops" "[]"]) simp_all
  then show ?thesis using s' s2(3) ys by auto
qed

lemma complete_step:
  assumes q: "queue_ok s" "contexts s \<noteq> []" "ready s = Op op # q"
    and run: "complete_op loop_complete op w (s\<lparr>ready := q\<rparr>) = Some (n, w', s')"
  shows "queue_ok s' \<and> contexts s' \<noteq> []"
    and "plain op \<Longrightarrow> ended (fst w') = ended (fst w) @ oid op"
    and "\<exists>e. ended (fst w') = ended (fst w) @ e"
    and "\<exists>new. ready s' = q @ map Op new"
proof -
  let ?s = "s\<lparr>ready := q\<rparr>"
  let ?s1 = "if ready ?s \<noteq> [] \<and> \<not> one_thread ?s then wake_one_thread_and_unlock ?s else ?s"
  obtain s2 where s2: "loop_complete op (w, ?s1) = Some (w', s2)" "s' = work_cleanup s2"
    using run by (auto simp: complete_op_def Let_def bind_eq_Some_conv)
  note g = loop_complete_grows [OF s2(1)]
  obtain xs ys where r: "ready s = map Op xs @ Task # map Op ys" "distinct (descs xs)" "list_all plain ys"
    and inner: "list_all (list_all plain) (inner_queues s)" using q(1) by (rule queue_okE)
  then obtain xs' where xs: "xs = op # xs'" "q = map Op xs' @ Task # map Op ys" using q(3) by (cases xs) auto
  have s1: "ready ?s1 = q" "inner_queues ?s1 = inner_queues s" by (simp_all add: wake_one_thread_and_unlock_def)
  obtain a b where ab: "list_all plain a" "list_all plain b" "ready s2 = q @ map Op a" "inner_queues s2 = add_inner b (inner_queues s)"
    using g unfolding grows_def s1 by blast
  obtain t ts where c: "contexts s2 = t # ts"
    using ab(4) q(2) by (cases "contexts s2"; cases "contexts s") auto
  have s': "ready s' = q @ map Op (a @ private_op_queue t)" "inner_queues s' = [] # tl (inner_queues s2)"
    using ab(3) c unfolding s2(2)
    by (simp_all add: work_cleanup_def work_finished_def stop_def stop_all_threads_def on_context_def Let_def)
  have in2: "list_all (list_all plain) (inner_queues s2)" using ab(2,4) inner by (cases "contexts s") auto
  then have "list_all plain (private_op_queue t)" using c by simp
  then have "queue_ok s'"
    using s' xs r(2,3) ab(1) in2 c by (intro queue_okI [of s' xs' "ys @ a @ private_op_queue t"]) (cases op; simp_all)+
  then show "queue_ok s' \<and> contexts s' \<noteq> []" using s'(2) by auto
  show "\<exists>new. ready s' = q @ map Op new" using s'(1) by blast
  show "plain op \<Longrightarrow> ended (fst w') = ended (fst w) @ oid op" "\<exists>e. ended (fst w') = ended (fst w) @ e" using g by simp_all
qed

section \<open>Turns\<close>

lemma do_run_one_unfold:
  assumes "\<not> stopped s" "do_run_one c t w s = Some nws"
  shows "ready s = Op op # q \<Longrightarrow> complete_op c op w (s\<lparr>ready := q\<rparr>) = Some nws"
    and "ready s = Task # q \<Longrightarrow> \<exists>w1 s1.
      run_task t (if q \<noteq> [] then 0 else -1) w (s\<lparr>ready := q, task_interrupted := q \<noteq> []\<rparr>) = Some (w1, s1) \<and>
      do_run_one c t w1 s1 = Some nws"
  using assms by (subst (asm) do_run_one.simps; auto simp: Let_def bind_eq_Some_conv)+

lemma one_task:
  assumes "queue_ok s" "ready s = xs @ Task # ys"
  shows "Task \<notin> set xs \<union> set ys"
proof -
  obtain as bs where "ready s = map Op as @ Task # map Op bs" using assms(1) by (rule queue_okE)
  moreover have "count (mset (map Op zs)) Task = 0" for zs :: "oper list" by (induct zs) simp_all
  ultimately have "count (mset (ready s)) Task = 1" by (simp del: mset_map)
  then have "count (mset xs) Task = 0 \<and> count (mset ys) Task = 0" unfolding assms(2) by simp
  then show ?thesis by (simp add: count_eq_zero_iff)
qed

lemma turn:
  assumes "queue_ok s" "contexts s \<noteq> []" "\<not> stopped s" "do_run_one loop_complete loop_task w s = Some (n, w', s')"
    and "ready s = xs @ Op op # ys"
  shows "(\<exists>e. ended (fst w') = ended (fst w) @ e \<and> (xs \<in> {[], [Task]} \<and> plain op \<longrightarrow> e = oid op)) \<and>
    (xs \<in> {[], [Task]} \<or> (\<exists>xs' zs. ready s' = xs' @ Op op # zs \<and> length xs' < length xs)) \<and>
    queue_ok s' \<and> contexts s' \<noteq> []"
proof -
  have first: ?thesis
    if s: "queue_ok s1" "contexts s1 \<noteq> []" "\<not> stopped s1" "do_run_one loop_complete loop_task w1 s1 = Some (n, w', s')"
      "ready s1 = ps @ Op op # zs" "length ps \<le> length xs" "ps = [] \<longleftrightarrow> xs \<in> {[], [Task]}" "ps = [] \<or> hd ps \<noteq> Task" "fst w1 = fst w"
    for w1 s1 ps zs
  proof -
    obtain o1 q where o: "ready s1 = Op o1 # q" "ps = [] \<Longrightarrow> o1 = op" "ps \<noteq> [] \<Longrightarrow> q = tl ps @ Op op # zs"
      using s(5,8) by (cases ps; cases "hd ps") auto
    note c = complete_step [OF s(1,2) o(1) do_run_one_unfold(1) [OF s(3,4) o(1)]]
    show ?thesis
    proof (cases "ps = []")
      case True
      then show ?thesis using c(1,2,3) o(2) s(7,9) by auto
    next
      case False
      then have "\<exists>new. ready s' = tl ps @ Op op # zs @ map Op new" using c(4) o(3) by auto
      moreover have "length (tl ps) < length xs" using False s(6) by (cases ps) auto
      ultimately show ?thesis using c(1,3) s(7,9) False by auto
    qed
  qed
  show ?thesis
  proof (cases "ready s")
    case (Cons i q)
    show ?thesis
    proof (cases i)
      case Task
      then have q: "ready s = Task # q" using Cons by simp
      obtain w1 s1 where r: "run_task loop_task (if q \<noteq> [] then 0 else -1) w (s\<lparr>ready := q, task_interrupted := q \<noteq> []\<rparr>) = Some (w1, s1)"
        "do_run_one loop_complete loop_task w1 s1 = Some (n, w', s')"
        using do_run_one_unfold(2) [OF assms(3,4) q] by blast
      note t = task_step [OF assms(1,2) q r(1)]
      obtain zs where zs: "ready s1 = q @ zs" using t by auto
      obtain ps where ps: "xs = Task # ps" "q = ps @ Op op # ys" using assms(5) q by (cases xs) auto
      have "Task \<notin> set q" using one_task [OF assms(1), of "[]"] q by simp
      then have "ps = [] \<or> hd ps \<noteq> Task" using ps(2) by (cases ps) auto
      then show ?thesis using t r(2) zs ps assms(3) by (intro first [of s1 w1 ps "ys @ zs"]) auto
    next
      case (Op o1)
      then have "xs = [] \<or> hd xs = Op o1" using Cons assms(5) by (cases xs) auto
      then show ?thesis using assms by (intro first [of s w xs ys]) auto
    qed
  qed (use assms in simp)
qed

fun turns :: "nat \<Rightarrow> program \<times> reactor \<Rightarrow> oper scheduler \<Rightarrow> ((program \<times> reactor) \<times> oper scheduler) option" where
  \<comment> \<open>so many rounds of the loop of \<open>run\<close>\<close>
  "turns 0 w s = Some (w, s)"
| "turns (Suc k) w s = Option.bind (do_run_one loop_complete loop_task w s) (\<lambda>(n, w, s). turns k w s)"

lemma turns_stopped: "stopped s \<Longrightarrow> turns k w s = Some (w, s)"
  by (induct k) (simp_all add: do_run_one.simps)

lemma do_run_one_order:
  assumes "do_run_one loop_complete loop_task w s = Some (n, w', s')" "queue_ok s" "contexts s \<noteq> []"
  shows "queue_ok s' \<and> contexts s' \<noteq> [] \<and> (\<exists>e. ended (fst w') = ended (fst w) @ e)"
proof -
  let ?P = "\<lambda>w1 s1. queue_ok s1 \<and> contexts s1 \<noteq> [] \<and> (\<exists>e. ended (fst w1) = ended (fst w) @ e)"
  have start: "?P w s" using assms(2,3) by simp
  show ?thesis
  proof (rule do_run_one_rule [where P = ?P and Q = "\<lambda>_. ?P", OF assms(1) start])
    show "?P w' s'"
      if "?P w1 s" "ready s = Task # q"
        "run_task loop_task (if q \<noteq> [] then 0 else -1) w1 (s\<lparr>ready := q, task_interrupted := q \<noteq> []\<rparr>) = Some (w', s')"
      for w1 s q w' s' using task_step [OF _ _ that(2,3)] that(1) by auto
    show "?P w' s'"
      if "?P w1 s" "ready s = Op op # q" "complete_op loop_complete op w1 (s\<lparr>ready := q\<rparr>) = Some (n, w', s')"
      for w1 s op q n w' s' using complete_step(1,3) [OF _ _ that(2,3)] that(1) by auto
  qed
qed

lemma turns_order:
  "turns k w s = Some (w', s') \<Longrightarrow> queue_ok s \<Longrightarrow> contexts s \<noteq> [] \<Longrightarrow>
   queue_ok s' \<and> contexts s' \<noteq> [] \<and> (\<exists>e. ended (fst w') = ended (fst w) @ e)"
proof (induction k arbitrary: w s)
  case (Suc k)
  obtain n w1 s1 where 1: "do_run_one loop_complete loop_task w s = Some (n, w1, s1)" "turns k w1 s1 = Some (w', s')"
    using Suc.prems(1) by (auto simp: bind_eq_Some_conv)
  note o = do_run_one_order [OF 1(1) Suc.prems(2,3)]
  then show ?case using Suc.IH [OF 1(2)] by auto
qed simp

lemma turns_run:
  "\<lbrakk>turns k w s = Some (w', s'); queue_ok s; contexts s \<noteq> []; ready s = xs @ Op op # ys; length xs < k; plain op\<rbrakk>
   \<Longrightarrow> stopped s' \<or> (\<exists>e. ended (fst w') = ended (fst w) @ e \<and> set (oid op) \<subseteq> set e)"
proof (induction k arbitrary: w s xs ys)
  case (Suc k)
  obtain n w1 s1 where 1: "do_run_one loop_complete loop_task w s = Some (n, w1, s1)" "turns k w1 s1 = Some (w', s')"
    using Suc.prems(1) by (auto simp: bind_eq_Some_conv)
  show ?case
  proof (cases "stopped s")
    case True
    then have "s' = s" using turns_stopped [OF True, of "Suc k" w] Suc.prems(1) by simp
    then show ?thesis using True by simp
  next
    case False
    note t = turn [OF Suc.prems(2,3) False 1(1) Suc.prems(4)]
    then obtain e where e: "ended (fst w1) = ended (fst w) @ e" "xs \<in> {[], [Task]} \<longrightarrow> e = oid op" using Suc.prems(6) by blast
    show ?thesis
    proof (cases "xs \<in> {[], [Task]}")
      case True
      then show ?thesis using e t turns_order [OF 1(2)] by fastforce
    next
      case False
      then obtain xs' zs where "ready s1 = xs' @ Op op # zs" "length xs' < length xs" using t by blast
      then have "stopped s' \<or> (\<exists>e. ended (fst w') = ended (fst w1) @ e \<and> set (oid op) \<subseteq> set e)"
        using Suc.IH [OF 1(2), of xs' zs] t Suc.prems(5,6) by simp
      then show ?thesis using e(1) by fastforce
    qed
  qed
qed simp

section \<open>What the order promises\<close>

lemma init_order:
  assumes "do_acts setup (program_init sc, loop_init hint env) = Some w"
  shows "queue_ok (snd (snd w)\<lparr>contexts := [blank]\<rparr>)"
proof -
  let ?s = "init_task (scheduler_init hint) :: oper scheduler"
  have s: "ready ?s = [Task]" by (simp add: init_task_def scheduler_init_def wake_one_thread_and_unlock_def)
  have "do_acts setup (program_init sc, fst (loop_init hint env), ?s) = Some (fst w, fst (snd w), snd (snd w))"
    using assms by (simp add: loop_init_def)
  from do_acts_grows [OF this] obtain a where a: "list_all plain a" "ready (snd (snd w)) = [Task] @ map Op a"
    unfolding grows_def s by blast
  then show ?thesis by (intro queue_okI [of _ "[]" a]) (simp_all add: blank_def)
qed

text \<open>
  C38. After any number of rounds of \<open>run\<close> the queue holds the task once, each descriptor at most once, and
  every descriptor in front of the task; so when the task is next, no descriptor is in any queue, and the
  reactor may queue it again.
\<close>

theorem task_is_behind:
  assumes "do_acts setup (program_init sc, loop_init hint env) = Some w"
    and "turns k (fst w, fst (snd w)) (snd (snd w)\<lparr>contexts := [blank]\<rparr>) = Some (w', s')"
  shows "queue_ok s' \<and> (\<forall>q. ready s' = Task # q \<longrightarrow>
    list_all plain_item q \<and> list_all (list_all plain) (inner_queues s'))"
proof -
  have q: "queue_ok s'" using turns_order [OF assms(2) init_order [OF assms(1)]] by simp
  then obtain xs ys where "ready s' = map Op xs @ Task # map Op ys" "list_all plain ys" "list_all (list_all plain) (inner_queues s')"
    by (rule queue_okE)
  then show ?thesis using q by (cases xs) auto
qed

theorem task_is_behind_witness:
  "\<exists>w w' s'. sample_world = Some w \<and> turns 1 (fst w, fst (snd w)) (snd (snd w)\<lparr>contexts := [blank]\<rparr>) = Some (w', s') \<and>
     ready s' = [Op (Descriptor 0 17), Task, Op (Handler 3)] \<and> queue_ok s'"
proof -
  obtain w where w: "sample_world = Some w" by (simp add: setup_simps)
  obtain w' s' where t: "turns 1 (fst w, fst (snd w)) (snd (snd w)\<lparr>contexts := [blank]\<rparr>) = Some (w', s')"
    "ready s' = [Op (Descriptor 0 17), Task, Op (Handler 3)]"
    using w by (auto simp: setup_simps run_simps blank_def)
  from task_is_behind [OF w [unfolded sample_world_def] t(1)] show ?thesis using w t by blast
qed

text \<open>
  C39. The queue is fair: the operation at position \<open>k\<close> has its handler called within \<open>k + 1\<close> rounds of
  the loop, whatever the handlers before it start, unless the loop is stopped before.
\<close>

theorem operations_take_turns:
  assumes "queue_ok s" "contexts s \<noteq> []" "ready s = xs @ Op op # ys" "plain op"
    and "length xs < k" "turns k w s = Some (w', s')"
  shows "stopped s' \<or> (\<exists>e. ended (fst w') = ended (fst w) @ e \<and> set (oid op) \<subseteq> set e)"
  by (rule turns_run [OF assms(6,1,2,3,5,4)])

theorem operations_take_turns_witness:
  "\<exists>w w' s'. sample_world = Some w \<and> turns (Suc (Suc 0)) (fst w, fst (snd w)) (snd (snd w)\<lparr>contexts := [blank]\<rparr>) = Some (w', s') \<and>
     (\<exists>e. ended (fst w') = ended (fst w) @ e \<and> 2 \<in> set e)"
proof -
  obtain w where w: "sample_world = Some w" and q: "ready (snd (snd w)) = [Task] @ Op (Handler 2) # []" by (simp add: setup_simps)
  obtain w' s' where t: "turns (Suc (Suc 0)) (fst w, fst (snd w)) (snd (snd w)\<lparr>contexts := [blank]\<rparr>) = Some (w', s')" "\<not> stopped s'"
    using w by (auto simp: setup_simps run_simps blank_def)
  have "stopped s' \<or> (\<exists>e. ended (fst w') = ended (fst (fst w, fst (snd w))) @ e \<and> set (oid (Handler 2)) \<subseteq> set e)"
    by (rule operations_take_turns [OF init_order [OF w [unfolded sample_world_def]] _ _ _ _ t(1), of "[Task]" _ "[]"]) (use q in simp_all)
  then have "\<exists>e. ended (fst w') = ended (fst w) @ e \<and> 2 \<in> set e" using t(2) by simp
  then show ?thesis using w t(1) by blast
qed

end
