(* ===== verification/Asio_Sockets.thy ===== *)
theory Asio_Sockets
  imports Flex_Utils
begin

text \<open>
  The wrappers around the socket calls (\<open>detail/impl/socket_ops.ipp\<close>), as they are compiled on Linux. What the
  operating system answers is a list: each system call takes the next answer off it, an error or
  a result that is not negative with what the call writes through its pointer arguments (received
  bytes, a peer's address, message flags: the type variable \<open>'x\<close>). \<open>None\<close> means that the function
  still waits for an answer. What goes to the system passes unchanged and is left out. Every function gives its
  result, the error code it leaves in \<open>ec\<close> (\<open>None\<close> when clear) and the remaining answers.
\<close>

unbundle bit_operations_syntax

type_synonym 'x answer = "errc + (int \<times> 'x)"
type_synonym state_type = u8

definition user_set_non_blocking :: state_type where "user_set_non_blocking = 1"
definition internal_non_blocking :: state_type where "internal_non_blocking = 2"
definition non_blocking :: state_type where "non_blocking = user_set_non_blocking OR internal_non_blocking"
definition enable_connection_aborted :: state_type where "enable_connection_aborted = 4"
definition user_set_linger :: state_type where "user_set_linger = 8"
definition stream_oriented :: state_type where "stream_oriented = 16"
definition datagram_oriented :: state_type where "datagram_oriented = 32"

definition has :: "state_type \<Rightarrow> state_type \<Rightarrow> bool" where
  "has state flag = (state AND flag \<noteq> 0)"

definition invalid_socket :: int where "invalid_socket = -1"
definition socket_error_retval :: int where "socket_error_retval = -1"

definition get_last_error :: "bool \<Rightarrow> errc \<Rightarrow> errc option" where
  \<comment> \<open>with the value of \<open>errno\<close>\<close>
  "get_last_error is_error_condition errno = (if \<not> is_error_condition then None else Some errno)"

definition sys :: "'x answer \<Rightarrow> int \<times> errc option" where
  \<comment> \<open>a system call and the \<open>get_last_error\<close> after it\<close>
  "sys a = (case a of Inl e \<Rightarrow> (-1, get_last_error True e) | Inr (v, _) \<Rightarrow> (v, get_last_error False interrupted))"

definition written :: "'x answer \<Rightarrow> 'x option" where
  \<comment> \<open>what a call has written through its pointer arguments; a failing call leaves them alone\<close>
  "written a = (case a of Inl _ \<Rightarrow> None | Inr (_, x) \<Rightarrow> Some x)"

definition would_wait :: "errc option \<Rightarrow> bool" where
  \<comment> \<open>\<open>ec == would_block || ec == try_again\<close>\<close>
  "would_wait ec = (ec = Some operation_would_block \<or> ec = Some resource_unavailable_try_again)"

section \<open>Simple calls\<close>

fun checked_call :: "int \<Rightarrow> 'x answer list \<Rightarrow> (int \<times> errc option \<times> 'x answer list) option" where
  \<comment> \<open>the frame shared by the functions that check the descriptor and make one call\<close>
  "checked_call s os =
     (if s = invalid_socket then Some (socket_error_retval, Some bad_descriptor, os)
      else case os of [] \<Rightarrow> None | a # os \<Rightarrow> (let (result, ec) = sys a in Some (result, ec, os)))"

definition sock_bind :: "int \<Rightarrow> 'x answer list \<Rightarrow> (int \<times> errc option \<times> 'x answer list) option" where
  "sock_bind s os = checked_call s os"

definition sock_shutdown :: "int \<Rightarrow> 'x answer list \<Rightarrow> (int \<times> errc option \<times> 'x answer list) option" where
  "sock_shutdown s os = checked_call s os"

definition sock_listen :: "int \<Rightarrow> 'x answer list \<Rightarrow> (int \<times> errc option \<times> 'x answer list) option" where
  "sock_listen s os = checked_call s os"

definition sock_getpeername :: "int \<Rightarrow> 'x answer list \<Rightarrow> (int \<times> errc option \<times> 'x option \<times> 'x answer list) option" where
  \<comment> \<open>with the address and its length\<close>
  "sock_getpeername s os =
     (if s = invalid_socket then Some (socket_error_retval, Some bad_descriptor, None, os)
      else case os of [] \<Rightarrow> None | a # os \<Rightarrow> (let (result, ec) = sys a in Some (result, ec, written a, os)))"

definition sock_getsockname :: "int \<Rightarrow> 'x answer list \<Rightarrow> (int \<times> errc option \<times> 'x option \<times> 'x answer list) option" where
  "sock_getsockname s os =
     (if s = invalid_socket then Some (socket_error_retval, Some bad_descriptor, None, os)
      else case os of [] \<Rightarrow> None | a # os \<Rightarrow> (let (result, ec) = sys a in Some (result, ec, written a, os)))"

fun sock_socket :: "'x answer list \<Rightarrow> (int \<times> errc option \<times> 'x answer list) option" where
  "sock_socket [] = None"
| "sock_socket (a # os) = (let (s, ec) = sys a in Some (s, ec, os))"

fun sock_socketpair :: "'x answer list \<Rightarrow> (int \<times> errc option \<times> 'x answer list) option" where
  "sock_socketpair [] = None"
| "sock_socketpair (a # os) = (let (result, ec) = sys a in Some (result, ec, os))"

definition sock_sockatmark :: "int \<Rightarrow> 'x answer list \<Rightarrow> (bool \<times> errc option \<times> 'x answer list) option" where
  \<comment> \<open>the answer of the \<open>ioctl\<close> is the value it stores\<close>
  "sock_sockatmark s os =
     (if s = invalid_socket then Some (False, Some bad_descriptor, os)
      else case os of [] \<Rightarrow> None
      | a # os \<Rightarrow>
          let (v, ec) = sys a;
              ec = (if ec = Some inappropriate_ioctl then Some not_socket else ec)
          in Some (if ec \<noteq> None then False else v \<noteq> 0, ec, os))"

definition sock_available :: "int \<Rightarrow> 'x answer list \<Rightarrow> (int \<times> errc option \<times> 'x answer list) option" where
  "sock_available s os =
     (if s = invalid_socket then Some (0, Some bad_descriptor, os)
      else case os of [] \<Rightarrow> None
      | a # os \<Rightarrow>
          let (v, ec) = sys a;
              ec = (if ec = Some inappropriate_ioctl then Some not_socket else ec)
          in Some (if ec \<noteq> None then 0 else v, ec, os))"

section \<open>Waiting for readiness\<close>

definition poll_with :: "int \<Rightarrow> state_type \<Rightarrow> 'x answer list \<Rightarrow> (int \<times> errc option \<times> 'x answer list) option" where
  \<comment> \<open>what the three functions below have in common\<close>
  "poll_with s state os =
     (if s = invalid_socket then Some (socket_error_retval, Some bad_descriptor, os)
      else case os of [] \<Rightarrow> None
      | a # os \<Rightarrow>
          let (result, ec) = sys a;
              ec = (if result = 0 \<and> has state user_set_non_blocking then Some operation_would_block else ec)
          in Some (result, ec, os))"

definition poll_read :: "int \<Rightarrow> state_type \<Rightarrow> 'x answer list \<Rightarrow> (int \<times> errc option \<times> 'x answer list) option" where
  "poll_read s state os = poll_with s state os"

definition poll_write :: "int \<Rightarrow> state_type \<Rightarrow> 'x answer list \<Rightarrow> (int \<times> errc option \<times> 'x answer list) option" where
  "poll_write s state os = poll_with s state os"

definition poll_error :: "int \<Rightarrow> state_type \<Rightarrow> 'x answer list \<Rightarrow> (int \<times> errc option \<times> 'x answer list) option" where
  "poll_error s state os = poll_with s state os"

definition poll_connect :: "int \<Rightarrow> 'x answer list \<Rightarrow> (int \<times> errc option \<times> 'x answer list) option" where
  "poll_connect s os = checked_call s os"

section \<open>Options and modes\<close>

datatype sock_option = Always_fail | Connection_aborted | Linger | Buffer_size | Other_option

fun setsockopt_system :: "state_type \<Rightarrow> 'x answer list \<Rightarrow> (int \<times> errc option \<times> state_type \<times> 'x answer list) option" where
  "setsockopt_system state [] = None"
| "setsockopt_system state (a # os) = (let (result, ec) = sys a in Some (result, ec, state, os))"

fun getsockopt_system :: "sock_option \<Rightarrow> nat \<Rightarrow> 'x answer list \<Rightarrow> (int \<times> errc option \<times> int \<times> 'x answer list) option" where
  \<comment> \<open>the answer of the call is the value it stores; buffer sizes come back doubled on Linux\<close>
  "getsockopt_system opt optlen [] = None"
| "getsockopt_system opt optlen (Inl e # os) = Some (-1, get_last_error True e, 0, os)"
| "getsockopt_system opt optlen (Inr (v, _) # os) =
     Some (0, None, if opt = Buffer_size \<and> optlen = 4 then cdiv v 2 else v, os)"

definition sock_setsockopt ::
  "int \<Rightarrow> state_type \<Rightarrow> sock_option \<Rightarrow> int \<Rightarrow> nat \<Rightarrow> 'x answer list \<Rightarrow> (int \<times> errc option \<times> state_type \<times> 'x answer list) option" where
  \<comment> \<open>the level and name as one option; \<open>sizeof(int)\<close> is 4\<close>
  "sock_setsockopt s state opt optval optlen os =
     (if s = invalid_socket then Some (socket_error_retval, Some bad_descriptor, state, os)
      else if opt = Always_fail then Some (socket_error_retval, Some invalid_argument, state, os)
      else if opt = Connection_aborted then
        if optlen \<noteq> 4 then Some (socket_error_retval, Some invalid_argument, state, os)
        else Some (0, None, if optval \<noteq> 0 then state OR enable_connection_aborted
                            else state AND NOT enable_connection_aborted, os)
      else
        let state = (if opt = Linger then state OR user_set_linger else state)
        in setsockopt_system state os)"

definition sock_getsockopt ::
  "int \<Rightarrow> state_type \<Rightarrow> sock_option \<Rightarrow> nat \<Rightarrow> 'x answer list \<Rightarrow> (int \<times> errc option \<times> int \<times> 'x answer list) option" where
  \<comment> \<open>result, \<open>ec\<close> and the value read\<close>
  "sock_getsockopt s state opt optlen os =
     (if s = invalid_socket then Some (socket_error_retval, Some bad_descriptor, 0, os)
      else if opt = Always_fail then Some (socket_error_retval, Some invalid_argument, 0, os)
      else if opt = Connection_aborted then
        if optlen \<noteq> 4 then Some (socket_error_retval, Some invalid_argument, 0, os)
        else Some (0, None, if has state enable_connection_aborted then 1 else 0, os)
      else getsockopt_system opt optlen os)"

definition set_user_non_blocking ::
  "int \<Rightarrow> state_type \<Rightarrow> bool \<Rightarrow> 'x answer list \<Rightarrow> (bool \<times> errc option \<times> state_type \<times> 'x answer list) option" where
  "set_user_non_blocking s state v os =
     (if s = invalid_socket then Some (False, Some bad_descriptor, state, os)
      else case os of [] \<Rightarrow> None
      | a # os \<Rightarrow>
          let (result, ec) = sys a
          in if result \<ge> 0 then
               Some (True, ec, if v then state OR user_set_non_blocking
                               else state AND NOT (user_set_non_blocking OR internal_non_blocking), os)
             else Some (False, ec, state, os))"

definition set_internal_non_blocking ::
  "int \<Rightarrow> state_type \<Rightarrow> bool \<Rightarrow> 'x answer list \<Rightarrow> (bool \<times> errc option \<times> state_type \<times> 'x answer list) option" where
  "set_internal_non_blocking s state v os =
     (if s = invalid_socket then Some (False, Some bad_descriptor, state, os)
      else if \<not> v \<and> has state user_set_non_blocking then Some (False, Some invalid_argument, state, os)
      else case os of [] \<Rightarrow> None
      | a # os \<Rightarrow>
          let (result, ec) = sys a
          in if result \<ge> 0 then
               Some (True, ec, if v then state OR internal_non_blocking
                               else state AND NOT internal_non_blocking, os)
             else Some (False, ec, state, os))"

definition sock_ioctl ::
  "int \<Rightarrow> state_type \<Rightarrow> bool \<Rightarrow> int \<Rightarrow> 'x answer list \<Rightarrow> (int \<times> errc option \<times> state_type \<times> 'x answer list) option" where
  \<comment> \<open>\<open>fionbio\<close>: is the command \<open>FIONBIO\<close>\<close>
  "sock_ioctl s state fionbio arg os =
     (if s = invalid_socket then Some (socket_error_retval, Some bad_descriptor, state, os)
      else case os of [] \<Rightarrow> None
      | a # os \<Rightarrow>
          let (result, ec) = sys a;
              state = (if result \<ge> 0 \<and> fionbio then
                         if arg \<noteq> 0 then state OR user_set_non_blocking
                         else state AND NOT (user_set_non_blocking OR internal_non_blocking)
                       else state)
          in Some (result, ec, state, os))"

fun close_again :: "state_type \<Rightarrow> 'x answer list \<Rightarrow> (int \<times> errc option \<times> state_type \<times> 'x answer list) option" where
  \<comment> \<open>back to blocking mode (the outcome of that call is ignored), and a second \<open>close\<close>\<close>
  "close_again state (_ # a # os) =
     (let (result, ec) = sys a in Some (result, ec, state AND NOT non_blocking, os))"
| "close_again state _ = None"

definition sock_close ::
  "int \<Rightarrow> state_type \<Rightarrow> bool \<Rightarrow> errc option \<Rightarrow> 'x answer list \<Rightarrow> (int \<times> errc option \<times> state_type \<times> 'x answer list) option" where
  \<comment> \<open>\<open>ec\<close> is left alone where nothing is closed\<close>
  "sock_close s state destruction ec os =
     (if s \<noteq> invalid_socket then
        Option.bind
          (if destruction \<and> has state user_set_linger
           then map_option (\<lambda>(_, _, state, os). (state, os)) (sock_setsockopt s state Linger 0 8 os)
           else Some (state, os))
          (\<lambda>(state, os). case os of [] \<Rightarrow> None
           | a # os \<Rightarrow>
               let (result, ec) = sys a
               in if result \<noteq> 0 \<and> would_wait ec then close_again state os
                  else Some (result, ec, state, os))
      else Some (0, ec, state, os))"

section \<open>Connecting\<close>

definition sock_connect :: "int \<Rightarrow> bool \<Rightarrow> 'x answer list \<Rightarrow> (int \<times> errc option \<times> 'x answer list) option" where
  \<comment> \<open>\<open>unix_domain\<close>: is the address of family \<open>AF_UNIX\<close>\<close>
  "sock_connect s unix_domain os =
     (if s = invalid_socket then Some (socket_error_retval, Some bad_descriptor, os)
      else case os of [] \<Rightarrow> None
      | a # os \<Rightarrow>
          let (result, ec) = sys a;
              ec = (if result \<noteq> 0 \<and> ec = Some resource_unavailable_try_again
                    then Some (if unix_domain then in_progress else no_buffer_space) else ec)
          in Some (result, ec, os))"

definition errc_of_value :: "(int \<Rightarrow> errc) \<Rightarrow> int \<Rightarrow> errc option" where
  \<comment> \<open>the error code with a value of the system category; 0 is success\<close>
  "errc_of_value sys_errc v = (if v = 0 then None else Some (sys_errc v))"

definition sync_connect ::
  "(int \<Rightarrow> errc) \<Rightarrow> int \<Rightarrow> bool \<Rightarrow> 'x answer list \<Rightarrow> (errc option \<times> 'x answer list) option" where
  "sync_connect sys_errc s unix_domain os =
     Option.bind (sock_connect s unix_domain os) (\<lambda>(_, ec, os).
       if ec \<noteq> Some in_progress \<and> ec \<noteq> Some operation_would_block then Some (ec, os)
       else Option.bind (poll_connect s os) (\<lambda>(r, ec, os).
         if r < 0 then Some (ec, os)
         else Option.bind (sock_getsockopt s 0 Other_option 4 os) (\<lambda>(r, ec, connect_error, os).
           if r = socket_error_retval then Some (ec, os)
           else Some (errc_of_value sys_errc connect_error, os))))"

definition non_blocking_connect ::
  "(int \<Rightarrow> errc) \<Rightarrow> int \<Rightarrow> errc option \<Rightarrow> 'x answer list \<Rightarrow> (bool \<times> errc option \<times> 'x answer list) option" where
  \<comment> \<open>the result of \<open>poll\<close> is only compared with zero, as in the code\<close>
  "non_blocking_connect sys_errc s ec os =
     (case os of [] \<Rightarrow> None
      | a # os \<Rightarrow>
          if fst (sys a) = 0 then Some (False, ec, os)
          else Option.bind (sock_getsockopt s 0 Other_option 4 os) (\<lambda>(r, ec, connect_error, os).
            Some (True, if r = 0 then errc_of_value sys_errc connect_error else ec, os)))"

end
