(* ===== verification/Asio_Transfer.thy ===== *)
theory Asio_Transfer
  imports Asio_Sockets
begin

text \<open>
  Accepting, receiving and sending in \<open>detail/impl/socket_ops.ipp\<close>: the call itself, the synchronous loop that
  waits in \<open>poll\<close> while the call would block, and the loop of the reactor that only repeats a call interrupted
  by a signal. The overloads for a buffer sequence, a single buffer, an address and a message have the same
  loops around different calls; here the loops take the call as an argument.
\<close>

section \<open>The calls\<close>



definition io_call :: "'x answer \<Rightarrow> int \<times> errc option \<times> 'x option" where
  \<comment> \<open>the call, then \<open>get_last_error(ec, result < 0)\<close>\<close>
  "io_call a = (let (result, ec) = sys a in (result, ec, written a))"

definition sock_recv :: "'x answer \<Rightarrow> int \<times> errc option \<times> 'x option" where
  "sock_recv a = io_call a"

definition sock_recv1 :: "'x answer \<Rightarrow> int \<times> errc option \<times> 'x option" where
  "sock_recv1 a = io_call a"

definition sock_recvfrom :: "'x answer \<Rightarrow> int \<times> errc option \<times> 'x option" where
  \<comment> \<open>data, address and \<open>msg_namelen\<close>, which \<open>addrlen\<close> is set from in any case\<close>
  "sock_recvfrom a = io_call a"

definition sock_recvfrom1 :: "'x answer \<Rightarrow> int \<times> errc option \<times> 'x option" where
  "sock_recvfrom1 a = io_call a"

definition sock_recvmsg :: "(int \<times> 'x) answer \<Rightarrow> int \<times> errc option \<times> int \<times> 'x option" where
  \<comment> \<open>the system writes \<open>msg_flags\<close> and the data; the third result is \<open>out_flags\<close>\<close>
  "sock_recvmsg a =
     (let (result, ec, msg) = io_call a
      in (result, ec, case msg of Some (msg_flags, _) \<Rightarrow> if result \<ge> 0 then msg_flags else 0 | None \<Rightarrow> 0,
          map_option snd msg))"

definition sock_send :: "'x answer \<Rightarrow> int \<times> errc option \<times> 'x option" where
  "sock_send a = io_call a"

definition sock_send1 :: "'x answer \<Rightarrow> int \<times> errc option \<times> 'x option" where
  "sock_send1 a = io_call a"

definition sock_sendto :: "'x answer \<Rightarrow> int \<times> errc option \<times> 'x option" where
  "sock_sendto a = io_call a"

definition sock_sendto1 :: "'x answer \<Rightarrow> int \<times> errc option \<times> 'x option" where
  "sock_sendto1 a = io_call a"

section \<open>Loops of the reactor\<close>

text \<open>
  \<open>bytes_transferred\<close> is passed in and out. The result is the returned flag (is the operation complete), the
  error code, \<open>bytes_transferred\<close>, what the last call has written and the answers that are left.
\<close>

fun non_blocking_stream ::
  "('x answer \<Rightarrow> int \<times> errc option \<times> 'o) \<Rightarrow> bool \<Rightarrow> int \<Rightarrow> 'x answer list
     \<Rightarrow> (bool \<times> errc option \<times> int \<times> 'o \<times> 'x answer list) option" where
  \<comment> \<open>the loop of \<open>non_blocking_recv\<close> and \<open>non_blocking_recv1\<close>\<close>
  "non_blocking_stream call is_stream bytes_transferred [] = None"
| "non_blocking_stream call is_stream bytes_transferred (a # os) =
     (let (bytes, ec, out) = call a
      in if is_stream \<and> bytes = 0 then Some (True, Some eof, bytes_transferred, out, os)
         else if bytes \<ge> 0 then Some (True, ec, bytes, out, os)
         else if ec = Some interrupted then non_blocking_stream call is_stream bytes_transferred os
         else if would_wait ec then Some (False, ec, bytes_transferred, out, os)
         else Some (True, ec, 0, out, os))"

definition non_blocking_recv ::
  "bool \<Rightarrow> int \<Rightarrow> 'x answer list \<Rightarrow> (bool \<times> errc option \<times> int \<times> 'x option \<times> 'x answer list) option" where
  "non_blocking_recv is_stream bytes_transferred os = non_blocking_stream sock_recv is_stream bytes_transferred os"

definition non_blocking_recv1 ::
  "bool \<Rightarrow> int \<Rightarrow> 'x answer list \<Rightarrow> (bool \<times> errc option \<times> int \<times> 'x option \<times> 'x answer list) option" where
  "non_blocking_recv1 is_stream bytes_transferred os = non_blocking_stream sock_recv1 is_stream bytes_transferred os"

fun non_blocking_transfer ::
  "('x answer \<Rightarrow> int \<times> errc option \<times> 'o) \<Rightarrow> int \<Rightarrow> 'x answer list
     \<Rightarrow> (bool \<times> errc option \<times> int \<times> 'o \<times> 'x answer list) option" where
  \<comment> \<open>the loop of the others\<close>
  "non_blocking_transfer call bytes_transferred [] = None"
| "non_blocking_transfer call bytes_transferred (a # os) =
     (let (bytes, ec, out) = call a
      in if bytes \<ge> 0 then Some (True, ec, bytes, out, os)
         else if ec = Some interrupted then non_blocking_transfer call bytes_transferred os
         else if would_wait ec then Some (False, ec, bytes_transferred, out, os)
         else Some (True, ec, 0, out, os))"

definition non_blocking_recvfrom ::
  "int \<Rightarrow> 'x answer list \<Rightarrow> (bool \<times> errc option \<times> int \<times> 'x option \<times> 'x answer list) option" where
  "non_blocking_recvfrom bytes_transferred os = non_blocking_transfer sock_recvfrom bytes_transferred os"

definition non_blocking_recvfrom1 ::
  "int \<Rightarrow> 'x answer list \<Rightarrow> (bool \<times> errc option \<times> int \<times> 'x option \<times> 'x answer list) option" where
  "non_blocking_recvfrom1 bytes_transferred os = non_blocking_transfer sock_recvfrom1 bytes_transferred os"

definition non_blocking_recvmsg ::
  "int \<Rightarrow> (int \<times> 'x) answer list
     \<Rightarrow> (bool \<times> errc option \<times> int \<times> (int \<times> 'x option) \<times> (int \<times> 'x) answer list) option" where
  "non_blocking_recvmsg bytes_transferred os = non_blocking_transfer sock_recvmsg bytes_transferred os"

definition non_blocking_send ::
  "int \<Rightarrow> 'x answer list \<Rightarrow> (bool \<times> errc option \<times> int \<times> 'x option \<times> 'x answer list) option" where
  "non_blocking_send bytes_transferred os = non_blocking_transfer sock_send bytes_transferred os"

definition non_blocking_send1 ::
  "int \<Rightarrow> 'x answer list \<Rightarrow> (bool \<times> errc option \<times> int \<times> 'x option \<times> 'x answer list) option" where
  "non_blocking_send1 bytes_transferred os = non_blocking_transfer sock_send1 bytes_transferred os"

definition non_blocking_sendto ::
  "int \<Rightarrow> 'x answer list \<Rightarrow> (bool \<times> errc option \<times> int \<times> 'x option \<times> 'x answer list) option" where
  "non_blocking_sendto bytes_transferred os = non_blocking_transfer sock_sendto bytes_transferred os"

definition non_blocking_sendto1 ::
  "int \<Rightarrow> 'x answer list \<Rightarrow> (bool \<times> errc option \<times> int \<times> 'x option \<times> 'x answer list) option" where
  "non_blocking_sendto1 bytes_transferred os = non_blocking_transfer sock_sendto1 bytes_transferred os"

section \<open>Synchronous loops\<close>

lemma poll_with_shorter:
  "poll_with s state os = Some (r, ec, os') \<Longrightarrow> length os' \<le> length os"
  by (auto simp: poll_with_def Let_def split: if_splits list.splits prod.splits)

lemma poll_read_shorter [termination_simp]:
  "poll_read s state os = Some (r, ec, os') \<Longrightarrow> length os' < Suc (length os)"
  using poll_with_shorter by (fastforce simp: poll_read_def less_Suc_eq_le)

lemma poll_write_shorter [termination_simp]:
  "poll_write s state os = Some (r, ec, os') \<Longrightarrow> length os' < Suc (length os)"
  using poll_with_shorter by (fastforce simp: poll_write_def less_Suc_eq_le)

fun sync_recv_loop ::
  "('x answer \<Rightarrow> int \<times> errc option \<times> 'o) \<Rightarrow> int \<Rightarrow> state_type \<Rightarrow> 'x answer list
     \<Rightarrow> (int \<times> errc option \<times> 'o \<times> 'x answer list) option" where
  "sync_recv_loop call s state [] = None"
| "sync_recv_loop call s state (a # os) =
     (let (bytes, ec, out) = call a
      in if has state stream_oriented \<and> bytes = 0 then Some (0, Some eof, out, os)
         else if bytes \<ge> 0 then Some (bytes, ec, out, os)
         else if has state user_set_non_blocking \<or> \<not> would_wait ec then Some (0, ec, out, os)
         else case poll_read s 0 os of None \<Rightarrow> None
           | Some (r, ec, os) \<Rightarrow> if r < 0 then Some (0, ec, out, os) else sync_recv_loop call s state os)"

fun sync_recvfrom_loop ::
  "('x answer \<Rightarrow> int \<times> errc option \<times> 'o) \<Rightarrow> int \<Rightarrow> state_type \<Rightarrow> 'x answer list
     \<Rightarrow> (int \<times> errc option \<times> 'o \<times> 'x answer list) option" where
  "sync_recvfrom_loop call s state [] = None"
| "sync_recvfrom_loop call s state (a # os) =
     (let (bytes, ec, out) = call a
      in if bytes \<ge> 0 then Some (bytes, ec, out, os)
         else if has state user_set_non_blocking \<or> \<not> would_wait ec then Some (0, ec, out, os)
         else case poll_read s 0 os of None \<Rightarrow> None
           | Some (r, ec, os) \<Rightarrow> if r < 0 then Some (0, ec, out, os) else sync_recvfrom_loop call s state os)"

fun sync_send_loop ::
  "('x answer \<Rightarrow> int \<times> errc option \<times> 'o) \<Rightarrow> int \<Rightarrow> state_type \<Rightarrow> 'x answer list
     \<Rightarrow> (int \<times> errc option \<times> 'o \<times> 'x answer list) option" where
  "sync_send_loop call s state [] = None"
| "sync_send_loop call s state (a # os) =
     (let (bytes, ec, out) = call a
      in if bytes \<ge> 0 then Some (bytes, ec, out, os)
         else if has state user_set_non_blocking \<or> \<not> would_wait ec then Some (0, ec, out, os)
         else case poll_write s 0 os of None \<Rightarrow> None
           | Some (r, ec, os) \<Rightarrow> if r < 0 then Some (0, ec, out, os) else sync_send_loop call s state os)"

definition sync_recv ::
  "int \<Rightarrow> state_type \<Rightarrow> bool \<Rightarrow> 'x answer list \<Rightarrow> (int \<times> errc option \<times> 'x option \<times> 'x answer list) option" where
  "sync_recv s state all_empty os =
     (if s = invalid_socket then Some (0, Some bad_descriptor, None, os)
      else if all_empty \<and> has state stream_oriented then Some (0, None, None, os)
      else sync_recv_loop sock_recv s state os)"

definition sync_recv1 ::
  "int \<Rightarrow> state_type \<Rightarrow> nat \<Rightarrow> 'x answer list \<Rightarrow> (int \<times> errc option \<times> 'x option \<times> 'x answer list) option" where
  "sync_recv1 s state buf_len os =
     (if s = invalid_socket then Some (0, Some bad_descriptor, None, os)
      else if buf_len = 0 \<and> has state stream_oriented then Some (0, None, None, os)
      else sync_recv_loop sock_recv1 s state os)"

definition sync_send ::
  "int \<Rightarrow> state_type \<Rightarrow> bool \<Rightarrow> 'x answer list \<Rightarrow> (int \<times> errc option \<times> 'x option \<times> 'x answer list) option" where
  "sync_send s state all_empty os =
     (if s = invalid_socket then Some (0, Some bad_descriptor, None, os)
      else if all_empty \<and> has state stream_oriented then Some (0, None, None, os)
      else sync_send_loop sock_send s state os)"

definition sync_send1 ::
  "int \<Rightarrow> state_type \<Rightarrow> nat \<Rightarrow> 'x answer list \<Rightarrow> (int \<times> errc option \<times> 'x option \<times> 'x answer list) option" where
  "sync_send1 s state buf_len os =
     (if s = invalid_socket then Some (0, Some bad_descriptor, None, os)
      else if buf_len = 0 \<and> has state stream_oriented then Some (0, None, None, os)
      else sync_send_loop sock_send1 s state os)"

definition sync_recvfrom ::
  "int \<Rightarrow> state_type \<Rightarrow> 'x answer list \<Rightarrow> (int \<times> errc option \<times> 'x option \<times> 'x answer list) option" where
  "sync_recvfrom s state os =
     (if s = invalid_socket then Some (0, Some bad_descriptor, None, os)
      else sync_recvfrom_loop sock_recvfrom s state os)"

definition sync_recvfrom1 ::
  "int \<Rightarrow> state_type \<Rightarrow> 'x answer list \<Rightarrow> (int \<times> errc option \<times> 'x option \<times> 'x answer list) option" where
  "sync_recvfrom1 s state os =
     (if s = invalid_socket then Some (0, Some bad_descriptor, None, os)
      else sync_recvfrom_loop sock_recvfrom1 s state os)"

definition sync_sendto ::
  "int \<Rightarrow> state_type \<Rightarrow> 'x answer list \<Rightarrow> (int \<times> errc option \<times> 'x option \<times> 'x answer list) option" where
  "sync_sendto s state os =
     (if s = invalid_socket then Some (0, Some bad_descriptor, None, os)
      else sync_send_loop sock_sendto s state os)"

definition sync_sendto1 ::
  "int \<Rightarrow> state_type \<Rightarrow> 'x answer list \<Rightarrow> (int \<times> errc option \<times> 'x option \<times> 'x answer list) option" where
  "sync_sendto1 s state os =
     (if s = invalid_socket then Some (0, Some bad_descriptor, None, os)
      else sync_send_loop sock_sendto1 s state os)"

definition sync_recvmsg ::
  "int \<Rightarrow> state_type \<Rightarrow> int \<Rightarrow> (int \<times> 'x) answer list
     \<Rightarrow> (int \<times> errc option \<times> (int \<times> 'x option) \<times> (int \<times> 'x) answer list) option" where
  \<comment> \<open>with the \<open>out_flags\<close> the caller had\<close>
  "sync_recvmsg s state out_flags os =
     (if s = invalid_socket then Some (0, Some bad_descriptor, (out_flags, None), os)
      else sync_recvfrom_loop sock_recvmsg s state os)"

section \<open>Accepting\<close>

fun sock_accept :: "int \<Rightarrow> 'x answer list \<Rightarrow> (int \<times> errc option \<times> 'x option \<times> 'x answer list) option" where
  "sock_accept s os =
     (if s = invalid_socket then Some (invalid_socket, Some bad_descriptor, None, os)
      else case os of [] \<Rightarrow> None
      | a # os \<Rightarrow>
          let (new_s, ec) = sys a
          in if new_s = invalid_socket then Some (new_s, ec, None, os)
             else Some (new_s, None, written a, os))"

declare sock_accept.simps [simp del]

lemma sock_accept_shorter:
  "sock_accept s os = Some (r, ec, x, os') \<Longrightarrow> length os' \<le> length os \<and> (s \<noteq> invalid_socket \<longrightarrow> length os' < length os)"
  by (auto simp: sock_accept.simps Let_def split: if_splits list.splits prod.splits)

lemma invalid_accept: "sock_accept invalid_socket os = Some (invalid_socket, Some bad_descriptor, None, os)"
  by (simp add: sock_accept.simps)

function sync_accept ::
  "int \<Rightarrow> state_type \<Rightarrow> 'x answer list \<Rightarrow> (int \<times> errc option \<times> 'x option \<times> 'x answer list) option" where
  \<comment> \<open>\<open>protocol_failure\<close> is \<open>EPROTO\<close>\<close>
  "sync_accept s state os =
     (case sock_accept s os of None \<Rightarrow> None
      | Some (new_socket, ec, out, os) \<Rightarrow>
          if new_socket \<noteq> invalid_socket then Some (new_socket, ec, out, os)
          else if (if would_wait ec then has state user_set_non_blocking
                   else if ec = Some connection_aborted then has state enable_connection_aborted
                   else if ec = Some protocol_failure then has state enable_connection_aborted
                   else True)
          then Some (invalid_socket, ec, out, os)
          else case poll_read s 0 os of None \<Rightarrow> None
            | Some (r, ec, os) \<Rightarrow> if r < 0 then Some (invalid_socket, ec, out, os) else sync_accept s state os)"
  by pat_completeness auto

termination
proof (relation "measure (\<lambda>(s, state, os). length os)", goal_cases)
  case 1 then show ?case by simp
next
  case (2 s state os p1 r q1 ec q2 out os' p2 v q3 ec' os'')
  show ?case
  proof (cases "s = invalid_socket")
    case True
    then show ?thesis using 2 by (auto simp: invalid_accept would_wait_def split: if_splits)
  next
    case False
    then have "length os' < length os" using 2(1-4) by (auto dest: sock_accept_shorter)
    moreover have "length os'' < Suc (length os')" using 2 by (auto dest: poll_read_shorter)
    ultimately show ?thesis by simp
  qed
qed

declare sync_accept.simps [simp del]

function non_blocking_accept ::
  "int \<Rightarrow> state_type \<Rightarrow> 'x answer list \<Rightarrow> (bool \<times> errc option \<times> int \<times> 'x option \<times> 'x answer list) option" where
  \<comment> \<open>returned flag, \<open>ec\<close> and \<open>new_socket\<close>\<close>
  "non_blocking_accept s state os =
     (case sock_accept s os of None \<Rightarrow> None
      | Some (new_socket, ec, out, os) \<Rightarrow>
          if new_socket \<noteq> invalid_socket then Some (True, ec, new_socket, out, os)
          else if ec = Some interrupted then non_blocking_accept s state os
          else if would_wait ec then Some (False, ec, new_socket, out, os)
          else if ec = Some connection_aborted then
            Some (has state enable_connection_aborted, ec, new_socket, out, os)
          else if ec = Some protocol_failure then
            Some (has state enable_connection_aborted, ec, new_socket, out, os)
          else Some (True, ec, new_socket, out, os))"
  by pat_completeness auto

termination
proof (relation "measure (\<lambda>(s, state, os). length os)", goal_cases)
  case 1 then show ?case by simp
next
  case (2 s state os p1 r q1 ec q2 out os')
  then show ?case
    by (cases "s = invalid_socket") (auto simp: invalid_accept dest: sock_accept_shorter)
qed

declare non_blocking_accept.simps [simp del]

end
