(* ===== verification/Asio_Timer_Service.thy ===== *)
theory Asio_Timer_Service
  imports Asio_Order Asio_Transfer
begin

text \<open>
  The service behind a \<open>steady_timer\<close> (\<open>detail/deadline_timer_service.hpp\<close>): the expiry of a timer object,
  the flag by which cancelling is skipped, and the calls of the reactor with the service's own timer queue, which
  is named by its number \<open>p\<close> among the reactor's timer queues. Times are ticks of the clock, as in
  \<open>Asio_Chrono\<close>.
\<close>

section \<open>The implementation of a timer\<close>

record timer_impl =
  expiry :: int
  might_have_pending_waits :: bool
  timer_data :: timer

definition timer_service_init :: "nat \<Rightarrow> loop \<Rightarrow> loop" where
  \<comment> \<open>\<open>scheduler_.init_task()\<close> of the reactor is that of the scheduler\<close>
  "timer_service_init p l = (let (r, s) = l in (do_add_timer_queue p tq_init r, init_task s))"

definition timer_service_exit :: "nat \<Rightarrow> loop \<Rightarrow> loop" where
  "timer_service_exit p l = (let (r, s) = l in (do_remove_timer_queue p r, s))"

definition construct_timer :: "timer \<Rightarrow> timer_impl" where
  "construct_timer t = \<lparr>expiry = 0, might_have_pending_waits = False, timer_data = t\<rparr>"

definition timer_cancel_all :: "nat \<Rightarrow> timer_impl \<Rightarrow> loop \<Rightarrow> nat \<times> timer_impl \<times> loop" where
  \<comment> \<open>\<open>cancel\<close>: the number of cancelled operations\<close>
  "timer_cancel_all p impl l =
     (if \<not> might_have_pending_waits impl then (0, impl, l)
      else let (n, l) = reactor_cancel_timer p (timer_data impl) size_max l
           in (n, impl\<lparr>might_have_pending_waits := False\<rparr>, l))"

definition timer_cancel_one :: "nat \<Rightarrow> timer_impl \<Rightarrow> loop \<Rightarrow> nat \<times> timer_impl \<times> loop" where
  "timer_cancel_one p impl l =
     (if \<not> might_have_pending_waits impl then (0, impl, l)
      else let (n, l) = reactor_cancel_timer p (timer_data impl) 1 l
           in (n, if n = 0 then impl\<lparr>might_have_pending_waits := False\<rparr> else impl, l))"

definition destroy_timer :: "nat \<Rightarrow> timer_impl \<Rightarrow> loop \<Rightarrow> timer_impl \<times> loop" where
  "destroy_timer p impl l = (case timer_cancel_all p impl l of (n, impl, l) \<Rightarrow> (impl, l))"

definition timer_move_construct :: "nat \<Rightarrow> timer \<Rightarrow> timer_impl \<Rightarrow> loop \<Rightarrow> timer_impl \<times> timer_impl \<times> loop" where
  \<comment> \<open>the new timer object, what is left of the other\<close>
  "timer_move_construct p t other l =
     (let l = reactor_move_timer p t (timer_data other) l
      in (\<lparr>expiry = expiry other, might_have_pending_waits = might_have_pending_waits other, timer_data = t\<rparr>,
          other\<lparr>expiry := 0, might_have_pending_waits := False\<rparr>, l))"

definition timer_move_assign :: "nat \<Rightarrow> nat \<Rightarrow> timer_impl \<Rightarrow> timer_impl \<Rightarrow> loop \<Rightarrow> timer_impl \<times> timer_impl \<times> loop" where
  \<comment> \<open>\<open>p'\<close> is the queue of the other timer's service, on the same reactor\<close>
  "timer_move_assign p p' impl other l =
     (let l = (if p \<noteq> p' \<and> might_have_pending_waits impl
               then snd (reactor_cancel_timer p (timer_data impl) size_max l) else l);
          l = reactor_move_timer p' (timer_data impl) (timer_data other) l
      in (impl\<lparr>expiry := expiry other, might_have_pending_waits := might_have_pending_waits other\<rparr>,
          other\<lparr>expiry := 0, might_have_pending_waits := False\<rparr>, l))"

definition expires_from_now :: "int \<Rightarrow> timer_impl \<Rightarrow> int option" where
  "expires_from_now now impl = time_subtract (expiry impl) now"

definition set_expires_at :: "nat \<Rightarrow> int \<Rightarrow> timer_impl \<Rightarrow> loop \<Rightarrow> nat \<times> timer_impl \<times> loop" where
  "set_expires_at p expiry_time impl l =
     (let (count, impl, l) = timer_cancel_all p impl l in (count, impl\<lparr>expiry := expiry_time\<rparr>, l))"

definition set_expires_after :: "nat \<Rightarrow> int \<Rightarrow> int \<Rightarrow> timer_impl \<Rightarrow> loop \<Rightarrow> (nat \<times> timer_impl \<times> loop) option" where
  \<comment> \<open>with the time it is now; also \<open>expires_from_now\<close> with an argument\<close>
  "set_expires_after p now expiry_time impl l =
     map_option (\<lambda>t. set_expires_at p t impl l) (time_add now expiry_time)"

definition timer_async_wait :: "nat \<Rightarrow> wait_op \<Rightarrow> timer_impl \<Rightarrow> loop \<Rightarrow> (timer_impl \<times> loop) option" where
  "timer_async_wait p op impl l =
     (let impl = impl\<lparr>might_have_pending_waits := True\<rparr>
      in map_option (\<lambda>l. (impl, l)) (schedule_timer p (expiry impl) (timer_data impl) op l))"

definition wait_timeval :: "int \<Rightarrow> (int \<times> int) option" where
  \<comment> \<open>the \<open>timeval\<close> of \<open>do_wait\<close>, for a clock of nanoseconds; \<open>%\<close> written out\<close>
  "wait_timeval timeout =
     Option.bind (total_seconds 1 1000000000 timeout) (\<lambda>sec.
       map_option (\<lambda>usec. (sec, usec - cdiv usec 1000000 * 1000000)) (total_microseconds 1 1000000000 timeout))"

fun sock_select :: "'x answer list \<Rightarrow> (int \<times> errc option \<times> 'x answer list) option" where
  "sock_select [] = None"
| "sock_select (a # os) = (let (result, ec) = sys a in Some (result, ec, os))"

definition do_wait :: "int \<Rightarrow> 'x answer list \<Rightarrow> ((int \<times> int) \<times> errc option \<times> 'x answer list) option" where
  \<comment> \<open>with what is handed to \<open>select\<close>\<close>
  "do_wait timeout os =
     Option.bind (wait_timeval timeout) (\<lambda>tv. map_option (\<lambda>(result, ec, os). (tv, ec, os)) (sock_select os))"

fun blocking_wait :: "int \<Rightarrow> int list \<Rightarrow> 'x answer list \<Rightarrow> (errc option \<times> (int \<times> int) list) option" where
  \<comment> \<open>the readings of the clock, the answers of \<open>select\<close>; with the times it was given\<close>
  "blocking_wait deadline [] os = None"
| "blocking_wait deadline (now # nows) os =
     (if time_less_than now deadline then
        Option.bind (Option.bind (time_subtract deadline now) (\<lambda>d. do_wait d os)) (\<lambda>(tv, ec, os).
          if ec = None then map_option (\<lambda>(ec, tvs). (ec, tv # tvs)) (blocking_wait deadline nows os)
          else if nows = [] then None else Some (ec, [tv]))
      else Some (None, []))"

lemma wait_timeval_exact:
  \<comment> \<open>less than a microsecond short, and in the form \<open>select\<close> takes\<close>
  assumes "0 \<le> d" "d \<le> tick_max"
  shows "\<exists>sec usec. wait_timeval d = Some (sec, usec) \<and> 0 \<le> sec \<and> 0 \<le> usec \<and> usec < 1000000 \<and>
    sec * 1000000 + usec = d div 1000"
proof -
  have c: "cdiv x k = x div k" if "0 \<le> x" "0 < k" for x k :: int
    using that by (cases "x = 0") (simp_all add: cdiv_def)
  have "0 \<le> d div 1000" using assms by (simp add: pos_imp_zdiv_nonneg_iff)
  then have "wait_timeval d = Some (d div 1000000000, d div 1000 mod 1000000)"
    using assms unfolding wait_timeval_def nano_cast by (simp only: bind.bind_lunit option.map c minus_div_mult_eq_mod zero_less_numeral)
  moreover have "d div 1000000000 * 1000000 + d div 1000 mod 1000000 = d div 1000"
    using div_mult_mod_eq [of "d div 1000" 1000000] by (simp add: zdiv_zmult2_eq [symmetric])
  ultimately show ?thesis using assms by (auto simp: pos_imp_zdiv_nonneg_iff)
qed

lemma blocking_wait_waits:
  \<comment> \<open>it returns when the clock has reached the deadline, or with an error of \<open>select\<close>\<close>
  assumes "blocking_wait deadline nows os = Some (ec, tvs)"
  shows "ec = None \<longrightarrow> (\<exists>k < length nows. deadline \<le> nows ! k \<and> length tvs = k \<and> (\<forall>i < k. nows ! i < deadline))"
  using assms
proof (induction deadline nows os arbitrary: ec tvs rule: blocking_wait.induct)
  case (2 deadline now nows os)
  show ?case
  proof (cases "now < deadline")
    case True
    with "2.prems" obtain tv ec1 os1 where w: "Option.bind (time_subtract deadline now) (\<lambda>d. do_wait d os) = Some (tv, ec1, os1)"
      by (auto simp: time_less_than_def bind_eq_Some_conv)
    show ?thesis
    proof (cases "ec1 = None")
      case ec1: True
      with "2.prems" True w obtain tvs1 where r: "blocking_wait deadline nows os1 = Some (ec, tvs1)" "tvs = tv # tvs1"
        by (auto simp: time_less_than_def)
      have "ec = None \<longrightarrow> (\<exists>k < length nows. deadline \<le> nows ! k \<and> length tvs1 = k \<and> (\<forall>i < k. nows ! i < deadline))"
        using "2.IH" [of "(tv, ec1, os1)" tv "(ec1, os1)" ec1 os1] r(1) ec1 w True by (simp add: time_less_than_def)
      then show ?thesis using r(2) True
        by (auto simp: nth_Cons' less_Suc_eq_0_disj intro!: exI [of _ "Suc _"])
    qed (use "2.prems" True w in \<open>auto simp: time_less_than_def split: if_splits\<close>)
  qed (use "2.prems" in \<open>auto simp: time_less_than_def\<close>)
qed simp

section \<open>A program with timers\<close>

datatype timer_call =
    Expires_at timer int
  | Async_wait timer wait_op
  | Cancel_all timer
  | Cancel_one timer
  | Move_timer timer timer       \<comment> \<open>the target is constructed from the source\<close>
  | Expire                       \<comment> \<open>the reactor collects the timers that are ready\<close>

type_synonym timer_world = "(timer \<Rightarrow> timer_impl) \<times> loop"

text \<open>
  Operations are objects, so an operation is not started while it waits, and fewer than \<open>size_max\<close> wait.
\<close>

fun do_timer_call :: "nat \<Rightarrow> timer_call \<Rightarrow> timer_world \<Rightarrow> timer_world option" where
  "do_timer_call p (Expires_at t x) (impls, l) =
     (case set_expires_at p x (impls t) l of (n, impl, l) \<Rightarrow> Some (impls(t := impl), l))"
| "do_timer_call p (Async_wait t op) (impls, l) =
     (if op_id op \<in> op_id ` set (waiting (queue_at p (fst l)) t) \<or> size_max \<le> length (waiting (queue_at p (fst l)) t) then None
      else map_option (\<lambda>(impl, l). (impls(t := impl), l)) (timer_async_wait p op (impls t) l))"
| "do_timer_call p (Cancel_all t) (impls, l) =
     (case timer_cancel_all p (impls t) l of (n, impl, l) \<Rightarrow> Some (impls(t := impl), l))"
| "do_timer_call p (Cancel_one t) (impls, l) =
     (case timer_cancel_one p (impls t) l of (n, impl, l) \<Rightarrow> Some (impls(t := impl), l))"
| "do_timer_call p (Move_timer t u) (impls, l) =
     (if t = u \<or> waiting (queue_at p (fst l)) u = [] then None
      else case timer_move_construct p t (impls u) l of (impl, other, l) \<Rightarrow> Some (impls(t := impl, u := other), l))"
| "do_timer_call p Expire (impls, r, s) =
     map_option (\<lambda>(ops, r). (impls, r, post_deferred_completions ops s)) (ready_timers r)"

section \<open>The timer objects and the queue\<close>

definition synced :: "timer_impl \<Rightarrow> timer_queue \<Rightarrow> bool" where
  \<comment> \<open>what waits for a timer waits for its expiry, and cancelling would not skip it\<close>
  "synced impl q = (waiting q (timer_data impl) \<noteq> [] \<longrightarrow>
     might_have_pending_waits impl \<and> (expiry impl, timer_data impl) \<in> alarms q)"

definition queues_ok :: "nat \<Rightarrow> reactor \<Rightarrow> bool" where
  "queues_ok p r = (distinct (map fst (timer_queues r)) \<and> p \<in> fst ` set (timer_queues r) \<and>
     (\<forall>q \<in> snd ` set (timer_queues r). tq_ok q))"

definition timers_ok :: "nat \<Rightarrow> timer_world \<Rightarrow> bool" where
  "timers_ok p w = (queues_ok p (fst (snd w)) \<and>
     (\<forall>t. timer_data (fst w t) = t \<and> synced (fst w t) (queue_at p (fst (snd w))) \<and>
        length (waiting (queue_at p (fst (snd w))) t) \<le> size_max))"

lemma queues_known:
  assumes "queues_ok p r"
  shows "map_of (timer_queues r) p = Some (queue_at p r)" "tq_ok (queue_at p r)"
proof -
  obtain q where "map_of (timer_queues r) p = Some q"
    using assms by (metis map_of_eq_None_iff option.exhaust queues_ok_def)
  moreover from map_of_SomeD [OF this] have "tq_ok q" using assms by (force simp: queues_ok_def)
  ultimately show "map_of (timer_queues r) p = Some (queue_at p r)" "tq_ok (queue_at p r)"
    by (simp_all add: queue_at_def)
qed

lemma put_queue_at:
  assumes "queues_ok p r" "tq_ok q"
  shows "queue_at p (put_queue p q r) = q" "queues_ok p (put_queue p q r)"
proof -
  have "map_of (map (\<lambda>(p', q'). (p', if p' = p then q else q')) qs) p = map_option (\<lambda>_. q) (map_of qs p)" for qs
    by (induct qs) auto
  moreover obtain q0 where "map_of (timer_queues r) p = Some q0" using queues_known(1) [OF assms(1)] by simp
  ultimately show "queue_at p (put_queue p q r) = q" by (simp add: put_queue_def queue_at_def)
  have f: "map fst (timer_queues (put_queue p q r)) = map fst (timer_queues r)" by (auto simp: put_queue_def)
  then have "fst ` set (timer_queues (put_queue p q r)) = fst ` set (timer_queues r)" by (metis set_map)
  moreover have "\<forall>x \<in> snd ` set (timer_queues (put_queue p q r)). tq_ok x"
    using assms by (auto simp: put_queue_def queues_ok_def)
  ultimately show "queues_ok p (put_queue p q r)" using assms(1) f unfolding queues_ok_def by (simp only:)
qed

lemma same_queues:
  "timer_queues r' = timer_queues r \<Longrightarrow> queue_at p r' = queue_at p r \<and> (queues_ok p r' \<longleftrightarrow> queues_ok p r)"
  by (simp add: queue_at_def queues_ok_def)

lemma cancel_at:
  assumes "queues_ok p r" "reactor_cancel_timer p t mx (r, s) = (n, r', s')"
  shows "queues_ok p r'" "n = min mx (length (waiting (queue_at p r) t))"
    "waiting (queue_at p r') = (waiting (queue_at p r))(t := drop mx (waiting (queue_at p r) t))"
    "alarms (queue_at p r') = {e \<in> alarms (queue_at p r). snd e \<noteq> t \<or> mx < length (waiting (queue_at p r) t)}"
proof -
  obtain m ops q where c: "cancel_timer t [] mx (queue_at p r) = (m, ops, q)" by (cases "cancel_timer t [] mx (queue_at p r)") auto
  note spec = cancel_spec [OF queues_known(2) [OF assms(1)], where t = t and ops = "[]" and mx = mx, unfolded c, simplified]
  have r': "r' = put_queue p q r" "n = m" using assms(2) c by (simp_all add: reactor_cancel_timer_def)
  note put = put_queue_at [OF assms(1), of q]
  show "queues_ok p r'" "n = min mx (length (waiting (queue_at p r) t))"
    "waiting (queue_at p r') = (waiting (queue_at p r))(t := drop mx (waiting (queue_at p r) t))"
    "alarms (queue_at p r') = {e \<in> alarms (queue_at p r). snd e \<noteq> t \<or> mx < length (waiting (queue_at p r) t)}"
    unfolding r' using spec put by auto
qed

lemma schedule_at:
  assumes "queues_ok p r" "schedule_timer p d t op (r, s) = Some (r', s')" "op_id op \<notin> op_id ` set (waiting (queue_at p r) t)"
  shows "queues_ok p r' \<and> (if r_shutdown r then queue_at p r' = queue_at p r
    else waiting (queue_at p r') = (waiting (queue_at p r))(t := waiting (queue_at p r) t @ [op]) \<and>
      alarms (queue_at p r') = (if waiting (queue_at p r) t = [] then insert (d, t) (alarms (queue_at p r)) else alarms (queue_at p r)))"
proof (cases "r_shutdown r")
  case True
  then show ?thesis using assms(1,2) by (auto simp: schedule_timer_def)
next
  case False
  let ?q = "queue_at p r"
  obtain first q where e: "enqueue_timer d t op ?q = (first, q)" by (cases "enqueue_timer d t op ?q") auto
  have q: "tq_ok q \<and> waiting q = (waiting ?q)(t := waiting ?q t @ [op]) \<and>
      alarms q = (if waiting ?q t = [] then insert (d, t) (alarms ?q) else alarms ?q)"
    using enqueue_idle [OF queues_known(2) [OF assms(1)], of t d op] e
      enqueue_active [OF queues_known(2) [OF assms(1)] _ assms(3), of d]
    by (cases "waiting ?q t = []") simp_all
  have "timer_queues r' = timer_queues (put_queue p q r)"
    using assms(2) False e update_timeout_quiet [of "put_queue p q r"]
    by (auto simp: schedule_timer_def Let_def quiet_def split: if_splits)
  from same_queues [OF this, of p] put_queue_at [OF assms(1), of q] q show ?thesis using False by simp
qed

lemma move_at:
  assumes "queues_ok p r" "reactor_move_timer p t u (r, s) = (r', s')" "t \<noteq> u"
    and "waiting (queue_at p r) u \<noteq> []" "length (waiting (queue_at p r) t) \<le> size_max"
  shows "queues_ok p r'" "waiting (queue_at p r') = (waiting (queue_at p r))(t := waiting (queue_at p r) u, u := [])"
    "\<And>d. (d, u) \<in> alarms (queue_at p r) \<Longrightarrow> (d, t) \<in> alarms (queue_at p r')"
    "\<And>e. e \<in> alarms (queue_at p r) \<Longrightarrow> snd e \<noteq> t \<Longrightarrow> snd e \<noteq> u \<Longrightarrow> e \<in> alarms (queue_at p r')"
proof -
  let ?q = "queue_at p r"
  obtain m ops q where c: "cancel_timer t [] size_max ?q = (m, ops, q)" by (cases "cancel_timer t [] size_max ?q") auto
  note spec = cancel_spec [OF queues_known(2) [OF assms(1)], where t = t and ops = "[]" and mx = size_max, unfolded c, simplified]
  have r': "r' = put_queue p (move_timer t u q) r" using assms(2) c by (simp add: reactor_move_timer_def)
  have w: "waiting q u \<noteq> []" "waiting q t = []" using spec assms(3-5) by simp_all
  have "tq_ok q" using spec by simp
  note m = timer_move_and_clear [OF this w, of "[]"]
  note put = put_queue_at [OF assms(1), of "move_timer t u q"]
  show "queues_ok p r'" "waiting (queue_at p r') = (waiting ?q)(t := waiting ?q u, u := [])"
    unfolding r' using m put spec assms(3) by auto
  have a: "alarms (queue_at p r') = (\<lambda>e. (fst e, if snd e = u then t else snd e)) ` alarms q"
    unfolding r' using m put by simp
  have q: "e \<in> alarms ?q \<Longrightarrow> snd e \<noteq> t \<Longrightarrow> e \<in> alarms q" for e using spec by simp
  show "(d, u) \<in> alarms ?q \<Longrightarrow> (d, t) \<in> alarms (queue_at p r')" for d
    unfolding a using q [of "(d, u)"] assms(3) by force
  show "e \<in> alarms ?q \<Longrightarrow> snd e \<noteq> t \<Longrightarrow> snd e \<noteq> u \<Longrightarrow> e \<in> alarms (queue_at p r')" for e
    unfolding a using q [of e] by (cases e) force
qed

definition collected :: "int \<Rightarrow> timer_queue \<Rightarrow> timer_queue \<Rightarrow> bool" where
  \<comment> \<open>what was due by then is gone\<close>
  "collected now q q' = (tq_ok q' \<and> alarms q' = {e \<in> alarms q. now < fst e} \<and>
     (\<forall>u. waiting q' u = (if u \<in> snd ` {e \<in> alarms q. fst e \<le> now} then [] else waiting q u)))"

lemma get_ready_collects:
  assumes "tq_ok q" "get_ready_timers now ops q = Some (ops', q')"
  shows "collected now q q'"
proof -
  obtain es q1 where es: "get_ready_timers now ops q = Some (ops @ concat (map (\<lambda>e. map expired (waiting q (snd e))) es), q1)"
    "set es = {e \<in> alarms q. fst e \<le> now}" "tq_ok q1" "alarms q1 = {e \<in> alarms q. now < fst e}"
    "\<forall>u. waiting q1 u = (if u \<in> snd ` set es then [] else waiting q u)"
    using get_ready_spec [OF assms(1), of now ops] by blast
  then have "q' = q1" using assms(2) by simp
  then show ?thesis using es(3,4,5) unfolding es(2) by (simp add: collected_def)
qed

lemma tqs_get_ready_collects:
  assumes "tqs_get_ready now ops qs = Some (ops', qs')" "\<forall>q \<in> snd ` set qs. tq_ok q"
  shows "map fst qs' = map fst qs \<and> list_all2 (\<lambda>pq pq'. collected (now (fst pq)) (snd pq) (snd pq')) qs qs'"
  using assms
proof (induction now ops qs arbitrary: ops' qs' rule: tqs_get_ready.induct)
  case (2 now ops p q s)
  obtain ops1 q1 where 1: "get_ready_timers (now p) ops q = Some (ops1, q1)"
    using 2(2) by (cases "get_ready_timers (now p) ops q") auto
  obtain s1 where 2: "qs' = (p, q1) # s1" "tqs_get_ready now ops1 s = Some (ops', s1)"
    using 2(2) 1 by auto
  have "map fst s1 = map fst s \<and> list_all2 (\<lambda>pq pq'. collected (now (fst pq)) (snd pq) (snd pq')) s s1"
    using "2.IH" [OF 1 refl 2(2)] "2.prems"(2) by simp
  then show ?case using get_ready_collects [OF _ 1] "2.prems"(2) 2(1) by simp
qed simp

lemma collected_at:
  "list_all2 (\<lambda>pq pq'. collected (now (fst pq)) (snd pq) (snd pq')) qs qs' \<Longrightarrow> map fst qs' = map fst qs \<Longrightarrow>
   (\<forall>q \<in> snd ` set qs'. tq_ok q) \<and> (\<forall>q. map_of qs p = Some q \<longrightarrow> (\<exists>q'. map_of qs' p = Some q' \<and> collected (now p) q q'))"
  by (induction rule: list_all2_induct) (auto simp: collected_def)

lemma expire_at:
  assumes "queues_ok p r" "ready_timers r = Some (ops, r')"
  shows "queues_ok p r' \<and> (\<exists>now. collected now (queue_at p r) (queue_at p r'))"
proof -
  obtain now r1 where n: "read_clock r = (now, r1)" by force
  then have r1: "timer_queues r1 = timer_queues r" by (auto simp: read_clock_def)
  obtain ops1 qs where t: "tqs_get_ready now [] (timer_queues r) = Some (ops1, qs)"
    using assms(2) n r1 by (auto simp: ready_timers_def bind_eq_Some_conv)
  have "(if has_timer_fd r1 then set_timer (r1\<lparr>timer_queues := qs\<rparr>) else Some (r1\<lparr>timer_queues := qs\<rparr>)) = Some r'"
    using assms(2) n r1 t by (auto simp: ready_timers_def)
  then have q: "timer_queues r' = qs" using set_timer_quiet by (auto simp: quiet_def split: if_splits)
  have ok: "\<forall>q \<in> snd ` set (timer_queues r). tq_ok q" using assms(1) by (simp add: queues_ok_def)
  note c = tqs_get_ready_collects [OF t ok]
  note a = collected_at [OF conjunct2 [OF c] conjunct1 [OF c], of p]
  obtain q' where "map_of qs p = Some q'" "collected (now p) (queue_at p r) q'"
    using a queues_known(1) [OF assms(1)] by blast
  moreover have "fst ` set qs = fst ` set (timer_queues r)" using c by (metis set_map)
  ultimately show ?thesis using q assms(1) a c by (auto simp: queues_ok_def queue_at_def)
qed

section \<open>Every call keeps them in step\<close>

lemma timers_okI:
  assumes "queues_ok p r'" "\<And>t. timer_data (impls' t) = t"
    and "\<And>t. waiting (queue_at p r') t \<noteq> [] \<Longrightarrow> might_have_pending_waits (impls' t) \<and> (expiry (impls' t), t) \<in> alarms (queue_at p r')"
    and "\<And>t. length (waiting (queue_at p r') t) \<le> size_max"
  shows "timers_ok p (impls', r', s')"
  using assms by (simp add: timers_ok_def synced_def)

lemma timers_okD:
  assumes "timers_ok p (impls, r, s)"
  shows "queues_ok p r" "timer_data (impls t) = t" "length (waiting (queue_at p r) t) \<le> size_max"
    "waiting (queue_at p r) t \<noteq> [] \<Longrightarrow> might_have_pending_waits (impls t) \<and> (expiry (impls t), t) \<in> alarms (queue_at p r)"
proof -
  have a: "timer_data (impls t) = t \<and> synced (impls t) (queue_at p r) \<and> length (waiting (queue_at p r) t) \<le> size_max"
    and q: "queues_ok p r" using assms by (simp_all add: timers_ok_def)
  show "queues_ok p r" by (rule q)
  show "timer_data (impls t) = t" "length (waiting (queue_at p r) t) \<le> size_max" using a by simp_all
  show "waiting (queue_at p r) t \<noteq> [] \<Longrightarrow> might_have_pending_waits (impls t) \<and> (expiry (impls t), t) \<in> alarms (queue_at p r)"
    using a unfolding synced_def by metis
qed

lemma cancel_all_at:
  assumes "timers_ok p (impls, r, s)" "timer_cancel_all p (impls t) (r, s) = (n, impl, r', s')"
  shows "queues_ok p r'" "waiting (queue_at p r') = (waiting (queue_at p r))(t := [])"
    "alarms (queue_at p r') = {e \<in> alarms (queue_at p r). snd e \<noteq> t} \<or> waiting (queue_at p r) t = [] \<and> alarms (queue_at p r') = alarms (queue_at p r)"
    "timer_data impl = t" "expiry impl = expiry (impls t)" "r_shutdown r' = r_shutdown r"
proof -
  note ok = timers_okD(1) [OF assms(1)] timers_okD(2-4) [OF assms(1), where t = t]
  have "queues_ok p r' \<and> waiting (queue_at p r') = (waiting (queue_at p r))(t := []) \<and>
    (alarms (queue_at p r') = {e \<in> alarms (queue_at p r). snd e \<noteq> t} \<or> waiting (queue_at p r) t = [] \<and> alarms (queue_at p r') = alarms (queue_at p r)) \<and>
    timer_data impl = t \<and> expiry impl = expiry (impls t) \<and> r_shutdown r' = r_shutdown r"
  proof (cases "might_have_pending_waits (impls t)")
    case True
    obtain m r1 s1 where c: "reactor_cancel_timer p t size_max (r, s) = (m, r1, s1)"
      by (cases "reactor_cancel_timer p t size_max (r, s)") auto
    then have e: "r' = r1" "impl = (impls t)\<lparr>might_have_pending_waits := False\<rparr>"
      using assms(2) True ok(2) by (auto simp: timer_cancel_all_def)
    have "r_shutdown r1 = r_shutdown r" using c by (auto simp: reactor_cancel_timer_def put_queue_def split: prod.splits)
    then show ?thesis using cancel_at [OF ok(1) c] ok(2,3) unfolding e by simp
  next
    case False
    then have e: "r' = r" "impl = impls t" using assms(2) by (auto simp: timer_cancel_all_def)
    have "waiting (queue_at p r) t = []" using ok(4) False by blast
    then show ?thesis using ok unfolding e by auto
  qed
  then show "queues_ok p r'" "waiting (queue_at p r') = (waiting (queue_at p r))(t := [])"
    "alarms (queue_at p r') = {e \<in> alarms (queue_at p r). snd e \<noteq> t} \<or> waiting (queue_at p r) t = [] \<and> alarms (queue_at p r') = alarms (queue_at p r)"
    "timer_data impl = t" "expiry impl = expiry (impls t)" "r_shutdown r' = r_shutdown r" by blast+
qed

lemma cancelled_keeps:
  assumes ok: "timers_ok p (impls, r, s)" and k: "timer_cancel_all p (impls t) (r, s) = (n, impl, r', s')"
    and "timer_data impl' = timer_data impl"
  shows "timers_ok p (impls(t := impl'), r', s')"
proof (rule timers_okI)
  note e = cancel_all_at [OF ok k] and o1 = timers_okD(2-4) [OF ok]
  show "queues_ok p r'" by (rule e(1))
  show "timer_data ((impls(t := impl')) u) = u" for u using assms(3) e(4) o1(1) by simp
  show "length (waiting (queue_at p r') u) \<le> size_max" for u unfolding e(2) using o1(2) [of u] by simp
  fix u assume w: "waiting (queue_at p r') u \<noteq> []"
  then have u: "u \<noteq> t" "waiting (queue_at p r) u \<noteq> []" unfolding e(2) by (simp_all split: if_splits)
  then have "might_have_pending_waits (impls u)" "(expiry (impls u), u) \<in> alarms (queue_at p r)" using o1(3) by blast+
  then show "might_have_pending_waits ((impls(t := impl')) u) \<and> (expiry ((impls(t := impl')) u), u) \<in> alarms (queue_at p r')"
    using u(1) e(3) by fastforce
qed

lemma expires_at_keeps:
  assumes ok: "timers_ok p (impls, r, s)" and c: "do_timer_call p (Expires_at t x) (impls, r, s) = Some w"
  shows "timers_ok p w" "waiting (queue_at p (fst (snd w))) = (waiting (queue_at p r))(t := [])"
    "expiry (fst w t) = x" "r_shutdown (fst (snd w)) = r_shutdown r"
    "{e \<in> alarms (queue_at p (fst (snd w))). snd e \<noteq> t} = {e \<in> alarms (queue_at p r). snd e \<noteq> t}"
proof -
  obtain n impl r' s' where k: "timer_cancel_all p (impls t) (r, s) = (n, impl, r', s')"
    by (cases "timer_cancel_all p (impls t) (r, s)") auto
  then have w: "w = (impls(t := impl\<lparr>expiry := x\<rparr>), r', s')" using c by (auto simp: set_expires_at_def)
  note e = cancel_all_at [OF ok k] and o1 = timers_okD(2-4) [OF ok]
  show "waiting (queue_at p (fst (snd w))) = (waiting (queue_at p r))(t := [])"
    "expiry (fst w t) = x" "r_shutdown (fst (snd w)) = r_shutdown r" using e w by simp_all
  show a: "{e \<in> alarms (queue_at p (fst (snd w))). snd e \<noteq> t} = {e \<in> alarms (queue_at p r). snd e \<noteq> t}"
    using e(3) w by auto
  have "timers_ok p (impls(t := impl\<lparr>expiry := x\<rparr>), r', s')" by (rule cancelled_keeps [OF ok k]) simp
  then show "timers_ok p w" unfolding w .
qed

lemma async_wait_keeps:
  assumes ok: "timers_ok p (impls, r, s)" and c: "do_timer_call p (Async_wait t op) (impls, r, s) = Some w"
  shows "timers_ok p w" "\<not> r_shutdown r \<Longrightarrow> waiting (queue_at p (fst (snd w))) =
      (waiting (queue_at p r))(t := waiting (queue_at p r) t @ [op])"
    "\<not> r_shutdown r \<Longrightarrow> waiting (queue_at p r) t = [] \<Longrightarrow> alarms (queue_at p (fst (snd w))) =
      insert (expiry (impls t), t) (alarms (queue_at p r))"
proof -
  let ?q = "queue_at p r"
  note o1 = timers_okD(2-4) [OF ok]
  obtain r' s' where k: "schedule_timer p (expiry (impls t)) t op (r, s) = Some (r', s')"
    and w: "w = (impls(t := (impls t)\<lparr>might_have_pending_waits := True\<rparr>), r', s')"
    and new: "op_id op \<notin> op_id ` set (waiting ?q t)" "length (waiting ?q t) < size_max"
    using c o1(1) by (auto simp: timer_async_wait_def Let_def split: if_splits)
  note e = schedule_at [OF timers_okD(1) [OF ok] k new(1)]
  show "\<not> r_shutdown r \<Longrightarrow> waiting (queue_at p (fst (snd w))) = (waiting ?q)(t := waiting ?q t @ [op])"
    "\<not> r_shutdown r \<Longrightarrow> waiting ?q t = [] \<Longrightarrow> alarms (queue_at p (fst (snd w))) = insert (expiry (impls t), t) (alarms ?q)"
    using e w by simp_all
  have a: "might_have_pending_waits (fst w u) \<and> (expiry (fst w u), u) \<in> alarms (queue_at p r')"
    if "waiting (queue_at p r') u \<noteq> []" for u
    using o1(3) [of u] that e unfolding w by (cases "r_shutdown r"; cases "u = t"; cases "waiting ?q t = []") auto
  have "length (waiting (queue_at p r') u) \<le> size_max" for u
    using e o1(2) [of u] new(2) by (cases "r_shutdown r") auto
  then show "timers_ok p w" using a e o1(1) unfolding w by (intro timers_okI) auto
qed

lemma cancel_keeps:
  assumes ok: "timers_ok p (impls, r, s)"
  shows "do_timer_call p (Cancel_all t) (impls, r, s) = Some w \<Longrightarrow> timers_ok p w"
    "do_timer_call p (Cancel_one t) (impls, r, s) = Some w \<Longrightarrow> timers_ok p w"
proof -
  let ?q = "queue_at p r"
  note q = timers_okD(1) [OF ok] and o1 = timers_okD(2-4) [OF ok]
  show "timers_ok p w" if c: "do_timer_call p (Cancel_all t) (impls, r, s) = Some w"
  proof -
    obtain n impl r' s' where k: "timer_cancel_all p (impls t) (r, s) = (n, impl, r', s')"
      by (cases "timer_cancel_all p (impls t) (r, s)") auto
    then have w: "w = (impls(t := impl), r', s')" using c by auto
    have "timers_ok p (impls(t := impl), r', s')" by (rule cancelled_keeps [OF ok k refl])
    then show ?thesis unfolding w .
  qed
  show "timers_ok p w" if c: "do_timer_call p (Cancel_one t) (impls, r, s) = Some w"
  proof (cases "might_have_pending_waits (impls t)")
    case True
    obtain n r' s' where k: "reactor_cancel_timer p t 1 (r, s) = (n, r', s')"
      by (cases "reactor_cancel_timer p t 1 (r, s)") auto
    then have w: "w = (impls(t := if n = 0 then (impls t)\<lparr>might_have_pending_waits := False\<rparr> else impls t), r', s')"
      using c True o1(1) by (auto simp: timer_cancel_one_def)
    note e = cancel_at [OF q k]
    have flag: "\<not> length (waiting ?q t) \<le> Suc 0 \<Longrightarrow> 0 < n" using e(2) by simp
    have "might_have_pending_waits (impls u) \<and> (expiry (impls u), u) \<in> alarms (queue_at p r')"
      if "waiting (queue_at p r') u \<noteq> []" for u
    proof -
      have "waiting ?q u \<noteq> []" using that e(3) by (auto split: if_splits)
      moreover have "u = t \<Longrightarrow> 1 < length (waiting ?q t)" using that e(3) by (cases "waiting ?q t") auto
      ultimately show ?thesis using o1(3) [of u] e(4) by auto
    qed
    moreover have "length (waiting (queue_at p r') u) \<le> size_max" for u using o1(2) [of u] e(3) by auto
    ultimately show ?thesis unfolding w using e(1,3) o1(1) flag by (intro timers_okI) (auto split: if_splits)
  next
    case False
    then have "w = (impls(t := impls t), r, s)" using c by (auto simp: timer_cancel_one_def)
    then show ?thesis using ok by simp
  qed
qed

lemma move_keeps:
  assumes ok: "timers_ok p (impls, r, s)" and c: "do_timer_call p (Move_timer t u) (impls, r, s) = Some w"
  shows "timers_ok p w"
proof -
  let ?q = "queue_at p r"
  note o1 = timers_okD(2-4) [OF ok]
  obtain r' s' where k: "reactor_move_timer p t u (r, s) = (r', s')" "t \<noteq> u" "waiting ?q u \<noteq> []"
    and w: "w = (impls(t := \<lparr>expiry = expiry (impls u), might_have_pending_waits = might_have_pending_waits (impls u), timer_data = t\<rparr>,
        u := (impls u)\<lparr>expiry := 0, might_have_pending_waits := False\<rparr>), r', s')"
    using c o1(1) by (cases "reactor_move_timer p t u (r, s)") (auto simp: timer_move_construct_def Let_def split: if_splits)
  note m = move_at [OF timers_okD(1) [OF ok] k o1(2)]
  have s: "might_have_pending_waits (impls u) \<and> (expiry (impls u), u) \<in> alarms ?q" by (rule o1(3) [OF k(3)])
  show ?thesis unfolding w
  proof (rule timers_okI)
    show "queues_ok p r'" by (rule m(1))
    fix v
    show "timer_data ((impls(t := \<lparr>expiry = expiry (impls u), might_have_pending_waits = might_have_pending_waits (impls u), timer_data = t\<rparr>,
        u := (impls u)\<lparr>expiry := 0, might_have_pending_waits := False\<rparr>)) v) = v" using o1(1) by simp
    show "length (waiting (queue_at p r') v) \<le> size_max" unfolding m(2) using o1(2) by simp
    assume v: "waiting (queue_at p r') v \<noteq> []"
    then have "v \<noteq> u" unfolding m(2) by auto
    moreover have "v = t \<Longrightarrow> (expiry (impls u), t) \<in> alarms (queue_at p r')" using m(3) s by blast
    moreover have "might_have_pending_waits (impls v) \<and> (expiry (impls v), v) \<in> alarms (queue_at p r')" if "v \<noteq> t"
    proof -
      have "waiting ?q v \<noteq> []" using v that \<open>v \<noteq> u\<close> unfolding m(2) by simp
      then have "might_have_pending_waits (impls v)" "(expiry (impls v), v) \<in> alarms ?q" using o1(3) by blast+
      then show ?thesis using m(4) [of "(expiry (impls v), v)"] that \<open>v \<noteq> u\<close> by simp
    qed
    ultimately show "might_have_pending_waits ((impls(t := \<lparr>expiry = expiry (impls u),
          might_have_pending_waits = might_have_pending_waits (impls u), timer_data = t\<rparr>,
        u := (impls u)\<lparr>expiry := 0, might_have_pending_waits := False\<rparr>)) v) \<and>
      (expiry ((impls(t := \<lparr>expiry = expiry (impls u), might_have_pending_waits = might_have_pending_waits (impls u), timer_data = t\<rparr>,
        u := (impls u)\<lparr>expiry := 0, might_have_pending_waits := False\<rparr>)) v), v) \<in> alarms (queue_at p r')"
      using s by simp
  qed
qed

lemma expire_keeps:
  assumes ok: "timers_ok p (impls, r, s)" and c: "do_timer_call p Expire (impls, r, s) = Some w"
  shows "timers_ok p w"
proof -
  obtain ops r' where k: "ready_timers r = Some (ops, r')" and w: "w = (impls, r', post_deferred_completions ops s)" using c by auto
  obtain now where e: "queues_ok p r'" "collected now (queue_at p r) (queue_at p r')"
    using expire_at [OF timers_okD(1) [OF ok] k] by blast
  note o1 = timers_okD(2-4) [OF ok]
  show ?thesis unfolding w
  proof (rule timers_okI)
    show "queues_ok p r'" "timer_data (impls t) = t" for t by (rule e(1), rule o1(1))
    fix t
    show "length (waiting (queue_at p r') t) \<le> size_max" using e(2) o1(2) [of t] by (auto simp: collected_def)
    assume "waiting (queue_at p r') t \<noteq> []"
    then have "waiting (queue_at p r) t \<noteq> []" and not_due: "t \<notin> snd ` {e \<in> alarms (queue_at p r). fst e \<le> now}"
      using e(2) by (auto simp: collected_def split: if_splits)
    then have a: "might_have_pending_waits (impls t)" "(expiry (impls t), t) \<in> alarms (queue_at p r)" using o1(3) by blast+
    have "now < expiry (impls t)"
    proof (rule ccontr)
      assume "\<not> now < expiry (impls t)"
      then have "(expiry (impls t), t) \<in> {e \<in> alarms (queue_at p r). fst e \<le> now}" using a(2) by simp
      then show False using not_due by force
    qed
    then show "might_have_pending_waits (impls t) \<and> (expiry (impls t), t) \<in> alarms (queue_at p r')"
      using a e(2) by (simp add: collected_def)
  qed
qed

lemma timer_call_keeps:
  "timers_ok p w \<Longrightarrow> do_timer_call p c w = Some w' \<Longrightarrow> timers_ok p w'"
  using expires_at_keeps(1) async_wait_keeps(1) cancel_keeps move_keeps expire_keeps
  by (cases w; cases c) metis+

fun do_timer_calls :: "nat \<Rightarrow> timer_call list \<Rightarrow> timer_world \<Rightarrow> timer_world option" where
  "do_timer_calls p [] w = Some w"
| "do_timer_calls p (c # cs) w = Option.bind (do_timer_call p c w) (do_timer_calls p cs)"

lemma timer_calls_keep:
  "timers_ok p w \<Longrightarrow> do_timer_calls p cs w = Some w' \<Longrightarrow> timers_ok p w'"
proof (induction cs arbitrary: w)
  case (Cons c cs)
  obtain w1 where w1: "do_timer_call p c w = Some w1" "do_timer_calls p cs w1 = Some w'"
    using Cons.prems(2) by (cases "do_timer_call p c w") auto
  show ?case by (rule Cons.IH [OF timer_call_keeps [OF Cons.prems(1) w1(1)] w1(2)])
qed simp

definition timers_init :: "nat \<Rightarrow> u32 \<Rightarrow> reactor \<Rightarrow> timer_world" where
  "timers_init p hint env = (construct_timer, timer_service_init p (reactor_init env, scheduler_init hint))"

lemma timers_init_ok: "timers_ok p (timers_init p hint env)"
proof -
  have "timer_queues (fst (timer_service_init p (reactor_init env, scheduler_init hint :: oper scheduler))) = [(p, tq_init)]"
    by (simp add: timer_service_init_def reactor_init_def arm_descriptors_def epoll_ctl_def do_add_timer_queue_def tqs_insert_def Let_def)
  then show ?thesis
    using tq_init_ok init_parts(2)
    by (simp add: timers_init_def timers_ok_def queues_ok_def queue_at_def synced_def construct_timer_def)
qed

lemma idle_no_alarm:
  assumes "tq_ok q" "waiting q t = []"
  shows "(d, t) \<notin> alarms q"
proof -
  obtain act where "tq_inv q act" using assms(1) unfolding tq_ok_def by blast
  then have "snd ` alarms q = set act" "t \<notin> set act" using assms(2) by (auto simp: tq_inv_def tq_heap_def)
  then show ?thesis by force
qed

lemma rearmed:
  assumes ok: "timers_ok p (impls, r, s)" and run: "\<not> r_shutdown r"
    and c: "do_timer_calls p [Expires_at t x, Async_wait t op] (impls, r, s) = Some w"
  shows "waiting (queue_at p (fst (snd w))) = (waiting (queue_at p r))(t := [op]) \<and>
    alarms (queue_at p (fst (snd w))) = insert (x, t) {e \<in> alarms (queue_at p r). snd e \<noteq> t}"
proof -
  obtain impls1 r1 s1 where e: "do_timer_call p (Expires_at t x) (impls, r, s) = Some (impls1, r1, s1)"
    and a: "do_timer_call p (Async_wait t op) (impls1, r1, s1) = Some w"
    using c by (auto simp: bind_eq_Some_conv simp del: do_timer_call.simps split: prod.splits)
  note k = expires_at_keeps [OF ok e, simplified]
  note w = async_wait_keeps(2,3) [OF k(1) a]
  have idle: "waiting (queue_at p r1) t = []" using k(2) by simp
  have "{e \<in> alarms (queue_at p r1). snd e \<noteq> t} = alarms (queue_at p r1)"
    using idle_no_alarm [OF queues_known(2) [OF timers_okD(1) [OF k(1)]] idle] by auto
  then show ?thesis using w k idle run by simp
qed

text \<open>
  C13. Timer objects and their queue stay in step. After any calls, the operations that wait for a timer wait for
  the expiry its object has, and the flag that lets cancelling be skipped is set; and setting a new
  expiry and waiting again leaves exactly the new operation waiting, for the new expiry, with no other timer touched.
\<close>

theorem timer_objects_in_step:
  assumes "do_timer_calls p cs (timers_init p hint env) = Some (impls, r, s)"
  shows "(waiting (queue_at p r) t \<noteq> [] \<longrightarrow> might_have_pending_waits (impls t) \<and> (expiry (impls t), t) \<in> alarms (queue_at p r)) \<and>
    (\<not> r_shutdown r \<and> do_timer_calls p [Expires_at t x, Async_wait t op] (impls, r, s) = Some w \<longrightarrow>
      waiting (queue_at p (fst (snd w))) = (waiting (queue_at p r))(t := [op]) \<and>
      alarms (queue_at p (fst (snd w))) = insert (x, t) {e \<in> alarms (queue_at p r). snd e \<noteq> t})"
proof -
  have ok: "timers_ok p (impls, r, s)" by (rule timer_calls_keep [OF timers_init_ok assms])
  show ?thesis using timers_okD(4) [OF ok] rearmed [OF ok] by blast
qed

theorem timer_objects_in_step_witness:
  "\<exists>w. do_timer_calls 0 [Expires_at 7 100, Async_wait 7 one_op] (timers_init 0 1 (sample_env\<lparr>has_timer_fd := False\<rparr>)) = Some w \<and>
     waiting (queue_at 0 (fst (snd w))) 7 = [one_op] \<and> alarms (queue_at 0 (fst (snd w))) = {(100, 7)}"
proof -
  let ?env = "sample_env\<lparr>has_timer_fd := False\<rparr>"
  obtain impls r s where i: "timers_init 0 1 ?env = (impls, r, s)" by (cases "timers_init 0 1 ?env") auto
  then have r: "timer_queues r = [(0, tq_init)]" "\<not> r_shutdown r" "\<not> has_timer_fd r" "impls = construct_timer"
    by (auto simp: timers_init_def timer_service_init_def reactor_init_def arm_descriptors_def epoll_ctl_def
        do_add_timer_queue_def tqs_insert_def sample_env_def Let_def)
  then have q: "queue_at 0 r = tq_init" by (simp add: queue_at_def)
  have "\<exists>w. do_timer_calls 0 [Expires_at 7 100, Async_wait 7 one_op] (impls, r, s) = Some w"
    using r q init_parts(2)
    by (cases "enqueue_timer 100 7 one_op tq_init")
      (auto simp: set_expires_at_def timer_cancel_all_def construct_timer_def timer_async_wait_def schedule_timer_def
        update_timeout_def put_queue_def size_max_def Let_def)
  then obtain w where w: "do_timer_calls 0 [Expires_at 7 100, Async_wait 7 one_op] (impls, r, s) = Some w" by blast
  have "do_timer_calls 0 [] (timers_init 0 1 ?env) = Some (impls, r, s)" using i by simp
  from timer_objects_in_step [OF this, of 7 100 one_op w] show ?thesis
    using w r(2) q init_parts i by auto
qed

end
