(* ===== verification/Asio_Transfer_Spec.thy ===== *)
theory Asio_Transfer_Spec
  imports Asio_Transfer
begin

text \<open>
  What the loops of \<open>Asio_Transfer\<close> achieve. The locale \<open>socket_call\<close> is the contract a call keeps with
  its loop: a failure gives a negative result, the error and a fixed output; a success gives the count and what was
  written. Every call of the code is an interpretation of it.
\<close>

section \<open>The contract of a call\<close>

definition valid_answer :: "'x answer \<Rightarrow> bool" where
  \<comment> \<open>the system returns -1 with an error, or a result that is not negative\<close>
  "valid_answer a = (case a of Inl _ \<Rightarrow> True | Inr (n, _) \<Rightarrow> n \<ge> 0)"

definition count_of :: "'x answer \<Rightarrow> int" where
  \<comment> \<open>the bytes a finished operation reports\<close>
  "count_of a = (case a of Inl _ \<Rightarrow> 0 | Inr (n, _) \<Rightarrow> n)"

definition at_end :: "bool \<Rightarrow> 'x answer \<Rightarrow> bool" where
  \<comment> \<open>nothing received on a stream is its end\<close>
  "at_end is_stream a = (case a of Inl _ \<Rightarrow> False | Inr (n, _) \<Rightarrow> is_stream \<and> n = 0)"

definition error_of :: "bool \<Rightarrow> 'x answer \<Rightarrow> errc option" where
  "error_of is_stream a = (case a of Inl e \<Rightarrow> Some e | Inr _ \<Rightarrow> if at_end is_stream a then Some eof else None)"

definition blocks :: "'x answer \<Rightarrow> bool" where
  "blocks a = (case a of Inl e \<Rightarrow> would_wait (Some e) | Inr _ \<Rightarrow> False)"

definition rounds :: "(errc \<times> int \<times> 'x) list \<Rightarrow> 'x answer list" where
  \<comment> \<open>the answers of rounds of a call that would block and a \<open>poll\<close> that succeeds\<close>
  "rounds ws = concat (map (\<lambda>(e, p). [Inl e, Inr p]) ws)"

definition all_waiting :: "(errc \<times> int \<times> 'x) list \<Rightarrow> bool" where
  "all_waiting ws = (\<forall>(e, n, x) \<in> set ws. would_wait (Some e) \<and> n \<ge> 0)"

lemma rounds_simps [simp]:
  "rounds [] = []" "rounds ((e, p) # ws) = Inl e # Inr p # rounds ws"
  by (simp_all add: rounds_def)

lemma all_waiting_simps [simp]:
  "all_waiting []" "all_waiting ((e, n, x) # ws) = (would_wait (Some e) \<and> n \<ge> 0 \<and> all_waiting ws)"
  by (auto simp: all_waiting_def)

lemma sys_simps [simp]: "sys (Inl e) = (-1, Some e)" "sys (Inr (n, x)) = (n, None)"
  by (simp_all add: sys_def get_last_error_def)

lemma poll_read_valid [simp]:
  "s \<noteq> invalid_socket \<Longrightarrow> poll_read s 0 (Inl e # os) = Some (-1, Some e, os)"
  "s \<noteq> invalid_socket \<Longrightarrow> poll_read s 0 (Inr (n, x) # os) = Some (n, None, os)"
  by (simp_all add: poll_read_def poll_with_def has_def)

lemma poll_write_valid [simp]:
  "s \<noteq> invalid_socket \<Longrightarrow> poll_write s 0 (Inl e # os) = Some (-1, Some e, os)"
  "s \<noteq> invalid_socket \<Longrightarrow> poll_write s 0 (Inr (n, x) # os) = Some (n, None, os)"
  by (simp_all add: poll_write_def poll_with_def has_def)

definition output_of :: "'o \<Rightarrow> ('x \<Rightarrow> 'o) \<Rightarrow> 'x answer \<Rightarrow> 'o" where
  "output_of failed got a = (case a of Inl _ \<Rightarrow> failed | Inr (_, x) \<Rightarrow> got x)"

lemma output_is_written [simp]: "output_of None Some a = written a"
  by (simp add: output_of_def written_def split: sum.split)

locale socket_call =
  fixes call :: "'x answer \<Rightarrow> int \<times> errc option \<times> 'o"
    and failed :: 'o
    and got :: "'x \<Rightarrow> 'o"
  assumes call_error: "call (Inl e) = (-1, Some e, failed)"
    and call_success: "n \<ge> 0 \<Longrightarrow> call (Inr (n, x)) = (n, None, got x)"
begin

lemma stream_interrupts:
  "non_blocking_stream call is_stream bt (replicate k (Inl interrupted) @ os) = non_blocking_stream call is_stream bt os"
  by (induction k) (simp_all add: call_error)

lemma transfer_interrupts:
  "non_blocking_transfer call bt (replicate k (Inl interrupted) @ os) = non_blocking_transfer call bt os"
  by (induction k) (simp_all add: call_error)

lemma stream_settles:
  assumes "valid_answer a" "a \<noteq> Inl interrupted"
  shows "non_blocking_stream call is_stream bt (replicate k (Inl interrupted) @ a # os) =
    Some (\<not> blocks a, error_of is_stream a,
      if blocks a \<or> at_end is_stream a then bt else count_of a, output_of failed got a, os)"
  using assms
  by (cases a) (auto simp: stream_interrupts call_error call_success valid_answer_def blocks_def error_of_def at_end_def
      count_of_def output_of_def would_wait_def)

lemma transfer_settles:
  assumes "valid_answer a" "a \<noteq> Inl interrupted"
  shows "non_blocking_transfer call bt (replicate k (Inl interrupted) @ a # os) =
    Some (\<not> blocks a, error_of False a, if blocks a then bt else count_of a, output_of failed got a, os)"
  using assms
  by (cases a) (auto simp: transfer_interrupts call_error call_success valid_answer_def blocks_def error_of_def at_end_def
      count_of_def output_of_def)

lemma recv_loop_rounds:
  assumes "s \<noteq> invalid_socket" "\<not> has state user_set_non_blocking" "all_waiting ws"
  shows "sync_recv_loop call s state (rounds ws @ os) = sync_recv_loop call s state os"
  using assms(3) by (induction ws) (auto simp: call_error assms)

lemma recvfrom_loop_rounds:
  assumes "s \<noteq> invalid_socket" "\<not> has state user_set_non_blocking" "all_waiting ws"
  shows "sync_recvfrom_loop call s state (rounds ws @ os) = sync_recvfrom_loop call s state os"
  using assms(3) by (induction ws) (auto simp: call_error assms)

lemma send_loop_rounds:
  assumes "s \<noteq> invalid_socket" "\<not> has state user_set_non_blocking" "all_waiting ws"
  shows "sync_send_loop call s state (rounds ws @ os) = sync_send_loop call s state os"
  using assms(3) by (induction ws) (auto simp: call_error assms)

lemma recv_loop_ends:
  assumes "valid_answer a" "blocks a \<longrightarrow> has state user_set_non_blocking"
  shows "sync_recv_loop call s state (a # os) =
    Some (count_of a, error_of (has state stream_oriented) a, output_of failed got a, os)"
  using assms by (cases a) (auto simp: call_error call_success valid_answer_def blocks_def error_of_def at_end_def
      count_of_def output_of_def)

lemma recvfrom_loop_ends:
  assumes "valid_answer a" "blocks a \<longrightarrow> has state user_set_non_blocking"
  shows "sync_recvfrom_loop call s state (a # os) = Some (count_of a, error_of False a, output_of failed got a, os)"
  using assms by (cases a) (auto simp: call_error call_success valid_answer_def blocks_def error_of_def at_end_def
      count_of_def output_of_def)

lemma send_loop_ends:
  assumes "valid_answer a" "blocks a \<longrightarrow> has state user_set_non_blocking"
  shows "sync_send_loop call s state (a # os) = Some (count_of a, error_of False a, output_of failed got a, os)"
  using assms by (cases a) (auto simp: call_error call_success valid_answer_def blocks_def error_of_def at_end_def
      count_of_def output_of_def)

lemmas loop_rounds = recv_loop_rounds recvfrom_loop_rounds send_loop_rounds
lemmas loop_ends = recv_loop_ends recvfrom_loop_ends send_loop_ends

lemma loops_wait:
  assumes "s \<noteq> invalid_socket" "valid_answer a" "all_waiting ws"
    and "if has state user_set_non_blocking then ws = [] else \<not> blocks a"
  shows "sync_recv_loop call s state (rounds ws @ a # os) =
      Some (count_of a, error_of (has state stream_oriented) a, output_of failed got a, os)"
    and "sync_recvfrom_loop call s state (rounds ws @ a # os) =
      Some (count_of a, error_of False a, output_of failed got a, os)"
    and "sync_send_loop call s state (rounds ws @ a # os) =
      Some (count_of a, error_of False a, output_of failed got a, os)"
  using assms by (cases "has state user_set_non_blocking"; simp add: loop_rounds loop_ends del: sync_recv_loop.simps
      sync_recvfrom_loop.simps sync_send_loop.simps)+

lemma loops_poll_fails:
  assumes "s \<noteq> invalid_socket" "\<not> has state user_set_non_blocking" "all_waiting ws" "would_wait (Some e)"
  shows "sync_recv_loop call s state (rounds ws @ Inl e # Inl e' # os) = Some (0, Some e', failed, os)"
    and "sync_recvfrom_loop call s state (rounds ws @ Inl e # Inl e' # os) = Some (0, Some e', failed, os)"
    and "sync_send_loop call s state (rounds ws @ Inl e # Inl e' # os) = Some (0, Some e', failed, os)"
  using assms by (simp_all add: loop_rounds call_error)

end

lemmas call_defs = sock_recv_def sock_recv1_def sock_recvfrom_def sock_recvfrom1_def sock_send_def sock_send1_def sock_sendto_def sock_sendto1_def

interpretation recv: socket_call sock_recv None Some
  by unfold_locales (simp_all add: call_defs io_call_def written_def)

interpretation recv1: socket_call sock_recv1 None Some
  by unfold_locales (simp_all add: call_defs io_call_def written_def)

interpretation recvfrom: socket_call sock_recvfrom None Some
  by unfold_locales (simp_all add: call_defs io_call_def written_def)

interpretation recvfrom1: socket_call sock_recvfrom1 None Some
  by unfold_locales (simp_all add: call_defs io_call_def written_def)

interpretation send: socket_call sock_send None Some
  by unfold_locales (simp_all add: call_defs io_call_def written_def)

interpretation send1: socket_call sock_send1 None Some
  by unfold_locales (simp_all add: call_defs io_call_def written_def)

interpretation sendto: socket_call sock_sendto None Some
  by unfold_locales (simp_all add: call_defs io_call_def written_def)

interpretation sendto1: socket_call sock_sendto1 None Some
  by unfold_locales (simp_all add: call_defs io_call_def written_def)

interpretation recvmsg: socket_call sock_recvmsg "(0, None)" "\<lambda>(msg_flags, x). (msg_flags, Some x)"
  by unfold_locales (auto simp: sock_recvmsg_def io_call_def written_def)

lemmas calls_wait = recv.loops_wait recv1.loops_wait recvfrom.loops_wait recvfrom1.loops_wait send.loops_wait send1.loops_wait sendto.loops_wait sendto1.loops_wait
lemmas calls_poll_fails = recv.loops_poll_fails recv1.loops_poll_fails recvfrom.loops_poll_fails recvfrom1.loops_poll_fails send.loops_poll_fails send1.loops_poll_fails sendto.loops_poll_fails sendto1.loops_poll_fails
lemmas sync_defs = sync_recv_def sync_recv1_def sync_recvfrom_def sync_recvfrom1_def sync_send_def sync_send1_def sync_sendto_def sync_sendto1_def

declare sync_recv_loop.simps [simp del] sync_recvfrom_loop.simps [simp del] sync_send_loop.simps [simp del]

section \<open>Accepting\<close>

lemma accept_answers [simp]:
  "s \<noteq> invalid_socket \<Longrightarrow> sock_accept s (Inl e # os) = Some (invalid_socket, Some e, None, os)"
  "s \<noteq> invalid_socket \<Longrightarrow> n \<ge> 0 \<Longrightarrow> sock_accept s (Inr (n, x) # os) = Some (n, None, Some x, os)"
  by (auto simp: sock_accept.simps invalid_socket_def written_def)

definition accept_retries :: "state_type \<Rightarrow> errc \<Rightarrow> bool" where
  \<comment> \<open>the errors after which a synchronous accept waits for the next connection\<close>
  "accept_retries state e =
     (would_wait (Some e) \<and> \<not> has state user_set_non_blocking
      \<or> (e = connection_aborted \<or> e = protocol_failure) \<and> \<not> has state enable_connection_aborted)"

definition accept_waiting :: "state_type \<Rightarrow> (errc \<times> int \<times> 'x) list \<Rightarrow> bool" where
  "accept_waiting state ws = (\<forall>(e, n, x) \<in> set ws. accept_retries state e \<and> n \<ge> 0)"

lemma accept_waiting_simps [simp]:
  "accept_waiting state []"
  "accept_waiting state ((e, n, x) # ws) = (accept_retries state e \<and> n \<ge> 0 \<and> accept_waiting state ws)"
  by (auto simp: accept_waiting_def)

lemma sync_accept_round:
  assumes "s \<noteq> invalid_socket" "accept_retries state e" "n \<ge> 0"
  shows "sync_accept s state (Inl e # Inr (n, x) # os) = sync_accept s state os"
  using assms by (subst sync_accept.simps) (auto simp: accept_retries_def would_wait_def invalid_socket_def)

lemma sync_accept_rounds:
  assumes "s \<noteq> invalid_socket" "accept_waiting state ws"
  shows "sync_accept s state (rounds ws @ os) = sync_accept s state os"
  using assms(2) by (induction ws) (auto simp: sync_accept_round assms(1))

lemma sync_accept_ends:
  assumes "s \<noteq> invalid_socket" "valid_answer a" "\<forall>e. a = Inl e \<longrightarrow> \<not> accept_retries state e"
  shows "sync_accept s state (a # os) =
    Some (case a of Inl _ \<Rightarrow> invalid_socket | Inr (n, _) \<Rightarrow> n, error_of False a, written a, os)"
  using assms
  by (subst sync_accept.simps, cases a)
    (auto simp: accept_retries_def invalid_socket_def valid_answer_def error_of_def at_end_def written_def)

lemma accept_retries_blocked:
  "would_wait (Some e) \<Longrightarrow> \<not> has state user_set_non_blocking \<Longrightarrow> accept_retries state e"
  by (simp add: accept_retries_def)

lemma sync_accept_poll_fails:
  assumes "s \<noteq> invalid_socket" "accept_retries state e"
  shows "sync_accept s state (Inl e # Inl e' # os) = Some (invalid_socket, Some e', None, os)"
  using assms by (subst sync_accept.simps) (auto simp: accept_retries_def would_wait_def invalid_socket_def)

lemma non_blocking_accept_interrupt:
  "s \<noteq> invalid_socket \<Longrightarrow> non_blocking_accept s state (Inl interrupted # os) = non_blocking_accept s state os"
  by (subst non_blocking_accept.simps) simp

lemma non_blocking_accept_interrupts:
  "s \<noteq> invalid_socket \<Longrightarrow>
    non_blocking_accept s state (replicate k (Inl interrupted) @ os) = non_blocking_accept s state os"
  by (induction k) (simp_all add: non_blocking_accept_interrupt)

definition accept_pending :: "state_type \<Rightarrow> 'x answer \<Rightarrow> bool" where
  \<comment> \<open>the answers after which the reactor keeps the accept operation\<close>
  "accept_pending state a = (case a of Inr _ \<Rightarrow> False
     | Inl e \<Rightarrow> would_wait (Some e)
         \<or> (e = connection_aborted \<or> e = protocol_failure) \<and> \<not> has state enable_connection_aborted)"

lemma non_blocking_accept_settles:
  assumes "s \<noteq> invalid_socket" "valid_answer a" "a \<noteq> Inl interrupted"
  shows "non_blocking_accept s state (replicate k (Inl interrupted) @ a # os) =
    Some (\<not> accept_pending state a, error_of False a,
      case a of Inl _ \<Rightarrow> invalid_socket | Inr (n, _) \<Rightarrow> n, written a, os)"
  unfolding non_blocking_accept_interrupts[OF assms(1)]
  using assms
  by (subst non_blocking_accept.simps, cases a)
    (auto simp: accept_pending_def invalid_socket_def valid_answer_def error_of_def at_end_def written_def would_wait_def)

section \<open>The properties\<close>

text \<open>
  C36. The loops of the reactor never report a call that a signal interrupted: after any number of \<open>EINTR\<close>
  answers the outcome is the one of the first other answer. A call that would block keeps the operation pending
  and leaves \<open>bytes_transferred\<close> alone; any other error completes it with no bytes; nothing received on a stream
  completes it with \<open>eof\<close>; a success completes it with its count and what it wrote. An accept also stays pending
  on an aborted connection unless the user asked to see those.
\<close>
theorem reactor_calls_settle:
  assumes "valid_answer a" "a \<noteq> Inl interrupted" "valid_answer m" "m \<noteq> Inl interrupted" "s \<noteq> invalid_socket"
  shows "non_blocking_recv is_stream bt (replicate k (Inl interrupted) @ a # os) =
      Some (\<not> blocks a, error_of is_stream a, if blocks a \<or> at_end is_stream a then bt else count_of a, written a, os)
    \<and> non_blocking_recv1 is_stream bt (replicate k (Inl interrupted) @ a # os) =
      Some (\<not> blocks a, error_of is_stream a, if blocks a \<or> at_end is_stream a then bt else count_of a, written a, os)
    \<and> (\<forall>op \<in> {non_blocking_recvfrom, non_blocking_recvfrom1, non_blocking_send, non_blocking_send1,
              non_blocking_sendto, non_blocking_sendto1}.
         op bt (replicate k (Inl interrupted) @ a # os) =
           Some (\<not> blocks a, error_of False a, if blocks a then bt else count_of a, written a, os))
    \<and> non_blocking_recvmsg bt (replicate k (Inl interrupted) @ m # ms) =
      Some (\<not> blocks m, error_of False m, if blocks m then bt else count_of m,
            case m of Inl _ \<Rightarrow> (0, None) | Inr (_, msg_flags, x) \<Rightarrow> (msg_flags, Some x), ms)
    \<and> non_blocking_accept s state (replicate k (Inl interrupted) @ a # os) =
      Some (\<not> accept_pending state a, error_of False a,
            case a of Inl _ \<Rightarrow> invalid_socket | Inr (n, _) \<Rightarrow> n, written a, os)"
  using assms
  by (simp add: non_blocking_recv_def non_blocking_recv1_def recv.stream_settles recv1.stream_settles
      non_blocking_recvfrom_def non_blocking_recvfrom1_def non_blocking_send_def non_blocking_send1_def
      non_blocking_sendto_def non_blocking_sendto1_def non_blocking_recvmsg_def
      recvfrom.transfer_settles recvfrom1.transfer_settles send.transfer_settles send1.transfer_settles
      sendto.transfer_settles sendto1.transfer_settles recvmsg.transfer_settles non_blocking_accept_settles)
    (simp add: output_of_def split: sum.split)

theorem reactor_calls_settle_witness:
  "non_blocking_recv True 7 (replicate 2 (Inl interrupted) @ Inr (0, ''x'') # []) =
     Some (True, Some eof, 7, Some ''x'', [])
   \<and> non_blocking_send 7 (replicate 2 (Inl interrupted) @ Inr (0, ''x'') # []) = Some (True, None, 0, Some ''x'', [])
   \<and> non_blocking_accept 3 4 (replicate 2 (Inl interrupted) @ Inr (0, ''x'') # []) =
     Some (True, None, 0, Some ''x'', [])"
  using reactor_calls_settle[of "Inr (0, ''x'')" "Inr (5, 1, ''y'')" 3 True 7 2 "[]" "[]" 4]
  by (simp add: valid_answer_def invalid_socket_def blocks_def error_of_def at_end_def count_of_def written_def
      accept_pending_def)

text \<open>
  C37. A synchronous call on an open socket whose user did not ask for non-blocking mode absorbs any number of rounds
  of a call that would block and a \<open>poll\<close> that succeeds, and then reports the first answer of another kind: its
  count, its error (\<open>eof\<close> for nothing received on a stream) and what it wrote. When \<open>poll\<close> fails the call ends
  with the error of \<open>poll\<close> and no bytes. An accept also absorbs aborted connections which the user did not ask for.
  With the flag set the first answer is reported as it is, also one that says the call would block, and nothing is
  polled.
\<close>
theorem synchronous_calls_wait:
  assumes "s \<noteq> invalid_socket" "valid_answer a" "all_waiting ws" "accept_waiting state us"
    and "if has state user_set_non_blocking then ws = [] else \<not> blocks a"
    and "\<forall>e. a = Inl e \<longrightarrow> \<not> accept_retries state e" "would_wait (Some e)" "l > 0"
  shows "(\<forall>op \<in> {\<lambda>s state. sync_recv s state False, \<lambda>s state. sync_recv1 s state l}.
        op s state (rounds ws @ a # os) =
          Some (count_of a, error_of (has state stream_oriented) a, written a, os)
        \<and> (\<not> has state user_set_non_blocking \<longrightarrow>
           op s state (rounds ws @ Inl e # Inl e' # os) = Some (0, Some e', None, os)))
    \<and> (\<forall>op \<in> {\<lambda>s state. sync_send s state False, \<lambda>s state. sync_send1 s state l, sync_recvfrom, sync_recvfrom1,
              sync_sendto, sync_sendto1}.
        op s state (rounds ws @ a # os) = Some (count_of a, error_of False a, written a, os)
        \<and> (\<not> has state user_set_non_blocking \<longrightarrow>
           op s state (rounds ws @ Inl e # Inl e' # os) = Some (0, Some e', None, os)))
    \<and> sync_accept s state (rounds us @ a # os) =
      Some (case a of Inl _ \<Rightarrow> invalid_socket | Inr (n, _) \<Rightarrow> n, error_of False a, written a, os)
    \<and> (\<not> has state user_set_non_blocking \<longrightarrow>
       sync_accept s state (rounds us @ Inl e # Inl e' # os) = Some (invalid_socket, Some e', None, os))"
  using assms by (simp add: sync_defs calls_wait calls_poll_fails sync_accept_rounds sync_accept_ends
      sync_accept_poll_fails accept_retries_blocked)

theorem synchronous_calls_wait_witness:
  "sync_send 3 32 False (rounds [(operation_would_block, 1, 0::nat), (resource_unavailable_try_again, 1, 0)]
       @ Inr (9, 5) # []) = Some (9, None, Some 5, [])
   \<and> sync_sendto 3 32 (rounds [(operation_would_block, 1, 0::nat), (resource_unavailable_try_again, 1, 0)]
       @ Inl operation_would_block # Inl interrupted # []) = Some (0, Some interrupted, None, [])
   \<and> sync_accept 3 32 (rounds [(connection_aborted, 1, 0::nat)] @ Inr (9, 5) # []) = Some (9, None, Some 5, [])"
  using synchronous_calls_wait[of 3 "Inr (9, 5::nat)"
    "[(operation_would_block, 1, 0), (resource_unavailable_try_again, 1, 0)]"
    32 "[(connection_aborted, 1, 0)]" operation_would_block 1 "[]" interrupted]
  by (simp add: valid_answer_def invalid_socket_def blocks_def error_of_def at_end_def count_of_def written_def
      accept_retries_def would_wait_def has_def user_set_non_blocking_def enable_connection_aborted_def)

end
