(* ===== verification/Asio_Socket_Service.thy ===== *)
theory Asio_Socket_Service
  imports Asio_Transfer_Spec Asio_Order
begin

text \<open>
  The service behind a socket object (\<open>detail/reactive_socket_service_base.hpp\<close>,
  \<open>detail/impl/reactive_socket_service_base.ipp\<close>): opening and closing a socket, and starting its
  asynchronous operations, on the calls of \<open>Asio_Sockets\<close>/\<open>Asio_Transfer\<close> and the event loop of
  \<open>Asio_Reactor\<close>; and what performing each kind of operation does (\<open>detail/reactive_socket_*_op.hpp\<close>).
  The system's answers are a list, as there.
\<close>

unbundle bit_operations_syntax

section \<open>The implementation of a socket\<close>

record socket_impl =
  native :: int                     \<comment> \<open>\<open>socket_\<close>\<close>
  sstate :: state_type
  reactor_data :: "nat option"

definition possible_dup :: state_type where "possible_dup = 64"

definition SOCK_STREAM :: int where "SOCK_STREAM = 1"
definition SOCK_DGRAM :: int where "SOCK_DGRAM = 2"

definition construct_impl :: socket_impl where
  "construct_impl = \<lparr>native = invalid_socket, sstate = 0, reactor_data = None\<rparr>"

definition is_open :: "socket_impl \<Rightarrow> bool" where
  "is_open impl = (native impl \<noteq> invalid_socket)"

definition base_move_construct :: "socket_impl \<Rightarrow> socket_impl \<times> socket_impl" where
  \<comment> \<open>the new socket and what is left of the other\<close>
  "base_move_construct other =
     (let (target, source) = move_descriptor (reactor_data other)
      in (\<lparr>native = native other, sstate = sstate other, reactor_data = target\<rparr>,
          \<lparr>native = invalid_socket, sstate = 0, reactor_data = source\<rparr>))"

definition svc_destroy :: "socket_impl \<Rightarrow> loop \<Rightarrow> 'x answer list \<Rightarrow> (socket_impl \<times> loop \<times> 'x answer list) option" where
  \<comment> \<open>what \<open>close\<close> reports is ignored\<close>
  "svc_destroy impl l os =
     (if is_open impl then
        let (d, r, s) = deregister_descriptor (reactor_data impl) (sstate impl AND possible_dup = 0) l
        in Option.bind (sock_close (native impl) (sstate impl) True None os) (\<lambda>(result, ec, st, os).
             let (d, r) = cleanup_descriptor_data d r
             in Some (impl\<lparr>sstate := st, reactor_data := d\<rparr>, (r, s), os))
      else Some (impl, l, os))"

definition base_move_assign ::
  "socket_impl \<Rightarrow> socket_impl \<Rightarrow> loop \<Rightarrow> 'x answer list \<Rightarrow> ((socket_impl \<times> socket_impl) \<times> loop \<times> 'x answer list) option" where
  \<comment> \<open>both sockets of one service\<close>
  "base_move_assign impl other l os =
     Option.bind (svc_destroy impl l os) (\<lambda>(impl, l, os). Some (base_move_construct other, l, os))"

definition svc_close :: "socket_impl \<Rightarrow> loop \<Rightarrow> 'x answer list \<Rightarrow> (errc option \<times> socket_impl \<times> loop \<times> 'x answer list) option" where
  "svc_close impl l os =
     (if is_open impl then
        let (d, r, s) = deregister_descriptor (reactor_data impl) (sstate impl AND possible_dup = 0) l
        in Option.bind (sock_close (native impl) (sstate impl) False None os) (\<lambda>(result, ec, st, os).
             let (d, r) = cleanup_descriptor_data d r
             in Some (ec, construct_impl, (r, s), os))
      else Some (None, construct_impl, l, os))"

definition svc_release :: "socket_impl \<Rightarrow> loop \<Rightarrow> int \<times> errc option \<times> socket_impl \<times> loop" where
  "svc_release impl l =
     (if \<not> is_open impl then (invalid_socket, Some bad_descriptor, impl, l)
      else
        let (d, r, s) = deregister_descriptor (reactor_data impl) False l;
            (d, r) = cleanup_descriptor_data d r
        in (native impl, None, construct_impl, (r, s)))"

definition svc_cancel :: "socket_impl \<Rightarrow> loop \<Rightarrow> errc option \<times> loop" where
  "svc_cancel impl l =
     (if \<not> is_open impl then (Some bad_descriptor, l) else (None, cancel_ops (reactor_data impl) l))"

definition state_of_type :: "int \<Rightarrow> state_type" where
  "state_of_type type =
     (if type = SOCK_STREAM then stream_oriented else if type = SOCK_DGRAM then datagram_oriented else 0)"

definition do_open ::
  "int \<Rightarrow> socket_impl \<Rightarrow> loop \<Rightarrow> 'x answer list \<Rightarrow> (errc option \<times> socket_impl \<times> loop \<times> 'x answer list) option" where
  \<comment> \<open>where the registration fails, the holder of the new socket closes it\<close>
  "do_open type impl l os =
     (if is_open impl then Some (Some already_open, impl, l, os)
      else Option.bind (sock_socket os) (\<lambda>(sock, ec, os).
        if sock = invalid_socket then Some (ec, impl, l, os)
        else
          let (r, s) = l;
              (err, d, r) = register_descriptor sock r
          in case err of
               Some e \<Rightarrow> map_option (\<lambda>(result, ec, st, os). (Some e, impl\<lparr>reactor_data := Some d\<rparr>, (r, s), os))
                           (sock_close sock 0 True None os)
             | None \<Rightarrow> Some (None, \<lparr>native = sock, sstate = state_of_type type, reactor_data = Some d\<rparr>, (r, s), os)))"

definition do_assign :: "int \<Rightarrow> int \<Rightarrow> socket_impl \<Rightarrow> loop \<Rightarrow> errc option \<times> socket_impl \<times> loop" where
  "do_assign type native_socket impl l =
     (if is_open impl then (Some already_open, impl, l)
      else
        let (r, s) = l;
            (err, d, r) = register_descriptor native_socket r
        in case err of
             Some e \<Rightarrow> (Some e, impl\<lparr>reactor_data := Some d\<rparr>, (r, s))
           | None \<Rightarrow> (None, \<lparr>native = native_socket, sstate = state_of_type type OR possible_dup, reactor_data = Some d\<rparr>, (r, s)))"

section \<open>Starting operations\<close>

definition ready_to_start ::
  "socket_impl \<Rightarrow> reactor_op \<Rightarrow> 'x answer list \<Rightarrow> (bool \<times> socket_impl \<times> reactor_op \<times> 'x answer list) option" where
  \<comment> \<open>the condition of the two functions below: the socket is non-blocking, or is made so\<close>
  "ready_to_start impl op os =
     (if has (sstate impl) non_blocking then Some (True, impl, op, os)
      else map_option (\<lambda>(ok, ec, st, os). (ok, impl\<lparr>sstate := st\<rparr>, op\<lparr>rop_ec := ec\<rparr>, os))
             (set_internal_non_blocking (native impl) (sstate impl) True os))"

definition svc_start_op ::
  "nat \<Rightarrow> reactor_op \<Rightarrow> bool \<Rightarrow> bool \<Rightarrow> bool \<Rightarrow> socket_impl \<Rightarrow> loop \<Rightarrow> 'x answer list
     \<Rightarrow> (socket_impl \<times> loop \<times> 'x answer list) option" where
  "svc_start_op op_type op is_continuation is_non_blocking noop impl l os =
     (if \<not> noop then
        map_option (\<lambda>(ok, impl, op, os).
            (impl, if ok then start_op op_type (reactor_data impl) op is_continuation is_non_blocking l
                   else complete_now op is_continuation l, os))
          (ready_to_start impl op os)
      else Some (impl, complete_now op is_continuation l, os))"

definition start_accept_op ::
  "reactor_op \<Rightarrow> bool \<Rightarrow> bool \<Rightarrow> socket_impl \<Rightarrow> loop \<Rightarrow> 'x answer list \<Rightarrow> (socket_impl \<times> loop \<times> 'x answer list) option" where
  "start_accept_op op is_continuation peer_is_open impl l os =
     (if \<not> peer_is_open then svc_start_op read_op op is_continuation True False impl l os
      else Some (impl, complete_now (op\<lparr>rop_ec := Some already_open\<rparr>) is_continuation l, os))"

definition start_connect_op ::
  "reactor_op \<Rightarrow> bool \<Rightarrow> bool \<Rightarrow> socket_impl \<Rightarrow> loop \<Rightarrow> 'x answer list \<Rightarrow> (socket_impl \<times> loop \<times> 'x answer list) option" where
  \<comment> \<open>\<open>unix_domain\<close>: is the address of family \<open>AF_UNIX\<close>\<close>
  "start_connect_op op is_continuation unix_domain impl l os =
     Option.bind (ready_to_start impl op os) (\<lambda>(ok, impl, op, os).
       if ok then
         Option.bind (sock_connect (native impl) unix_domain os) (\<lambda>(result, ec, os).
           if result \<noteq> 0 \<and> (ec = Some in_progress \<or> ec = Some operation_would_block) then
             Some (impl, start_op connect_op (reactor_data impl) (op\<lparr>rop_ec := None\<rparr>) is_continuation False l, os)
           else Some (impl, complete_now (op\<lparr>rop_ec := ec\<rparr>) is_continuation l, os))
       else Some (impl, complete_now op is_continuation l, os))"

datatype buffers = One bytes | Many "bytes list"  \<comment> \<open>\<open>bufs_type::is_single_buffer\<close> or not\<close>

fun buffers_bytes :: "buffers \<Rightarrow> bytes" where
  "buffers_bytes (One b) = b"
| "buffers_bytes (Many bs) = concat bs"

definition svc_send ::
  "socket_impl \<Rightarrow> buffers \<Rightarrow> 'x answer list \<Rightarrow> (int \<times> errc option \<times> 'x answer list) option" where
  "svc_send impl bufs os =
     map_option (\<lambda>(n, ec, out, os). (n, ec, os))
       (case bufs of
          One b \<Rightarrow> sync_send1 (native impl) (sstate impl) (length b) os
        | Many bs \<Rightarrow> sync_send (native impl) (sstate impl) (length (concat bs) = 0) os)"

definition svc_receive ::
  "socket_impl \<Rightarrow> nat \<Rightarrow> bool \<Rightarrow> 'x answer list \<Rightarrow> (int \<times> errc option \<times> 'x option \<times> 'x answer list) option" where
  \<comment> \<open>with the room of the buffers\<close>
  "svc_receive impl room single os =
     (if single then sync_recv1 (native impl) (sstate impl) room os
      else sync_recv (native impl) (sstate impl) (room = 0) os)"

definition async_send ::
  "reactor_op \<Rightarrow> bool \<Rightarrow> buffers \<Rightarrow> socket_impl \<Rightarrow> loop \<Rightarrow> 'x answer list \<Rightarrow> (socket_impl \<times> loop \<times> 'x answer list) option" where
  "async_send op is_continuation bufs impl l os =
     svc_start_op write_op op is_continuation True (has (sstate impl) stream_oriented \<and> length (buffers_bytes bufs) = 0) impl l os"

definition MSG_OOB :: u32 where "MSG_OOB = 1"

definition async_receive ::
  "reactor_op \<Rightarrow> bool \<Rightarrow> nat \<Rightarrow> u32 \<Rightarrow> socket_impl \<Rightarrow> loop \<Rightarrow> 'x answer list \<Rightarrow> (socket_impl \<times> loop \<times> 'x answer list) option" where
  "async_receive op is_continuation room flags impl l os =
     svc_start_op (if flags AND MSG_OOB \<noteq> 0 then except_op else read_op) op is_continuation (flags AND MSG_OOB = 0)
       (has (sstate impl) stream_oriented \<and> room = 0) impl l os"

section \<open>Performing operations\<close>

definition status_of :: "bool \<Rightarrow> bool \<Rightarrow> status" where
  "status_of finished exhausted = (if finished then if exhausted then Done_and_exhausted else Done else Not_done)"

definition recv_perform ::
  "bool \<Rightarrow> state_type \<Rightarrow> int \<Rightarrow> 'x answer list \<Rightarrow> (status \<times> errc option \<times> int \<times> 'x option \<times> 'x answer list) option" where
  "recv_perform single state bytes_transferred os =
     map_option (\<lambda>(finished, ec, n, out, os). (status_of finished (has state stream_oriented \<and> n = 0), ec, n, out, os))
       ((if single then non_blocking_recv1 else non_blocking_recv) (has state stream_oriented) bytes_transferred os)"

definition send_perform ::
  "buffers \<Rightarrow> state_type \<Rightarrow> int \<Rightarrow> 'x answer list \<Rightarrow> (status \<times> errc option \<times> int \<times> 'x option \<times> 'x answer list) option" where
  "send_perform bufs state bytes_transferred os =
     map_option (\<lambda>(finished, ec, n, out, os).
         (status_of finished (has state stream_oriented \<and> n < int (length (buffers_bytes bufs))), ec, n, out, os))
       (case bufs of One _ \<Rightarrow> non_blocking_send1 bytes_transferred os | Many _ \<Rightarrow> non_blocking_send bytes_transferred os)"

definition recvfrom_perform ::
  "bool \<Rightarrow> int \<Rightarrow> 'x answer list \<Rightarrow> (status \<times> errc option \<times> int \<times> 'x option \<times> 'x answer list) option" where
  "recvfrom_perform single bytes_transferred os =
     map_option (\<lambda>(finished, r). (status_of finished False, r))
       ((if single then non_blocking_recvfrom1 else non_blocking_recvfrom) bytes_transferred os)"

definition sendto_perform ::
  "bool \<Rightarrow> int \<Rightarrow> 'x answer list \<Rightarrow> (status \<times> errc option \<times> int \<times> 'x option \<times> 'x answer list) option" where
  "sendto_perform single bytes_transferred os =
     map_option (\<lambda>(finished, r). (status_of finished False, r))
       ((if single then non_blocking_sendto1 else non_blocking_sendto) bytes_transferred os)"

definition recvmsg_perform ::
  "int \<Rightarrow> (int \<times> 'x) answer list \<Rightarrow> (status \<times> errc option \<times> int \<times> (int \<times> 'x option) \<times> (int \<times> 'x) answer list) option" where
  "recvmsg_perform bytes_transferred os =
     map_option (\<lambda>(finished, r). (status_of finished False, r)) (non_blocking_recvmsg bytes_transferred os)"

definition accept_perform ::
  "int \<Rightarrow> state_type \<Rightarrow> 'x answer list \<Rightarrow> (status \<times> errc option \<times> int \<times> 'x option \<times> 'x answer list) option" where
  \<comment> \<open>with the new socket, for the operation's holder\<close>
  "accept_perform s state os =
     map_option (\<lambda>(finished, r). (status_of finished False, r)) (non_blocking_accept s state os)"

definition connect_perform ::
  "(int \<Rightarrow> errc) \<Rightarrow> int \<Rightarrow> errc option \<Rightarrow> 'x answer list \<Rightarrow> (status \<times> errc option \<times> 'x answer list) option" where
  "connect_perform sys_errc s ec os =
     map_option (\<lambda>(finished, r). (status_of finished False, r)) (non_blocking_connect sys_errc s ec os)"

definition wait_perform :: status where
  "wait_perform = Done"

definition accept_assign :: "int \<Rightarrow> int \<Rightarrow> errc option \<Rightarrow> socket_impl \<Rightarrow> loop \<Rightarrow> errc option \<times> int \<times> socket_impl \<times> loop" where
  \<comment> \<open>\<open>do_assign\<close> of an accepting operation: the peer takes the new socket, or the holder keeps it to close it\<close>
  "accept_assign type new_socket ec peer l =
     (if new_socket \<noteq> invalid_socket then
        let (ec, peer, l) = do_assign type new_socket peer l
        in (ec, if ec = None then invalid_socket else new_socket, peer, l)
      else (ec, new_socket, peer, l))"

section \<open>A program with sockets\<close>

datatype socket_call =
    Open nat int
  | Assign nat int int
  | Close_sock nat
  | Destroy nat                        \<comment> \<open>and a new socket object in its place\<close>
  | Release nat
  | Cancel_sock nat
  | Move_sock nat nat                  \<comment> \<open>assigned from the second\<close>
  | Send nat reactor_op bool buffers
  | Receive nat reactor_op bool nat u32
  | Accept nat reactor_op bool bool
  | Connect nat reactor_op bool bool

type_synonym 'x socket_world = "(nat \<Rightarrow> socket_impl) \<times> loop \<times> 'x answer list"

fun started_by :: "socket_call \<Rightarrow> nat list" where
  "started_by (Send k op c bufs) = [rop_id op]"
| "started_by (Receive k op c room flags) = [rop_id op]"
| "started_by (Accept k op c peer_open) = [rop_id op]"
| "started_by (Connect k op c unix_domain) = [rop_id op]"
| "started_by _ = []"

definition put_impl :: "nat \<Rightarrow> (nat \<Rightarrow> socket_impl) \<Rightarrow> socket_impl \<times> loop \<times> 'x answer list \<Rightarrow> 'x socket_world" where
  "put_impl k socks r = (case r of (impl, l, os) \<Rightarrow> (socks(k := impl), l, os))"

fun do_socket_call :: "socket_call \<Rightarrow> 'x socket_world \<Rightarrow> 'x socket_world option" where
  "do_socket_call (Open k type) (socks, l, os) =
     map_option (\<lambda>(ec, r). put_impl k socks r) (do_open type (socks k) l os)"
| "do_socket_call (Assign k type fd) (socks, l, os) =
     (case do_assign type fd (socks k) l of (ec, impl, l) \<Rightarrow> Some (put_impl k socks (impl, l, os)))"
| "do_socket_call (Close_sock k) (socks, l, os) =
     map_option (\<lambda>(ec, r). put_impl k socks r) (svc_close (socks k) l os)"
| "do_socket_call (Destroy k) (socks, l, os) =
     map_option (\<lambda>(impl, l, os). (socks(k := construct_impl), l, os)) (svc_destroy (socks k) l os)"
| "do_socket_call (Release k) (socks, l, os) =
     (case svc_release (socks k) l of (fd, ec, impl, l) \<Rightarrow> Some (put_impl k socks (impl, l, os)))"
| "do_socket_call (Cancel_sock k) (socks, l, os) = Some (socks, snd (svc_cancel (socks k) l), os)"
| "do_socket_call (Move_sock k j) (socks, l, os) =
     (if k = j then None
      else map_option (\<lambda>((impl, other), l, os). (socks(k := impl, j := other), l, os)) (base_move_assign (socks k) (socks j) l os))"
| "do_socket_call (Send k op c bufs) (socks, l, os) = map_option (put_impl k socks) (async_send op c bufs (socks k) l os)"
| "do_socket_call (Receive k op c room flags) (socks, l, os) =
     map_option (put_impl k socks) (async_receive op c room flags (socks k) l os)"
| "do_socket_call (Accept k op c peer_open) (socks, l, os) =
     map_option (put_impl k socks) (start_accept_op op c peer_open (socks k) l os)"
| "do_socket_call (Connect k op c unix_domain) (socks, l, os) =
     map_option (put_impl k socks) (start_connect_op op c unix_domain (socks k) l os)"

fun do_socket_calls :: "socket_call list \<Rightarrow> 'x socket_world \<Rightarrow> 'x socket_world option" where
  "do_socket_calls [] w = Some w"
| "do_socket_calls (c # cs) w = Option.bind (do_socket_call c w) (do_socket_calls cs)"

section \<open>Each socket has a descriptor state of its own\<close>

definition usable :: "reactor \<Rightarrow> nat \<Rightarrow> bool" where
  "usable r d = (d \<in> set (live_list (registered r)) \<and> \<not> d_shutdown (dstate r d))"

definition sockets_ok :: "(nat \<Rightarrow> socket_impl) \<Rightarrow> reactor \<Rightarrow> bool" where
  "sockets_ok socks r =
     ((\<forall>k d. reactor_data (socks k) = Some d \<longrightarrow> usable r d) \<and>
      (\<forall>k j d. reactor_data (socks k) = Some d \<and> reactor_data (socks j) = Some d \<longrightarrow> k = j))"

definition stays :: "reactor \<Rightarrow> reactor \<Rightarrow> bool" where
  "stays r r' = (registered r' = registered r \<and> (\<forall>d. d_shutdown (dstate r' d) = d_shutdown (dstate r d)))"

lemma stays_refl [simp]: "stays r r"
  by (simp add: stays_def)

lemma stays_trans: "stays r r' \<Longrightarrow> stays r' r'' \<Longrightarrow> stays r r''"
  by (simp add: stays_def)

lemma stays_usable: "stays r r' \<Longrightarrow> usable r' d = usable r d"
  by (simp add: stays_def usable_def)

lemma stays_sockets: "stays r r' \<Longrightarrow> sockets_ok socks r' = sockets_ok socks r"
  by (simp add: sockets_ok_def stays_usable)

lemma stays_ctl [simp]: "epoll_ctl r = (e, r') \<Longrightarrow> stays r r'" "stays r (snd (epoll_ctl r))"
  by (auto simp: epoll_ctl_def stays_def)

lemma stays_state: "(\<And>st. d_shutdown (f st) = d_shutdown st) \<Longrightarrow> stays r (set_state d f r)"
  by (simp add: stays_def set_state_def)

lemma stays_perform: "perform op r = (st, op', r') \<Longrightarrow> stays r r'"
  by (auto simp: perform_def stays_def split: prod.splits)

lemma stays_complete_now [simp]: "stays r (fst (complete_now op c (r, s)))"
  by (simp add: complete_now_def)

lemma stays_enqueue [simp]: "stays r (fst (enqueue_op j d op (r, s)))"
  by (simp add: enqueue_op_def stays_state)

lemma stays_wait [simp]: "stays r (fst (wait_for_events j d op c (r, s)))"
proof -
  obtain e r1 where c: "epoll_ctl r = (e, r1)" by force
  let ?r2 = "set_state d (\<lambda>st. st\<lparr>registered_events := registered_events st OR EPOLLOUT\<rparr>) r1"
  have "stays r r1" "stays r1 ?r2" using c by (simp_all add: stays_state)
  then have "stays r r1" "stays r (fst (enqueue_op j d op (?r2, s)))" using stays_trans stays_enqueue by blast+
  then show ?thesis using c by (auto simp: wait_for_events_def Let_def complete_now_def split: option.split)
qed

lemma stays_start: "stays r (fst (start_op j d op c a (r, s)))"
proof (cases d)
  case (Some d)
  obtain st op' r1 where p: "perform op r = (st, op', r1)" by (cases "perform op r") auto
  note p1 = stays_perform [OF p]
  have "stays r (set_state d (\<lambda>ds. ds\<lparr>try_speculative := (try_speculative ds)(j := False)\<rparr>) r1)"
    using p1 stays_trans stays_state by fastforce
  moreover have "stays r (fst (wait_for_events j d op' c (r1, s)))" using p1 stays_trans stays_wait by blast
  moreover have "stays r (fst (enqueue_op j d op (snd (epoll_ctl r'), s)))" if "stays r r'" for r'
    using that stays_trans stays_ctl(2) stays_enqueue by blast
  moreover have "stays r (set_state d (\<lambda>ds. ds\<lparr>registered_events := registered_events ds OR EPOLLOUT\<rparr>) r)"
    by (rule stays_state) simp
  ultimately show ?thesis using p p1 Some by (auto simp: start_op_def Let_def complete_now_def)
qed (simp add: start_op_def complete_now_def)

lemma stays_cancel: "stays r (fst (cancel_ops d (r, s)))"
  by (auto simp: cancel_ops_def take_all_def stays_state split: option.split)

lemma register_usable:
  assumes "reactor_ok r" "register_descriptor fd r = (e, d, r')"
  shows "usable r' d" "\<not> usable r d" "\<And>x. usable r x \<Longrightarrow> usable r' x"
proof -
  obtain d0 p where a: "pool_alloc (registered r) = (d0, p)" by force
  have "pool_ok (registered r)" using assms(1) by (simp add: reactor_ok_def)
  note p = pool_alloc_ok [OF this a]
  let ?r = "set_state d0 (fresh_state fd) (r\<lparr>registered := p\<rparr>)"
  obtain res r1 where c: "epoll_ctl ?r = (res, r1)" by force
  have 1: "stays ?r r1" using c by simp
  have "stays ?r (set_state d0 (\<lambda>st. st\<lparr>registered_events := 0\<rparr>) r1)" by (rule stays_trans [OF 1 stays_state]) simp
  with 1 have "d = d0" "stays ?r r'"
    using assms(2) a c by (auto simp: register_descriptor_def Let_def split: option.splits if_splits)
  then show "usable r' d" "\<not> usable r d" "\<And>x. usable r x \<Longrightarrow> usable r' x"
    using p by (auto simp: usable_def stays_def set_state_def fresh_state_def)
qed

definition cancelled_ops :: "reactor \<Rightarrow> nat option \<Rightarrow> oper list" where
  \<comment> \<open>all operations that wait in a descriptor state, as they are handed out\<close>
  "cancelled_ops r data = (case data of None \<Rightarrow> []
     | Some d \<Rightarrow> map (\<lambda>op. Io (op_aborted op)) (concat (map (rq (dstate r d)) [0..<max_ops])))"

lemma deregister_parts:
  assumes ok: "loop_ok (r, s)" and u: "\<And>d. data = Some d \<Longrightarrow> usable r d"
    and dereg: "deregister_descriptor data c (r, s) = (d1, r1, s1)" and clean: "cleanup_descriptor_data d1 r1 = (d2, r2)"
  shows "effect {#} (r, s) (r2, s1)" "d2 = None" "s1 = post_deferred_completions (cancelled_ops r data) s"
    "\<And>x. usable r x \<Longrightarrow> data \<noteq> Some x \<Longrightarrow> usable r2 x" "\<And>d. data = Some d \<Longrightarrow> \<not> usable r2 d"
proof -
  have "effect {#} (r, s) (r2, s1) \<and> d2 = None \<and> s1 = post_deferred_completions (cancelled_ops r data) s \<and>
    (\<forall>x. usable r x \<and> data \<noteq> Some x \<longrightarrow> usable r2 x) \<and> (\<forall>d. data = Some d \<longrightarrow> \<not> usable r2 d)"
  proof (cases data)
    case None
    then show ?thesis using dereg clean ok
      by (simp add: deregister_descriptor_def cleanup_descriptor_data_def cancelled_ops_def post_deferred_completions_def effect_refl)
  next
    case (Some d)
    note d = u [OF Some, unfolded usable_def]
    obtain l where l: "act_loop (Close_socket d c) (r, s) = Some l" "effect {#} (r, s) l"
      using close_effect [OF ok, of d c] d by blast
    have "l = (r2, s1)" using l(1) dereg clean Some by auto
    let ?r0 = "if \<not> c \<and> registered_events (dstate r d) \<noteq> 0 then snd (epoll_ctl r) else r"
    have "dstate ?r0 = dstate r" "registered ?r0 = registered r" by (simp_all add: epoll_ctl_def)
    then have e: "d1 = Some d" "registered r1 = registered r" "\<And>x. d_shutdown (dstate r1 x) = (if x = d then True else d_shutdown (dstate r x))"
      "s1 = post_deferred_completions (cancelled_ops r data) s"
      using dereg Some d by (auto simp: deregister_descriptor_def take_all_def set_state_def cancelled_ops_def Let_def)
    then have r2: "r2 = r1\<lparr>registered := pool_free d (registered r1)\<rparr>" "d2 = None"
      using clean by (simp_all add: cleanup_descriptor_data_def)
    then have "usable r x \<Longrightarrow> x \<noteq> d \<Longrightarrow> usable r2 x" "\<not> usable r2 d" for x
      using e by (auto simp: usable_def pool_free_def)
    then show ?thesis using l(2) \<open>l = (r2, s1)\<close> e(4) r2(2) Some by auto
  qed
  then show "effect {#} (r, s) (r2, s1)" "d2 = None" "s1 = post_deferred_completions (cancelled_ops r data) s"
    "\<And>x. usable r x \<Longrightarrow> data \<noteq> Some x \<Longrightarrow> usable r2 x" "\<And>d. data = Some d \<Longrightarrow> \<not> usable r2 d" by blast+
qed

lemma sockets_okD:
  "sockets_ok socks r \<Longrightarrow> reactor_data (socks k) = Some d \<Longrightarrow> usable r d"
  "sockets_ok socks r \<Longrightarrow> reactor_data (socks k) = Some d \<Longrightarrow> reactor_data (socks j) = Some d \<Longrightarrow> k = j"
  by (auto simp: sockets_ok_def)

lemma sockets_closed:
  \<comment> \<open>the socket gives its state up, or never had one\<close>
  assumes "sockets_ok socks r" "reactor_data impl = None"
    and "\<And>x. usable r x \<Longrightarrow> reactor_data (socks k) \<noteq> Some x \<Longrightarrow> usable r' x"
  shows "sockets_ok (socks(k := impl)) r'"
  using assms unfolding sockets_ok_def by (auto split: if_splits) metis

lemma sockets_registered:
  assumes "sockets_ok socks r" "reactor_data impl = Some d" "usable r' d" "\<not> usable r d"
    and "\<And>x. usable r x \<Longrightarrow> usable r' x"
  shows "sockets_ok (socks(k := impl)) r'"
  using assms unfolding sockets_ok_def by (auto split: if_splits)

lemma sockets_same:
  "sockets_ok socks r \<Longrightarrow> reactor_data impl = reactor_data (socks k) \<Longrightarrow> sockets_ok (socks(k := impl)) r"
  unfolding sockets_ok_def by (auto split: if_splits)

section \<open>Every call keeps the accounts\<close>

definition accounted :: "nat multiset \<Rightarrow> reactor \<times> oper scheduler \<Rightarrow> 'x socket_world \<Rightarrow> bool" where
  "accounted new l w = (sockets_ok (fst w) (fst (fst (snd w))) \<and> effect new l (fst (snd w)))"

lemma ready_to_start_impl:
  "ready_to_start impl op os = Some (ok, impl', op', os') \<Longrightarrow> reactor_data impl' = reactor_data impl \<and> rop_id op' = rop_id op"
  by (auto simp: ready_to_start_def split: if_splits)

lemma start_accounted:
  assumes ok: "loop_ok (r, s)" and socks: "sockets_ok socks r" and j: "j < max_ops"
    and impl: "reactor_data impl = reactor_data (socks k)" and id: "rop_id op = i"
  shows "accounted {#i#} (r, s) (socks(k := impl), start_op j (reactor_data impl) op c a (r, s), os)"
    "accounted {#i#} (r, s) (socks(k := impl), complete_now op c (r, s), os)"
proof -
  have live: "x \<in> set (live_list (registered r))" if "reactor_data impl = Some x" for x
    using sockets_okD(1) [OF socks] that impl by (simp add: usable_def)
  have "sockets_ok (socks(k := impl)) r" by (rule sockets_same [OF socks impl])
  then show "accounted {#i#} (r, s) (socks(k := impl), start_op j (reactor_data impl) op c a (r, s), os)"
    "accounted {#i#} (r, s) (socks(k := impl), complete_now op c (r, s), os)"
    using start_op_effect [OF ok j live, where op = op and c = c and a = a] complete_now_effect [OF ok id] id
      stays_start [of r j "reactor_data impl" op c a s] stays_sockets
    by (auto simp: accounted_def complete_now_def)
qed

lemma svc_start_accounted:
  assumes ok: "loop_ok (r, s)" and socks: "sockets_ok socks r" and j: "j < max_ops"
    and run: "svc_start_op j op c nb noop (socks k) (r, s) os = Some x"
  shows "accounted {#rop_id op#} (r, s) (put_impl k socks x)"
proof (cases noop)
  case True
  then show ?thesis using run start_accounted(2) [OF ok socks j refl refl] by (auto simp: svc_start_op_def put_impl_def)
next
  case False
  then obtain b impl op' os' where st: "ready_to_start (socks k) op os = Some (b, impl, op', os')"
    and x: "x = (impl, if b then start_op j (reactor_data impl) op' c nb (r, s) else complete_now op' c (r, s), os')"
    using run by (auto simp: svc_start_op_def)
  have i: "reactor_data impl = reactor_data (socks k)" "rop_id op' = rop_id op" using ready_to_start_impl [OF st] by simp_all
  show ?thesis unfolding x put_impl_def using start_accounted [OF ok socks j i, where os = os'] by (cases b) simp_all
qed

lemma max_ops_bounds [simp]: "read_op < max_ops" "write_op < max_ops" "connect_op < max_ops" "except_op < max_ops"
  by (simp_all add: read_op_def write_op_def connect_op_def except_op_def max_ops_def)

lemma connect_accounted:
  assumes ok: "loop_ok (r, s)" and socks: "sockets_ok socks r"
    and run: "start_connect_op op c ud (socks k) (r, s) os = Some x"
  shows "accounted {#rop_id op#} (r, s) (put_impl k socks x)"
proof -
  obtain b impl op' os' where st: "ready_to_start (socks k) op os = Some (b, impl, op', os')"
    using run by (auto simp: start_connect_op_def bind_eq_Some_conv)
  have i: "reactor_data impl = reactor_data (socks k)" "rop_id op' = rop_id op" using ready_to_start_impl [OF st] by simp_all
  have i2: "rop_id (op'\<lparr>rop_ec := e\<rparr>) = rop_id op" for e using i(2) by simp
  show ?thesis
  proof (cases b)
    case False
    then have x: "x = (impl, complete_now op' c (r, s), os')" using run st by (auto simp: start_connect_op_def)
    show ?thesis unfolding x put_impl_def prod.case by (rule start_accounted(2) [OF ok socks max_ops_bounds(3) i])
  next
    case True
    obtain res ec os2 where k: "sock_connect (native impl) ud os' = Some (res, ec, os2)"
      using run st True by (auto simp: start_connect_op_def bind_eq_Some_conv)
    then have "x = (impl, start_op connect_op (reactor_data impl) (op'\<lparr>rop_ec := None\<rparr>) c False (r, s), os2)
        \<or> x = (impl, complete_now (op'\<lparr>rop_ec := ec\<rparr>) c (r, s), os2)"
      using run st True by (auto simp: start_connect_op_def split: if_splits)
    then show ?thesis
      using start_accounted [OF ok socks max_ops_bounds(3) i(1) i2, where os = os2] by (auto simp: put_impl_def)
  qed
qed

lemma accept_accounted:
  assumes ok: "loop_ok (r, s)" and socks: "sockets_ok socks r"
    and run: "start_accept_op op c peer_open (socks k) (r, s) os = Some x"
  shows "accounted {#rop_id op#} (r, s) (put_impl k socks x)"
  using run svc_start_accounted [OF ok socks max_ops_bounds(1), of op c True False k os]
    start_accounted(2) [OF ok socks max_ops_bounds(1) refl, of "op\<lparr>rop_ec := Some already_open\<rparr>" "rop_id op" k c os]
  by (auto simp: start_accept_op_def put_impl_def split: if_splits)

lemma unchanged_accounted:
  "loop_ok l \<Longrightarrow> sockets_ok socks (fst l) \<Longrightarrow> accounted {#} l (socks, l, os)"
  by (simp add: accounted_def effect_refl)

lemma registered_accounted:
  assumes "loop_ok (r, s)" "sockets_ok socks r" "register_descriptor fd r = (e, d, r')" "reactor_data impl = Some d"
  shows "accounted {#} (r, s) (socks(k := impl), (r', s), os)"
proof -
  have "reactor_ok r" using assms(1) by (simp add: loop_ok_def)
  note u = register_usable [OF this assms(3)]
  have "sockets_ok (socks(k := impl)) r'" by (rule sockets_registered [OF assms(2,4) u])
  then show ?thesis using register_effect [OF assms(1,3)] by (simp add: accounted_def)
qed

lemma open_accounted:
  assumes ok: "loop_ok (r, s)" and socks: "sockets_ok socks r" and run: "do_open type (socks k) (r, s) os = Some (ec, x)"
  shows "accounted {#} (r, s) (put_impl k socks x)"
proof -
  have same: "accounted {#} (r, s) (put_impl k socks (socks k, (r, s), os'))" for os'
    using unchanged_accounted [OF ok, of socks os'] socks by (simp add: put_impl_def)
  show ?thesis
  proof (cases "is_open (socks k)")
    case True
    then show ?thesis using run same by (auto simp: do_open_def)
  next
    case False
    obtain sock ec1 os1 where k: "sock_socket os = Some (sock, ec1, os1)"
      using run False by (auto simp: do_open_def bind_eq_Some_conv)
    show ?thesis
    proof (cases "sock = invalid_socket")
      case True
      then show ?thesis using run False k same by (auto simp: do_open_def)
    next
      case s: False
      obtain e d r' where g: "register_descriptor sock r = (e, d, r')" by (cases "register_descriptor sock r") auto
      obtain impl os2 where "x = (impl, (r', s), os2)" "reactor_data impl = Some d"
        using run False k s g by (cases e) (auto simp: do_open_def)
      then show ?thesis using registered_accounted [OF ok socks g] by (simp add: put_impl_def)
    qed
  qed
qed

lemma assign_accounted:
  assumes ok: "loop_ok (r, s)" and socks: "sockets_ok socks r" and run: "do_assign type fd (socks k) (r, s) = (ec, impl, l)"
  shows "accounted {#} (r, s) (put_impl k socks (impl, l, os))"
proof (cases "is_open (socks k)")
  case True
  then have "impl = socks k" "l = (r, s)" using run by (auto simp: do_assign_def)
  then show ?thesis using unchanged_accounted [OF ok, of socks os] socks by (simp add: put_impl_def)
next
  case False
  obtain e d r' where g: "register_descriptor fd r = (e, d, r')" by (cases "register_descriptor fd r") auto
  have "l = (r', s)" "reactor_data impl = Some d" using run False g by (cases e; auto simp: do_assign_def)+
  then show ?thesis using registered_accounted [OF ok socks g] by (simp add: put_impl_def)
qed

lemma closed_accounted:
  assumes ok: "loop_ok (r, s)" and socks: "sockets_ok socks r" and impl: "reactor_data impl = None"
    and d: "deregister_descriptor (reactor_data (socks k)) c (r, s) = (d1, r1, s1)" "cleanup_descriptor_data d1 r1 = (d2, r2)"
  shows "accounted {#} (r, s) (socks(k := impl), (r2, s1), os)"
proof -
  have u: "usable r d" if "reactor_data (socks k) = Some d" for d by (rule sockets_okD(1) [OF socks that])
  note p = deregister_parts [OF ok u d]
  have "sockets_ok (socks(k := impl)) r2" by (rule sockets_closed [OF socks impl p(4)])
  then show ?thesis using p(1) by (simp add: accounted_def)
qed

lemma deregister_cases:
  obtains d1 r1 s1 d2 r2 where "deregister_descriptor data c l = (d1, r1, s1)" "cleanup_descriptor_data d1 r1 = (d2, r2)"
  by (metis surj_pair)

lemma close_accounted:
  assumes ok: "loop_ok (r, s)" and socks: "sockets_ok socks r" and run: "svc_close (socks k) (r, s) os = Some (ec, x)"
  shows "accounted {#} (r, s) (put_impl k socks x)"
proof -
  have c: "reactor_data construct_impl = None" by (simp add: construct_impl_def)
  show ?thesis
  proof (cases "is_open (socks k)")
    case True
    obtain d1 r1 s1 d2 r2 where d: "deregister_descriptor (reactor_data (socks k)) (sstate (socks k) AND possible_dup = 0) (r, s) = (d1, r1, s1)"
      "cleanup_descriptor_data d1 r1 = (d2, r2)" by (rule deregister_cases)
    obtain os2 where "x = (construct_impl, (r2, s1), os2)" using run True d by (auto simp: svc_close_def bind_eq_Some_conv)
    then show ?thesis using closed_accounted [OF ok socks c d] by (simp add: put_impl_def)
  next
    case False
    then have "x = (construct_impl, (r, s), os)" using run by (auto simp: svc_close_def)
    then show ?thesis using sockets_closed [OF socks c, of k r] ok by (simp add: put_impl_def accounted_def effect_refl)
  qed
qed

lemma release_accounted:
  assumes ok: "loop_ok (r, s)" and socks: "sockets_ok socks r" and run: "svc_release (socks k) (r, s) = (fd, ec, impl, l)"
  shows "accounted {#} (r, s) (put_impl k socks (impl, l, os))"
proof (cases "is_open (socks k)")
  case True
  obtain d1 r1 s1 d2 r2 where d: "deregister_descriptor (reactor_data (socks k)) False (r, s) = (d1, r1, s1)"
    "cleanup_descriptor_data d1 r1 = (d2, r2)" by (rule deregister_cases)
  have e: "impl = construct_impl" "l = (r2, s1)" using run True d by (auto simp: svc_release_def)
  have "reactor_data impl = None" unfolding e by (simp add: construct_impl_def)
  from closed_accounted [OF ok socks this d, where os = os] show ?thesis unfolding e(2) put_impl_def by simp
next
  case False
  then have "impl = socks k" "l = (r, s)" using run by (auto simp: svc_release_def)
  then show ?thesis using unchanged_accounted [OF ok, of socks os] socks by (simp add: put_impl_def)
qed

lemma destroy_accounted:
  assumes ok: "loop_ok (r, s)" and socks: "sockets_ok socks r" and run: "svc_destroy (socks k) (r, s) os = Some (impl, l, os')"
    and impl: "reactor_data impl' = None"
  shows "accounted {#} (r, s) (socks(k := impl'), l, os')"
proof (cases "is_open (socks k)")
  case True
  obtain d1 r1 s1 d2 r2 where d: "deregister_descriptor (reactor_data (socks k)) (sstate (socks k) AND possible_dup = 0) (r, s) = (d1, r1, s1)"
    "cleanup_descriptor_data d1 r1 = (d2, r2)" by (rule deregister_cases)
  have "l = (r2, s1)" using run True d by (auto simp: svc_destroy_def bind_eq_Some_conv)
  then show ?thesis using closed_accounted [OF ok socks impl d] by simp
next
  case False
  then have "l = (r, s)" using run by (auto simp: svc_destroy_def)
  then show ?thesis using sockets_closed [OF socks impl, of k r] ok by (simp add: accounted_def effect_refl)
qed

lemma sockets_moved:
  assumes ok: "sockets_ok socks r" and "reactor_data (socks k) = None" "k \<noteq> j"
    and "reactor_data impl = reactor_data (socks j)" "reactor_data other = None"
  shows "sockets_ok (socks(k := impl, j := other)) r"
proof -
  let ?f = "\<lambda>i. if i = k then j else i"
  have data: "reactor_data (socks (?f i)) = Some d \<and> i \<noteq> j" if "reactor_data ((socks(k := impl, j := other)) i) = Some d" for i d
    using that assms(2-5) by (auto split: if_splits)
  have "i = i'" if "?f i = ?f i'" "i \<noteq> j" "i' \<noteq> j" for i i' using that by (auto split: if_splits)
  then show ?thesis unfolding sockets_ok_def
    using data sockets_okD [OF ok] by blast
qed

lemma move_accounted:
  assumes ok: "loop_ok (r, s)" and socks: "sockets_ok socks r" and "k \<noteq> j"
    and run: "base_move_assign (socks k) (socks j) (r, s) os = Some ((impl, other), l, os')"
  shows "accounted {#} (r, s) (socks(k := impl, j := other), l, os')"
proof -
  obtain impl0 where d: "svc_destroy (socks k) (r, s) os = Some (impl0, l, os')"
    and e: "reactor_data impl = reactor_data (socks j)" "reactor_data other = None"
    using run by (auto simp: base_move_assign_def base_move_construct_def move_descriptor_def bind_eq_Some_conv)
  have "reactor_data construct_impl = None" by (simp add: construct_impl_def)
  note a = destroy_accounted [OF ok socks d this]
  have o: "sockets_ok (socks(k := construct_impl)) (fst l)" "effect {#} (r, s) l" using a by (simp_all add: accounted_def)
  have k: "reactor_data ((socks(k := construct_impl)) k) = None" by (simp add: construct_impl_def)
  have j: "reactor_data impl = reactor_data ((socks(k := construct_impl)) j)" using e(1) \<open>k \<noteq> j\<close> by simp
  have "sockets_ok (socks(k := impl, j := other)) (fst l)"
    using sockets_moved [OF o(1) k \<open>k \<noteq> j\<close> j e(2)] by (simp only: fun_upd_upd)
  then show ?thesis using o(2) by (simp add: accounted_def)
qed

lemma cancel_accounted:
  assumes ok: "loop_ok (r, s)" and socks: "sockets_ok socks r"
  shows "accounted {#} (r, s) (socks, snd (svc_cancel (socks k) (r, s)), os)"
proof (cases "is_open (socks k)")
  case True
  have live: "x \<in> set (live_list (registered r))" if "reactor_data (socks k) = Some x" for x
    using sockets_okD(1) [OF socks that] by (simp add: usable_def)
  show ?thesis
    using True cancel_ops_effect [OF ok live] socks stays_sockets [OF stays_cancel [of r "reactor_data (socks k)" s]]
    by (simp add: accounted_def svc_cancel_def)
next
  case False
  then show ?thesis using unchanged_accounted [OF ok, of socks os] socks by (simp add: svc_cancel_def)
qed

lemma socket_call_accounted:
  assumes ok: "loop_ok (r, s)" and socks: "sockets_ok socks r" and run: "do_socket_call c (socks, (r, s), os) = Some w"
  shows "accounted (mset (started_by c)) (r, s) w"
proof (cases c)
  case (Open k type)
  then show ?thesis using run open_accounted [OF ok socks, of type k os] by auto
next
  case (Assign k type fd)
  then show ?thesis using run assign_accounted [OF ok socks, of type fd k _ _ _ os]
    by (cases "do_assign type fd (socks k) (r, s)") auto
next
  case (Close_sock k)
  then show ?thesis using run close_accounted [OF ok socks, of k os] by auto
next
  case (Destroy k)
  then show ?thesis using run destroy_accounted [OF ok socks, of k os _ _ _ construct_impl] by (auto simp: construct_impl_def)
next
  case (Release k)
  then show ?thesis using run release_accounted [OF ok socks, of k _ _ _ _ os]
    by (cases "svc_release (socks k) (r, s)") auto
next
  case (Cancel_sock k)
  then show ?thesis using run cancel_accounted [OF ok socks, of k os] by auto
next
  case (Move_sock k j)
  then show ?thesis using run move_accounted [OF ok socks, of k j os] by (auto split: if_splits)
next
  case (Send k op c bufs)
  then show ?thesis using run svc_start_accounted [OF ok socks max_ops_bounds(2)] by (auto simp: async_send_def)
next
  case (Receive k op c room flags)
  let ?j = "if flags AND MSG_OOB \<noteq> 0 then except_op else read_op"
  obtain x where x: "async_receive op c room flags (socks k) (r, s) os = Some x" "w = put_impl k socks x" using run Receive by auto
  have "?j < max_ops" by simp
  from svc_start_accounted [OF ok socks this x(1) [unfolded async_receive_def]] show ?thesis using x(2) Receive by simp
next
  case (Accept k op c peer_open)
  then show ?thesis using run accept_accounted [OF ok socks, of op c peer_open k os] by auto
next
  case (Connect k op c unix_domain)
  then show ?thesis using run connect_accounted [OF ok socks, of op c unix_domain k os] by auto
qed

lemma socket_calls_accounted:
  "\<lbrakk>loop_ok (r, s); sockets_ok socks r; do_socket_calls cs (socks, (r, s), os) = Some w\<rbrakk> \<Longrightarrow>
   accounted (mset (concat (map started_by cs))) (r, s) w"
proof (induction cs arbitrary: r s socks os)
  case Nil
  then show ?case using unchanged_accounted [of "(r, s)" socks os] by auto
next
  case (Cons c cs)
  obtain socks1 r1 s1 os1 where 1: "do_socket_call c (socks, (r, s), os) = Some (socks1, (r1, s1), os1)"
    and 2: "do_socket_calls cs (socks1, (r1, s1), os1) = Some w"
    using Cons.prems(3) by (auto simp: bind_eq_Some_conv)
  have a: "sockets_ok socks1 r1" "effect (mset (started_by c)) (r, s) (r1, s1)"
    using socket_call_accounted [OF Cons.prems(1,2) 1] by (simp_all add: accounted_def)
  from Cons.IH [OF effect_ok [OF a(2)] a(1) 2] effect_trans [OF a(2)] show ?case by (auto simp: accounted_def)
qed

text \<open>
  C11. Sockets keep the event loop's accounts. Whatever a program does with its sockets and whatever the system
  answers, every asynchronous operation it started is in exactly one place and no two sockets share a descriptor
  state; and closing a socket hands every operation that waits on it to the queue, marked as cancelled,
  and gives its descriptor state back.
\<close>

theorem sockets_keep_accounts:
  assumes "do_socket_calls cs (\<lambda>_. construct_impl, loop_init hint env, os) = Some (socks, (r, s), os')"
  shows "pending (r, s) = mset (concat (map started_by cs)) \<and> sockets_ok socks r \<and>
    (\<forall>k d. reactor_data (socks k) = Some d \<and> svc_close (socks k) (r, s) os' = Some (ec, impl', (r', s'), os'') \<and>
        is_open (socks k) \<longrightarrow>
      s' = post_deferred_completions (map (\<lambda>op. Io (op_aborted op)) (concat (map (rq (dstate r d)) [0..<max_ops]))) s \<and>
      pending (r', s') = pending (r, s) \<and> impl' = construct_impl \<and> \<not> usable r' d)"
proof -
  have b: "balance 0 0 (program_init [], loop_init hint env)" by (rule init_balance)
  obtain r0 s0 where i: "loop_init hint env = (r0, s0)" by (cases "loop_init hint env") auto
  have ok0: "loop_ok (r0, s0)" "pending (r0, s0) = {#}" using b by (simp_all add: i balance_def program_init_def)
  have "sockets_ok (\<lambda>_. construct_impl) r0" by (simp add: sockets_ok_def construct_impl_def)
  from socket_calls_accounted [OF ok0(1) this] assms
  have a: "accounted (mset (concat (map started_by cs))) (r0, s0) (socks, (r, s), os')" by (simp add: i)
  then have p: "pending (r, s) = mset (concat (map started_by cs))" and socks: "sockets_ok socks r" and ok: "loop_ok (r, s)"
    using ok0(2) effect_ok by (auto simp: accounted_def effect_def)
  have close: "s' = post_deferred_completions (cancelled_ops r (Some d)) s \<and> pending (r', s') = pending (r, s) \<and>
      impl' = construct_impl \<and> \<not> usable r' d"
    if k: "reactor_data (socks k) = Some d" and c: "svc_close (socks k) (r, s) os' = Some (ec, impl', (r', s'), os'')"
      and op_k: "is_open (socks k)" for k d
  proof -
    obtain d1 r1 s1 d2 r2 where d: "deregister_descriptor (reactor_data (socks k)) (sstate (socks k) AND possible_dup = 0) (r, s) = (d1, r1, s1)"
      "cleanup_descriptor_data d1 r1 = (d2, r2)" by (rule deregister_cases)
    have u: "usable r x" if "reactor_data (socks k) = Some x" for x by (rule sockets_okD(1) [OF socks that])
    note parts = deregister_parts [OF ok u d]
    have "impl' = construct_impl" "r' = r2" "s' = s1" using c d op_k by (auto simp: svc_close_def bind_eq_Some_conv)
    then show ?thesis using parts(1,3) parts(5) [OF _ k] k by (simp add: effect_def)
  qed
  show ?thesis using p socks close unfolding cancelled_ops_def by auto
qed

lemmas service_simps = sample_op_def construct_impl_def is_open_def do_open_def sock_close_def
  async_receive_def async_send_def svc_start_op_def ready_to_start_def set_internal_non_blocking_def
  state_of_type_def put_impl_def SOCK_STREAM_def SOCK_DGRAM_def MSG_OOB_def possible_dup_def
  invalid_socket_def sys_def has_def stream_oriented_def datagram_oriented_def non_blocking_def
  user_set_non_blocking_def internal_non_blocking_def svc_close_def deregister_descriptor_def cleanup_descriptor_data_def

theorem sockets_keep_accounts_witness:
  "\<exists>socks r s. do_socket_calls [Open 0 SOCK_STREAM, Receive 0 sample_op False 10 0]
        (\<lambda>_. construct_impl, loop_init 1 (sample_env\<lparr>performs := \<lambda>_. (Not_done, None, 0)\<rparr>),
          [Inr (7, ()), Inr (0, ()), Inr (0, ())]) = Some (socks, (r, s), [Inr (0, ())]) \<and>
     pending (r, s) = {#1#} \<and> reactor_data (socks 0) = Some 0 \<and>
     (\<exists>r' s'. svc_close (socks 0) (r, s) [Inr (0, ())] = Some (None, construct_impl, (r', s'), []) \<and>
        s' = post_deferred_completions [Io (op_aborted sample_op)] s \<and> pending (r', s') = {#1#} \<and> \<not> usable r' 0)"
proof -
  let ?calls = "[Open 0 SOCK_STREAM, Receive 0 sample_op False 10 0]"
  let ?start = "(\<lambda>_. construct_impl, loop_init 1 (sample_env\<lparr>performs := \<lambda>_. (Not_done, None, 0)\<rparr>),
          [Inr (7, ()), Inr (0, ()), Inr (0, ())] :: unit answer list)"
  obtain socks r s where run: "do_socket_calls ?calls ?start = Some (socks, (r, s), [Inr (0, ())])"
      and d: "reactor_data (socks 0) = Some 0" "is_open (socks 0)" and q: "concat (map (rq (dstate r 0)) [0..<max_ops]) = [sample_op]"
      and "\<exists>r' s'. svc_close (socks 0) (r, s) [Inr (0, ())] = Some (None, construct_impl, (r', s'), [])"
    by (auto simp: service_simps setup_simps wait_for_events_def perform_def upt_rec take_all_def would_wait_def get_last_error_def)
  then obtain r' s' where c: "svc_close (socks 0) (r, s) [Inr (0, ())] = Some (None, construct_impl, (r', s'), [])" by blast
  have "mset (concat (map started_by ?calls)) = {#1#}" by (simp add: sample_op_def)
  then have p: "pending (r, s) = {#1#}" using sockets_keep_accounts [OF run] by simp
  then have s: "s' = post_deferred_completions [Io (op_aborted sample_op)] s \<and> pending (r', s') = {#1#} \<and> \<not> usable r' 0"
    using sockets_keep_accounts [OF run, THEN conjunct2, THEN conjunct2, rule_format, OF conjI [OF d(1) conjI [OF c d(2)]]]
    unfolding q p list.map by blast
  have "\<exists>r' s'. svc_close (socks 0) (r, s) [Inr (0, ())] = Some (None, construct_impl, (r', s'), []) \<and>
        s' = post_deferred_completions [Io (op_aborted sample_op)] s \<and> pending (r', s') = {#1#} \<and> \<not> usable r' 0"
    using c s by blast
  with run p d(1) show ?thesis by blast
qed

end
