(* ===== verification/Asio_Typed_Sockets.thy ===== *)
theory Asio_Typed_Sockets
  imports Asio_Socket_Service Asio_Address
begin

text \<open>
  The service of a TCP or UDP socket (\<open>detail/reactive_socket_service.hpp\<close> with \<open>ip/tcp.hpp\<close> and
  \<open>ip/udp.hpp\<close>): a socket of \<open>Asio_Socket_Service\<close> that remembers its protocol, with the operations that
  take addresses. The two instances of the template are the two values of \<open>protocol_kind\<close>. What a call
  writes is a triple: data, an address, and the length the system gives for the address.
\<close>

unbundle bit_operations_syntax

section \<open>Protocols\<close>

datatype protocol_kind = Tcp | Udp

datatype protocol = tcp (protocol_family: af) | udp (protocol_family: af)

fun kind_of :: "protocol \<Rightarrow> protocol_kind" where
  "kind_of (tcp _) = Tcp"
| "kind_of (udp _) = Udp"

fun protocol_type :: "protocol \<Rightarrow> int" where
  "protocol_type (tcp _) = SOCK_STREAM"
| "protocol_type (udp _) = SOCK_DGRAM"

fun protocol_v4 :: "protocol_kind \<Rightarrow> protocol" where
  "protocol_v4 Tcp = tcp AF_INET"
| "protocol_v4 Udp = udp AF_INET"

fun protocol_v6 :: "protocol_kind \<Rightarrow> protocol" where
  "protocol_v6 Tcp = tcp AF_INET6"
| "protocol_v6 Udp = udp AF_INET6"

definition endpoint_protocol :: "protocol_kind \<Rightarrow> endpoint_data \<Rightarrow> protocol" where
  "endpoint_protocol kind e = (if ep_is_v4 e then protocol_v4 kind else protocol_v6 kind)"

section \<open>A socket and its protocol\<close>

type_synonym filled = "bytes \<times> endpoint_data \<times> nat"
type_synonym filled_answers = "filled answer list"

record typed_impl =
  base_impl :: socket_impl
  proto :: protocol                 \<comment> \<open>\<open>protocol_\<close>\<close>

definition typed_construct :: "protocol_kind \<Rightarrow> typed_impl" where
  "typed_construct kind = \<lparr>base_impl = construct_impl, proto = endpoint_protocol kind ep_default\<rparr>"

definition typed_move_construct :: "protocol_kind \<Rightarrow> typed_impl \<Rightarrow> typed_impl \<times> typed_impl" where
  "typed_move_construct kind other =
     (let (i, j) = base_move_construct (base_impl other)
      in (\<lparr>base_impl = i, proto = proto other\<rparr>, \<lparr>base_impl = j, proto = endpoint_protocol kind ep_default\<rparr>))"

definition typed_move_assign ::
  "protocol_kind \<Rightarrow> typed_impl \<Rightarrow> typed_impl \<Rightarrow> loop \<Rightarrow> 'x answer list
     \<Rightarrow> ((typed_impl \<times> typed_impl) \<times> loop \<times> 'x answer list) option" where
  "typed_move_assign kind s other l os =
     map_option (\<lambda>((i, j), r). ((\<lparr>base_impl = i, proto = proto other\<rparr>,
                                 \<lparr>base_impl = j, proto = endpoint_protocol kind ep_default\<rparr>), r))
       (base_move_assign (base_impl s) (base_impl other) l os)"

definition typed_open ::
  "protocol \<Rightarrow> typed_impl \<Rightarrow> loop \<Rightarrow> 'x answer list \<Rightarrow> (errc option \<times> typed_impl \<times> loop \<times> 'x answer list) option" where
  "typed_open p s l os =
     map_option (\<lambda>(ec, i, r). (ec, \<lparr>base_impl = i, proto = (if ec = None then p else proto s)\<rparr>, r))
       (do_open (protocol_type p) (base_impl s) l os)"

definition typed_assign :: "protocol \<Rightarrow> int \<Rightarrow> typed_impl \<Rightarrow> loop \<Rightarrow> errc option \<times> typed_impl \<times> loop" where
  "typed_assign p native_socket s l =
     (let (ec, i, l) = do_assign (protocol_type p) native_socket (base_impl s) l
      in (ec, \<lparr>base_impl = i, proto = (if ec = None then p else proto s)\<rparr>, l))"

definition native_handle :: "typed_impl \<Rightarrow> int" where
  "native_handle s = native (base_impl s)"

section \<open>Calls that change nothing but the system\<close>

definition typed_bind :: "typed_impl \<Rightarrow> 'x answer list \<Rightarrow> (errc option \<times> 'x answer list) option" where
  "typed_bind s os = map_option (\<lambda>(_, r). r) (sock_bind (native (base_impl s)) os)"

definition typed_shutdown :: "typed_impl \<Rightarrow> 'x answer list \<Rightarrow> (errc option \<times> 'x answer list) option" where
  "typed_shutdown s os = map_option (\<lambda>(_, r). r) (sock_shutdown (native (base_impl s)) os)"

definition set_option ::
  "sock_option \<Rightarrow> int \<Rightarrow> nat \<Rightarrow> typed_impl \<Rightarrow> 'x answer list \<Rightarrow> (errc option \<times> typed_impl \<times> 'x answer list) option" where
  \<comment> \<open>with the value and the size of the option\<close>
  "set_option opt optval optlen s os =
     map_option (\<lambda>(_, ec, st, os). (ec, s\<lparr>base_impl := (base_impl s)\<lparr>sstate := st\<rparr>\<rparr>, os))
       (sock_setsockopt (native (base_impl s)) (sstate (base_impl s)) opt optval optlen os)"

definition get_option ::
  "sock_option \<Rightarrow> nat \<Rightarrow> typed_impl \<Rightarrow> 'x answer list \<Rightarrow> (errc option \<times> int \<times> 'x answer list) option" where
  "get_option opt optlen s os =
     map_option (\<lambda>(_, r). r) (sock_getsockopt (native (base_impl s)) (sstate (base_impl s)) opt optlen os)"

definition sockaddr_storage_size :: nat where "sockaddr_storage_size = 128"

definition resized :: "endpoint_data \<Rightarrow> nat \<Rightarrow> exn + endpoint_data" where
  \<comment> \<open>\<open>endpoint.resize(addr_len)\<close> on an endpoint that holds \<open>e\<close>\<close>
  "resized e addr_len = (case ep_resize sockaddr_storage_size addr_len of Inl x \<Rightarrow> Inl x | Inr _ \<Rightarrow> Inr e)"

fun named_endpoint :: "int \<times> errc option \<times> filled option \<times> filled_answers \<Rightarrow> (exn + endpoint_data) \<times> errc option \<times> filled_answers" where
  \<comment> \<open>what \<open>local_endpoint\<close> and \<open>remote_endpoint\<close> make of the answer\<close>
  "named_endpoint (result, ec, Some (_, e, addr_len), os) = (if result \<noteq> 0 then Inr ep_default else resized e addr_len, ec, os)"
| "named_endpoint (result, ec, None, os) = (Inr ep_default, ec, os)"

definition local_endpoint :: "typed_impl \<Rightarrow> filled_answers \<Rightarrow> ((exn + endpoint_data) \<times> errc option \<times> filled_answers) option" where
  "local_endpoint s os = map_option named_endpoint (sock_getsockname (native (base_impl s)) os)"

definition remote_endpoint :: "typed_impl \<Rightarrow> filled_answers \<Rightarrow> ((exn + endpoint_data) \<times> errc option \<times> filled_answers) option" where
  "remote_endpoint s os = map_option named_endpoint (sock_getpeername (native (base_impl s)) os)"

definition send_to :: "bool \<Rightarrow> typed_impl \<Rightarrow> 'x answer list \<Rightarrow> (int \<times> errc option \<times> 'x answer list) option" where
  \<comment> \<open>\<open>single\<close>: is there one buffer\<close>
  "send_to single s os =
     map_option (\<lambda>(n, ec, out, os). (n, ec, os))
       ((if single then sync_sendto1 else sync_sendto) (native (base_impl s)) (sstate (base_impl s)) os)"

definition send_to_null :: "typed_impl \<Rightarrow> 'x answer list \<Rightarrow> (int \<times> errc option \<times> 'x answer list) option" where
  "send_to_null s os = map_option (\<lambda>(_, r). (0, r)) (poll_write (native (base_impl s)) (sstate (base_impl s)) os)"

fun received_from ::
  "endpoint_data \<Rightarrow> int \<times> errc option \<times> filled option \<times> filled_answers
     \<Rightarrow> (exn + int \<times> errc option \<times> bytes \<times> endpoint_data) \<times> filled_answers" where
  "received_from sender (n, None, Some (data, e, addr_len), os) =
     (map_sum id (\<lambda>e. (n, None, data, e)) (resized e addr_len), os)"
| "received_from sender (n, ec, _, os) = (Inr (n, ec, [], sender), os)"

definition receive_from ::
  "bool \<Rightarrow> endpoint_data \<Rightarrow> typed_impl \<Rightarrow> filled_answers
     \<Rightarrow> ((exn + int \<times> errc option \<times> bytes \<times> endpoint_data) \<times> filled_answers) option" where
  \<comment> \<open>with the endpoint the caller had; the count, the error, the data and the sender, or an exception of \<open>resize\<close>\<close>
  "receive_from single sender s os =
     map_option (received_from sender)
       ((if single then sync_recvfrom1 else sync_recvfrom) (native (base_impl s)) (sstate (base_impl s)) os)"

definition receive_from_null :: "typed_impl \<Rightarrow> 'x answer list \<Rightarrow> (int \<times> errc option \<times> endpoint_data \<times> 'x answer list) option" where
  "receive_from_null s os =
     map_option (\<lambda>(_, ec, os). (0, ec, ep_default, os)) (poll_read (native (base_impl s)) (sstate (base_impl s)) os)"

definition typed_connect :: "(int \<Rightarrow> errc) \<Rightarrow> typed_impl \<Rightarrow> 'x answer list \<Rightarrow> (errc option \<times> 'x answer list) option" where
  "typed_connect sys_errc s os = sync_connect sys_errc (native (base_impl s)) False os"

section \<open>Accepting\<close>

definition holder_close :: "int \<Rightarrow> 'x answer list \<Rightarrow> 'x answer list option" where
  \<comment> \<open>the destructor of a \<open>socket_holder\<close>\<close>
  "holder_close socket os =
     (if socket \<noteq> invalid_socket then map_option (\<lambda>(_, _, _, os). os) (sock_close socket 0 True None os) else Some os)"

definition typed_accept ::
  "typed_impl \<Rightarrow> typed_impl \<Rightarrow> endpoint_data option \<Rightarrow> loop \<Rightarrow> filled_answers
     \<Rightarrow> ((exn + errc option) \<times> typed_impl \<times> endpoint_data option \<times> loop \<times> filled_answers) option" where
  "typed_accept s peer peer_endpoint l os =
     (if is_open (base_impl peer) then Some (Inr (Some already_open), peer, peer_endpoint, l, os)
      else Option.bind (sync_accept (native (base_impl s)) (sstate (base_impl s)) os) (\<lambda>(new_socket, ec, out, os).
        if new_socket \<noteq> invalid_socket then
          let (peer_endpoint, size) = (case (peer_endpoint, out) of
                (Some _, Some (_, e, addr_len)) \<Rightarrow> (Some e, resized e addr_len)
              | _ \<Rightarrow> (peer_endpoint, Inr ep_default))
          in case size of
               Inl x \<Rightarrow> map_option (\<lambda>os. (Inl x, peer, peer_endpoint, l, os)) (holder_close new_socket os)
             | Inr _ \<Rightarrow>
                 let (ec, peer, l) = typed_assign (proto s) new_socket peer l
                 in map_option (\<lambda>os. (Inr ec, peer, peer_endpoint, l, os))
                      (if ec = None then Some os else holder_close new_socket os)
        else Some (Inr ec, peer, peer_endpoint, l, os)))"

section \<open>Starting operations\<close>

definition on_base :: "typed_impl \<Rightarrow> socket_impl \<times> 'r \<Rightarrow> typed_impl \<times> 'r" where
  "on_base s r = (case r of (i, r) \<Rightarrow> (s\<lparr>base_impl := i\<rparr>, r))"

type_synonym 'x starting = "typed_impl \<Rightarrow> loop \<Rightarrow> 'x answer list \<Rightarrow> (typed_impl \<times> loop \<times> 'x answer list) option"

definition async_send_to :: "reactor_op \<Rightarrow> bool \<Rightarrow> 'x starting" where
  "async_send_to op is_continuation s l os =
     map_option (on_base s) (svc_start_op write_op op is_continuation True False (base_impl s) l os)"

definition async_send_to_null :: "reactor_op \<Rightarrow> bool \<Rightarrow> 'x starting" where
  "async_send_to_null op is_continuation s l os =
     map_option (on_base s) (svc_start_op write_op op is_continuation False False (base_impl s) l os)"

definition receive_op_type :: "u32 \<Rightarrow> nat" where
  "receive_op_type flags = (if flags AND MSG_OOB \<noteq> 0 then except_op else read_op)"

definition async_receive_from :: "reactor_op \<Rightarrow> bool \<Rightarrow> u32 \<Rightarrow> 'x starting" where
  "async_receive_from op is_continuation flags s l os =
     map_option (on_base s) (svc_start_op (receive_op_type flags) op is_continuation True False (base_impl s) l os)"

definition async_receive_from_null :: "reactor_op \<Rightarrow> bool \<Rightarrow> u32 \<Rightarrow> 'x starting" where
  \<comment> \<open>and the endpoint is reset\<close>
  "async_receive_from_null op is_continuation flags s l os =
     map_option (on_base s) (svc_start_op (receive_op_type flags) op is_continuation False False (base_impl s) l os)"

definition async_accept :: "reactor_op \<Rightarrow> bool \<Rightarrow> typed_impl \<Rightarrow> 'x starting" where
  "async_accept op is_continuation peer s l os =
     map_option (on_base s) (start_accept_op op is_continuation (is_open (base_impl peer)) (base_impl s) l os)"

definition async_move_accept :: "reactor_op \<Rightarrow> bool \<Rightarrow> 'x starting" where
  "async_move_accept op is_continuation s l os =
     map_option (on_base s) (start_accept_op op is_continuation False (base_impl s) l os)"

definition async_connect :: "reactor_op \<Rightarrow> bool \<Rightarrow> 'x starting" where
  "async_connect op is_continuation s l os =
     map_option (on_base s) (start_connect_op op is_continuation False (base_impl s) l os)"

definition accepted_peer :: "protocol \<Rightarrow> int \<Rightarrow> errc option \<Rightarrow> typed_impl \<Rightarrow> loop \<Rightarrow> errc option \<times> int \<times> typed_impl \<times> loop" where
  \<comment> \<open>\<open>do_assign\<close> of an accepting operation, with what its holder has afterwards\<close>
  "accepted_peer p new_socket ec peer l =
     (if new_socket \<noteq> invalid_socket then
        let (ec, peer, l) = typed_assign p new_socket peer l
        in (ec, if ec = None then invalid_socket else new_socket, peer, l)
      else (ec, new_socket, peer, l))"

section \<open>A program with TCP and UDP sockets\<close>

datatype typed_call =
    T_open nat protocol
  | T_assign nat protocol int
  | T_close nat
  | T_destroy nat                        \<comment> \<open>and a new socket object in its place\<close>
  | T_release nat
  | T_cancel nat
  | T_move nat nat                       \<comment> \<open>assigned from the second\<close>
  | T_bind nat
  | T_shutdown nat
  | T_set_option nat sock_option int nat
  | T_send_to nat bool
  | T_receive_from nat bool
  | T_connect nat
  | T_accept nat nat "endpoint_data option"   \<comment> \<open>into the second\<close>
  | T_async_send nat reactor_op bool buffers
  | T_async_receive nat reactor_op bool nat u32
  | T_async_send_to nat reactor_op bool bool      \<comment> \<open>with \<open>null_buffers\<close>?\<close>
  | T_async_receive_from nat reactor_op bool bool u32
  | T_async_accept nat reactor_op bool "nat option"  \<comment> \<open>into a socket, or one that is made for it\<close>
  | T_async_connect nat reactor_op bool

type_synonym typed_world = "(nat \<Rightarrow> typed_impl) \<times> loop \<times> filled_answers"

fun typed_starts :: "typed_call \<Rightarrow> nat list" where
  "typed_starts (T_async_send k op c bufs) = [rop_id op]"
| "typed_starts (T_async_receive k op c room flags) = [rop_id op]"
| "typed_starts (T_async_send_to k op c nul) = [rop_id op]"
| "typed_starts (T_async_receive_from k op c nul flags) = [rop_id op]"
| "typed_starts (T_async_accept k op c peer) = [rop_id op]"
| "typed_starts (T_async_connect k op c) = [rop_id op]"
| "typed_starts _ = []"

definition put_typed :: "nat \<Rightarrow> (nat \<Rightarrow> typed_impl) \<Rightarrow> typed_impl \<times> loop \<times> filled_answers \<Rightarrow> typed_world" where
  "put_typed k socks r = (case r of (s, l, os) \<Rightarrow> (socks(k := s), l, os))"

fun do_typed_call :: "(nat \<Rightarrow> protocol_kind) \<Rightarrow> (int \<Rightarrow> errc) \<Rightarrow> typed_call \<Rightarrow> typed_world \<Rightarrow> typed_world option" where
  \<comment> \<open>\<open>None\<close> also where the kinds do not fit: such a call does not compile\<close>
  "do_typed_call kinds se (T_open k p) (socks, l, os) =
     (if kind_of p \<noteq> kinds k then None else map_option (\<lambda>(ec, r). put_typed k socks r) (typed_open p (socks k) l os))"
| "do_typed_call kinds se (T_assign k p fd) (socks, l, os) =
     (if kind_of p \<noteq> kinds k then None
      else case typed_assign p fd (socks k) l of (ec, s, l) \<Rightarrow> Some (put_typed k socks (s, l, os)))"
| "do_typed_call kinds se (T_close k) (socks, l, os) =
     map_option (\<lambda>(ec, r). put_typed k socks (on_base (socks k) r)) (svc_close (base_impl (socks k)) l os)"
| "do_typed_call kinds se (T_destroy k) (socks, l, os) =
     map_option (\<lambda>(i, l, os). (socks(k := typed_construct (kinds k)), l, os)) (svc_destroy (base_impl (socks k)) l os)"
| "do_typed_call kinds se (T_release k) (socks, l, os) =
     (case svc_release (base_impl (socks k)) l of (fd, ec, i, l) \<Rightarrow> Some (put_typed k socks (on_base (socks k) (i, l, os))))"
| "do_typed_call kinds se (T_cancel k) (socks, l, os) = Some (socks, snd (svc_cancel (base_impl (socks k)) l), os)"
| "do_typed_call kinds se (T_move k j) (socks, l, os) =
     (if k = j \<or> kinds k \<noteq> kinds j then None
      else map_option (\<lambda>((s, other), l, os). (socks(k := s, j := other), l, os))
             (typed_move_assign (kinds k) (socks k) (socks j) l os))"
| "do_typed_call kinds se (T_bind k) (socks, l, os) = map_option (\<lambda>(ec, os). (socks, l, os)) (typed_bind (socks k) os)"
| "do_typed_call kinds se (T_shutdown k) (socks, l, os) = map_option (\<lambda>(ec, os). (socks, l, os)) (typed_shutdown (socks k) os)"
| "do_typed_call kinds se (T_set_option k opt v len) (socks, l, os) =
     map_option (\<lambda>(ec, s, os). put_typed k socks (s, l, os)) (set_option opt v len (socks k) os)"
| "do_typed_call kinds se (T_send_to k single) (socks, l, os) =
     map_option (\<lambda>(n, ec, os). (socks, l, os)) (send_to single (socks k) os)"
| "do_typed_call kinds se (T_receive_from k single) (socks, l, os) =
     map_option (\<lambda>(x, os). (socks, l, os)) (receive_from single ep_default (socks k) os)"
| "do_typed_call kinds se (T_connect k) (socks, l, os) =
     map_option (\<lambda>(ec, os). (socks, l, os)) (typed_connect se (socks k) os)"
| "do_typed_call kinds se (T_accept k j ep) (socks, l, os) =
     (if kinds k \<noteq> kinds j then None
      else map_option (\<lambda>(res, peer, ep, r). put_typed j socks (peer, r)) (typed_accept (socks k) (socks j) ep l os))"
| "do_typed_call kinds se (T_async_send k op c bufs) (socks, l, os) =
     map_option (put_typed k socks \<circ> on_base (socks k)) (async_send op c bufs (base_impl (socks k)) l os)"
| "do_typed_call kinds se (T_async_receive k op c room flags) (socks, l, os) =
     map_option (put_typed k socks \<circ> on_base (socks k)) (async_receive op c room flags (base_impl (socks k)) l os)"
| "do_typed_call kinds se (T_async_send_to k op c nul) (socks, l, os) =
     map_option (put_typed k socks) ((if nul then async_send_to_null op c else async_send_to op c) (socks k) l os)"
| "do_typed_call kinds se (T_async_receive_from k op c nul flags) (socks, l, os) =
     map_option (put_typed k socks)
       ((if nul then async_receive_from_null op c flags else async_receive_from op c flags) (socks k) l os)"
| "do_typed_call kinds se (T_async_accept k op c peer) (socks, l, os) =
     map_option (put_typed k socks)
       ((case peer of None \<Rightarrow> async_move_accept op c | Some j \<Rightarrow> async_accept op c (socks j)) (socks k) l os)"
| "do_typed_call kinds se (T_async_connect k op c) (socks, l, os) =
     map_option (put_typed k socks) (async_connect op c (socks k) l os)"

fun do_typed_calls :: "(nat \<Rightarrow> protocol_kind) \<Rightarrow> (int \<Rightarrow> errc) \<Rightarrow> typed_call list \<Rightarrow> typed_world \<Rightarrow> typed_world option" where
  "do_typed_calls kinds se [] w = Some w"
| "do_typed_calls kinds se (c # cs) w = Option.bind (do_typed_call kinds se c w) (do_typed_calls kinds se cs)"

section \<open>What a socket remembers of its kind\<close>

definition orientation :: "state_type \<Rightarrow> state_type" where
  "orientation st = st AND (stream_oriented OR datagram_oriented)"

definition typed_ok :: "protocol_kind \<Rightarrow> typed_impl \<Rightarrow> bool" where
  "typed_ok kind s =
     (kind_of (proto s) = kind \<and>
      (is_open (base_impl s) \<longrightarrow> orientation (sstate (base_impl s)) = state_of_type (protocol_type (proto s))))"

definition keeps :: "socket_impl \<Rightarrow> socket_impl \<Rightarrow> bool" where
  \<comment> \<open>what calls on an open socket leave alone\<close>
  "keeps i i' = (is_open i' \<longrightarrow> is_open i \<and> orientation (sstate i') = orientation (sstate i))"

lemmas flag_defs = stream_oriented_def datagram_oriented_def internal_non_blocking_def user_set_non_blocking_def
  enable_connection_aborted_def user_set_linger_def possible_dup_def

lemma orientation_set:
  "f AND (stream_oriented OR datagram_oriented) = 0 \<Longrightarrow> orientation (st OR f) = orientation st"
  by (simp add: orientation_def bit.conj_disj_distrib2)

lemma orientation_clear:
  assumes "f AND (stream_oriented OR datagram_oriented) = 0"
  shows "orientation (st AND NOT f) = orientation st"
proof -
  let ?m = "stream_oriented OR datagram_oriented"
  have "?m = (f OR NOT f) AND ?m" by simp
  also have "\<dots> = f AND ?m OR NOT f AND ?m" by (rule bit.conj_disj_distrib2)
  finally have "NOT f AND ?m = ?m" using assms by simp
  then show ?thesis by (simp only: orientation_def and.assoc)
qed

lemma orientation_flags [simp]:
  "orientation (st OR internal_non_blocking) = orientation st"
  "orientation (st OR enable_connection_aborted) = orientation st"
  "orientation (st OR user_set_linger) = orientation st"
  "orientation (st OR possible_dup) = orientation st"
  "orientation (st AND NOT enable_connection_aborted) = orientation st"
  "orientation (st AND NOT internal_non_blocking) = orientation st"
  by (rule orientation_set orientation_clear; simp add: flag_defs)+

lemma orientation_of_type [simp]: "orientation (state_of_type t) = state_of_type t"
  by (simp add: orientation_def state_of_type_def flag_defs)

lemma keeps_refl [simp]: "keeps i i" and keeps_closed [simp]: "keeps i construct_impl"
  by (simp_all add: keeps_def construct_impl_def is_open_def)

lemma ready_keeps: "ready_to_start i op os = Some (ok, i', op', os') \<Longrightarrow> keeps i i'"
  by (auto simp: ready_to_start_def set_internal_non_blocking_def keeps_def is_open_def Let_def
      split: if_splits list.splits prod.splits)

lemma start_keeps: "svc_start_op j op c nb noop i l os = Some (i', r) \<Longrightarrow> keeps i i'"
  by (auto simp: svc_start_op_def dest: ready_keeps split: if_splits)

lemma accept_keeps: "start_accept_op op c p i l os = Some (i', r) \<Longrightarrow> keeps i i'"
  by (auto simp: start_accept_op_def dest: start_keeps split: if_splits)

lemma connect_keeps: "start_connect_op op c u i l os = Some (i', r) \<Longrightarrow> keeps i i'"
  by (auto simp: start_connect_op_def bind_eq_Some_conv dest: ready_keeps split: if_splits)

lemma close_keeps: "svc_close i l os = Some (ec, i', r) \<Longrightarrow> keeps i i'"
  by (cases "cleanup_descriptor_data (fst (deregister_descriptor (reactor_data i) (sstate i AND possible_dup = 0) l))
        (fst (snd (deregister_descriptor (reactor_data i) (sstate i AND possible_dup = 0) l)))")
    (auto simp: svc_close_def bind_eq_Some_conv Let_def split: if_splits prod.splits)

lemma release_keeps: "svc_release i l = (fd, ec, i', r) \<Longrightarrow> keeps i i'"
  by (auto simp: svc_release_def Let_def split: if_splits prod.splits)

lemma system_option_state: "setsockopt_system st os = Some (r, ec, st', os') \<Longrightarrow> st' = st"
  by (cases os) (auto simp: Let_def split: prod.splits)

lemma option_keeps: "set_option opt v len s os = Some (ec, s', os') \<Longrightarrow> keeps (base_impl s) (base_impl s') \<and> proto s' = proto s"
  by (auto simp: set_option_def sock_setsockopt_def keeps_def is_open_def Let_def dest!: system_option_state split: if_splits)

lemma typed_ok_keeps: "typed_ok kind s \<Longrightarrow> keeps (base_impl s) i \<Longrightarrow> typed_ok kind (s\<lparr>base_impl := i\<rparr>)"
  by (simp add: typed_ok_def keeps_def)

lemma on_base_ok:
  "typed_ok kind s \<Longrightarrow> keeps (base_impl s) (fst r) \<Longrightarrow> typed_ok kind (fst (on_base s r))"
  by (auto simp: on_base_def typed_ok_keeps split: prod.split)

lemma kind_of_default [simp]: "kind_of (endpoint_protocol kind e) = kind"
  by (cases kind) (simp_all add: endpoint_protocol_def)

lemma construct_ok: "typed_ok kind (typed_construct kind)"
  by (simp add: typed_ok_def typed_construct_def construct_impl_def is_open_def)

lemma open_ok:
  "typed_ok kind s \<Longrightarrow> kind_of p = kind \<Longrightarrow> typed_open p s l os = Some (ec, s', r) \<Longrightarrow> typed_ok kind s'"
  by (auto simp: typed_open_def do_open_def typed_ok_def is_open_def bind_eq_Some_conv Let_def
      split: if_splits option.splits prod.splits)

lemma assign_ok:
  "typed_ok kind s \<Longrightarrow> kind_of p = kind \<Longrightarrow> typed_assign p fd s l = (ec, s', r) \<Longrightarrow> typed_ok kind s'"
  by (auto simp: typed_assign_def do_assign_def typed_ok_def is_open_def Let_def
      split: if_splits option.splits prod.splits)

lemma move_ok:
  "typed_ok kind other \<Longrightarrow> typed_move_assign kind s other l os = Some ((s', other'), r) \<Longrightarrow>
   typed_ok kind s' \<and> typed_ok kind other'"
  by (auto simp: typed_move_assign_def base_move_assign_def base_move_construct_def move_descriptor_def
      bind_eq_Some_conv typed_ok_def is_open_def)

section \<open>Every call keeps the accounts\<close>

definition bases :: "(nat \<Rightarrow> typed_impl) \<Rightarrow> nat \<Rightarrow> socket_impl" where
  "bases socks = base_impl \<circ> socks"

lemma bases_simps [simp]:
  "bases socks k = base_impl (socks k)" "bases (socks(k := s)) = (bases socks)(k := base_impl s)"
  "(\<lambda>k. base_impl (socks k)) = bases socks"
  by (auto simp: bases_def)

definition base_world :: "typed_world \<Rightarrow> filled socket_world" where
  "base_world w = (bases (fst w), snd w)"

definition step_ok :: "(nat \<Rightarrow> protocol_kind) \<Rightarrow> nat multiset \<Rightarrow> reactor \<times> oper scheduler \<Rightarrow> typed_world \<Rightarrow> bool" where
  "step_ok kinds new l w = (accounted new l (base_world w) \<and> (\<forall>k. typed_ok (kinds k) (fst w k)))"

lemma base_put: "base_world (put_typed k socks (s, r)) = put_impl k (bases socks) (base_impl s, r)"
  by (cases r) (simp add: base_world_def put_typed_def put_impl_def)

lemma replaced_ok:
  assumes "\<And>k. typed_ok (kinds k) (socks k)" "typed_ok (kinds k) s"
    and "accounted new l (put_impl k (bases socks) (base_impl s, r))"
  shows "step_ok kinds new l (put_typed k socks (s, r))"
  using assms by (cases r) (simp add: step_ok_def base_put, simp add: put_typed_def)

lemma kept_ok:
  assumes typed: "\<And>k. typed_ok (kinds k) (socks k)" and keeps: "keeps (base_impl (socks k)) (fst x)"
    and acc: "accounted new l (put_impl k (bases socks) x)"
  shows "step_ok kinds new l (put_typed k socks (on_base (socks k) x))"
proof -
  obtain i r where x: "x = (i, r)" by (cases x)
  have "typed_ok (kinds k) ((socks k)\<lparr>base_impl := i\<rparr>)" using typed_ok_keeps typed keeps x by fastforce
  then have "step_ok kinds new l (put_typed k socks ((socks k)\<lparr>base_impl := i\<rparr>, r))"
    using acc x by (intro replaced_ok typed) simp_all
  then show ?thesis by (simp add: x on_base_def)
qed

lemma same_ok:
  assumes "\<And>k. typed_ok (kinds k) (socks k)" "loop_ok (r, s)" "sockets_ok (bases socks) r"
  shows "step_ok kinds {#} (r, s) (socks, (r, s), os)"
  using assms unchanged_accounted [of "(r, s)" "bases socks" os] by (simp add: step_ok_def base_world_def)

lemma assigned_ok:
  assumes typed: "\<And>k. typed_ok (kinds k) (socks k)" and ok: "loop_ok (r, s)" and socks: "sockets_ok (bases socks) r"
    and p: "kind_of p = kinds k" and run: "typed_assign p fd (socks k) (r, s) = (ec, t, l)"
  shows "step_ok kinds {#} (r, s) (put_typed k socks (t, l, os))"
proof -
  obtain e i l1 where a: "do_assign (protocol_type p) fd ((bases socks) k) (r, s) = (e, i, l1)"
    by (cases "do_assign (protocol_type p) fd ((bases socks) k) (r, s)") auto
  then have "base_impl t = i" "l = l1" using run by (auto simp: typed_assign_def)
  then show ?thesis
    using assign_accounted [OF ok socks a, where os = os] assign_ok [OF typed p run]
    by (intro replaced_ok typed) simp_all
qed

lemma accepted_ok:
  assumes typed: "\<And>k. typed_ok (kinds k) (socks k)" and ok: "loop_ok (r, s)" and socks: "sockets_ok (bases socks) r"
    and k: "kinds k = kinds j" and run: "typed_accept (socks k) (socks j) ep (r, s) os = Some (res, peer, ep', x)"
  shows "step_ok kinds {#} (r, s) (put_typed j socks (peer, x))"
proof -
  have same: "step_ok kinds {#} (r, s) (put_typed j socks (socks j, (r, s), os'))" for os'
    using same_ok [OF typed ok socks] by (simp add: put_typed_def)
  have p: "kind_of (proto (socks k)) = kinds j" using typed [of k] k by (simp add: typed_ok_def)
  show ?thesis
  proof (cases "is_open (base_impl (socks j))")
    case True
    then show ?thesis using run same by (auto simp: typed_accept_def)
  next
    case False
    then obtain fd e out os1 where a: "sync_accept (native (base_impl (socks k))) (sstate (base_impl (socks k))) os = Some (fd, e, out, os1)"
      using run by (auto simp: typed_accept_def bind_eq_Some_conv)
    obtain e1 t l1 where t: "typed_assign (proto (socks k)) fd (socks j) (r, s) = (e1, t, l1)" by (metis prod_cases3)
    have "(\<exists>os'. peer = socks j \<and> x = ((r, s), os')) \<or> (\<exists>os'. peer = t \<and> x = (l1, os'))"
      using run False a t by (auto simp: typed_accept_def split: if_splits sum.splits option.splits)
    then show ?thesis using same assigned_ok [OF typed ok socks p t] by auto
  qed
qed

lemma started_ok:
  assumes typed: "\<And>k. typed_ok (kinds k) (socks k)" and ok: "loop_ok (r, s)" and socks: "sockets_ok (bases socks) r"
  shows "j < max_ops \<Longrightarrow> svc_start_op j op c nb noop (base_impl (socks k)) (r, s) os = Some x \<Longrightarrow>
      step_ok kinds {#rop_id op#} (r, s) (put_typed k socks (on_base (socks k) x))"
    "start_accept_op op c p (base_impl (socks k)) (r, s) os = Some x \<Longrightarrow>
      step_ok kinds {#rop_id op#} (r, s) (put_typed k socks (on_base (socks k) x))"
    "start_connect_op op c u (base_impl (socks k)) (r, s) os = Some x \<Longrightarrow>
      step_ok kinds {#rop_id op#} (r, s) (put_typed k socks (on_base (socks k) x))"
  subgoal by (rule kept_ok [OF typed], metis start_keeps prod.collapse, rule svc_start_accounted [OF ok socks], simp_all)
  subgoal by (rule kept_ok [OF typed], metis accept_keeps prod.collapse, rule accept_accounted [OF ok socks], simp)
  subgoal by (rule kept_ok [OF typed], metis connect_keeps prod.collapse, rule connect_accounted [OF ok socks], simp)
  done

lemma ended_ok:
  assumes typed: "\<And>k. typed_ok (kinds k) (socks k)" and ok: "loop_ok (r, s)" and socks: "sockets_ok (bases socks) r"
  shows "svc_close (base_impl (socks k)) (r, s) os = Some (ec, x) \<Longrightarrow>
      step_ok kinds {#} (r, s) (put_typed k socks (on_base (socks k) x))"
    "svc_release (base_impl (socks k)) (r, s) = (fd, ec, i, l) \<Longrightarrow>
      step_ok kinds {#} (r, s) (put_typed k socks (on_base (socks k) (i, l, os)))"
    "svc_destroy (base_impl (socks k)) (r, s) os = Some (i, l, os') \<Longrightarrow>
      step_ok kinds {#} (r, s) (put_typed k socks (typed_construct (kinds k), l, os'))"
  subgoal using close_accounted [OF ok socks, of k os ec x] close_keeps [of "base_impl (socks k)" "(r, s)" os ec]
    by (cases x) (fastforce intro: kept_ok [OF typed])
  subgoal using release_accounted [OF ok socks, of k fd ec i l os] release_keeps [of "base_impl (socks k)" "(r, s)" fd ec i]
    by (fastforce intro: kept_ok [OF typed])
  subgoal using destroy_accounted [OF ok socks, of k os i l os' construct_impl] construct_ok [of "kinds k"]
    by (intro replaced_ok typed) (simp_all add: typed_construct_def construct_impl_def put_impl_def)
  done

lemma moved_ok:
  assumes typed: "\<And>k. typed_ok (kinds k) (socks k)" and ok: "loop_ok (r, s)" and socks: "sockets_ok (bases socks) r"
    and "k \<noteq> j" "kinds k = kinds j" and run: "typed_move_assign (kinds k) (socks k) (socks j) (r, s) os = Some ((t, other), x)"
  shows "step_ok kinds {#} (r, s) (socks(k := t, j := other), x)"
proof -
  obtain l os' where x: "x = (l, os')" by (cases x)
  then have "base_move_assign ((bases socks) k) ((bases socks) j) (r, s) os = Some ((base_impl t, base_impl other), l, os')"
    using run by (auto simp: typed_move_assign_def)
  from move_accounted [OF ok socks \<open>k \<noteq> j\<close> this]
  have "accounted {#} (r, s) (base_world (socks(k := t, j := other), x))" by (simp add: base_world_def x)
  then show ?thesis using move_ok [OF typed run [unfolded \<open>kinds k = kinds j\<close>]] typed \<open>kinds k = kinds j\<close> by (simp add: step_ok_def)
qed

lemma opened_ok:
  assumes typed: "\<And>k. typed_ok (kinds k) (socks k)" and ok: "loop_ok (r, s)" and socks: "sockets_ok (bases socks) r"
    and p: "kind_of p = kinds k" and run: "typed_open p (socks k) (r, s) os = Some (ec, x)"
  shows "step_ok kinds {#} (r, s) (put_typed k socks x)"
proof -
  obtain t y where x: "x = (t, y)" by (cases x)
  then obtain i where a: "do_open (protocol_type p) ((bases socks) k) (r, s) os = Some (ec, i, y)" "base_impl t = i"
    using run by (auto simp: typed_open_def)
  show ?thesis unfolding x
    using open_accounted [OF ok socks a(1)] open_ok [OF typed p run [unfolded x]] a(2) by (intro replaced_ok typed) simp_all
qed

lemma option_ok:
  assumes typed: "\<And>k. typed_ok (kinds k) (socks k)" and ok: "loop_ok (r, s)" and socks: "sockets_ok (bases socks) r"
    and run: "set_option opt v len (socks k) os = Some (ec, t, os')"
  shows "step_ok kinds {#} (r, s) (put_typed k socks (t, (r, s), os'))"
proof -
  have data: "reactor_data (base_impl t) = reactor_data ((bases socks) k)" and t: "t = (socks k)\<lparr>base_impl := base_impl t\<rparr>"
    using run by (auto simp: set_option_def)
  have "typed_ok (kinds k) t" using option_keeps [OF run] typed_ok_keeps [OF typed] t by metis
  moreover have "accounted {#} (r, s) (put_impl k (bases socks) (base_impl t, (r, s), os'))"
    using unchanged_accounted [of "(r, s)"] ok sockets_same [OF socks data] by (simp add: put_impl_def)
  ultimately show ?thesis by (rule replaced_ok [OF typed])
qed

lemma typed_call_ok:
  assumes typed: "\<And>k. typed_ok (kinds k) (socks k)" and ok: "loop_ok (r, s)" and socks: "sockets_ok (bases socks) r"
    and run: "do_typed_call kinds se c (socks, (r, s), os) = Some w"
  shows "step_ok kinds (mset (typed_starts c)) (r, s) w"
proof -
  note same = same_ok [OF typed ok socks]
  have receive: "receive_op_type flags < max_ops" for flags by (simp add: receive_op_type_def)
  note started = started_ok(1) [OF typed ok socks max_ops_bounds(2)] started_ok(1) [OF typed ok socks receive]
    started_ok(2,3) [OF typed ok socks]
  show ?thesis
  proof (cases c)
    case (T_open k p)
    then show ?thesis using run opened_ok [OF typed ok socks] by (auto split: if_splits)
  next
    case (T_assign k p fd)
    then show ?thesis using run assigned_ok [OF typed ok socks] by (fastforce split: if_splits prod.splits)
  next
    case (T_close k)
    then show ?thesis using run ended_ok(1) [OF typed ok socks] by auto
  next
    case (T_destroy k)
    then show ?thesis using run ended_ok(3) [OF typed ok socks, of k os] by (fastforce simp: put_typed_def)
  next
    case (T_release k)
    then show ?thesis using run ended_ok(2) [OF typed ok socks] by (auto split: prod.splits)
  next
    case (T_cancel k)
    have "accounted {#} (r, s) (bases socks, snd (svc_cancel (bases socks k) (r, s)), os)"
      by (rule cancel_accounted [OF ok socks])
    then show ?thesis using run T_cancel typed by (auto simp: step_ok_def base_world_def)
  next
    case (T_move k j)
    then show ?thesis using run moved_ok [OF typed ok socks] by (auto split: if_splits)
  next
    case (T_set_option k opt v len)
    then show ?thesis using run option_ok [OF typed ok socks] by auto
  next
    case (T_accept k j ep)
    then show ?thesis using run accepted_ok [OF typed ok socks] by (auto split: if_splits)
  next
    case (T_async_send k op c bufs)
    then show ?thesis using run started(1) by (auto simp: async_send_def)
  next
    case (T_async_receive k op c room flags)
    then show ?thesis using run started(2) by (auto simp: async_receive_def receive_op_type_def)
  next
    case (T_async_send_to k op c nul)
    then show ?thesis using run started(1)
      by (cases nul) (auto simp: async_send_to_def async_send_to_null_def option.map_comp)
  next
    case (T_async_receive_from k op c nul flags)
    then show ?thesis using run started(2)
      by (cases nul) (auto simp: async_receive_from_def async_receive_from_null_def option.map_comp)
  next
    case (T_async_accept k op c peer)
    then show ?thesis using run started(3) by (cases peer) (auto simp: async_accept_def async_move_accept_def option.map_comp)
  next
    case (T_async_connect k op c)
    then show ?thesis using run started(4) by (auto simp: async_connect_def option.map_comp)
  qed (use run same in auto)
qed

lemma typed_calls_ok:
  "\<lbrakk>\<And>k. typed_ok (kinds k) (socks k); loop_ok (r, s); sockets_ok (bases socks) r;
    do_typed_calls kinds se cs (socks, (r, s), os) = Some w\<rbrakk> \<Longrightarrow>
   step_ok kinds (mset (concat (map typed_starts cs))) (r, s) w"
proof (induction cs arbitrary: socks r s os)
  case Nil
  then show ?case using same_ok [OF Nil(1-3), of os] by auto
next
  case (Cons c cs)
  obtain socks1 r1 s1 os1 where 1: "do_typed_call kinds se c (socks, (r, s), os) = Some (socks1, (r1, s1), os1)"
    and 2: "do_typed_calls kinds se cs (socks1, (r1, s1), os1) = Some w"
    using Cons.prems(4) by (auto simp: bind_eq_Some_conv)
  have a: "\<And>k. typed_ok (kinds k) (socks1 k)" "sockets_ok (bases socks1) r1" "effect (mset (typed_starts c)) (r, s) (r1, s1)"
    using typed_call_ok [OF Cons.prems(1-3) 1] by (simp_all add: step_ok_def base_world_def accounted_def)
  from Cons.IH [OF a(1) effect_ok [OF a(3)] a(2) 2] effect_trans [OF a(3)]
  show ?case by (auto simp: step_ok_def accounted_def)
qed

lemma state_of_kind:
  "orientation st = state_of_type (protocol_type p) \<Longrightarrow>
   has st stream_oriented = (kind_of p = Tcp) \<and> has st datagram_oriented = (kind_of p = Udp)"
proof -
  assume "orientation st = state_of_type (protocol_type p)"
  moreover have "has st f = has (orientation st) f" if "f = stream_oriented \<or> f = datagram_oriented" for f
    using that by (auto simp: has_def orientation_def flag_defs and.assoc)
  ultimately show ?thesis
    by (cases p) (simp_all add: state_of_type_def has_def flag_defs SOCK_STREAM_def SOCK_DGRAM_def)
qed

text \<open>
  C12. TCP and UDP sockets keep their kind and the event loop's accounts. Whatever a program does with its sockets,
  in whatever order, and whatever the system answers: an open TCP socket is marked as a stream (so that an empty
  read is its end and an empty write is not attempted) and an open UDP socket as a datagram socket, also
  after a move, an accept or a change of options; the remembered protocol is of the socket's kind; every operation
  started is in exactly one place, and no two sockets share a descriptor state.
\<close>

theorem typed_sockets_keep_kind:
  assumes "do_typed_calls kinds se cs (\<lambda>k. typed_construct (kinds k), loop_init hint env, os) = Some (socks, (r, s), os')"
  shows "kind_of (proto (socks k)) = kinds k \<and>
    (is_open (base_impl (socks k)) \<longrightarrow>
      has (sstate (base_impl (socks k))) stream_oriented = (kinds k = Tcp) \<and>
      has (sstate (base_impl (socks k))) datagram_oriented = (kinds k = Udp)) \<and>
    pending (r, s) = mset (concat (map typed_starts cs)) \<and> sockets_ok (base_impl \<circ> socks) r"
proof -
  have b: "balance 0 0 (program_init [], loop_init hint env)" by (rule init_balance)
  obtain r0 s0 where i: "loop_init hint env = (r0, s0)" by (cases "loop_init hint env") auto
  have ok0: "loop_ok (r0, s0)" "pending (r0, s0) = {#}" using b by (simp_all add: i balance_def program_init_def)
  have "sockets_ok (bases (\<lambda>k. typed_construct (kinds k))) r0"
    by (simp add: sockets_ok_def typed_construct_def construct_impl_def)
  from typed_calls_ok [OF construct_ok ok0(1) this] assms
  have a: "step_ok kinds (mset (concat (map typed_starts cs))) (r0, s0) (socks, (r, s), os')" by (simp add: i)
  then have "typed_ok (kinds k) (socks k)" by (simp add: step_ok_def)
  then show ?thesis using a ok0(2) state_of_kind [of "sstate (base_impl (socks k))" "proto (socks k)"]
    by (auto simp: step_ok_def accounted_def base_world_def effect_def typed_ok_def bases_def)
qed

lemmas typed_simps = service_simps typed_construct_def typed_open_def typed_accept_def typed_assign_def do_assign_def resized_def ep_resize_def
  sockaddr_storage_size_def put_typed_def on_base_def async_connect_def start_connect_op_def sock_connect_def

theorem typed_sockets_keep_kind_witness:
  "\<exists>socks r s. do_typed_calls (\<lambda>k. if k = 2 then Udp else Tcp) (\<lambda>_. interrupted)
        [T_open 0 (tcp AF_INET), T_open 2 (udp AF_INET), T_accept 0 1 None, T_async_receive_from 2 sample_op False False 0]
        (\<lambda>k. typed_construct (if k = 2 then Udp else Tcp), loop_init 1 (sample_env\<lparr>performs := \<lambda>_. (Not_done, None, 0)\<rparr>),
          [Inr (7, [], ep_default, 0), Inr (8, [], ep_default, 0), Inr (9, [], ep_default, 16), Inr (0, [], ep_default, 0)])
        = Some (socks, (r, s), []) \<and>
     is_open (base_impl (socks 1)) \<and> native_handle (socks 1) = 9 \<and> has (sstate (base_impl (socks 1))) stream_oriented \<and>
     is_open (base_impl (socks 2)) \<and> \<not> has (sstate (base_impl (socks 2))) stream_oriented \<and> pending (r, s) = {#1#}"
proof -
  let ?kinds = "\<lambda>k :: nat. if k = 2 then Udp else Tcp"
  let ?calls = "[T_open 0 (tcp AF_INET), T_open 2 (udp AF_INET), T_accept 0 1 None, T_async_receive_from 2 sample_op False False 0]"
  let ?os = "[Inr (7, [], ep_default, 0), Inr (8, [], ep_default, 0), Inr (9, [], ep_default, 16), Inr (0, [], ep_default, 0)] :: filled_answers"
  let ?start = "(\<lambda>k. typed_construct (?kinds k), loop_init 1 (sample_env\<lparr>performs := \<lambda>_. (Not_done, None, 0)\<rparr>), ?os)"
  obtain socks r s where run: "do_typed_calls ?kinds (\<lambda>_. interrupted) ?calls ?start = Some (socks, (r, s), [])"
    and o1: "is_open (base_impl (socks 1))" "native_handle (socks 1) = 9" and o2: "is_open (base_impl (socks 2))"
    by (auto simp: typed_simps native_handle_def async_receive_from_def receive_op_type_def sync_accept.simps sock_accept.simps
        setup_simps wait_for_events_def perform_def)
  have k: "?kinds 1 = Tcp" "?kinds 2 = Udp" by simp_all
  have "mset (concat (map typed_starts ?calls)) = {#1#}" by (simp add: sample_op_def)
  then show ?thesis
    using typed_sockets_keep_kind [OF run, of 1] typed_sockets_keep_kind [OF run, of 2] run o1 o2 unfolding k
    by (metis protocol_kind.distinct(1))
qed

section \<open>What accepting and receiving give\<close>

text \<open>
  An accept waits over any number of failures that are retried and then gives the new connection to the peer, with the
  protocol of the listening socket and the address of the other side; where the peer cannot take
  it the new socket is closed.
\<close>

theorem accept_hands_over:
  assumes "is_open (base_impl s)" "\<not> is_open (base_impl peer)" "accept_waiting (sstate (base_impl s)) ws"
    and "fd \<ge> 0" "addr_len \<le> 128" "typed_assign (proto s) fd peer l = (ec, peer', l')"
  shows "typed_accept s peer (Some e0) l (rounds ws @ Inr (fd, data, e, addr_len) # os) =
      map_option (\<lambda>os. (Inr ec, peer', Some e, l', os)) (if ec = None then Some os else holder_close fd os)"
    "ec = None \<Longrightarrow> native_handle peer' = fd \<and> proto peer' = proto s"
proof -
  have s: "native (base_impl s) \<noteq> invalid_socket" using assms(1) by (simp add: is_open_def)
  have a: "sync_accept (native (base_impl s)) (sstate (base_impl s)) (rounds ws @ Inr (fd, data, e, addr_len) # os) =
      Some (fd, None, Some (data, e, addr_len), os)"
    using s assms(3,4) by (simp add: sync_accept_rounds sync_accept_ends valid_answer_def error_of_def at_end_def written_def)
  have "fd \<noteq> invalid_socket" using assms(4) by (simp add: invalid_socket_def)
  then show "typed_accept s peer (Some e0) l (rounds ws @ Inr (fd, data, e, addr_len) # os) =
      map_option (\<lambda>os. (Inr ec, peer', Some e, l', os)) (if ec = None then Some os else holder_close fd os)"
    using assms(2,5,6) a by (simp add: typed_accept_def resized_def ep_resize_def sockaddr_storage_size_def)
  show "ec = None \<Longrightarrow> native_handle peer' = fd \<and> proto peer' = proto s"
    using assms(2,6) by (auto simp: typed_assign_def do_assign_def native_handle_def Let_def split: option.splits prod.splits)
qed

text \<open>
  A blocking receive waits over any number of polls and then gives the datagram with its sender.
\<close>

theorem datagram_received:
  assumes "is_open (base_impl s)" "\<not> has (sstate (base_impl s)) user_set_non_blocking" "all_waiting ws"
    and "n \<ge> 0" "addr_len \<le> 128"
  shows "receive_from single e0 s (rounds ws @ Inr (n, data, e, addr_len) # os) = Some (Inr (n, None, data, e), os)"
proof -
  have s: "native (base_impl s) \<noteq> invalid_socket" using assms(1) by (simp add: is_open_def)
  have a: "valid_answer (Inr (n, data, e, addr_len))" "\<not> blocks (Inr (n, data, e, addr_len))"
    using assms(4) by (simp_all add: valid_answer_def blocks_def)
  have "(if single then sync_recvfrom1 else sync_recvfrom) (native (base_impl s)) (sstate (base_impl s))
      (rounds ws @ Inr (n, data, e, addr_len) # os) = Some (n, None, Some (data, e, addr_len), os)"
    using recvfrom.loops_wait(2) [OF s a(1) assms(3)] recvfrom1.loops_wait(2) [OF s a(1) assms(3)] a(2) assms(2) s
    by (simp add: sync_defs count_of_def error_of_def at_end_def written_def)
  then show ?thesis
    using assms(5) by (simp add: receive_from_def resized_def ep_resize_def sockaddr_storage_size_def)
qed

end
