(* ===== verification/Asio_Write.thy ===== *)
theory Asio_Write
  imports Asio_Socket_Service Flex_Proxy
begin

text \<open>
  Writing a whole buffer (\<open>impl/write.hpp\<close>): the composed operation behind \<open>AsyncWrite\<close> calls
  \<open>async_write_some\<close> until a completion condition (\<open>completion_condition.hpp\<close>) is satisfied, with what is left of the
  buffers kept in one of three representations (\<open>detail/consuming_buffers.hpp\<close>). The locale \<open>buffer_view\<close> is what the
  loops rely on. The last section writes to a TCP socket, as the forwarders do, and shows that what they see of
  it is what \<open>Flex_Proxy\<close> takes a write to be.
\<close>

section \<open>Completion conditions\<close>

definition default_max_transfer_size :: nat where "default_max_transfer_size = 65536"

type_synonym condition = "errc option \<Rightarrow> nat \<Rightarrow> nat"

definition adapt_bool_result :: "bool \<Rightarrow> nat" where
  "adapt_bool_result result = (if result then 0 else default_max_transfer_size)"

definition transfer_all :: condition where
  "transfer_all err n = (if err \<noteq> None then 0 else default_max_transfer_size)"

definition transfer_at_least :: "nat \<Rightarrow> condition" where
  "transfer_at_least minimum err bytes_transferred =
     (if err \<noteq> None \<or> bytes_transferred \<ge> minimum then 0 else default_max_transfer_size)"

definition transfer_exactly :: "nat \<Rightarrow> condition" where
  "transfer_exactly sz err bytes_transferred =
     (if err \<noteq> None \<or> bytes_transferred \<ge> sz then 0
      else if sz - bytes_transferred < default_max_transfer_size then sz - bytes_transferred
      else default_max_transfer_size)"

section \<open>What is left of the buffers\<close>

record consuming =                 \<comment> \<open>a sequence of buffers\<close>
  cb_buffers :: "bytes list"
  cb_total_size :: nat
  cb_total_consumed :: nat
  next_elem :: nat
  next_elem_offset :: nat

definition max_prepared :: "nat \<Rightarrow> nat" where
  \<comment> \<open>\<open>prepared_buffers::max_buffers\<close>\<close>
  "max_prepared MaxBuffers = (if MaxBuffers < 16 then MaxBuffers else 16)"

definition consuming_buffers :: "bytes list \<Rightarrow> consuming" where
  "consuming_buffers bs =
     \<lparr>cb_buffers = bs, cb_total_size = length (concat bs), cb_total_consumed = 0, next_elem = 0, next_elem_offset = 0\<rparr>"

definition cb_empty :: "consuming \<Rightarrow> bool" where
  "cb_empty c = (cb_total_consumed c \<ge> cb_total_size c)"

fun prepare_loop :: "nat \<Rightarrow> bytes list \<Rightarrow> nat \<Rightarrow> nat \<Rightarrow> bytes list \<Rightarrow> bytes list" where
  \<comment> \<open>from the iterator \<open>next\<close> on; the buffers in \<open>result\<close>\<close>
  "prepare_loop max_buffers [] elem_offset max_size result = result"
| "prepare_loop max_buffers (b # bs) elem_offset max_size result =
     (if max_size > 0 \<and> length result < max_buffers then
        let e = take max_size (drop elem_offset b)
        in prepare_loop max_buffers bs 0 (max_size - length e) (if length e > 0 then result @ [e] else result)
      else result)"

definition cb_prepare :: "nat \<Rightarrow> nat \<Rightarrow> consuming \<Rightarrow> bytes list" where
  "cb_prepare MaxBuffers max_size c =
     prepare_loop (max_prepared MaxBuffers) (drop (next_elem c) (cb_buffers c)) (next_elem_offset c) max_size []"

fun consume_loop :: "bytes list \<Rightarrow> nat \<Rightarrow> nat \<Rightarrow> nat \<Rightarrow> nat \<times> nat" where
  "consume_loop [] elem offset sz = (elem, offset)"
| "consume_loop (b # bs) elem offset sz =
     (if sz > 0 then
        let left = length b - offset
        in if sz < left then (elem, offset + sz)
           else consume_loop bs (elem + 1) 0 (sz - left)
      else (elem, offset))"

definition cb_consume :: "nat \<Rightarrow> consuming \<Rightarrow> consuming" where
  "cb_consume sz c =
     (let (elem, offset) = consume_loop (drop (next_elem c) (cb_buffers c)) (next_elem c) (next_elem_offset c) sz
      in c\<lparr>cb_total_consumed := cb_total_consumed c + sz, next_elem := elem, next_elem_offset := offset\<rparr>)"

record consuming1 =                \<comment> \<open>one buffer\<close>
  c1_buffer :: bytes
  c1_total_consumed :: nat

definition consuming_single_buffer :: "bytes \<Rightarrow> consuming1" where
  "consuming_single_buffer b = \<lparr>c1_buffer = b, c1_total_consumed = 0\<rparr>"

definition c1_empty :: "consuming1 \<Rightarrow> bool" where
  "c1_empty c = (c1_total_consumed c \<ge> length (c1_buffer c))"

definition c1_prepare :: "nat \<Rightarrow> consuming1 \<Rightarrow> bytes list" where
  "c1_prepare max_size c = [take max_size (drop (c1_total_consumed c) (c1_buffer c))]"

definition c1_consume :: "nat \<Rightarrow> consuming1 \<Rightarrow> consuming1" where
  "c1_consume sz c = c\<lparr>c1_total_consumed := c1_total_consumed c + sz\<rparr>"

record consuming2 =                \<comment> \<open>an array of two\<close>
  c2_first :: bytes
  c2_second :: bytes
  c2_total_consumed :: nat

definition consuming_two_buffers :: "bytes \<Rightarrow> bytes \<Rightarrow> consuming2" where
  "consuming_two_buffers a b = \<lparr>c2_first = a, c2_second = b, c2_total_consumed = 0\<rparr>"

definition c2_empty :: "consuming2 \<Rightarrow> bool" where
  "c2_empty c = (c2_total_consumed c \<ge> length (c2_first c) + length (c2_second c))"

definition c2_prepare :: "nat \<Rightarrow> consuming2 \<Rightarrow> bytes list" where
  "c2_prepare max_size c =
     (let result0 = take max_size (drop (c2_total_consumed c) (c2_first c));
          buffer0_size = length (c2_first c)
      in [result0,
          take (max_size - length result0)
            (drop (if c2_total_consumed c < buffer0_size then 0 else c2_total_consumed c - buffer0_size) (c2_second c))])"

definition c2_consume :: "nat \<Rightarrow> consuming2 \<Rightarrow> consuming2" where
  "c2_consume sz c = c\<lparr>c2_total_consumed := c2_total_consumed c + sz\<rparr>"

section \<open>The loops\<close>

record 'v view_ops =               \<comment> \<open>the operations of a representation, the template parameter of the loops\<close>
  v_empty :: "'v \<Rightarrow> bool"
  v_prepare :: "nat \<Rightarrow> 'v \<Rightarrow> bytes list"
  v_consume :: "nat \<Rightarrow> 'v \<Rightarrow> 'v"
  v_consumed :: "'v \<Rightarrow> nat"

definition sequence_view :: "nat \<Rightarrow> consuming view_ops" where
  "sequence_view MaxBuffers = \<lparr>v_empty = cb_empty, v_prepare = cb_prepare MaxBuffers, v_consume = cb_consume, v_consumed = cb_total_consumed\<rparr>"

definition single_view :: "consuming1 view_ops" where
  "single_view = \<lparr>v_empty = c1_empty, v_prepare = c1_prepare, v_consume = c1_consume, v_consumed = c1_total_consumed\<rparr>"

definition pair_view :: "consuming2 view_ops" where
  "pair_view = \<lparr>v_empty = c2_empty, v_prepare = c2_prepare, v_consume = c2_consume, v_consumed = c2_total_consumed\<rparr>"

text \<open>
  A stream answers a \<open>write_some\<close> with an error or none, having taken bytes off the front of what it was offered as
  far as it had room; it reports how many. The composed operation also finds the state of its cancellation slot.
\<close>

type_synonym room = "errc option \<times> nat"

fun write_sync :: "'v view_ops \<Rightarrow> condition \<Rightarrow> 'v \<Rightarrow> errc option \<Rightarrow> room list \<Rightarrow> (errc option \<times> nat \<times> bytes \<times> room list) option" where
  \<comment> \<open>\<open>write\<close>: the error, the returned number, and what the stream has taken. \<open>None\<close>: it has not returned\<close>
  "write_sync vs completion_condition tmp ec [] =
     (if \<not> v_empty vs tmp \<and> completion_condition ec (v_consumed vs tmp) \<noteq> 0 then None
      else Some (ec, v_consumed vs tmp, [], []))"
| "write_sync vs completion_condition tmp ec ((ec', n) # as) =
     (if \<not> v_empty vs tmp then
        let max_size = completion_condition ec (v_consumed vs tmp)
        in if max_size \<noteq> 0 then
             let taken = take n (concat (v_prepare vs max_size tmp))
             in map_option (\<lambda>(ec, sent, out, as). (ec, sent, taken @ out, as))
                  (write_sync vs completion_condition (v_consume vs (length taken) tmp) ec' as)
           else Some (ec, v_consumed vs tmp, [], (ec', n) # as)
      else Some (ec, v_consumed vs tmp, [], (ec', n) # as))"

datatype progress = Write_some "bytes list" | Complete "errc option" nat

definition write_op_start :: "'v view_ops \<Rightarrow> condition \<Rightarrow> 'v \<Rightarrow> progress" where
  "write_op_start vs completion_condition buffers =
     Write_some (v_prepare vs (completion_condition None (v_consumed vs buffers)) buffers)"

definition write_op_resume :: "'v view_ops \<Rightarrow> condition \<Rightarrow> bool \<Rightarrow> errc option \<Rightarrow> nat \<Rightarrow> 'v \<Rightarrow> progress \<times> 'v" where
  \<comment> \<open>\<open>operator()\<close> on the completion of \<open>async_write_some\<close>\<close>
  "write_op_resume vs completion_condition cancelled ec bytes_transferred buffers =
     (let buffers = v_consume vs bytes_transferred buffers
      in if (ec = None \<and> bytes_transferred = 0) \<or> v_empty vs buffers then (Complete ec (v_consumed vs buffers), buffers)
         else
           let max_size = completion_condition ec (v_consumed vs buffers)
           in if max_size = 0 then (Complete ec (v_consumed vs buffers), buffers)
              else if cancelled then (Complete (Some operation_canceled) (v_consumed vs buffers), buffers)
              else (Write_some (v_prepare vs max_size buffers), buffers))"

fun write_async :: "'v view_ops \<Rightarrow> condition \<Rightarrow> bytes list \<Rightarrow> 'v \<Rightarrow> (room \<times> bool) list
    \<Rightarrow> (errc option \<times> nat \<times> bytes \<times> (room \<times> bool) list) option" where
  \<comment> \<open>the operation waiting for \<open>async_write_some\<close> of the offered buffers; \<open>None\<close>: its handler has not been called\<close>
  "write_async vs completion_condition offered v [] = None"
| "write_async vs completion_condition offered v (((ec, n), cancelled) # as) =
     (let taken = take n (concat offered)
      in case write_op_resume vs completion_condition cancelled ec (length taken) v of
           (Complete ec sent, v) \<Rightarrow> Some (ec, sent, taken, as)
         | (Write_some offered, v) \<Rightarrow>
             map_option (\<lambda>(ec, sent, out, as). (ec, sent, taken @ out, as))
               (write_async vs completion_condition offered v as))"

definition async_write :: "'v view_ops \<Rightarrow> condition \<Rightarrow> 'v \<Rightarrow> (room \<times> bool) list
    \<Rightarrow> (errc option \<times> nat \<times> bytes \<times> (room \<times> bool) list) option" where
  "async_write vs completion_condition buffers as =
     (case write_op_start vs completion_condition buffers of
        Write_some offered \<Rightarrow> write_async vs completion_condition offered buffers as
      | Complete ec sent \<Rightarrow> Some (ec, sent, [], as))"

lemma resume_goes_on:
  "write_op_resume vs cc c ec k v = (Write_some offered, v') \<longleftrightarrow>
     v' = v_consume vs k v \<and> (ec = None \<longrightarrow> 0 < k) \<and> \<not> v_empty vs v' \<and> 0 < cc ec (v_consumed vs v') \<and> \<not> c \<and>
     offered = v_prepare vs (cc ec (v_consumed vs v')) v'"
  by (auto simp: write_op_resume_def Let_def)

lemma resume_ends:
  "write_op_resume vs cc c ec k v = (Complete e t, v') \<Longrightarrow>
     v' = v_consume vs k v \<and> t = v_consumed vs v' \<and>
     (e = ec \<and> (ec = None \<and> k = 0 \<or> v_empty vs v' \<or> cc ec (v_consumed vs v') = 0) \<or> e = Some operation_canceled \<and> c)"
  by (auto simp: write_op_resume_def Let_def split: if_splits)

section \<open>What the loops rely on\<close>

locale buffer_view =
  fixes vs :: "'v view_ops" and data :: "'v \<Rightarrow> bytes" and ok :: "'v \<Rightarrow> bool"
  assumes within: "ok v \<Longrightarrow> v_consumed vs v \<le> length (data v)"
    and empty: "ok v \<Longrightarrow> v_empty vs v = (length (data v) \<le> v_consumed vs v)"
    and prepare: "ok v \<Longrightarrow> \<exists>k \<le> m. concat (v_prepare vs m v) = take k (drop (v_consumed vs v) (data v)) \<and> (0 < m \<longrightarrow> 0 < k)"
    and consume: "ok v \<Longrightarrow> n \<le> length (data v) - v_consumed vs v \<Longrightarrow>
      ok (v_consume vs n v) \<and> data (v_consume vs n v) = data v \<and> v_consumed vs (v_consume vs n v) = v_consumed vs v + n"
begin

lemma taken:
  assumes "ok v"
  obtains k where "k \<le> length (data v) - v_consumed vs v" "take n (concat (v_prepare vs m v)) = take k (drop (v_consumed vs v) (data v))"
    "length (take n (concat (v_prepare vs m v))) = k" "0 < m \<Longrightarrow> 0 < n \<Longrightarrow> \<not> v_empty vs v \<Longrightarrow> 0 < k"
proof -
  obtain j where j: "j \<le> m" "concat (v_prepare vs m v) = take j (drop (v_consumed vs v) (data v))" "0 < m \<longrightarrow> 0 < j"
    using prepare [OF assms] by blast
  let ?k = "min (min n j) (length (data v) - v_consumed vs v)"
  have "take n (concat (v_prepare vs m v)) = take ?k (drop (v_consumed vs v) (data v))"
    using j(2) by (simp add: min_def)
  moreover have "\<not> v_empty vs v \<Longrightarrow> 0 < length (data v) - v_consumed vs v" using empty [OF assms] by simp
  ultimately show thesis using that [of ?k] j(3) by auto
qed

lemma consume_taken:
  assumes "ok v"
  shows "ok (v_consume vs (length (take n (concat (v_prepare vs m v)))) v)"
    "data (v_consume vs (length (take n (concat (v_prepare vs m v)))) v) = data v"
    "v_consumed vs (v_consume vs (length (take n (concat (v_prepare vs m v)))) v) =
       v_consumed vs v + length (take n (concat (v_prepare vs m v)))"
  using consume [OF assms] taken [OF assms, of n m] by metis+

lemma async_prefix:
  \<comment> \<open>what has been taken is what was next, and the number that is reported is the number of its bytes\<close>
  assumes "ok v" "write_async vs cc (v_prepare vs m v) v as = Some (ec, sent, out, rest)"
  shows "out = take (length out) (drop (v_consumed vs v) (data v)) \<and> sent = v_consumed vs v + length out \<and> sent \<le> length (data v)"
  using assms
proof (induction as arbitrary: v m out)
  case (Cons a as)
  obtain ec1 n c where a: "a = ((ec1, n), c)" by (metis surj_pair)
  obtain k where k: "k \<le> length (data v) - v_consumed vs v" "take n (concat (v_prepare vs m v)) = take k (drop (v_consumed vs v) (data v))"
    "length (take n (concat (v_prepare vs m v))) = k" by (rule taken [OF Cons.prems(1)])
  let ?v = "v_consume vs k v"
  have v: "ok ?v" "data ?v = data v" "v_consumed vs ?v = v_consumed vs v + k"
    using consume_taken [OF Cons.prems(1), of n m] unfolding k(3) by simp_all
  note w = within [OF v(1)]
  show ?case
  proof (cases "write_op_resume vs cc c ec1 k v")
    case (Pair p v')
    show ?thesis
    proof (cases p)
      case (Complete e t)
      then have "t = v_consumed vs ?v" using resume_ends [OF Pair [unfolded Complete]] by simp
      moreover have "out = take k (drop (v_consumed vs v) (data v))" "sent = t"
        using Cons.prems(2) Complete Pair [unfolded Complete] k(3) unfolding a by (simp_all add: Let_def k(2))
      ultimately show ?thesis using w k(1) unfolding v(2,3) by simp
    next
      case (Write_some offered)
      then obtain m' where "offered = v_prepare vs m' ?v" "v' = ?v" using Pair [unfolded Write_some resume_goes_on] by blast
      then obtain out' where r: "write_async vs cc (v_prepare vs m' ?v) ?v as = Some (ec, sent, out', rest)"
          "out = take k (drop (v_consumed vs v) (data v)) @ out'"
        using Cons.prems(2) Pair Write_some k unfolding a by (auto simp: Let_def)
      have "length (take k (drop (v_consumed vs v) (data v))) = k" using k by simp
      then show ?thesis using Cons.IH [OF v(1) r(1)] r(2) v(2,3)
        by (auto simp: take_add add.commute)
    qed
  qed
qed simp

lemma async_returns:
  \<comment> \<open>in as many steps as there are bytes left, and one\<close>
  assumes "ok v" "length (data v) - v_consumed vs v < length as" "\<And>e n. cc (Some e) n = 0"
  shows "\<exists>r. write_async vs cc (v_prepare vs m v) v as = Some r"
  using assms(1,2)
proof (induction as arbitrary: v m)
  case (Cons a as)
  obtain ec n c where a: "a = ((ec, n), c)" by (metis surj_pair)
  obtain k where k: "k \<le> length (data v) - v_consumed vs v" "length (take n (concat (v_prepare vs m v))) = k"
    by (rule taken [OF Cons.prems(1), of n m]) blast
  let ?v = "v_consume vs k v"
  have v: "ok ?v" "data ?v = data v" "v_consumed vs ?v = v_consumed vs v + k"
    using consume_taken [OF Cons.prems(1), of n m] unfolding k(2) by simp_all
  show ?case
  proof (cases "write_op_resume vs cc c ec k v")
    case (Pair p v')
    show ?thesis
    proof (cases p)
      case (Write_some offered)
      note p = Pair [unfolded Write_some resume_goes_on]
      then have "ec = None" using assms(3) by (cases ec) auto
      then obtain m' where o: "offered = v_prepare vs m' ?v" "v' = ?v" "0 < k" using p by blast
      have "\<exists>r. write_async vs cc (v_prepare vs m' ?v) ?v as = Some r"
        using o(3) v Cons.prems(2) k(1) by (intro Cons.IH) auto
      then obtain r where "write_async vs cc (v_prepare vs m' ?v) ?v as = Some r" by blast
      then show ?thesis using Pair Write_some k(2) o(1,2) unfolding a by (cases r) (simp add: Let_def)
    next
      case Complete
      then show ?thesis using Pair k(2) unfolding a by (simp add: Let_def)
    qed
  qed
qed simp

lemma async_all:
  assumes "ok v" "\<not> v_empty vs v" "0 < m"
    and "write_async vs transfer_all (v_prepare vs m v) v as = Some (None, sent, out, rest)"
    and "\<And>n c. ((None, n), c) \<in> set as \<Longrightarrow> 0 < n"
  shows "sent = length (data v)"
  using assms
proof (induction as arbitrary: v m out)
  case (Cons a as)
  obtain ec n c where a: "a = ((ec, n), c)" by (metis surj_pair)
  obtain k where k: "length (take n (concat (v_prepare vs m v))) = k" "0 < n \<Longrightarrow> 0 < k"
    using Cons.prems(2,3) by (rule_tac taken [OF Cons.prems(1), of n m]) blast
  let ?v = "v_consume vs k v"
  have v: "ok ?v" "data ?v = data v" using consume_taken [OF Cons.prems(1), of n m] unfolding k(1) by simp_all
  have pos: "ec = None \<Longrightarrow> 0 < k" using k(2) Cons.prems(5) [of n c] unfolding a by auto
  show ?case
  proof (cases "write_op_resume vs transfer_all c ec k v")
    case (Pair p v')
    show ?thesis
    proof (cases p)
      case (Complete e t)
      then have "e = None" "sent = t" using Cons.prems(4) Pair k(1) unfolding a by (auto simp: Let_def)
      then have "v_empty vs ?v" "sent = v_consumed vs ?v" using Pair Complete pos
        by (auto dest!: resume_ends simp: transfer_all_def default_max_transfer_size_def split: if_splits)
      then show ?thesis using empty [OF v(1)] within [OF v(1)] v(2) by simp
    next
      case (Write_some offered)
      then obtain m' where o: "offered = v_prepare vs m' ?v" "v' = ?v" "0 < m'" "\<not> v_empty vs ?v"
        using Pair [unfolded Write_some resume_goes_on] by blast
      then obtain out' where "write_async vs transfer_all (v_prepare vs m' ?v) ?v as = Some (None, sent, out', rest)"
        using Cons.prems(4) Pair Write_some k unfolding a by (auto simp: Let_def)
      from Cons.IH [OF v(1) o(4,3) this] show ?thesis using Cons.prems(5) unfolding v(2) by (meson list.set_intros(2))
    qed
  qed
qed simp

lemma async_as_sync:
  \<comment> \<open>where a success has taken something the two forms of \<open>write\<close> agree\<close>
  assumes "ok v" "\<not> v_empty vs v" "cc ec (v_consumed vs v) = m" "0 < m" "\<And>n. (None, n) \<in> set as \<Longrightarrow> 0 < n"
  shows "write_async vs cc (v_prepare vs m v) v (map (\<lambda>a. (a, False)) as) =
    map_option (\<lambda>(ec, sent, out, as). (ec, sent, out, map (\<lambda>a. (a, False)) as)) (write_sync vs cc v ec as)"
  using assms
proof (induction as arbitrary: v m ec)
  case (Cons a as)
  obtain ec' n where a: "a = (ec', n)" by (metis surj_pair)
  obtain k where k: "length (take n (concat (v_prepare vs m v))) = k" "0 < n \<Longrightarrow> 0 < k"
    using Cons.prems(2,4) by (rule_tac taken [OF Cons.prems(1), of n m]) blast
  let ?v = "v_consume vs k v"
  have v: "ok ?v" using consume_taken [OF Cons.prems(1), of n m] unfolding k(1) by simp
  have pos: "ec' = None \<Longrightarrow> 0 < k" using k(2) Cons.prems(5) unfolding a by auto
  show ?case
  proof (cases "v_empty vs ?v \<or> cc ec' (v_consumed vs ?v) = 0")
    case True
    then show ?thesis using Cons.prems(2,3,4) k(1) pos unfolding a
      by (cases as) (auto simp: Let_def write_op_resume_def)
  next
    case False
    then have "write_async vs cc (v_prepare vs (cc ec' (v_consumed vs ?v)) ?v) ?v (map (\<lambda>a. (a, False)) as) =
      map_option (\<lambda>(ec, sent, out, as). (ec, sent, out, map (\<lambda>a. (a, False)) as)) (write_sync vs cc ?v ec' as)"
      using Cons.prems(5) by (intro Cons.IH [OF v]) auto
    then show ?thesis using False Cons.prems(2,3,4) k(1) pos unfolding a
      by (auto simp: Let_def write_op_resume_def option.map_comp comp_def intro!: option.map_cong)
  qed
qed (use assms in simp)

end

section \<open>The three representations\<close>

definition sequence_ok :: "consuming \<Rightarrow> bool" where
  "sequence_ok c =
     (cb_total_size c = length (concat (cb_buffers c)) \<and> cb_total_consumed c \<le> cb_total_size c \<and>
      next_elem_offset c \<le> length (concat (take 1 (drop (next_elem c) (cb_buffers c)))) \<and>
      drop (next_elem_offset c) (concat (drop (next_elem c) (cb_buffers c))) = drop (cb_total_consumed c) (concat (cb_buffers c)))"

lemma prepare_loop_takes:
  assumes "off \<le> length (concat (take 1 bs))"
  shows "\<exists>k \<le> m. concat (prepare_loop mb bs off m acc) = concat acc @ take k (drop off (concat bs)) \<and>
    (0 < m \<and> length acc < mb \<longrightarrow> 0 < k)"
  using assms
proof (induction bs arbitrary: off m acc)
  case (Cons b bs)
  let ?e = "take m (drop off b)"
  show ?case
  proof (cases "0 < m \<and> length acc < mb")
    case go: True
    let ?acc = "if length ?e > 0 then acc @ [?e] else acc"
    obtain k where k: "k \<le> m - length ?e" "concat (prepare_loop mb bs 0 (m - length ?e) ?acc) = concat ?acc @ take k (concat bs)"
        "0 < m - length ?e \<and> length ?acc < mb \<longrightarrow> 0 < k"
      using Cons.IH [of 0 "m - length ?e" ?acc] by auto
    have r: "concat (prepare_loop mb (b # bs) off m acc) = concat acc @ ?e @ take k (concat bs)"
      using go k(2) by (auto simp: Let_def)
    have "?e @ take k (concat bs) = take (length ?e + k) (drop off (concat (b # bs)))"
      using Cons.prems k(1) by (cases "m \<le> length b - off") auto
    then show ?thesis using r k go by (intro exI [of _ "length ?e + k"]) (auto split: if_splits)
  qed auto
qed auto

lemma consume_loop_drops:
  assumes "consume_loop bs elem off n = (elem', off')" "off \<le> length (concat (take 1 bs))" "n \<le> length (drop off (concat bs))"
  shows "elem \<le> elem' \<and> off' \<le> length (concat (take 1 (drop (elem' - elem) bs))) \<and>
    drop off' (concat (drop (elem' - elem) bs)) = drop n (drop off (concat bs))"
  using assms
proof (induction bs arbitrary: elem off n)
  case (Cons b bs)
  show ?case
  proof (cases "0 < n \<and> length b - off \<le> n")
    case True
    then have "elem + 1 \<le> elem' \<and> off' \<le> length (concat (take 1 (drop (elem' - (elem + 1)) bs))) \<and>
        drop off' (concat (drop (elem' - (elem + 1)) bs)) = drop (n - (length b - off)) (drop 0 (concat bs))"
      using Cons.prems by (intro Cons.IH) (auto simp: Let_def)
    moreover have "elem + 1 \<le> elem' \<Longrightarrow> drop (elem' - elem) (b # bs) = drop (elem' - (elem + 1)) bs"
      by (simp add: Suc_diff_Suc [symmetric] Suc_le_eq)
    ultimately show ?thesis using True Cons.prems(2) by (auto simp: add.commute)
  qed (use Cons.prems in \<open>auto simp: Let_def add.commute split: if_splits\<close>)
qed auto

lemma sequence_start: "sequence_ok (consuming_buffers bs)"
  by (simp add: sequence_ok_def consuming_buffers_def)

interpretation sequence: buffer_view "sequence_view (Suc n)" "\<lambda>c. concat (cb_buffers c)" sequence_ok for n
proof
  fix c :: consuming and m k :: nat
  assume ok: "sequence_ok c"
  note defs = sequence_view_def sequence_ok_def
  have room: "0 < max_prepared (Suc n)" by (simp add: max_prepared_def)
  show "v_consumed (sequence_view (Suc n)) c \<le> length (concat (cb_buffers c))" using ok by (simp add: defs)
  show "v_empty (sequence_view (Suc n)) c = (length (concat (cb_buffers c)) \<le> v_consumed (sequence_view (Suc n)) c)"
    using ok by (simp add: defs cb_empty_def)
  show "\<exists>k \<le> m. concat (v_prepare (sequence_view (Suc n)) m c) =
      take k (drop (v_consumed (sequence_view (Suc n)) c) (concat (cb_buffers c))) \<and> (0 < m \<longrightarrow> 0 < k)"
    using prepare_loop_takes [of "next_elem_offset c" "drop (next_elem c) (cb_buffers c)" m "max_prepared (Suc n)" "[]"] ok room
    by (simp add: defs cb_prepare_def)
  assume k: "k \<le> length (concat (cb_buffers c)) - v_consumed (sequence_view (Suc n)) c"
  let ?c = "v_consume (sequence_view (Suc n)) k c"
  obtain e off where l: "consume_loop (drop (next_elem c) (cb_buffers c)) (next_elem c) (next_elem_offset c) k = (e, off)" by force
  have "length (drop (next_elem_offset c) (concat (drop (next_elem c) (cb_buffers c)))) =
      length (concat (cb_buffers c)) - cb_total_consumed c" using ok by (simp only: sequence_ok_def length_drop)
  then have d: "next_elem c \<le> e \<and> off \<le> length (concat (take 1 (drop (e - next_elem c) (drop (next_elem c) (cb_buffers c))))) \<and>
      drop off (concat (drop (e - next_elem c) (drop (next_elem c) (cb_buffers c)))) =
      drop k (drop (next_elem_offset c) (concat (drop (next_elem c) (cb_buffers c))))"
    using ok k by (intro consume_loop_drops [OF l]) (simp_all add: defs)
  moreover have "drop (e - next_elem c) (drop (next_elem c) (cb_buffers c)) = drop e (cb_buffers c)" using d by simp
  moreover have "drop (next_elem_offset c) (concat (drop (next_elem c) (cb_buffers c))) = drop (cb_total_consumed c) (concat (cb_buffers c))"
    using ok by (simp only: sequence_ok_def)
  ultimately have d: "off \<le> length (concat (take 1 (drop e (cb_buffers c))))"
    "drop off (concat (drop e (cb_buffers c))) = drop k (drop (cb_total_consumed c) (concat (cb_buffers c)))" by (simp_all only:)
  moreover have "cb_total_consumed c + k \<le> cb_total_size c" using k ok by (auto simp: defs)
  ultimately show "sequence_ok ?c \<and> concat (cb_buffers ?c) = concat (cb_buffers c) \<and>
      v_consumed (sequence_view (Suc n)) ?c = v_consumed (sequence_view (Suc n)) c + k"
    using d ok l by (simp add: defs cb_consume_def add.commute)
qed

definition single_ok :: "consuming1 \<Rightarrow> bool" where
  "single_ok c = (c1_total_consumed c \<le> length (c1_buffer c))"

interpretation single: buffer_view single_view c1_buffer single_ok
  by unfold_locales (auto simp: single_view_def single_ok_def c1_empty_def c1_prepare_def c1_consume_def)

definition pair_ok :: "consuming2 \<Rightarrow> bool" where
  "pair_ok c = (c2_total_consumed c \<le> length (c2_first c @ c2_second c))"

lemma pair_prepare:
  "concat (c2_prepare m c) = take m (drop (c2_total_consumed c) (c2_first c @ c2_second c))"
  by (cases "m \<le> length (c2_first c) - c2_total_consumed c") (auto simp: c2_prepare_def Let_def)

interpretation pair: buffer_view pair_view "\<lambda>c. c2_first c @ c2_second c" pair_ok
proof
  show "\<exists>k \<le> m. concat (v_prepare pair_view m c) = take k (drop (v_consumed pair_view c) (c2_first c @ c2_second c)) \<and> (0 < m \<longrightarrow> 0 < k)"
    for c m using pair_prepare [of m c] by (auto simp: pair_view_def)
qed (auto simp: pair_view_def pair_ok_def c2_empty_def c2_consume_def)

section \<open>Writing a sequence of buffers\<close>

definition no_empty_success :: "room list \<Rightarrow> bool" where
  "no_empty_success as = (\<forall>n. (None, n) \<in> set as \<longrightarrow> 0 < n)"

lemma sequence_fields:
  "v_consumed (sequence_view (Suc m)) (consuming_buffers bs) = 0"
  "v_empty (sequence_view (Suc m)) (consuming_buffers bs) = (concat bs = [])"
  "cb_buffers (consuming_buffers bs) = bs"
  by (simp_all add: sequence_view_def consuming_buffers_def cb_empty_def)

lemma transfer_all_start: "0 < transfer_all None n" and transfer_all_stops: "transfer_all (Some e) n = 0"
  by (simp_all add: transfer_all_def default_max_transfer_size_def)

text \<open>
  C40. Writing all of a sequence of buffers. Whatever the stream answers, what it has taken is a prefix of the bytes
  of the buffers in their order, and the operation reports its length; it completes after at most one
  call of \<open>async_write_some\<close> more than there are bytes; without an error (and as long as no call
  succeeds with nothing) it completes only when everything is written; and it behaves as the blocking \<open>write\<close>.
\<close>

theorem async_write_delivers:
  "(case async_write (sequence_view (Suc m)) transfer_all (consuming_buffers bs) as of
      None \<Rightarrow> length as \<le> length (concat bs)
    | Some (ec, sent, out, rest) \<Rightarrow>
        out = take sent (concat bs) \<and> length out = sent \<and>
        (ec = None \<and> concat bs \<noteq> [] \<and> no_empty_success (map fst as) \<longrightarrow> sent = length (concat bs))) \<and>
   (concat bs \<noteq> [] \<and> no_empty_success rooms \<longrightarrow>
      map_option (\<lambda>(ec, sent, out, rest). (ec, sent, out, map fst rest))
        (async_write (sequence_view (Suc m)) transfer_all (consuming_buffers bs) (map (\<lambda>a. (a, False)) rooms)) =
      write_sync (sequence_view (Suc m)) transfer_all (consuming_buffers bs) None rooms)"
proof (intro conjI impI)
  let ?vs = "sequence_view (Suc m)" and ?v = "consuming_buffers bs"
  let ?offered = "v_prepare ?vs (transfer_all None 0) ?v"
  have w: "async_write ?vs transfer_all ?v as = write_async ?vs transfer_all ?offered ?v as" for as
    by (simp add: async_write_def write_op_start_def sequence_fields)
  note start = sequence_start [of bs]
  show "case async_write ?vs transfer_all ?v as of None \<Rightarrow> length as \<le> length (concat bs)
    | Some (ec, sent, out, rest) \<Rightarrow> out = take sent (concat bs) \<and> length out = sent \<and>
        (ec = None \<and> concat bs \<noteq> [] \<and> no_empty_success (map fst as) \<longrightarrow> sent = length (concat bs))"
  proof (cases "async_write ?vs transfer_all ?v as")
    case None
    then show ?thesis
      using sequence.async_returns [OF start, of m as transfer_all "transfer_all None 0"]
      by (force simp: w sequence_fields transfer_all_stops)
  next
    case (Some r)
    obtain ec sent out rest where r: "r = (ec, sent, out, rest)" by (cases r) auto
    note run = Some [unfolded r w]
    have "sent = length (concat bs)" if "ec = None" "concat bs \<noteq> []" "no_empty_success (map fst as)"
      using sequence.async_all [OF start _ transfer_all_start, of m _ as sent out rest] run that
      by (force simp: sequence_fields no_empty_success_def)
    then show ?thesis using sequence.async_prefix [OF start run] Some r by (auto simp: sequence_fields)
  qed
  assume "concat bs \<noteq> [] \<and> no_empty_success rooms"
  then show "map_option (\<lambda>(ec, sent, out, rest). (ec, sent, out, map fst rest))
        (async_write ?vs transfer_all ?v (map (\<lambda>a. (a, False)) rooms)) = write_sync ?vs transfer_all ?v None rooms"
    using sequence.async_as_sync [OF start, of m transfer_all None "transfer_all None 0" rooms] transfer_all_start
    by (simp add: w sequence_fields no_empty_success_def option.map_comp comp_def case_prod_unfold option.map_ident)
qed

theorem async_write_delivers_witness:
  "\<exists>out. async_write (sequence_view 2) transfer_all (consuming_buffers [[1, 2], [], [3, 4]])
      [((None, 1), False), ((None, 9), False)] = Some (None, 4, out, []) \<and> out = take 4 [1, 2, 3, 4] \<and>
     write_sync (sequence_view 2) transfer_all (consuming_buffers [[1, 2], [], [3, 4]]) None [(None, 1), (None, 9)] = Some (None, 4, out, [])"
proof -
  let ?bs = "[[1, 2], [], [3, 4]] :: bytes list" and ?rooms = "[(None, 1), (None, 9)] :: room list"
  obtain out where a: "async_write (sequence_view 2) transfer_all (consuming_buffers ?bs) (map (\<lambda>a. (a, False)) ?rooms) = Some (None, 4, out, [])"
    by (simp add: async_write_def write_op_start_def write_op_resume_def sequence_view_def consuming_buffers_def cb_prepare_def
        cb_consume_def cb_empty_def max_prepared_def transfer_all_def default_max_transfer_size_def Let_def)
  have n: "no_empty_success ?rooms" by (auto simp: no_empty_success_def)
  note facts = async_write_delivers [where m = 1 and bs = ?bs and as = "map (\<lambda>a. (a, False)) ?rooms" and rooms = ?rooms, unfolded Suc_1 a]
  from facts n have "out = take 4 [1, 2, 3, 4]" by simp
  moreover from facts n
  have "write_sync (sequence_view 2) transfer_all (consuming_buffers ?bs) None ?rooms = Some (None, 4, out, [])"
    by (auto simp del: write_sync.simps)
  ultimately show ?thesis using a by auto
qed

section \<open>Writing to a socket\<close>

datatype 'x outcome =
    Performed "'x answer list list"   \<comment> \<open>performed by the reactor until it was finished, with the system's answers each time\<close>
  | Refused errc                      \<comment> \<open>not performed: the operation was cancelled, or could not be started\<close>

fun perform_until :: "buffers \<Rightarrow> state_type \<Rightarrow> 'x answer list list \<Rightarrow> (errc option \<times> int) option" where
  "perform_until bufs flags [] = None"
| "perform_until bufs flags (os # oss) =
     Option.bind (send_perform bufs flags 0 os) (\<lambda>(result, ec, n, out, os).
       if result = Not_done then perform_until bufs flags oss else Some (ec, n))"

fun completion :: "bytes \<Rightarrow> state_type \<Rightarrow> 'x outcome \<Rightarrow> room option" where
  \<comment> \<open>what an \<open>async_write_some\<close> completes with; it does not depend on which bytes are offered\<close>
  "completion d flags (Performed oss) = map_option (\<lambda>(ec, n). (ec, nat n)) (perform_until (One d) flags oss)"
| "completion d flags (Refused e) = Some (Some e, 0)"

definition socket_write :: "state_type \<Rightarrow> bytes \<Rightarrow> 'x outcome list \<Rightarrow> (errc option \<times> nat \<times> bytes) option" where
  \<comment> \<open>\<open>asio::async_write(socket, const_buffer)\<close>\<close>
  "socket_write flags d outcomes =
     Option.bind (those (map (completion d flags) outcomes)) (\<lambda>as.
       map_option (\<lambda>(ec, sent, out, rest). (ec, sent, out))
         (async_write single_view transfer_all (consuming_single_buffer d) (map (\<lambda>a. (a, False)) as)))"

definition progresses :: "'x answer \<Rightarrow> bool" where
  "progresses a = (case a of Inl e \<Rightarrow> True | Inr (v, x) \<Rightarrow> 0 < v)"

definition tcp_outcome :: "'x outcome \<Rightarrow> bool" where
  \<comment> \<open>a successful \<open>send\<close> of some bytes takes at least one; what refuses an operation is no request to try again\<close>
  "tcp_outcome outcome =
     (case outcome of
        Performed oss \<Rightarrow> \<forall>os \<in> set oss. \<forall>a \<in> set os. progresses a
      | Refused e \<Rightarrow> \<not> IsTryAgain e)"

lemma transfer_outcome:
  assumes "non_blocking_transfer io_call 0 os = Some (True, ec, n, out, os')" "\<forall>a \<in> set os. progresses a"
  shows "(ec = None \<and> 0 < n) \<or> (\<exists>e. ec = Some e \<and> n = 0 \<and> \<not> IsTryAgain e)"
  using assms
proof (induction os)
  case (Cons a os)
  then show ?case
    by (cases a) (auto simp: io_call_def sys_def get_last_error_def would_wait_def IsTryAgain_def progresses_def Let_def split: if_splits)
qed simp

lemma transfer_status [simp]: "status_of ok x = Not_done \<longleftrightarrow> \<not> ok"
  by (simp add: status_of_def)

lemma performed_outcome:
  assumes "perform_until bufs flags oss = Some (ec, n)" "\<forall>os \<in> set oss. \<forall>a \<in> set os. progresses a"
  shows "(ec = None \<and> 0 < n) \<or> (\<exists>e. ec = Some e \<and> n = 0 \<and> \<not> IsTryAgain e)"
  using assms
proof (induction oss)
  case (Cons os oss)
  have calls: "sock_send = io_call" "sock_send1 = io_call" by (simp_all add: fun_eq_iff sock_send_def sock_send1_def)
  obtain st e b out os' where s: "send_perform bufs flags 0 os = Some (st, e, b, out, os')"
    "if st = Not_done then perform_until bufs flags oss = Some (ec, n) else e = ec \<and> b = n"
    using Cons.prems(1) by (auto simp: bind_eq_Some_conv split: if_splits)
  then obtain ok where "non_blocking_transfer io_call 0 os = Some (ok, e, b, out, os')" "st = status_of ok (has flags stream_oriented \<and> b < int (length (buffers_bytes bufs)))"
    by (auto simp: send_perform_def non_blocking_send_def non_blocking_send1_def calls split: buffers.splits)
  then show ?case using Cons s(2) transfer_outcome [of os e b out os']
    by (cases ok) (auto simp: status_of_def split: if_splits)
qed simp

lemma write_error_known:
  "write_async vs cc offered v as = Some (ec, sent, out, rest) \<Longrightarrow> \<not> (\<exists>r. (r, True) \<in> set as) \<Longrightarrow> \<exists>n. ((ec, n), False) \<in> set as"
proof (induction as arbitrary: offered v sent out)
  case (Cons a as)
  obtain ec1 n c where a: "a = ((ec1, n), c)" by (metis surj_pair)
  have c: "\<not> c" using Cons.prems(2) a by auto
  let ?k = "length (take n (concat offered))"
  show ?case
  proof (cases "write_op_resume vs cc c ec1 ?k v")
    case (Pair p v')
    show ?thesis
    proof (cases p)
      case (Complete e t)
      then have "e = ec1" using resume_ends [OF Pair [unfolded Complete]] c by blast
      then show ?thesis using Cons.prems(1) Pair Complete c unfolding a by (auto simp: Let_def)
    next
      case (Write_some offered')
      then obtain out' where "write_async vs cc offered' v' as = Some (ec, sent, out', rest)"
        using Cons.prems(1) Pair unfolding a by (auto simp: Let_def)
      from Cons.IH [OF this] Cons.prems(2) show ?thesis by auto
    qed
  qed
qed simp

lemma those_map: "those (map f xs) = Some ys \<Longrightarrow> map f xs = map Some ys"
  by (induction xs arbitrary: ys) (auto split: option.splits)

lemma those_set:
  assumes "those (map f xs) = Some ys"
  shows "length ys = length xs" "\<And>y. y \<in> set ys \<Longrightarrow> \<exists>x \<in> set xs. f x = Some y"
proof -
  note m = those_map [OF assms]
  show "length ys = length xs" using m by (rule map_eq_imp_length_eq [symmetric])
  show "\<exists>x \<in> set xs. f x = Some y" if "y \<in> set ys" for y
    using that m by (metis imageE imageI list.set_map)
qed

lemma completion_answers:
  assumes "completion d flags x = Some (ec, n)" "tcp_outcome x"
  shows "(ec = None \<and> 0 < n) \<or> (\<exists>e. ec = Some e \<and> n = 0 \<and> \<not> IsTryAgain e)"
proof (cases x)
  case (Performed oss)
  with assms obtain m where "perform_until (One d) flags oss = Some (ec, m)" "n = nat m" by auto
  then show ?thesis using performed_outcome assms(2) Performed by (fastforce simp: tcp_outcome_def)
qed (use assms in \<open>auto simp: tcp_outcome_def\<close>)

lemma single_fields:
  "v_consumed single_view (consuming_single_buffer d) = 0" "v_empty single_view (consuming_single_buffer d) = (d = [])"
  "c1_buffer (consuming_single_buffer d) = d" "single_ok (consuming_single_buffer d)"
  by (simp_all add: single_view_def consuming_single_buffer_def c1_empty_def single_ok_def)

text \<open>
  C9. What a forwarder's write does. On a TCP socket an \<open>AsyncWrite\<close> of some bytes completes after at most one
  more \<open>async_write_some\<close> than there are bytes. If it reports success all of them are on the
  connection; if it fails, a prefix is, and the error is none for which the forwarder would repeat the
  whole write; so the outcome is one that the tunnel of \<open>Flex_Proxy\<close> allows for.
\<close>

theorem socket_write_as_assumed:
  assumes "\<forall>x \<in> set outcomes. tcp_outcome x" "d \<noteq> []"
  shows "case socket_write flags d outcomes of
      None \<Rightarrow> length outcomes \<le> length d \<or> (\<exists>x \<in> set outcomes. completion d flags x = None)
    | Some (ec, sent, out) \<Rightarrow>
        (let result = (case ec of None \<Rightarrow> Inr sent | Some e \<Rightarrow> Inl e)
         in AsyncWrite result = ec \<and> out = writes (Kcp_write d now) (Write_event result) sent \<and>
            (ec = None \<longrightarrow> out = d) \<and> (\<forall>e. ec = Some e \<longrightarrow> \<not> IsTryAgain e))"
proof (cases "those (map (completion d flags) outcomes)")
  case None
  have "\<exists>x \<in> set xs. f x = None" if "those (map f xs) = None" for f :: "'a outcome \<Rightarrow> room option" and xs
    using that by (induction xs) (auto split: option.splits)
  then show ?thesis using None by (auto simp: socket_write_def)
next
  case as: (Some as)
  let ?v = "consuming_single_buffer d" and ?as = "map (\<lambda>a. (a, False)) as"
  have w: "async_write single_view transfer_all ?v ?as =
      write_async single_view transfer_all (v_prepare single_view (transfer_all None 0) ?v) ?v ?as"
    by (simp add: async_write_def write_op_start_def single_fields)
  note known = those_set [OF as] completion_answers assms(1)
  show ?thesis
  proof (cases "async_write single_view transfer_all ?v ?as")
    case None
    then have "length as \<le> length d"
      using single.async_returns [OF single_fields(4), of d ?as transfer_all "transfer_all None 0"]
      by (force simp: w single_fields transfer_all_stops)
    then show ?thesis using as None known(1) by (simp add: socket_write_def)
  next
    case (Some r)
    obtain ec sent out rest where r: "r = (ec, sent, out, rest)" by (cases r) auto
    note run = Some [unfolded r w]
    have p: "out = take sent d" using single.async_prefix [OF single_fields(4) run] by (simp add: single_fields)
    have all: "sent = length d" if "ec = None"
      using single.async_all [OF single_fields(4) _ transfer_all_start, of d _ ?as sent out rest] run that known assms(2)
      by (fastforce simp: single_fields)
    obtain n where "(ec, n) \<in> set as" using write_error_known [OF run] by auto
    then have e: "\<not> IsTryAgain e" if "ec = Some e" for e using known that by fastforce
    have "socket_write flags d outcomes = Some (ec, sent, out)" using as Some r by (simp add: socket_write_def)
    then show ?thesis using p all e by (cases ec) (auto simp: Let_def AsyncWrite_def writes_def)
  qed
qed

theorem socket_write_as_assumed_witness:
  "socket_write stream_oriented [7, 8, 9] [Performed [[Inl operation_would_block], [Inl interrupted, Inr (2, ())]], Performed [[Inr (1, ())]]] =
     Some (None, 3, [7, 8, 9]) \<and>
   [7, 8, 9] = writes (Kcp_write [7, 8, 9] 0) (Write_event (Inr 3)) 3"
proof -
  let ?os = "[Performed [[Inl operation_would_block], [Inl interrupted, Inr (2, ())]], Performed [[Inr (1, ())]]]"
  have "socket_write stream_oriented [7, 8, 9] ?os = Some (None, 3, [7, 8, 9])"
    by (simp add: socket_write_def async_write_def write_op_start_def write_op_resume_def single_view_def
        consuming_single_buffer_def c1_prepare_def c1_consume_def c1_empty_def transfer_all_def default_max_transfer_size_def
        send_perform_def non_blocking_send1_def sock_send1_def io_call_def sys_def get_last_error_def would_wait_def
        written_def Let_def)
  moreover have "\<forall>x \<in> set ?os. tcp_outcome x" by (simp add: tcp_outcome_def progresses_def)
  ultimately show ?thesis using socket_write_as_assumed [of ?os "[7, 8, 9]" stream_oriented 0] by (simp add: Let_def)
qed

end
