(* ===== verification/Asio_Coroutine.thy ===== *)
theory Asio_Coroutine
  imports Flex_Utils
begin

text \<open>
  The coroutines of asio (\<open>impl/awaitable.hpp\<close>, \<open>impl/use_awaitable.hpp\<close>, \<open>impl/co_spawn.hpp\<close>). A thread of execution
  is a stack of coroutine frames linked by \<open>caller_\<close>; a thread object pumps it by resuming the top
  frame until the stack is empty or an asynchronous operation has taken the stack over, whose completion handler
  pumps on. The body of a coroutine is what it does between its suspensions. Cancellation slots are left out. The
  last section shows that pumping the frames runs the bodies as if \<open>co_await\<close> were a function call.
\<close>

section \<open>Bodies of coroutines\<close>

codatatype 'v body =
    Ret 'v                                        \<comment> \<open>\<open>co_return\<close>\<close>
  | Thr errc                                      \<comment> \<open>an exception leaves the body\<close>
  | Call "'v body" "errc + 'v \<Rightarrow> 'v body"         \<comment> \<open>\<open>co_await\<close> of another coroutine, and what follows its exception or value\<close>
  | Op nat "errc + 'v \<Rightarrow> 'v body"                 \<comment> \<open>\<open>co_await\<close> of an operation with \<open>use_awaitable\<close>\<close>
  | Switched "bool \<Rightarrow> 'v body"                    \<comment> \<open>\<open>co_await awaitable_thread_has_context_switched\<close>\<close>
  | Set_switched bool "'v body"
  | Hand bool "errc option" "'v body"             \<comment> \<open>the completion handler, by \<open>dispatch\<close> (or \<open>post\<close>)\<close>

datatype 'v code =
    At "'v body"
  | Waiting nat "errc + 'v \<Rightarrow> 'v body"            \<comment> \<open>suspended in \<open>co_await\<close> of the coroutine with this frame\<close>
  | Initiate nat                                  \<comment> \<open>the coroutine \<open>async_result::initiate\<close>\<close>
  | Initiated nat
  | Ended

record 'v frame =
  code :: "'v code"
  attached_thread :: bool                         \<comment> \<open>is it set; it can only point to the thread that pumps\<close>
  frame_caller :: "nat option"
  pending_exception :: "errc option"
  frame_result :: "'v option"

definition new_frame :: "'v code \<Rightarrow> 'v frame" where
  "new_frame c = \<lparr>code = c, attached_thread = False, frame_caller = None, pending_exception = None, frame_result = None\<rparr>"

record 'v co_thread =
  frames :: "nat \<Rightarrow> 'v frame option"              \<comment> \<open>those not yet destroyed\<close>
  next_frame :: nat
  bottom_of_stack :: "nat option"                 \<comment> \<open>of the thread object that pumps\<close>
  top_of_stack :: "nat option"                    \<comment> \<open>in the frame of the entry point\<close>
  has_context_switched :: bool
  op_handler :: "(nat \<times> nat) option"              \<comment> \<open>the operation whose handler holds the stack, and its bottom\<close>
  handed :: "(bool \<times> errc option) list"

section \<open>Frames\<close>

definition upd_frame :: "nat \<Rightarrow> ('v frame \<Rightarrow> 'v frame) \<Rightarrow> 'v co_thread \<Rightarrow> 'v co_thread option" where
  \<comment> \<open>\<open>None\<close> where there is no such frame\<close>
  "upd_frame f g t = map_option (\<lambda>fr. t\<lparr>frames := (frames t)(f \<mapsto> g fr)\<rparr>) (frames t f)"

definition create_frame :: "'v code \<Rightarrow> 'v co_thread \<Rightarrow> nat \<times> 'v co_thread" where
  "create_frame c t = (next_frame t, t\<lparr>frames := (frames t)(next_frame t \<mapsto> new_frame c), next_frame := Suc (next_frame t)\<rparr>)"

definition destroy_frame :: "nat \<Rightarrow> 'v co_thread \<Rightarrow> 'v co_thread" where
  "destroy_frame f t = t\<lparr>frames := (frames t)(f := None)\<rparr>"

definition attach_thread :: "nat \<Rightarrow> 'v co_thread \<Rightarrow> 'v co_thread option" where
  "attach_thread f t = upd_frame f (\<lambda>fr. fr\<lparr>attached_thread := True\<rparr>) t"

definition set_top :: "nat option \<Rightarrow> 'v co_thread \<Rightarrow> 'v co_thread option" where
  \<comment> \<open>through \<open>entry_point()\<close> of the attached thread\<close>
  "set_top f t = (if bottom_of_stack t = None then None else Some (t\<lparr>top_of_stack := f\<rparr>))"

definition push_frame :: "nat \<Rightarrow> nat \<Rightarrow> 'v co_thread \<Rightarrow> 'v co_thread option" where
  "push_frame this caller t =
     Option.bind (frames t caller) (\<lambda>cr.
       if \<not> attached_thread cr then None
       else Option.bind (upd_frame this (\<lambda>fr. fr\<lparr>frame_caller := Some caller, attached_thread := True\<rparr>) t) (\<lambda>t.
         Option.bind (set_top (Some this) t) (upd_frame caller (\<lambda>fr. fr\<lparr>attached_thread := False\<rparr>))))"

definition pop_frame :: "nat \<Rightarrow> 'v co_thread \<Rightarrow> 'v co_thread option" where
  "pop_frame this t =
     Option.bind (frames t this) (\<lambda>fr.
       if \<not> attached_thread fr then None
       else Option.bind (case frame_caller fr of None \<Rightarrow> Some t | Some c \<Rightarrow> upd_frame c (\<lambda>cr. cr\<lparr>attached_thread := True\<rparr>) t) (\<lambda>t.
         Option.bind (set_top (frame_caller fr) t)
           (upd_frame this (\<lambda>fr. fr\<lparr>attached_thread := False, frame_caller := None\<rparr>))))"

definition detach_thread :: "nat \<Rightarrow> nat \<Rightarrow> 'v co_thread \<Rightarrow> 'v co_thread option" where
  \<comment> \<open>and the move of the thread into the handler of the operation (\<open>do_init\<close>)\<close>
  "detach_thread op this t =
     Option.bind (frames t this) (\<lambda>fr.
       if \<not> attached_thread fr then None
       else Option.bind (bottom_of_stack t) (\<lambda>b.
         upd_frame this (\<lambda>fr. fr\<lparr>attached_thread := False\<rparr>)
           (t\<lparr>has_context_switched := True, op_handler := Some (op, b), bottom_of_stack := None\<rparr>)))"

definition final_suspend :: "nat \<Rightarrow> errc + 'v \<Rightarrow> 'v co_thread \<Rightarrow> 'v co_thread option" where
  \<comment> \<open>\<open>return_value\<close> or \<open>unhandled_exception\<close> before it\<close>
  "final_suspend this r t =
     Option.bind
       (upd_frame this (\<lambda>fr. (case r of Inl e \<Rightarrow> fr\<lparr>pending_exception := Some e\<rparr> | Inr v \<Rightarrow> fr\<lparr>frame_result := Some v\<rparr>)\<lparr>code := Ended\<rparr>) t)
       (pop_frame this)"

definition get_result :: "nat \<Rightarrow> 'v co_thread \<Rightarrow> ((errc + 'v) \<times> 'v co_thread) option" where
  \<comment> \<open>\<open>await_resume\<close> of the awaitable, which owns the frame\<close>
  "get_result c t =
     Option.bind (frames t c) (\<lambda>fr.
       case pending_exception fr of
         Some e \<Rightarrow> Some (Inl e, destroy_frame c t)
       | None \<Rightarrow> map_option (\<lambda>v. (Inr v, destroy_frame c t)) (frame_result fr))"

section \<open>Resuming\<close>

definition await_frame :: "nat \<Rightarrow> 'v code \<Rightarrow> (errc + 'v \<Rightarrow> 'v body) \<Rightarrow> 'v co_thread \<Rightarrow> 'v co_thread option" where
  "await_frame this callee k t =
     (let (c, t) = create_frame callee t
      in Option.bind (upd_frame this (\<lambda>fr. fr\<lparr>code := Waiting c k\<rparr>) t) (push_frame c this))"

partial_function (option) run_body :: "nat \<Rightarrow> 'v body \<Rightarrow> 'v co_thread \<Rightarrow> 'v co_thread option" where
  \<comment> \<open>the body in the frame, up to its next suspension\<close>
  "run_body this b t =
     (case b of
        Ret v \<Rightarrow> final_suspend this (Inr v) t
      | Thr e \<Rightarrow> final_suspend this (Inl e) t
      | Call c k \<Rightarrow> await_frame this (At c) k t
      | Op n k \<Rightarrow> await_frame this (Initiate n) k t
      | Switched k \<Rightarrow> run_body this (k (has_context_switched t)) t
      | Set_switched s b \<Rightarrow> run_body this b (t\<lparr>has_context_switched := s\<rparr>)
      | Hand d e b \<Rightarrow> run_body this b (t\<lparr>handed := handed t @ [(d, e)]\<rparr>))"

declare run_body.simps [code]

definition resume :: "nat \<Rightarrow> 'v co_thread \<Rightarrow> 'v co_thread option" where
  "resume this t =
     Option.bind (frames t this) (\<lambda>fr.
       case code fr of
         At b \<Rightarrow> run_body this b t
       | Waiting c k \<Rightarrow> Option.bind (get_result c t) (\<lambda>(r, t). run_body this (k r) t)
       | Initiate n \<Rightarrow> Option.bind (upd_frame this (\<lambda>fr. fr\<lparr>code := Initiated n\<rparr>) t) (detach_thread n this)
       | Initiated n \<Rightarrow> None
       | Ended \<Rightarrow> None)"

definition leave :: "nat \<Rightarrow> 'v co_thread \<Rightarrow> ('v co_thread \<times> errc option) option" where
  \<comment> \<open>the stack is empty: its bottom frame is destroyed, and its exception leaves \<open>pump\<close>\<close>
  "leave b t = map_option (\<lambda>fr. (destroy_frame b (t\<lparr>bottom_of_stack := None\<rparr>), pending_exception fr)) (frames t b)"

partial_function (option) pump :: "'v co_thread \<Rightarrow> ('v co_thread \<times> errc option) option" where
  "pump t =
     (case top_of_stack t of
        None \<Rightarrow> None
      | Some f \<Rightarrow> Option.bind (resume f t) (\<lambda>t.
          case bottom_of_stack t of
            None \<Rightarrow> Some (t, None)
          | Some b \<Rightarrow> if top_of_stack t \<noteq> None then pump t else leave b t))"

declare pump.simps [code]

definition launch :: "'v co_thread \<Rightarrow> ('v co_thread \<times> errc option) option" where
  "launch t = Option.bind (top_of_stack t) (\<lambda>f. Option.bind (attach_thread f t) pump)"

definition complete_await :: "errc + 'v \<Rightarrow> 'v co_thread \<Rightarrow> ('v co_thread \<times> errc option) option" where
  \<comment> \<open>\<open>awaitable_handler::operator()\<close>, with the error code or the value of the operation\<close>
  "complete_await r t =
     Option.bind (op_handler t) (\<lambda>(op, b).
       let t = t\<lparr>op_handler := None, bottom_of_stack := Some b\<rparr>
       in Option.bind (top_of_stack t) (\<lambda>f.
         Option.bind (attach_thread f t) (\<lambda>t.
           Option.bind (upd_frame f (\<lambda>fr. case r of Inl ec \<Rightarrow> fr\<lparr>pending_exception := Some ec\<rparr> | Inr v \<Rightarrow> fr\<lparr>frame_result := Some v\<rparr>) t) (\<lambda>t.
             Option.bind (pop_frame f t) pump))))"

section \<open>Spawning\<close>

definition dispatch_op :: nat where "dispatch_op = 0"

definition co_spawn_entry_point :: "'v \<Rightarrow> 'v body \<Rightarrow> 'v body" where
  \<comment> \<open>of a coroutine without a result; \<open>unit\<close> is the value of \<open>void\<close>\<close>
  "co_spawn_entry_point unit f =
     Op dispatch_op (\<lambda>r. case r of
       Inl ec \<Rightarrow> Thr ec
     | Inr _ \<Rightarrow>
         Set_switched False
           (Call f (\<lambda>r. Switched (\<lambda>switched. Hand switched (case r of Inl e \<Rightarrow> Some e | Inr _ \<Rightarrow> None) (Ret unit)))))"

definition thread_init :: "'v body \<Rightarrow> 'v co_thread" where
  "thread_init b =
     \<lparr>frames = [0 \<mapsto> new_frame (At b)], next_frame = 1, bottom_of_stack = Some 0, top_of_stack = Some 0,
      has_context_switched = False, op_handler = None, handed = []\<rparr>"

definition co_spawn :: "'v \<Rightarrow> 'v body \<Rightarrow> ('v co_thread \<times> errc option) option" where
  "co_spawn unit f = launch (thread_init (co_spawn_entry_point unit f))"

fun drive :: "(nat \<times> (errc + 'v)) list \<Rightarrow> 'v co_thread \<times> errc option \<Rightarrow> ('v co_thread \<times> errc option) option" where
  \<comment> \<open>the event loop completes the operations that are initiated, each with its outcome\<close>
  "drive [] w = Some w"
| "drive ((n, r) # tr) (t, thrown) =
     (if thrown = None \<and> map_option fst (op_handler t) = Some n then Option.bind (complete_await r t) (drive tr) else None)"

definition async_wrapper :: "(errc option \<Rightarrow> 'v) \<Rightarrow> nat \<Rightarrow> 'v body" where
  \<comment> \<open>\<open>AsyncWait\<close>, \<open>AsyncWrite\<close> and \<open>AsyncConnect\<close>: the exception is caught and its code returned\<close>
  "async_wrapper code_of n = Op n (\<lambda>r. Ret (code_of (case r of Inl ec \<Rightarrow> Some ec | Inr _ \<Rightarrow> None)))"

section \<open>Coroutines as function calls\<close>

type_synonym co_state = "bool \<times> (bool \<times> errc option) list"  \<comment> \<open>\<open>has_context_switched\<close>, and what was handed over\<close>

inductive runs :: "'v body \<Rightarrow> co_state \<Rightarrow> (nat \<times> (errc + 'v)) list \<Rightarrow> errc + 'v \<Rightarrow> co_state \<Rightarrow> bool" where
  \<comment> \<open>the body ends with this exception or value after these operations with these outcomes\<close>
  run_ret: "runs (Ret v) s [] (Inr v) s"
| run_thr: "runs (Thr e) s [] (Inl e) s"
| run_call: "runs c s tr r s' \<Longrightarrow> runs (k r) s' tr' r' s'' \<Longrightarrow> runs (Call c k) s (tr @ tr') r' s''"
| run_op: "runs (k a) (True, snd s) tr r s' \<Longrightarrow> runs (Op n k) s ((n, a) # tr) r s'"
| run_switched: "runs (k (fst s)) s tr r s' \<Longrightarrow> runs (Switched k) s tr r s'"
| run_set: "runs b (x, snd s) tr r s' \<Longrightarrow> runs (Set_switched x b) s tr r s'"
| run_hand: "runs b (fst s, snd s @ [(d, e)]) tr r s' \<Longrightarrow> runs (Hand d e b) s tr r s'"

inductive awaits :: "'v body \<Rightarrow> co_state \<Rightarrow> (nat \<times> (errc + 'v)) list \<Rightarrow> nat \<Rightarrow> co_state \<Rightarrow> bool" where
  \<comment> \<open>after these operations it waits for another\<close>
  await_now: "awaits (Op n k) s [] n (True, snd s)"
| await_op: "awaits (k a) (True, snd s) tr m s' \<Longrightarrow> awaits (Op n k) s ((n, a) # tr) m s'"
| await_in_call: "awaits c s tr m s' \<Longrightarrow> awaits (Call c k) s tr m s'"
| await_call: "runs c s tr r s' \<Longrightarrow> awaits (k r) s' tr' m s'' \<Longrightarrow> awaits (Call c k) s (tr @ tr') m s''"
| await_switched: "awaits (k (fst s)) s tr m s' \<Longrightarrow> awaits (Switched k) s tr m s'"
| await_set: "awaits b (x, snd s) tr m s' \<Longrightarrow> awaits (Set_switched x b) s tr m s'"
| await_hand: "awaits b (fst s, snd s @ [(d, e)]) tr m s' \<Longrightarrow> awaits (Hand d e b) s tr m s'"

inductive_cases runs_opE: "runs (Op n k) s tr r s'"

section \<open>The stack of frames\<close>

fun waiting :: "(nat \<Rightarrow> 'v frame option) \<Rightarrow> nat \<Rightarrow> nat option \<Rightarrow> (nat \<times> (errc + 'v \<Rightarrow> 'v body)) list \<Rightarrow> bool" where
  \<comment> \<open>the frames below \<open>c\<close>, each waiting for the one above it\<close>
  "waiting m c p [] = (p = None)"
| "waiting m c p ((g, k) # ks) =
     (p = Some g \<and> (case m g of None \<Rightarrow> False | Some gr \<Rightarrow>
        code gr = Waiting c k \<and> \<not> attached_thread gr \<and> pending_exception gr = None \<and> frame_result gr = None \<and>
        waiting m g (frame_caller gr) ks))"

definition stack_ok :: "'v co_thread \<Rightarrow> nat \<Rightarrow> 'v frame \<Rightarrow> (nat \<times> (errc + 'v \<Rightarrow> 'v body)) list \<Rightarrow> bool" where
  "stack_ok t f fr ks =
     (frames t f = Some fr \<and> pending_exception fr = None \<and> frame_result fr = None \<and>
      waiting (frames t) f (frame_caller fr) ks \<and> dom (frames t) = insert f (fst ` set ks) \<and>
      distinct (f # map fst ks) \<and> (\<forall>i \<ge> next_frame t. frames t i = None) \<and> top_of_stack t = Some f)"

definition running :: "'v co_thread \<Rightarrow> nat \<Rightarrow> (nat \<times> (errc + 'v \<Rightarrow> 'v body)) list \<Rightarrow> co_state \<Rightarrow> bool" where
  "running t f ks s =
     ((\<exists>fr. stack_ok t f fr ks \<and> attached_thread fr) \<and> bottom_of_stack t = Some (last (f # map fst ks)) \<and>
      op_handler t = None \<and> (has_context_switched t, handed t) = s)"

definition after_resume :: "'v co_thread \<Rightarrow> ('v co_thread \<times> errc option) option" where
  "after_resume t =
     (case bottom_of_stack t of
        None \<Rightarrow> Some (t, None)
      | Some b \<Rightarrow> if top_of_stack t \<noteq> None then pump t else leave b t)"

definition go :: "nat \<Rightarrow> 'v body \<Rightarrow> 'v co_thread \<Rightarrow> ('v co_thread \<times> errc option) option" where
  "go f b t = Option.bind (run_body f b t) after_resume"

definition leaf :: "errc + 'v \<Rightarrow> 'v body" where
  "leaf r = (case r of Inl e \<Rightarrow> Thr e | Inr v \<Rightarrow> Ret v)"

lemma pump_resume: "top_of_stack t = Some f \<Longrightarrow> pump t = Option.bind (resume f t) after_resume"
  by (subst pump.simps) (simp add: after_resume_def [abs_def])

lemma waiting_upd [simp]: "x \<notin> fst ` set ks \<Longrightarrow> waiting (m(x := y)) c p ks = waiting m c p ks"
  by (induction ks arbitrary: c p) (auto split: option.splits)

lemma leaf_ends: "run_body f (leaf r) t = final_suspend f r t"
  by (cases r) (simp_all add: leaf_def run_body.simps)

lemmas frame_simps = final_suspend_def pop_frame_def upd_frame_def set_top_def get_result_def destroy_frame_def
  await_frame_def create_frame_def new_frame_def push_frame_def detach_thread_def attach_thread_def

lemma return_to_caller:
  assumes "running t f ((g, k) # ks) s"
  shows "\<exists>t'. running t' g ks s \<and> go f (leaf r) t = go g (k r) t'"
proof -
  obtain fr where fr: "stack_ok t f fr ((g, k) # ks)" "attached_thread fr" using assms by (auto simp: running_def)
  then obtain gr where gr: "frames t g = Some gr" "code gr = Waiting f k" "pending_exception gr = None" "frame_result gr = None"
      "waiting (frames t) g (frame_caller gr) ks" "frame_caller fr = Some g" "f \<noteq> g" "f \<notin> fst ` set ks" "g \<notin> fst ` set ks"
    by (auto simp: stack_ok_def split: option.splits)
  have b: "bottom_of_stack t = Some (last (g # map fst ks))" using assms by (simp add: running_def)
  let ?fr = "(case r of Inl e \<Rightarrow> fr\<lparr>pending_exception := Some e\<rparr> | Inr v \<Rightarrow> fr\<lparr>frame_result := Some v\<rparr>)
    \<lparr>code := Ended, attached_thread := False, frame_caller := None\<rparr>"
  let ?t1 = "t\<lparr>frames := (frames t)(f \<mapsto> ?fr, g \<mapsto> gr\<lparr>attached_thread := True\<rparr>), top_of_stack := Some g\<rparr>"
  let ?t2 = "destroy_frame f ?t1"
  have "final_suspend f r t = Some ?t1"
    using fr gr b by (cases r) (auto simp: frame_simps stack_ok_def fun_upd_twist)
  moreover have "after_resume ?t1 = go g (k r) ?t2"
    using b gr fr by (cases r) (auto simp: after_resume_def pump_resume resume_def get_result_def go_def stack_ok_def fun_upd_twist)
  moreover have "running ?t2 g ks s"
    using assms fr gr by (auto simp: running_def stack_ok_def destroy_frame_def)
  ultimately show ?thesis by (auto simp: go_def leaf_ends)
qed

lemma call_frame:
  assumes "running t f ks s"
  shows "\<exists>t' c. running t' c ((f, k) # ks) s \<and> go f (Call b k) t = go c b t'"
proof -
  obtain fr where fr: "stack_ok t f fr ks" "attached_thread fr" using assms by (auto simp: running_def)
  let ?c = "next_frame t"
  have c: "frames t ?c = None" "f \<noteq> ?c" "?c \<notin> fst ` set ks" using fr by (auto simp: stack_ok_def)
  let ?t' = "t\<lparr>frames := (frames t)(?c \<mapsto> (new_frame (At b))\<lparr>frame_caller := Some f, attached_thread := True\<rparr>,
      f \<mapsto> fr\<lparr>code := Waiting ?c k, attached_thread := False\<rparr>), next_frame := Suc ?c, top_of_stack := Some ?c\<rparr>"
  have w: "await_frame f (At b) k t = Some ?t'"
    using fr c assms by (auto simp: frame_simps stack_ok_def running_def fun_upd_twist)
  have "after_resume ?t' = go ?c b ?t'"
    using c assms by (auto simp: running_def after_resume_def pump_resume resume_def go_def new_frame_def)
  moreover have "go f (Call b k) t = after_resume ?t'" unfolding go_def by (simp add: run_body.simps w)
  moreover have "running ?t' ?c ((f, k) # ks) s"
    using assms fr c by (auto simp: running_def stack_ok_def new_frame_def)
  ultimately show ?thesis by auto
qed

definition op_pending :: "'v co_thread \<Rightarrow> nat \<Rightarrow> nat \<Rightarrow> (errc + 'v \<Rightarrow> 'v body) \<Rightarrow> (nat \<times> (errc + 'v \<Rightarrow> 'v body)) list \<Rightarrow> co_state \<Rightarrow> bool" where
  \<comment> \<open>the stack is with the handler of the operation, which the top frame has initiated for \<open>f\<close>\<close>
  "op_pending t n f k ks s =
     (\<exists>c fr. stack_ok t c fr ((f, k) # ks) \<and> \<not> attached_thread fr \<and> code fr = Initiated n \<and> bottom_of_stack t = None \<and>
        op_handler t = Some (n, last (f # map fst ks)) \<and> (has_context_switched t, handed t) = s)"

lemma op_initiated:
  assumes "running t f ks s"
  shows "\<exists>t'. go f (Op n k) t = Some (t', None) \<and> op_pending t' n f k ks (True, snd s)"
proof -
  obtain fr where fr: "stack_ok t f fr ks" "attached_thread fr" using assms by (auto simp: running_def)
  let ?c = "next_frame t"
  have c: "frames t ?c = None" "f \<noteq> ?c" "?c \<notin> fst ` set ks" using fr by (auto simp: stack_ok_def)
  let ?m = "\<lambda>code a. (frames t)(?c \<mapsto> (new_frame code)\<lparr>frame_caller := Some f, attached_thread := a\<rparr>,
      f \<mapsto> fr\<lparr>code := Waiting ?c k, attached_thread := False\<rparr>)"
  let ?t1 = "t\<lparr>frames := ?m (Initiate n) True, next_frame := Suc ?c, top_of_stack := Some ?c\<rparr>"
  let ?b = "last (f # map fst ks)"
  let ?t' = "?t1\<lparr>frames := ?m (Initiated n) False, has_context_switched := True, op_handler := Some (n, ?b), bottom_of_stack := None\<rparr>"
  have b: "bottom_of_stack t = Some ?b" using assms by (simp add: running_def)
  have w: "await_frame f (Initiate n) k t = Some ?t1"
    using fr c b by (auto simp: frame_simps stack_ok_def fun_upd_twist)
  have "resume ?c ?t1 = Some ?t'"
    using c b by (auto simp: resume_def upd_frame_def detach_thread_def new_frame_def fun_upd_twist)
  then have "after_resume ?t1 = Some (?t', None)" using b by (simp add: after_resume_def pump_resume)
  moreover have "go f (Op n k) t = after_resume ?t1" unfolding go_def by (simp add: run_body.simps w)
  moreover have "op_pending ?t' n f k ks (True, snd s)"
    using assms fr c unfolding op_pending_def
    by (intro exI [of _ ?c] exI [of _ "(new_frame (Initiated n))\<lparr>frame_caller := Some f, attached_thread := False\<rparr>"])
      (auto simp: running_def stack_ok_def new_frame_def)
  ultimately show ?thesis by auto
qed

lemma op_completed:
  assumes "op_pending t n f k ks s"
  shows "\<exists>t'. running t' f ks s \<and> complete_await r t = go f (k r) t'"
proof -
  obtain c fr where fr: "stack_ok t c fr ((f, k) # ks)" "\<not> attached_thread fr" "code fr = Initiated n" "bottom_of_stack t = None"
      "op_handler t = Some (n, last (f # map fst ks))" "(has_context_switched t, handed t) = s"
    using assms by (auto simp: op_pending_def)
  obtain gr where gr: "frames t f = Some gr" "code gr = Waiting c k" "pending_exception gr = None" "frame_result gr = None"
      "waiting (frames t) f (frame_caller gr) ks" "frame_caller fr = Some f" "c \<noteq> f" "c \<notin> fst ` set ks" "f \<notin> fst ` set ks"
    using fr(1) by (auto simp: stack_ok_def split: option.splits)
  let ?b = "last (f # map fst ks)"
  let ?fr = "(case r of Inl e \<Rightarrow> fr\<lparr>pending_exception := Some e\<rparr> | Inr v \<Rightarrow> fr\<lparr>frame_result := Some v\<rparr>)
    \<lparr>attached_thread := False, frame_caller := None\<rparr>"
  let ?t1 = "t\<lparr>op_handler := None, bottom_of_stack := Some ?b, top_of_stack := Some f,
      frames := (frames t)(c \<mapsto> ?fr, f \<mapsto> gr\<lparr>attached_thread := True\<rparr>)\<rparr>"
  have "complete_await r t = pump ?t1"
    using fr gr by (cases r) (auto simp: complete_await_def frame_simps stack_ok_def Let_def fun_upd_twist)
  moreover have "pump ?t1 = go f (k r) (destroy_frame c ?t1)"
    using fr(1) gr by (cases r) (auto simp: pump_resume resume_def get_result_def go_def stack_ok_def)
  moreover have "running (destroy_frame c ?t1) f ks s"
    using fr gr by (auto simp: running_def stack_ok_def destroy_frame_def)
  ultimately show ?thesis by auto
qed

lemma thread_ends:
  assumes "running t f [] s"
  shows "\<exists>t'. go f (leaf r) t = Some (t', case r of Inl e \<Rightarrow> Some e | Inr v \<Rightarrow> None) \<and> frames t' = Map.empty \<and>
    bottom_of_stack t' = None \<and> op_handler t' = None \<and> (has_context_switched t', handed t') = s"
proof -
  obtain fr where fr: "stack_ok t f fr []" "attached_thread fr" using assms by (auto simp: running_def)
  have b: "bottom_of_stack t = Some f" using assms by (simp add: running_def)
  let ?fr = "(case r of Inl e \<Rightarrow> fr\<lparr>pending_exception := Some e\<rparr> | Inr v \<Rightarrow> fr\<lparr>frame_result := Some v\<rparr>)
    \<lparr>code := Ended, attached_thread := False, frame_caller := None\<rparr>"
  let ?t1 = "t\<lparr>frames := (frames t)(f \<mapsto> ?fr), top_of_stack := None\<rparr>"
  have "final_suspend f r t = Some ?t1"
    using fr b by (cases r) (auto simp: frame_simps stack_ok_def)
  moreover have "dom ((frames t)(f := None)) = {}" using fr(1) by (auto simp: stack_ok_def)
  then have "(frames t)(f := None) = Map.empty" by (simp only: dom_eq_empty_conv)
  moreover have "after_resume ?t1 = Some (destroy_frame f (?t1\<lparr>bottom_of_stack := None\<rparr>), case r of Inl e \<Rightarrow> Some e | Inr v \<Rightarrow> None)"
    using b fr(1) by (cases r) (auto simp: after_resume_def leave_def stack_ok_def)
  ultimately show ?thesis using assms by (auto simp: go_def leaf_ends destroy_frame_def running_def)
qed

lemma go_simps:
  "go f (Switched k) t = go f (k (has_context_switched t)) t"
  "go f (Set_switched x b) t = go f b (t\<lparr>has_context_switched := x\<rparr>)"
  "go f (Hand d e b) t = go f b (t\<lparr>handed := handed t @ [(d, e)]\<rparr>)"
  unfolding go_def by (subst run_body.simps, simp)+

lemma running_sets:
  "running t f ks s \<Longrightarrow> running (t\<lparr>has_context_switched := x\<rparr>) f ks (x, snd s)"
  "running t f ks s \<Longrightarrow> running (t\<lparr>handed := handed t @ [h]\<rparr>) f ks (fst s, snd s @ [h])"
  "running t f ks s \<Longrightarrow> has_context_switched t = fst s"
  by (auto simp: running_def stack_ok_def)

lemma drive_op:
  assumes "op_pending t n f k ks s"
  shows "\<exists>t'. running t' f ks s \<and> drive ((n, r) # tr) (t, None) = Option.bind (go f (k r) t') (drive tr)"
proof -
  have "map_option fst (op_handler t) = Some n" using assms by (auto simp: op_pending_def)
  then show ?thesis using op_completed [OF assms, of r] by auto
qed

lemma body_runs:
  \<comment> \<open>in a frame, whatever waits below it\<close>
  assumes "runs b s tr r s'" "running t f ks s"
  shows "\<exists>t'. running t' f ks s' \<and> (\<forall>tr'. Option.bind (go f b t) (drive (tr @ tr')) = Option.bind (go f (leaf r) t') (drive tr'))"
  using assms
proof (induction arbitrary: t f ks)
  case (run_call c s tr r s' k tr' r' s'')
  obtain t1 c1 where 1: "running t1 c1 ((f, k) # ks) s" "go f (Call c k) t = go c1 c t1"
    using call_frame [OF run_call.prems] by blast
  obtain t2 where 2: "running t2 c1 ((f, k) # ks) s'"
      "\<And>tr'. Option.bind (go c1 c t1) (drive (tr @ tr')) = Option.bind (go c1 (leaf r) t2) (drive tr')"
    using run_call.IH(1) [OF 1(1)] by blast
  obtain t3 where 3: "running t3 f ks s'" "go c1 (leaf r) t2 = go f (k r) t3"
    using return_to_caller [OF 2(1)] by blast
  show ?case using run_call.IH(2) [OF 3(1)] 1(2) 2(2) 3(2) by simp
next
  case (run_op k a s tr r s' n)
  obtain t1 where 1: "go f (Op n k) t = Some (t1, None)" "op_pending t1 n f k ks (True, snd s)"
    using op_initiated [OF run_op.prems] by blast
  have "\<exists>t2. running t2 f ks (True, snd s) \<and> complete_await a t1 = go f (k a) t2" using op_completed [OF 1(2)] by blast
  then obtain t2 where 2: "running t2 f ks (True, snd s)" "complete_await a t1 = go f (k a) t2" by blast
  have "map_option fst (op_handler t1) = Some n" using 1(2) by (auto simp: op_pending_def)
  then show ?case using run_op.IH [OF 2(1)] 1(1) 2(2) by simp
next
  case (run_ret v s)
  then show ?case by (auto simp: leaf_def)
next
  case (run_thr e s)
  then show ?case by (auto simp: leaf_def)
next
  case (run_switched k s tr r s')
  then show ?case using running_sets(3) [OF run_switched.prems] by (simp add: go_simps)
next
  case (run_set b x s tr r s')
  from run_set.IH [OF running_sets(1) [OF run_set.prems]] show ?case by (simp add: go_simps)
next
  case (run_hand b s d e tr r s')
  from run_hand.IH [OF running_sets(2) [OF run_hand.prems]] show ?case by (simp add: go_simps)
qed

lemma body_awaits:
  assumes "awaits b s tr n s'" "running t f ks s"
  shows "\<exists>t'. Option.bind (go f b t) (drive tr) = Some (t', None) \<and> map_option fst (op_handler t') = Some n \<and> handed t' = snd s'"
  using assms
proof (induction arbitrary: t f ks)
  case (await_now n k s)
  from op_initiated [OF await_now] show ?case by (force simp: op_pending_def)
next
  case (await_op k a s tr m s' n)
  obtain t1 where 1: "go f (Op n k) t = Some (t1, None)" "op_pending t1 n f k ks (True, snd s)"
    using op_initiated [OF await_op.prems] by blast
  obtain t2 where 2: "running t2 f ks (True, snd s)" "drive ((n, a) # tr) (t1, None) = Option.bind (go f (k a) t2) (drive tr)"
    using drive_op [OF 1(2)] by blast
  show ?case using await_op.IH [OF 2(1)] 1(1) 2(2) by simp
next
  case (await_in_call c s tr m s' k)
  obtain t1 c1 where 1: "running t1 c1 ((f, k) # ks) s" "go f (Call c k) t = go c1 c t1"
    using call_frame [OF await_in_call.prems] by blast
  show ?case using await_in_call.IH [OF 1(1)] 1(2) by simp
next
  case (await_call c s tr r s' k tr' m s'')
  obtain t1 c1 where 1: "running t1 c1 ((f, k) # ks) s" "go f (Call c k) t = go c1 c t1"
    using call_frame [OF await_call.prems] by blast
  obtain t2 where 2: "running t2 c1 ((f, k) # ks) s'"
      "\<And>tr'. Option.bind (go c1 c t1) (drive (tr @ tr')) = Option.bind (go c1 (leaf r) t2) (drive tr')"
    using body_runs [OF await_call.hyps(1) 1(1)] by blast
  obtain t3 where 3: "running t3 f ks s'" "go c1 (leaf r) t2 = go f (k r) t3"
    using return_to_caller [OF 2(1)] by blast
  show ?case using await_call.IH [OF 3(1)] 1(2) 2(2) 3(2) by simp
next
  case (await_switched k s tr m s')
  then show ?case using running_sets(3) [OF await_switched.prems] by (simp add: go_simps)
next
  case (await_set b x s tr m s')
  from await_set.IH [OF running_sets(1) [OF await_set.prems]] show ?case by (simp add: go_simps)
next
  case (await_hand b s d e tr m s')
  from await_hand.IH [OF running_sets(2) [OF await_hand.prems]] show ?case by (simp add: go_simps)
qed

lemma thread_start:
  "\<exists>t. launch (thread_init b) = go 0 b t \<and> running t 0 [] (False, [])"
proof -
  let ?t = "(thread_init b)\<lparr>frames := [0 \<mapsto> (new_frame (At b))\<lparr>attached_thread := True\<rparr>]\<rparr>"
  have "launch (thread_init b) = pump ?t" by (simp add: launch_def thread_init_def attach_thread_def upd_frame_def)
  moreover have "pump ?t = go 0 b ?t" by (simp add: pump_resume thread_init_def resume_def go_def new_frame_def)
  moreover have "running ?t 0 [] (False, [])" by (auto simp: running_def stack_ok_def thread_init_def new_frame_def)
  ultimately show ?thesis by auto
qed

lemma entry_runs:
  assumes "runs f (False, []) tr r s"
  shows "runs (co_spawn_entry_point u f) (False, []) ((dispatch_op, Inr x) # tr) (Inr u)
    (fst s, snd s @ [(fst s, case r of Inl e \<Rightarrow> Some e | Inr _ \<Rightarrow> None)])"
proof -
  let ?e = "case r of Inl e \<Rightarrow> Some e | Inr _ \<Rightarrow> None"
  have "runs (Switched (\<lambda>switched. Hand switched ?e (Ret u))) s [] (Inr u) (fst s, snd s @ [(fst s, ?e)])"
    by (intro run_switched run_hand run_ret)
  from run_call [OF assms, where k = "\<lambda>r. Switched (\<lambda>switched. Hand switched (case r of Inl e \<Rightarrow> Some e | Inr _ \<Rightarrow> None) (Ret u))", OF this]
  have "runs (Set_switched False (Call f (\<lambda>r. Switched (\<lambda>switched. Hand switched (case r of Inl e \<Rightarrow> Some e | Inr _ \<Rightarrow> None) (Ret u)))))
      (True, []) tr (Inr u) (fst s, snd s @ [(fst s, ?e)])" by (simp add: run_set)
  then show ?thesis unfolding co_spawn_entry_point_def by (intro run_op) simp
qed

lemma entry_awaits:
  assumes "awaits f (False, []) tr n s"
  shows "awaits (co_spawn_entry_point u f) (False, []) ((dispatch_op, Inr x) # tr) n s"
  using assms unfolding co_spawn_entry_point_def by (intro await_op) (simp add: await_set await_in_call)

lemma wrapper_runs:
  \<comment> \<open>what the coroutines of the forwarders await is the outcome as \<open>Flex_Utils\<close> has it\<close>
  "runs (async_wrapper code_of n) s [(n, r)] (Inr (code_of (AsyncWait (map_sum id (\<lambda>_. ()) r)))) (True, snd s)"
  unfolding async_wrapper_def by (intro run_op) (cases r; simp add: AsyncWait_def run_ret)

text \<open>
  C6. Coroutines run like functions. Take a spawned coroutine, with the coroutines it awaits, and any outcomes
  of the operations it starts. Pumping its frames meets no null pointer and no frame that is gone; it stops
  exactly at the operation at which the bodies, read with \<open>co_await\<close> as a call whose exception or value the
  caller receives, wait next; and when the coroutine ends, every frame has been destroyed, and the completion
  handler is handed over once, with the exception if there was one, by \<open>dispatch\<close> if and only if the coroutine was ever suspended.
\<close>

theorem coroutines_are_calls:
  "(runs f (False, []) tr r s \<longrightarrow>
     (\<exists>t. Option.bind (co_spawn u f) (drive ((dispatch_op, Inr x) # tr)) = Some (t, None) \<and> frames t = Map.empty \<and>
        op_handler t = None \<and> handed t = snd s @ [(fst s, case r of Inl e \<Rightarrow> Some e | Inr _ \<Rightarrow> None)])) \<and>
   (awaits f (False, []) tr n s \<longrightarrow>
     (\<exists>t. Option.bind (co_spawn u f) (drive ((dispatch_op, Inr x) # tr)) = Some (t, None) \<and>
        map_option fst (op_handler t) = Some n \<and> handed t = snd s))"
proof (intro conjI impI)
  let ?b = "co_spawn_entry_point u f" and ?tr = "(dispatch_op, Inr x) # tr"
  obtain t where t: "co_spawn u f = go 0 ?b t" "running t 0 [] (False, [])"
    using thread_start [of ?b] by (auto simp: co_spawn_def)
  show "\<exists>t. Option.bind (co_spawn u f) (drive ?tr) = Some (t, None) \<and> frames t = Map.empty \<and>
      op_handler t = None \<and> handed t = snd s @ [(fst s, case r of Inl e \<Rightarrow> Some e | Inr _ \<Rightarrow> None)]"
    if run: "runs f (False, []) tr r s"
  proof -
    let ?s = "(fst s, snd s @ [(fst s, case r of Inl e \<Rightarrow> Some e | Inr _ \<Rightarrow> None)])"
    obtain t1 where 1: "running t1 0 [] ?s"
        "\<And>tr'. Option.bind (go 0 ?b t) (drive (?tr @ tr')) = Option.bind (go 0 (leaf (Inr u)) t1) (drive tr')"
      using body_runs [OF entry_runs [OF run] t(2)] by blast
    obtain t2 where "go 0 (leaf (Inr u)) t1 = Some (t2, None)" "frames t2 = Map.empty" "op_handler t2 = None" "handed t2 = snd ?s"
      using thread_ends [OF 1(1), of "Inr u"] by auto
    then show ?thesis using 1(2) [of "[]"] t(1) by auto
  qed
  show "\<exists>t. Option.bind (co_spawn u f) (drive ?tr) = Some (t, None) \<and> map_option fst (op_handler t) = Some n \<and> handed t = snd s"
    if "awaits f (False, []) tr n s"
    unfolding t(1) by (rule body_awaits [OF entry_awaits [OF that] t(2)])
qed

definition sample_coroutine :: "errc option body" where
  \<comment> \<open>\<open>ec = co_await AsyncWait(timer)\<close>, then an operation of its own if there was no error, else an exception\<close>
  "sample_coroutine =
     Call (async_wrapper id 5) (\<lambda>r. case r of Inr None \<Rightarrow> Op 6 (\<lambda>_. Ret None) | Inr (Some ec) \<Rightarrow> Thr ec | Inl ec \<Rightarrow> Thr ec)"

theorem coroutines_are_calls_witness:
  "(\<exists>t. Option.bind (co_spawn None sample_coroutine) (drive [(dispatch_op, Inr None), (5, Inr None)]) = Some (t, None) \<and>
     map_option fst (op_handler t) = Some 6 \<and> handed t = []) \<and>
   (\<exists>t. Option.bind (co_spawn None sample_coroutine) (drive [(dispatch_op, Inr None), (5, Inl operation_canceled)]) = Some (t, None) \<and>
     frames t = Map.empty \<and> op_handler t = None \<and> handed t = [(True, Some operation_canceled)])"
proof -
  let ?k = "\<lambda>r :: errc + errc option. case r of Inr None \<Rightarrow> Op 6 (\<lambda>_. Ret None) | Inr (Some ec) \<Rightarrow> Thr ec | Inl ec \<Rightarrow> Thr ec"
  have w: "runs (async_wrapper id 5) s [(5, r)] (Inr (case r of Inl ec \<Rightarrow> Some ec | Inr _ \<Rightarrow> None)) (True, snd s)" for s r
    unfolding async_wrapper_def by (intro run_op) (simp add: run_ret)
  have "awaits (?k (Inr None)) (True, []) [] 6 (True, [])" using await_now [of 6 _ "(True, [])"] by simp
  from await_call [where k = ?k, OF w [of "(False, [])" "Inr None"], simplified, OF this [simplified]]
  have 1: "awaits sample_coroutine (False, []) [(5, Inr None)] 6 (True, [])" by (simp add: sample_coroutine_def)
  have "runs (?k (Inr (Some operation_canceled))) (True, []) [] (Inl operation_canceled) (True, [])" by (simp add: run_thr)
  from run_call [where k = ?k, OF w [of "(False, [])" "Inl operation_canceled"], simplified, OF this [simplified]]
  have 2: "runs sample_coroutine (False, []) [(5, Inl operation_canceled)] (Inl operation_canceled) (True, [])"
    by (simp add: sample_coroutine_def)
  show ?thesis
    using coroutines_are_calls [THEN conjunct2, rule_format, OF 1, of None None]
      coroutines_are_calls [THEN conjunct1, rule_format, OF 2, of None None] by simp
qed

end
