(* ===== verification/Spec2Isabelle.thy ===== *)
theory Spec2Isabelle
  imports IQueue Op_Queue Flex_Log Flex_Accept Flex_Proxy Asio_Timer_Spec Asio_Order Asio_Timer_Service Asio_Typed_Sockets Asio_Write Asio_Coroutine
begin

text \<open>
  FlexProxy carries a TCP connection through a UDP path. The client program (\<open>FlexProxy/FlexClient\<close>) accepts TCP
  connections and makes one forwarder for each; the server program (\<open>FlexProxy/FlexServer\<close>) makes one forwarder
  for each peer that sends it datagrams and connects it to the remote TCP address. A forwarder runs coroutines
  between its TCP socket, its UDP socket and a control block of the KCP protocol (\<open>FlexCommon/ikcp.c\<close>), which turns an
  unreliable path into an ordered stream of messages. Sockets, timers and coroutines come from the bundled asio
  (\<open>Thirdparty/asio-1.24.0/include/asio\<close>), whose event loop all of this runs on. This development models the
  two programs, the protocol, and of asio the parts the programs run on.

  \<^bold>\<open>The protocol\<close> (\<open>ikcp.h\<close>, \<open>ikcp.c\<close>). \<open>Kcp_Prelude\<close> has the machine integers (words of the
  widths of \<open>ikcp.h\<close>; signed fields as words read with \<open>sint\<close>), the serial numbers, and the type \<open>fault\<close>
  for what C leaves undefined; a fallible function returns \<open>fault + 'a\<close>. \<open>Kcp_Types\<close> has segments and
  the control block \<open>struct IKCPCB\<close> as records, creation, release and the setters; \<open>Kcp_Wire\<close> and
  \<open>Kcp_Codec\<close> the byte codec (\<open>ikcp_encode8u\<close> to \<open>ikcp_encode_seg\<close>) and its round trip; \<open>Kcp_Inv\<close> the
  invariant; \<open>Kcp_Recv\<close> \<open>ikcp_recv\<close>, \<open>ikcp_peeksize\<close>, \<open>ikcp_parse_data\<close> with the abstract reassembly they
  refine; \<open>Kcp_Send\<close> \<open>ikcp_send\<close>; \<open>Kcp_Ack\<close> the acknowledgements and the round-trip estimator; \<open>Kcp_Input\<close>
  \<open>ikcp_input\<close>; \<open>Kcp_Flush\<close> \<open>ikcp_flush\<close>; \<open>Kcp_Timer\<close> \<open>ikcp_update\<close> and \<open>ikcp_check\<close>. The queues of segments are lists;
  \<open>IQueue\<close> models the pointer macros of \<open>ikcp.h\<close> on a heap of nodes and shows that they act as the list
  operations. \<open>Kcp_Datagram\<close> shows that \<open>ikcp_input\<close> takes apart what a flush puts together, and \<open>Kcp_Net\<close> puts
  two control blocks at the ends of a network that loses, repeats and reorders: the messages received are a
  prefix of those sent. The lemmas of these theories are: the invariant is kept, no fault is
  met, and each function does what is said of it on every branch. Which allocations succeed is an argument of
  \<open>ikcp_create\<close>, \<open>ikcp_send\<close> and \<open>ikcp_input\<close> (there one pair for each segment of a datagram, \<open>memory\<close>). The
  latter does not survive a failed one: it aborts, or writes through NULL; \<open>Kcp_Input\<close> shows that these are
  its only faults (\<open>short_of\<close>).

  \<^bold>\<open>The programs.\<close> \<open>Flex_Utils\<close> (\<open>MiscUtils.h\<close>, \<open>Asio.h\<close>), \<open>Flex_Log\<close> (\<open>Log.cpp\<close>, \<open>Time.h\<close>), \<open>Address_Parser\<close>
  (\<open>AddressParser.cpp\<close>) are the helpers. \<open>Flex_Session\<close> is \<open>ClientSideForwarder.cpp\<close>, \<open>Flex_Server\<close> is \<open>Forwarder.cpp\<close>: the object is a
  record whose members are \<open>None\<close> until first assigned; a coroutine is a program counter naming the
  \<open>co_await\<close> it is suspended at, and a function for each way to resume it. \<open>Flex_Endpoint\<close> runs the coroutines of one
  forwarder together, in any order of events, and shows that none faults but by a failed allocation of \<open>ikcp_input\<close>,
  and that a stopped one winds down; \<open>Flex_Accept\<close> has \<open>FlexServer.cpp\<close>, \<open>FlexClient.cpp\<close> and both \<open>main.cpp\<close>, with the table of forwarders;
  \<open>Flex_Proxy\<close> composes two forwarders with a network and shows the tunnel transparent within one session, by relating every
  step to one of \<open>Kcp_Net\<close>; it also shows a client reading from two sessions, where the streams mix, as the code starts each
  with the same conversation number.

  \<^bold>\<open>The parts of asio.\<close> \<open>Asio_Address\<close>: IP addresses and endpoints, the keys of the server's table. \<open>Asio_Sockets\<close>,
  \<open>Asio_Transfer\<close>: the wrappers of the socket calls in \<open>detail/impl/socket_ops.ipp\<close>, on a list of the answers of
  the system (\<open>None\<close>: it has not answered yet); \<open>Asio_Transfer_Spec\<close>: what their loops achieve. \<open>Op_Queue\<close>:
  the intrusive queue of operations. \<open>Asio_Chrono\<close>, \<open>Asio_Timer\<close>, \<open>Asio_Timer_Spec\<close>: time arithmetic and the heap
  of timers. \<open>Asio_Scheduler\<close> and \<open>Asio_Reactor\<close>: the scheduler behind \<open>io_context\<close> and the epoll reactor, on an environment
  record with the answers of the system. \<open>Asio_Loop\<close> composes them with a program whose handlers call both and
  counts: every operation that was started is in exactly one place; \<open>Asio_Run\<close> shows what holds when \<open>run\<close>
  returns, \<open>Asio_Order\<close> the order of the queue. \<open>Asio_Socket_Service\<close> and \<open>Asio_Timer_Service\<close>: the
  objects on top, opening, closing, moving, cancelling, with the accounts of the loop kept; \<open>Asio_Typed_Sockets\<close>:
  TCP and UDP sockets with their protocol and the calls that take addresses. \<open>Asio_Write\<close>: the composed write, down to the
  socket calls and up to what \<open>Flex_Proxy\<close> assumes of it. \<open>Asio_Coroutine\<close>: the
  frames of coroutines and their pumping, which justifies modelling a coroutine by what it does between suspensions.

  \<^bold>\<open>Interfaces.\<close> The locales state what a client needs of a provider: \<open>wire_codec\<close> (a decoder undoes its encoder, in
  \<open>Kcp_Wire\<close>), \<open>linked_queue\<close> (\<open>IQueue\<close>) and \<open>fifo\<close> (\<open>Op_Queue\<close>) for the intrusive queues, \<open>alarm_queue\<close> (what waits on a timer queue,
  \<open>Asio_Timer_Spec\<close>), \<open>socket_call\<close> (what the loops need of a system call, \<open>Asio_Transfer_Spec\<close>), \<open>buffer_view\<close> (what
  writing needs of the three representations of buffers, \<open>Asio_Write\<close>). Each is interpreted on the model's own definitions in
  the theory that provides them.

  \<^bold>\<open>Bounds and fuel.\<close> Loops of the code are recursions over the data they traverse, or over the answers of the system they
  consume. \<open>do_run_one\<close>, \<open>repeat_one\<close>, \<open>run_body\<close> and \<open>pump\<close> are partial functions in the option type, so that not
  returning is \<open>None\<close>, and the theorems about them say when they return. The tunnel theorem is for one session, and for the first 4 GiB of a
  connection, where the serial numbers of fragments do not wrap; the estimator is shown exact for round-trip times up to the bound
  in its statement. Sizes of buffers in \<open>Asio_Write\<close> are natural numbers, as no sum of them exceeds the memory.

  \<^bold>\<open>Not modelled.\<close> The allocator hooks and the log text of KCP. The text of log messages and the logging library (spdlog, fmt);
  the JSON library, which is a parameter of the configuration. Of asio: threads other than the one that calls \<open>run\<close> (mutexes, the internal
  thread, events), executors and type erasure, cancellation slots, which the programs do not use, signal sets, name
  resolution, the Windows code, and the rest of the templates; the creation of the epoll and timer
  descriptors. What the system answers is in an argument throughout. Compilers and the C++ library (\<open>std::map\<close>,
  coroutine transformation) are taken as documented.
\<close>

end
